(* ===== verification/Prelude.thy ===== *)
theory Prelude
  imports Main "HOL-Library.Word"
begin

text \<open>
  Shared vocabulary of the development: byte strings, clocks, the saturating
  arithmetic of the Rust standard library, big-endian encodings of fixed width,
  and the list lemmas that more than one component uses.

  A point in time (Rust's Instant) and a span (Duration) are natural numbers of
  nanoseconds. Sizes and packet numbers are natural numbers; where the source
  saturates, the bound of the width is written out.
\<close>

unbundle bit_operations_syntax

section \<open>Types\<close>

type_synonym u8 = "8 word"
type_synonym u64 = "64 word"
type_synonym bytes = "u8 list"
type_synonym instant = nat
type_synonym duration = nat

section \<open>Time\<close>

definition from_micros :: "nat \<Rightarrow> duration" where
  "from_micros n = n * 1000"

definition from_millis :: "nat \<Rightarrow> duration" where
  "from_millis n = n * 1000000"

definition from_secs :: "nat \<Rightarrow> duration" where
  "from_secs n = n * 1000000000"

lemmas duration_defs = from_micros_def from_millis_def from_secs_def

text \<open>Subtraction of natural numbers already stops at zero, as the source's
  saturating calls do.\<close>

definition saturating_duration_since :: "instant \<Rightarrow> instant \<Rightarrow> duration" where
  "saturating_duration_since now since = now - since"

text \<open>The longest Duration of the standard library: a 64-bit count of seconds and the
  nanoseconds short of one more.\<close>

definition duration_max :: duration where
  "duration_max = (2 ^ 64 - 1) * 1000000000 + 999999999"

definition duration_saturating_mul :: "duration \<Rightarrow> nat \<Rightarrow> duration" where
  "duration_saturating_mul d k = min (d * k) duration_max"

section \<open>Saturating arithmetic\<close>

definition u64_max :: nat where "u64_max = 2 ^ 64 - 1"
definition u32_max :: nat where "u32_max = 2 ^ 32 - 1"
definition usize_max :: nat where "usize_max = 2 ^ 64 - 1"

definition u64_saturating_add :: "nat \<Rightarrow> nat \<Rightarrow> nat" where
  "u64_saturating_add a b = min (a + b) u64_max"

definition u64_saturating_mul :: "nat \<Rightarrow> nat \<Rightarrow> nat" where
  "u64_saturating_mul a b = min (a * b) u64_max"

definition div_ceil :: "nat \<Rightarrow> nat \<Rightarrow> nat" where
  "div_ceil a b = (a + b - 1) div b"

lemma u64_saturating_add_le: "u64_saturating_add a b \<le> a + b"
  by (simp add: u64_saturating_add_def)

lemma u64_saturating_mul_le: "u64_saturating_mul a b \<le> a * b"
  by (simp add: u64_saturating_mul_def)

lemma u64_saturating_add_mono: "a \<le> c \<Longrightarrow> b \<le> d \<Longrightarrow> u64_saturating_add a b \<le> u64_saturating_add c d"
  by (auto simp: u64_saturating_add_def)

lemma div_ceil_mult_ge:
  assumes "0 < b"
  shows "a \<le> div_ceil a b * b"
proof -
  have "a + b - 1 < (div_ceil a b) * b + b"
    using dividend_less_div_times [OF assms, of "a + b - 1"] by (simp add: div_ceil_def)
  then show ?thesis using assms by simp
qed

section \<open>Big-endian bytes\<close>

text \<open>The source writes \<^verbatim>\<open>to_be_bytes\<close> and drops leading bytes; a number is written
  here with the count of bytes that stay.\<close>

fun be_bytes :: "nat \<Rightarrow> nat \<Rightarrow> bytes" where
  "be_bytes 0 x = []"
| "be_bytes (Suc n) x = be_bytes n (x div 256) @ [of_nat (x mod 256)]"

definition from_be :: "bytes \<Rightarrow> nat" where
  "from_be bs = foldl (\<lambda>acc b. acc * 256 + unat b) 0 bs"

lemma length_be_bytes [simp]: "length (be_bytes n x) = n"
  by (induction n arbitrary: x) auto

lemma from_be_Nil [simp]: "from_be [] = 0"
  by (simp add: from_be_def)

lemma from_be_snoc [simp]: "from_be (bs @ [b]) = from_be bs * 256 + unat b"
  by (simp add: from_be_def)

lemma unat_byte [simp]: "unat (of_nat (x mod 256) :: u8) = x mod 256"
  by (simp add: unat_of_nat)

lemma unat_byte_less: "unat (b :: u8) < 256"
  using unsigned_less [of b] by simp

lemma from_be_be_bytes: "x < 256 ^ n \<Longrightarrow> from_be (be_bytes n x) = x"
proof (induction n arbitrary: x)
  case 0
  then show ?case by simp
next
  case (Suc n)
  then have "x div 256 < 256 ^ n"
    by (simp add: less_mult_imp_div_less mult.commute)
  with Suc.IH show ?case by simp
qed

lemma from_be_bound: "from_be bs < 256 ^ length bs"
proof (induction bs rule: rev_induct)
  case Nil
  then show ?case by simp
next
  case (snoc b bs)
  have "unat b < 256" by (rule unat_byte_less)
  with snoc show ?case by simp
qed

lemma be_bytes_from_be: "be_bytes (length bs) (from_be bs) = bs"
proof (induction bs rule: rev_induct)
  case Nil
  then show ?case by simp
next
  case (snoc b bs)
  have b: "unat b < 256" by (rule unat_byte_less)
  then have "(from_be bs * 256 + unat b) div 256 = from_be bs"
    and "(from_be bs * 256 + unat b) mod 256 = unat b" by simp_all
  with snoc show ?case by simp
qed

section \<open>Lists\<close>

lemma take_append_exact [simp]: "length xs = n \<Longrightarrow> take n (xs @ ys) = xs"
  by simp

lemma drop_append_exact [simp]: "length xs = n \<Longrightarrow> drop n (xs @ ys) = ys"
  by simp

section \<open>Runs of a system\<close>

text \<open>A sequence of operations on a state, each of which may fail.\<close>

fun run_ops :: "('s \<Rightarrow> 'op \<Rightarrow> 's option) \<Rightarrow> 's \<Rightarrow> 'op list \<Rightarrow> 's option" where
  "run_ops step s [] = Some s"
| "run_ops step s (op # ops) = (case step s op of None \<Rightarrow> None | Some s' \<Rightarrow> run_ops step s' ops)"

lemma run_ops_append:
  "run_ops step s (xs @ ys) = (case run_ops step s xs of None \<Rightarrow> None | Some s' \<Rightarrow> run_ops step s' ys)"
  by (induction xs arbitrary: s) (auto split: option.splits)

text \<open>The contract of a component none of whose operations fails where its invariant holds,
  restricted to the operations \<open>allowed\<close> names.\<close>

locale invariant_system =
  fixes step :: "'s \<Rightarrow> 'op \<Rightarrow> 's option"
    and inv :: "'s \<Rightarrow> bool"
    and allowed :: "'op \<Rightarrow> bool"
  assumes step_inv: "inv s \<Longrightarrow> allowed op \<Longrightarrow> \<exists>s'. step s op = Some s' \<and> inv s'"
begin

lemma run_total:
  "inv s \<Longrightarrow> list_all allowed ops \<Longrightarrow> \<exists>s'. run_ops step s ops = Some s' \<and> inv s'"
proof (induction ops arbitrary: s)
  case (Cons op ops)
  from Cons.prems step_inv [of s op] obtain s' where "step s op = Some s'" "inv s'" by auto
  with Cons.IH [of s'] Cons.prems show ?case by auto
qed simp

lemma run_inv:
  assumes "inv s" "list_all allowed ops" "run_ops step s ops = Some s'"
  shows "inv s'"
  using run_total [OF assms(1,2)] assms(3) by auto

end

end
