(* ===== verification/Replay_Window.thy ===== *)
theory Replay_Window
  imports Prelude
begin

text \<open>
  The replay window of \<^verbatim>\<open>crates/dgram/src/window.rs\<close>: a 256-bit map, held as
  four 64-bit words, of which packet numbers behind the newest have been accepted.
  Bit \<open>b\<close> of the map stands for the number \<open>b\<close> behind the top. The abstract
  counterpart is the set of all numbers ever accepted.
\<close>

section \<open>Model\<close>

definition WIDTH :: nat where "WIDTH = 256"
definition WORDS :: nat where "WORDS = WIDTH div 64"

datatype admission = Fresh | Replay | TooOld

record replay_window =
  rw_top :: nat
  rw_seen :: "u64 list"

definition window_new :: replay_window where
  "window_new = \<lparr>rw_top = 0, rw_seen = replicate WORDS 0\<rparr>"

definition window_position :: "nat \<Rightarrow> nat \<times> u64" where
  "window_position behind = (behind div 64, push_bit (behind mod 64) 1)"

definition window_get :: "replay_window \<Rightarrow> nat \<Rightarrow> bool" where
  "window_get w behind =
     (let (word, bit) = window_position behind in (rw_seen w ! word) AND bit \<noteq> 0)"

definition window_set :: "replay_window \<Rightarrow> nat \<Rightarrow> replay_window" where
  "window_set w behind =
     (let (word, bit) = window_position behind
      in w\<lparr>rw_seen := (rw_seen w)[word := (rw_seen w ! word) OR bit]\<rparr>)"

text \<open>The two loops of \<^verbatim>\<open>slide\<close>: whole words from the last index down, then the
  remaining bits with a carry from word to word.\<close>

fun slide_words :: "nat \<Rightarrow> nat \<Rightarrow> u64 list \<Rightarrow> u64 list" where
  "slide_words words 0 seen = seen"
| "slide_words words (Suc index) seen =
     slide_words words index
       (seen[index := (if words \<le> index then seen ! (index - words) else 0)])"

fun slide_bits :: "nat \<Rightarrow> u64 \<Rightarrow> u64 list \<Rightarrow> u64 list" where
  "slide_bits bits carry [] = []"
| "slide_bits bits carry (word # rest) =
     (push_bit bits word OR carry) # slide_bits bits (drop_bit (64 - bits) word) rest"

definition window_slide :: "replay_window \<Rightarrow> nat \<Rightarrow> replay_window" where
  "window_slide w by =
     (if WIDTH \<le> by then w\<lparr>rw_seen := replicate WORDS 0\<rparr>
      else
        let words = by div 64; bits = by mod 64;
            moved = (if 0 < words then slide_words words WORDS (rw_seen w) else rw_seen w);
            shifted = (if 0 < bits then slide_bits bits 0 moved else moved)
        in w\<lparr>rw_seen := shifted\<rparr>)"

definition window_admit :: "replay_window \<Rightarrow> nat \<Rightarrow> admission \<times> replay_window" where
  "window_admit w number =
     (if rw_top w < number then
        (Fresh, window_set ((window_slide w (number - rw_top w))\<lparr>rw_top := number\<rparr>) 0)
      else
        let behind = rw_top w - number in
        if WIDTH \<le> behind then (TooOld, w)
        else if window_get w behind then (Replay, w)
        else (Fresh, window_set w behind))"

definition window_acknowledgement :: "replay_window \<Rightarrow> (nat \<times> u64) option" where
  "window_acknowledgement w =
     (if \<not> window_get w 0 then None
      else Some (rw_top w, drop_bit 1 (rw_seen w ! 0) OR push_bit 63 (rw_seen w ! 1)))"

section \<open>The bitmap as a function of the distance behind the top\<close>

definition window_wf :: "replay_window \<Rightarrow> bool" where
  "window_wf w \<longleftrightarrow> length (rw_seen w) = WORDS"

definition seen_bit :: "u64 list \<Rightarrow> nat \<Rightarrow> bool" where
  "seen_bit seen b = bit (seen ! (b div 64)) (b mod 64)"

lemmas window_consts = WIDTH_def WORDS_def

lemma window_get_bit: "b < WIDTH \<Longrightarrow> window_get w b = seen_bit (rw_seen w) b"
  by (simp add: window_get_def window_position_def seen_bit_def and_exp_eq_0_iff_not_bit)

lemma seen_bit_set:
  assumes "window_wf w" "a < WIDTH" "b < WIDTH"
  shows "seen_bit (rw_seen (window_set w a)) b \<longleftrightarrow> a = b \<or> seen_bit (rw_seen w) b"
proof (cases "a div 64 = b div 64")
  case True
  have len: "b div 64 < length (rw_seen w)"
    using assms by (auto simp: window_wf_def window_consts)
  have "a = b \<longleftrightarrow> a mod 64 = b mod 64"
    using True by (metis mult_div_mod_eq)
  with True len show ?thesis
    by (auto simp: window_set_def window_position_def seen_bit_def bit_or_iff bit_exp_iff)
next
  case False
  then show ?thesis
    by (auto simp: window_set_def window_position_def seen_bit_def)
qed

lemma window_set_frame [simp]:
  "rw_top (window_set w a) = rw_top w"
  "window_wf (window_set w a) = window_wf w"
  by (simp_all add: window_set_def window_position_def window_wf_def)

subsection \<open>Sliding\<close>

lemma length_slide_words [simp]: "length (slide_words k n s) = length s"
  by (induction k n s rule: slide_words.induct) auto

lemma nth_slide_words:
  assumes "0 < k" "n \<le> length s" "i < length s"
  shows "slide_words k n s ! i =
    (if i < n then (if k \<le> i then s ! (i - k) else 0) else s ! i)"
  using assms
proof (induction k n s rule: slide_words.induct)
  case (1 words seen)
  then show ?case by simp
next
  case (2 words index seen)
  then show ?case
    by (cases "i = index") (auto simp: nth_list_update)
qed

lemma length_slide_bits [simp]: "length (slide_bits k c s) = length s"
  by (induction k c s rule: slide_bits.induct) auto

lemma nth_slide_bits:
  assumes "i < length s"
  shows "slide_bits k c s ! i =
    (push_bit k (s ! i) OR (if i = 0 then c else drop_bit (64 - k) (s ! (i - 1))))"
  using assms
proof (induction k c s arbitrary: i rule: slide_bits.induct)
  case (1 bits carry)
  then show ?case by simp
next
  case (2 bits carry word rest)
  show ?case
  proof (cases i)
    case 0
    then show ?thesis by simp
  next
    case (Suc j)
    with 2 show ?thesis by (cases j) auto
  qed
qed

lemma seen_bit_slide_words:
  assumes "0 < k" "length s = WORDS" "b < WIDTH"
  shows "seen_bit (slide_words k WORDS s) b \<longleftrightarrow> 64 * k \<le> b \<and> seen_bit s (b - 64 * k)"
proof -
  have i: "b div 64 < length s" using assms by (simp add: window_consts)
  have le: "k \<le> b div 64 \<longleftrightarrow> 64 * k \<le> b"
    by (simp add: less_eq_div_iff_mult_less_eq mult.commute)
  have "64 * k \<le> b \<Longrightarrow> (b - 64 * k) div 64 = b div 64 - k \<and> (b - 64 * k) mod 64 = b mod 64"
    by (auto simp: le_iff_add)
  with i le assms show ?thesis
    by (auto simp: seen_bit_def nth_slide_words)
qed

lemma seen_bit_slide_bits:
  assumes "0 < r" "r < 64" "length s = WORDS" "b < WIDTH"
  shows "seen_bit (slide_bits r 0 s) b \<longleftrightarrow> r \<le> b \<and> seen_bit s (b - r)"
proof -
  define i k where "i = b div 64" and "k = b mod 64"
  have b: "b = 64 * i + k" and k: "k < 64" and i: "i < length s"
    using assms by (auto simp: i_def k_def window_consts)
  have word: "slide_bits r 0 s ! i = (push_bit r (s ! i) OR (if i = 0 then 0 else drop_bit (64 - r) (s ! (i - 1))))"
    using i by (simp add: nth_slide_bits)
  have high: "k < r" if "bit (s ! j) (64 - r + k)" for j
    using bit_imp_le_length [OF that] assms by simp
  have left: "seen_bit (slide_bits r 0 s) b \<longleftrightarrow>
      (r \<le> k \<and> bit (s ! i) (k - r)) \<or> (i \<noteq> 0 \<and> bit (s ! (i - 1)) (64 - r + k))"
    using k by (auto simp: seen_bit_def i_def [symmetric] k_def [symmetric] word bit_simps)
  show ?thesis
  proof (cases "r \<le> k")
    case True
    then have "b - r = 64 * i + (k - r)" "k - r < 64" using b k by simp_all
    then have "(b - r) div 64 = i" "(b - r) mod 64 = k - r" by simp_all
    moreover have "r \<le> b" using True b by simp
    ultimately show ?thesis using left True by (auto simp: seen_bit_def dest: high)
  next
    case False
    show ?thesis
    proof (cases "i = 0")
      case True
      with False left b show ?thesis by auto
    next
      case nz: False
      then have "b - r = 64 * (i - 1) + (64 - r + k)" "64 - r + k < 64" "r \<le> b"
        using b k False assms by (auto simp: algebra_simps)
      then have "(b - r) div 64 = i - 1" "(b - r) mod 64 = 64 - r + k" "r \<le> b"
        by auto
      with left False nz show ?thesis by (auto simp: seen_bit_def)
    qed
  qed
qed

lemma seen_bit_replicate_0 [simp]: "b < WIDTH \<Longrightarrow> \<not> seen_bit (replicate WORDS 0) b"
  by (simp add: seen_bit_def window_consts)

lemma window_slide_frame [simp]:
  "rw_top (window_slide w by) = rw_top w"
  "window_wf w \<Longrightarrow> window_wf (window_slide w by)"
  by (auto simp: window_slide_def window_wf_def Let_def)

lemma seen_bit_slide:
  assumes wf: "window_wf w" and b: "b < WIDTH"
  shows "seen_bit (rw_seen (window_slide w by)) b \<longleftrightarrow> by \<le> b \<and> seen_bit (rw_seen w) (b - by)"
proof (cases "WIDTH \<le> by")
  case True
  with b show ?thesis by (auto simp: window_slide_def)
next
  case False
  define moved where
    "moved = (if 0 < by div 64 then slide_words (by div 64) WORDS (rw_seen w) else rw_seen w)"
  have len: "length (rw_seen w) = WORDS" "length moved = WORDS"
    using wf by (auto simp: window_wf_def moved_def)
  have moved: "seen_bit moved c \<longleftrightarrow> 64 * (by div 64) \<le> c \<and> seen_bit (rw_seen w) (c - 64 * (by div 64))"
    if "c < WIDTH" for c
    using that len by (auto simp: moved_def seen_bit_slide_words)
  have "seen_bit (rw_seen (window_slide w by)) b \<longleftrightarrow> by mod 64 \<le> b \<and> seen_bit moved (b - by mod 64)"
    using False b len
    by (auto simp: window_slide_def moved_def [symmetric] Let_def seen_bit_slide_bits)
  also have "\<dots> \<longleftrightarrow> by \<le> b \<and> seen_bit (rw_seen w) (b - by)"
  proof -
    have "by = 64 * (by div 64) + by mod 64" by simp
    then have "by mod 64 \<le> b \<and> 64 * (by div 64) \<le> b - by mod 64 \<longleftrightarrow> by \<le> b"
      and "b - by mod 64 - 64 * (by div 64) = b - by" by linarith+
    with moved [of "b - by mod 64"] b show ?thesis by auto
  qed
  finally show ?thesis .
qed

section \<open>Specification: the set of accepted numbers\<close>

definition accepted_top :: "nat set \<Rightarrow> nat" where
  "accepted_top S = (if S = {} then 0 else Max S)"

definition admit_spec :: "nat set \<Rightarrow> nat \<Rightarrow> admission \<times> nat set" where
  "admit_spec S n =
     (if n + WIDTH \<le> accepted_top S then (TooOld, S)
      else if n \<in> S then (Replay, S)
      else (Fresh, insert n S))"

text \<open>The abstraction relation: the top is the greatest accepted number and every bit
  of the map tells whether the number that far behind it was accepted.\<close>

definition window_rel :: "replay_window \<Rightarrow> nat set \<Rightarrow> bool" where
  "window_rel w S \<longleftrightarrow>
     window_wf w \<and> finite S \<and> rw_top w = accepted_top S \<and>
     (\<forall>b < WIDTH. seen_bit (rw_seen w) b \<longleftrightarrow> b \<le> rw_top w \<and> rw_top w - b \<in> S)"

text \<open>The numbers a filter lets through, in order, when fed a list of numbers.\<close>

fun fresh_numbers :: "('w \<Rightarrow> nat \<Rightarrow> admission \<times> 'w) \<Rightarrow> 'w \<Rightarrow> nat list \<Rightarrow> nat list" where
  "fresh_numbers admit w [] = []"
| "fresh_numbers admit w (n # ns) =
     (let (a, w') = admit w n
      in if a = Fresh then n # fresh_numbers admit w' ns else fresh_numbers admit w' ns)"

text \<open>The answers, and the state afterwards.\<close>

fun admit_answers :: "('w \<Rightarrow> nat \<Rightarrow> admission \<times> 'w) \<Rightarrow> 'w \<Rightarrow> nat list \<Rightarrow> admission list" where
  "admit_answers admit w [] = []"
| "admit_answers admit w (n # ns) =
     fst (admit w n) # admit_answers admit (snd (admit w n)) ns"

fun admit_all :: "('w \<Rightarrow> nat \<Rightarrow> admission \<times> 'w) \<Rightarrow> 'w \<Rightarrow> nat list \<Rightarrow> 'w" where
  "admit_all admit w [] = w"
| "admit_all admit w (n # ns) = admit_all admit (snd (admit w n)) ns"

text \<open>The contract a receiver relies on: the answers are those of the set.\<close>

locale replay_filter =
  fixes init :: 'w
    and admit :: "'w \<Rightarrow> nat \<Rightarrow> admission \<times> 'w"
    and rel :: "'w \<Rightarrow> nat set \<Rightarrow> bool"
  assumes rel_init: "rel init {}"
    and admit_answer: "rel w S \<Longrightarrow> fst (admit w n) = fst (admit_spec S n)"
    and rel_admit: "rel w S \<Longrightarrow> rel (snd (admit w n)) (snd (admit_spec S n))"
begin

lemma admit_cases:
  assumes "rel w S" "admit w n = (a, w')"
  shows "a = Fresh \<and> n \<notin> S \<and> rel w' (insert n S) \<or> a \<noteq> Fresh \<and> rel w' S"
  using admit_answer [OF assms(1), of n] rel_admit [OF assms(1), of n] assms(2)
  by (auto simp: admit_spec_def split: if_splits)

lemma fresh_at_most_once:
  "rel w S \<Longrightarrow> distinct (fresh_numbers admit w ns) \<and> set (fresh_numbers admit w ns) \<inter> S = {}"
proof (induction ns arbitrary: w S)
  case Nil
  then show ?case by simp
next
  case (Cons n ns)
  obtain a w' where step: "admit w n = (a, w')" by (cases "admit w n")
  from admit_cases [OF Cons.prems step] show ?case
    using Cons.IH [of w' "insert n S"] Cons.IH [of w' S] step by auto
qed

lemma answers_agree:
  "rel w S \<Longrightarrow> admit_answers admit w ns = admit_answers admit_spec S ns"
proof (induction ns arbitrary: w S)
  case Nil
  then show ?case by simp
next
  case (Cons n ns)
  then show ?case
    using admit_answer [OF Cons.prems, of n] rel_admit [OF Cons.prems, of n] by simp
qed

lemma rel_admit_all:
  "rel w S \<Longrightarrow> rel (admit_all admit w ns) (S \<union> set (fresh_numbers admit w ns))"
proof (induction ns arbitrary: w S)
  case Nil
  then show ?case by simp
next
  case (Cons n ns)
  obtain a w' where step: "admit w n = (a, w')" by (cases "admit w n")
  from admit_cases [OF Cons.prems step] show ?case
    using Cons.IH [of w' "insert n S"] Cons.IH [of w' S] step by auto
qed

lemma fresh_sound: "set (fresh_numbers admit w ns) \<subseteq> set ns"
  by (induction ns arbitrary: w) (auto split: prod.splits)

end

subsection \<open>The bitmap implements the specification\<close>

lemma accepted_top_upper: "finite S \<Longrightarrow> n \<in> S \<Longrightarrow> n \<le> accepted_top S"
  by (auto simp: accepted_top_def)

lemma accepted_top_insert:
  assumes "finite S"
  shows "accepted_top (insert n S) = max n (accepted_top S)"
  using assms by (auto simp: accepted_top_def)

lemma window_rel_new: "window_rel window_new {}"
  by (auto simp: window_rel_def window_new_def window_wf_def accepted_top_def)

lemma window_rel_ahead:
  assumes rel: "window_rel w S" and ahead: "rw_top w < n"
  shows "window_rel (window_set ((window_slide w (n - rw_top w))\<lparr>rw_top := n\<rparr>) 0) (insert n S)"
proof -
  let ?v = "(window_slide w (n - rw_top w))\<lparr>rw_top := n\<rparr>"
  from rel have wf: "window_wf w" and fin: "finite S" and top: "rw_top w = accepted_top S"
    and bits: "\<And>b. b < WIDTH \<Longrightarrow> seen_bit (rw_seen w) b \<longleftrightarrow> b \<le> rw_top w \<and> rw_top w - b \<in> S"
    by (auto simp: window_rel_def)
  have v: "window_wf ?v"
    using window_slide_frame(2) [OF wf] by (simp add: window_wf_def)
  have old: "\<not> n \<in> S" using accepted_top_upper [OF fin] top ahead by fastforce
  have "seen_bit (rw_seen (window_set ?v 0)) b \<longleftrightarrow> b \<le> n \<and> n - b \<in> insert n S" if b: "b < WIDTH" for b
  proof -
    have "seen_bit (rw_seen (window_set ?v 0)) b \<longleftrightarrow> b = 0 \<or> (n - rw_top w \<le> b \<and> seen_bit (rw_seen w) (b - (n - rw_top w)))"
      using seen_bit_set [OF v _ b, of 0] b seen_bit_slide [OF wf b, of "n - rw_top w"]
      by (auto simp: window_consts)
    also have "\<dots> \<longleftrightarrow> b \<le> n \<and> n - b \<in> insert n S"
    proof -
      have "seen_bit (rw_seen w) (b - (n - rw_top w)) \<longleftrightarrow> b \<le> n \<and> n - b \<in> S" if "n - rw_top w \<le> b"
        using bits [of "b - (n - rw_top w)"] b that ahead by (auto simp: diff_diff_right diff_le_mono)
      moreover have "n - b \<notin> S" if "\<not> n - rw_top w \<le> b"
        using accepted_top_upper [OF fin, of "n - b"] that top by auto
      ultimately show ?thesis using ahead by auto
    qed
    finally show ?thesis .
  qed
  with v fin top ahead show ?thesis
    by (auto simp: window_rel_def accepted_top_insert)
qed

lemma window_rel_behind:
  assumes rel: "window_rel w S" and "n \<le> rw_top w" "rw_top w - n < WIDTH"
  shows "window_rel (window_set w (rw_top w - n)) (insert n S)"
proof -
  from rel have wf: "window_wf w" and fin: "finite S" and top: "rw_top w = accepted_top S"
    and bits: "\<And>b. b < WIDTH \<Longrightarrow> seen_bit (rw_seen w) b \<longleftrightarrow> b \<le> rw_top w \<and> rw_top w - b \<in> S"
    by (auto simp: window_rel_def)
  have "seen_bit (rw_seen (window_set w (rw_top w - n))) b \<longleftrightarrow> b \<le> rw_top w \<and> rw_top w - b \<in> insert n S"
    if "b < WIDTH" for b
    using seen_bit_set [OF wf assms(3) that] bits [OF that] assms(2) by auto
  moreover have "accepted_top (insert n S) = rw_top w"
    using assms(2) top fin by (simp add: accepted_top_insert)
  ultimately show ?thesis
    using wf fin by (auto simp: window_rel_def)
qed

lemma window_admit_refines:
  assumes "window_rel w S"
  shows "fst (window_admit w n) = fst (admit_spec S n) \<and>
    window_rel (snd (window_admit w n)) (snd (admit_spec S n))"
proof (cases "rw_top w < n")
  case True
  with assms have "admit_spec S n = (Fresh, insert n S)"
    using accepted_top_upper [of S n]
    by (auto simp: admit_spec_def window_rel_def window_consts)
  with True window_rel_ahead [OF assms True] show ?thesis
    by (simp add: window_admit_def)
next
  case False
  have top: "rw_top w = accepted_top S" using assms by (simp add: window_rel_def)
  show ?thesis
  proof (cases "WIDTH \<le> rw_top w - n")
    case True
    with False assms top show ?thesis
      by (auto simp: window_admit_def admit_spec_def)
  next
    case near: False
    then have get: "window_get w (rw_top w - n) \<longleftrightarrow> n \<in> S"
      using assms False by (auto simp: window_get_bit window_rel_def)
    from near False top have spec: "\<not> n + WIDTH \<le> accepted_top S" by auto
    show ?thesis
      using near False get spec assms window_rel_behind [OF assms, of n]
      by (auto simp: window_admit_def admit_spec_def Let_def)
  qed
qed

interpretation rwin: replay_filter window_new window_admit window_rel
  by unfold_locales (auto simp: window_rel_new window_admit_refines)

lemma window_acknowledgement_rel:
  assumes rel: "window_rel w S"
  shows "window_acknowledgement w = None \<longleftrightarrow> S = {}"
    and "window_acknowledgement w = Some (largest, bm) \<Longrightarrow>
      largest = Max S \<and> (\<forall>i < 64. bit bm i \<longleftrightarrow> i < largest \<and> largest - 1 - i \<in> S)"
proof -
  from rel have fin: "finite S" and top: "rw_top w = accepted_top S"
    and bits: "\<And>b. b < WIDTH \<Longrightarrow> seen_bit (rw_seen w) b \<longleftrightarrow> b \<le> rw_top w \<and> rw_top w - b \<in> S"
    by (auto simp: window_rel_def)
  have zero: "window_get w 0 \<longleftrightarrow> S \<noteq> {}"
    using bits [of 0] top fin by (auto simp: window_get_bit accepted_top_def window_consts)
  then show "window_acknowledgement w = None \<longleftrightarrow> S = {}"
    by (auto simp: window_acknowledgement_def)
  have word: "bit (drop_bit 1 (rw_seen w ! 0) OR push_bit 63 (rw_seen w ! 1)) i \<longleftrightarrow>
      seen_bit (rw_seen w) (Suc i)" if "i < 64" for i
  proof (cases "i = 63")
    case True
    have "\<not> bit (rw_seen w ! 0) 64" using bit_imp_le_length [of "rw_seen w ! 0" 64] by auto
    with True show ?thesis by (simp add: bit_simps seen_bit_def)
  next
    case False
    with that show ?thesis by (auto simp: bit_simps seen_bit_def)
  qed
  assume ack: "window_acknowledgement w = Some (largest, bm)"
  then have ne: "S \<noteq> {}" and largest: "largest = rw_top w"
    and m: "bm = drop_bit 1 (rw_seen w ! 0) OR push_bit 63 (rw_seen w ! 1)"
    using zero by (auto simp: window_acknowledgement_def split: if_splits)
  show "largest = Max S \<and> (\<forall>i < 64. bit bm i \<longleftrightarrow> i < largest \<and> largest - 1 - i \<in> S)"
    using ne largest top word bits m by (auto simp: accepted_top_def window_consts Suc_le_eq)
qed

section \<open>Properties\<close>

text \<open>C21: fed any sequence of packet numbers from its initial state, the 256-bit sliding
  bitmap gives exactly the answers of a set that remembers every accepted number and
  refuses those 256 or more behind the greatest.\<close>

theorem window_refines_set:
  "admit_answers window_admit window_new ns = admit_answers admit_spec {} ns"
  by (rule rwin.answers_agree [OF rwin.rel_init])

text \<open>No packet number is answered Fresh twice, whatever the order, repetition or
  distance of the arrivals.\<close>

theorem window_fresh_at_most_once:
  "distinct (fresh_numbers window_admit window_new ns)"
  using rwin.fresh_at_most_once [OF rwin.rel_init] by blast

text \<open>C27: the acknowledgement read off the window is the truth about what was accepted:
  nothing while nothing was accepted; otherwise the greatest accepted number and a map
  whose bit \<open>i\<close> is set exactly when the number \<open>i + 1\<close> behind it was accepted.\<close>

theorem window_acknowledgement_truthful:
  "case window_acknowledgement (admit_all window_admit window_new ns) of
     None \<Rightarrow> fresh_numbers window_admit window_new ns = []
   | Some (largest, bm) \<Rightarrow>
       fresh_numbers window_admit window_new ns \<noteq> [] \<and>
       largest = Max (set (fresh_numbers window_admit window_new ns)) \<and>
       list_all (\<lambda>i. bit bm i = (i < largest \<and>
         largest - 1 - i \<in> set (fresh_numbers window_admit window_new ns))) [0..<64]"
proof -
  have rel: "window_rel (admit_all window_admit window_new ns)
      (set (fresh_numbers window_admit window_new ns))"
    using rwin.rel_admit_all [OF rwin.rel_init, of ns] by simp
  show ?thesis
    using window_acknowledgement_rel [OF rel]
    by (auto simp: list_all_iff split: option.splits)
qed

end
