(* ===== verification/Keys.thy ===== *)
theory Keys
  imports Prelude
begin

text \<open>
  The key schedule of \<^verbatim>\<open>crates/dgram/src/keys.rs\<close>: two one-way ratchets, one per
  direction, and the keys derived from them. The hash (BLAKE3's \<^verbatim>\<open>derive_key\<close>) is a
  third-party package, so every operation that derives takes it as the argument \<open>H\<close>.
  A \<^verbatim>\<open>DirectionKey\<close> is represented by the 32 bytes its cipher is built from.
  An operation on \<^verbatim>\<open>&mut self\<close> that returns an option is a pair of that option and
  the schedule it leaves.
\<close>

section \<open>Model\<close>

datatype direction = ClientToServer | ServerToClient

definition direction_context :: "direction \<Rightarrow> string" where
  "direction_context d =
     (case d of ClientToServer \<Rightarrow> ''braid dgram v2 client-to-server''
      | ServerToClient \<Rightarrow> ''braid dgram v2 server-to-client'')"

fun opposite :: "direction \<Rightarrow> direction" where
  "opposite ClientToServer = ServerToClient"
| "opposite ServerToClient = ClientToServer"

type_synonym epoch = nat
type_synonym derive = "string \<Rightarrow> bytes \<Rightarrow> bytes"
type_synonym direction_key = bytes

definition epoch_first :: epoch where "epoch_first = 0"

definition epoch_from_wire :: "u8 \<Rightarrow> epoch" where "epoch_from_wire b = unat b"

definition epoch_next :: "epoch \<Rightarrow> epoch option" where
  "epoch_next e = (if e + 1 < 256 then Some (e + 1) else None)"

definition REKEY_AFTER :: nat where "REKEY_AFTER = 2 ^ 40"
definition MAX_EPOCH_CATCHUP :: nat where "MAX_EPOCH_CATCHUP = 4"

definition derive_direction_key :: "derive \<Rightarrow> bytes \<Rightarrow> direction \<Rightarrow> direction_key" where
  "derive_direction_key H secret d = H (direction_context d) secret"

record ratchet =
  rt_epoch :: epoch
  rt_secret :: bytes

definition RATCHET_CONTEXT :: string where
  "RATCHET_CONTEXT = ''braid dgram v2 epoch ratchet''"

definition ratchet_new :: "bytes \<Rightarrow> ratchet" where
  "ratchet_new root = \<lparr>rt_epoch = epoch_first, rt_secret = root\<rparr>"

definition ratchet_advance :: "derive \<Rightarrow> ratchet \<Rightarrow> (epoch \<times> ratchet) option" where
  "ratchet_advance H r =
     (case epoch_next (rt_epoch r) of
        None \<Rightarrow> None
      | Some next \<Rightarrow>
          Some (next, \<lparr>rt_epoch = next, rt_secret = H RATCHET_CONTEXT (rt_secret r)\<rparr>))"

datatype reach = Current | Previous | Ahead nat | Unreachable

record key_schedule =
  ks_send :: ratchet
  ks_send_key :: direction_key
  ks_sending :: direction
  ks_recv :: ratchet
  ks_recv_key :: direction_key
  ks_recv_previous :: "(epoch \<times> direction_key) option"
  ks_ahead :: "direction_key option list"

definition keys_new :: "derive \<Rightarrow> bytes \<Rightarrow> direction \<Rightarrow> key_schedule" where
  "keys_new H root sending =
     (let send = ratchet_new root; recv = ratchet_new root in
      \<lparr>ks_send = send,
       ks_send_key = derive_direction_key H (rt_secret send) sending,
       ks_sending = sending,
       ks_recv = recv,
       ks_recv_key = derive_direction_key H (rt_secret recv) (opposite sending),
       ks_recv_previous = None,
       ks_ahead = replicate MAX_EPOCH_CATCHUP None\<rparr>)"

definition send_epoch :: "key_schedule \<Rightarrow> epoch" where
  "send_epoch ks = rt_epoch (ks_send ks)"

definition recv_epoch :: "key_schedule \<Rightarrow> epoch" where
  "recv_epoch ks = rt_epoch (ks_recv ks)"

definition keys_rotate :: "derive \<Rightarrow> key_schedule \<Rightarrow> epoch option \<times> key_schedule" where
  "keys_rotate H ks =
     (case ratchet_advance H (ks_send ks) of
        None \<Rightarrow> (None, ks)
      | Some (epoch, send) \<Rightarrow>
          (Some epoch, ks\<lparr>ks_send := send,
             ks_send_key := derive_direction_key H (rt_secret send) (ks_sending ks)\<rparr>))"

definition keys_reach :: "key_schedule \<Rightarrow> epoch \<Rightarrow> reach" where
  "keys_reach ks epoch =
     (if epoch = recv_epoch ks then Current
      else if (case ks_recv_previous ks of Some (retired, _) \<Rightarrow> retired = epoch | None \<Rightarrow> False)
        then Previous
      else if recv_epoch ks \<le> epoch \<and> epoch - recv_epoch ks \<le> MAX_EPOCH_CATCHUP
        then Ahead (epoch - recv_epoch ks)
      else Unreachable)"

definition keys_reading :: "key_schedule \<Rightarrow> reach \<Rightarrow> direction_key option" where
  "keys_reading ks reach =
     (case reach of
        Current \<Rightarrow> Some (ks_recv_key ks)
      | Previous \<Rightarrow> map_option snd (ks_recv_previous ks)
      | Ahead _ \<Rightarrow> None
      | Unreachable \<Rightarrow> None)"

fun derive_slots ::
  "derive \<Rightarrow> direction \<Rightarrow> epoch \<Rightarrow> bytes \<Rightarrow> direction_key option list \<Rightarrow> direction_key option list" where
  "derive_slots H d epoch secret [] = []"
| "derive_slots H d epoch secret (slot # slots) =
     (case epoch_next epoch of
        None \<Rightarrow> slot # slots
      | Some next \<Rightarrow>
          (let secret' = H RATCHET_CONTEXT secret
           in Some (derive_direction_key H secret' d) # derive_slots H d next secret' slots))"

definition keys_derive_ahead :: "derive \<Rightarrow> key_schedule \<Rightarrow> key_schedule" where
  "keys_derive_ahead H ks =
     ks\<lparr>ks_ahead := derive_slots H (opposite (ks_sending ks)) (rt_epoch (ks_recv ks))
                      (rt_secret (ks_recv ks)) (ks_ahead ks)\<rparr>"

definition keys_peek_ahead ::
  "derive \<Rightarrow> key_schedule \<Rightarrow> nat \<Rightarrow> direction_key option \<times> key_schedule" where
  "keys_peek_ahead H ks ahead =
     (if ahead = 0 \<or> MAX_EPOCH_CATCHUP < ahead then (None, ks)
      else
        let slot = ahead - 1;
            ks' = (if ks_ahead ks ! slot = None then keys_derive_ahead H ks else ks)
        in (ks_ahead ks' ! slot, ks'))"

text \<open>The loop of \<^verbatim>\<open>follow\<close>. The outer option is the early return of \<^verbatim>\<open>?\<close>, which
  leaves the ratchet where the failed step found it.\<close>

fun ratchet_walk :: "derive \<Rightarrow> nat \<Rightarrow> epoch option \<Rightarrow> ratchet \<Rightarrow> epoch option option \<times> ratchet" where
  "ratchet_walk H 0 epoch r = (Some epoch, r)"
| "ratchet_walk H (Suc n) epoch r =
     (case ratchet_advance H r of
        None \<Rightarrow> (None, r)
      | Some (e, r') \<Rightarrow> ratchet_walk H n (Some e) r')"

definition keys_follow :: "derive \<Rightarrow> key_schedule \<Rightarrow> nat \<Rightarrow> epoch option \<times> key_schedule" where
  "keys_follow H ks ahead =
     (if ahead = 0 \<or> MAX_EPOCH_CATCHUP < ahead then (None, ks)
      else
        let retired = rt_epoch (ks_recv ks) in
        case ratchet_walk H ahead None (ks_recv ks) of
          (None, r) \<Rightarrow> (None, ks\<lparr>ks_recv := r\<rparr>)
        | (Some epoch, r) \<Rightarrow>
            (epoch, ks\<lparr>ks_recv := r,
               ks_recv_key := derive_direction_key H (rt_secret r) (opposite (ks_sending ks)),
               ks_recv_previous := Some (retired, ks_recv_key ks),
               ks_ahead := replicate MAX_EPOCH_CATCHUP None\<rparr>))"

text \<open>How the receiving endpoint uses a schedule: the key it tries on a datagram naming an
  epoch (\<^verbatim>\<open>Endpoint::recv\<close>, before the tag is checked), and the step it takes once the
  tag verified.\<close>

definition keys_opening :: "derive \<Rightarrow> key_schedule \<Rightarrow> epoch \<Rightarrow> direction_key option \<times> key_schedule" where
  "keys_opening H ks epoch =
     (case keys_reach ks epoch of
        Current \<Rightarrow> (keys_reading ks Current, ks)
      | Previous \<Rightarrow> (keys_reading ks Previous, ks)
      | Ahead ahead \<Rightarrow> keys_peek_ahead H ks ahead
      | Unreachable \<Rightarrow> (None, ks))"

definition keys_adopt :: "derive \<Rightarrow> key_schedule \<Rightarrow> epoch \<Rightarrow> epoch option \<times> key_schedule" where
  "keys_adopt H ks epoch =
     (case keys_reach ks epoch of
        Ahead ahead \<Rightarrow> keys_follow H ks ahead
      | _ \<Rightarrow> (Some (recv_epoch ks), ks))"

datatype key_op = Rotate | Peek u8 | Adopt u8

fun keys_step :: "derive \<Rightarrow> key_schedule \<Rightarrow> key_op \<Rightarrow> key_schedule" where
  "keys_step H ks Rotate = snd (keys_rotate H ks)"
| "keys_step H ks (Peek b) = snd (keys_opening H ks (epoch_from_wire b))"
| "keys_step H ks (Adopt b) = snd (keys_adopt H ks (epoch_from_wire b))"

definition keys_run :: "derive \<Rightarrow> key_schedule \<Rightarrow> key_op list \<Rightarrow> key_schedule" where
  "keys_run H ks ops = foldl (keys_step H) ks ops"

section \<open>What the keys of an epoch are\<close>

definition epoch_secret :: "derive \<Rightarrow> bytes \<Rightarrow> epoch \<Rightarrow> bytes" where
  "epoch_secret H root e = (H RATCHET_CONTEXT ^^ e) root"

definition epoch_key :: "derive \<Rightarrow> bytes \<Rightarrow> direction \<Rightarrow> epoch \<Rightarrow> direction_key" where
  "epoch_key H root d e = H (direction_context d) (epoch_secret H root e)"

definition ratchet_ok :: "derive \<Rightarrow> bytes \<Rightarrow> ratchet \<Rightarrow> bool" where
  "ratchet_ok H root r \<longleftrightarrow> rt_epoch r < 256 \<and> rt_secret r = epoch_secret H root (rt_epoch r)"

text \<open>The invariant of a schedule over one root secret: every key it holds is the key of
  the epoch it stands for, and the cache of keys ahead is either empty or filled as far
  as epochs exist.\<close>

definition ahead_slots :: "derive \<Rightarrow> bytes \<Rightarrow> direction \<Rightarrow> epoch \<Rightarrow> direction_key option list" where
  "ahead_slots H root d e =
     map (\<lambda>i. if e + i + 1 < 256 then Some (epoch_key H root d (e + i + 1)) else None)
       [0..<MAX_EPOCH_CATCHUP]"

definition keys_ok :: "derive \<Rightarrow> bytes \<Rightarrow> direction \<Rightarrow> key_schedule \<Rightarrow> bool" where
  "keys_ok H root d ks \<longleftrightarrow>
     ks_sending ks = d \<and>
     ratchet_ok H root (ks_send ks) \<and> ks_send_key ks = epoch_key H root d (send_epoch ks) \<and>
     ratchet_ok H root (ks_recv ks) \<and> ks_recv_key ks = epoch_key H root (opposite d) (recv_epoch ks) \<and>
     (\<forall>e k. ks_recv_previous ks = Some (e, k) \<longrightarrow>
        e < recv_epoch ks \<and> k = epoch_key H root (opposite d) e) \<and>
     (ks_ahead ks = replicate MAX_EPOCH_CATCHUP None \<or>
      ks_ahead ks = ahead_slots H root (opposite d) (recv_epoch ks))"

named_theorems key_simps

lemmas [key_simps] = derive_direction_key_def epoch_key_def ratchet_ok_def send_epoch_def
  recv_epoch_def epoch_next_def epoch_first_def

lemma epoch_secret_0 [simp]: "epoch_secret H root 0 = root"
  by (simp add: epoch_secret_def)

lemma epoch_secret_Suc [simp]: "epoch_secret H root (Suc e) = H RATCHET_CONTEXT (epoch_secret H root e)"
  by (simp add: epoch_secret_def)

lemma opposite_opposite [simp]: "opposite (opposite d) = d"
  by (cases d) auto

lemma keys_ok_new: "keys_ok H root d (keys_new H root d)"
  by (simp add: keys_ok_def keys_new_def ratchet_new_def key_simps Let_def)

lemma ratchet_advance_ok:
  assumes "ratchet_ok H root r"
  shows "ratchet_advance H r = None \<longleftrightarrow> rt_epoch r = 255"
    and "ratchet_advance H r = Some (e, r') \<Longrightarrow>
      e = rt_epoch r + 1 \<and> rt_epoch r' = e \<and> ratchet_ok H root r'"
  using assms by (auto simp: ratchet_advance_def key_simps split: if_splits)

lemma keys_rotate_spec:
  assumes "keys_ok H root d ks"
  shows "keys_rotate H ks = (None, ks) \<and> send_epoch ks = 255 \<or>
    (\<exists>ks'. keys_rotate H ks = (Some (send_epoch ks + 1), ks') \<and> keys_ok H root d ks' \<and>
       send_epoch ks < 255 \<and> send_epoch ks' = send_epoch ks + 1 \<and> recv_epoch ks' = recv_epoch ks)"
proof (cases "ratchet_advance H (ks_send ks)")
  case None
  then show ?thesis
    using assms ratchet_advance_ok(1) [of H root "ks_send ks"]
    by (simp add: keys_rotate_def keys_ok_def send_epoch_def)
next
  case (Some p)
  obtain e send where p: "p = (e, send)" by (cases p)
  have ok: "ratchet_ok H root (ks_send ks)" using assms by (simp add: keys_ok_def)
  have send: "e = send_epoch ks + 1" "rt_epoch send = e" "ratchet_ok H root send"
    using ratchet_advance_ok(2) [OF ok Some [unfolded p]] by (simp_all add: send_epoch_def)
  have "send_epoch ks < 255"
    using send by (simp add: ratchet_ok_def)
  moreover have "keys_rotate H ks = (Some (send_epoch ks + 1), ks\<lparr>ks_send := send,
      ks_send_key := derive_direction_key H (rt_secret send) d\<rparr>)"
    using Some p send assms by (simp add: keys_rotate_def keys_ok_def)
  ultimately show ?thesis
    using assms send
    by (simp add: keys_ok_def ratchet_ok_def epoch_key_def derive_direction_key_def send_epoch_def
        recv_epoch_def)
qed

lemma ratchet_walk_ok:
  assumes "ratchet_ok H root r" "rt_epoch r + n < 256"
  shows "\<exists>r'. ratchet_walk H n ep r = (Some (if n = 0 then ep else Some (rt_epoch r + n)), r') \<and>
    ratchet_ok H root r' \<and> rt_epoch r' = rt_epoch r + n"
  using assms
proof (induction n arbitrary: r ep)
  case 0
  then show ?case by simp
next
  case (Suc n)
  then obtain r' where adv: "ratchet_advance H r = Some (rt_epoch r + 1, r')"
    using ratchet_advance_ok [OF Suc.prems(1)] by (cases "ratchet_advance H r") fastforce+
  then have "ratchet_ok H root r'" "rt_epoch r' = rt_epoch r + 1"
    using ratchet_advance_ok(2) [OF Suc.prems(1)] by blast+
  with Suc.IH [of r' "Some (rt_epoch r + 1)"] Suc.prems(2) adv show ?case
    by (cases n) auto
qed

lemma derive_slots_filled:
  "secret = epoch_secret H root e \<Longrightarrow> length slots = n \<Longrightarrow>
   (\<forall>i < n. \<not> e + i + 1 < 256 \<longrightarrow> slots ! i = None) \<Longrightarrow>
   derive_slots H d e secret slots =
    map (\<lambda>i. if e + i + 1 < 256 then Some (epoch_key H root d (e + i + 1)) else None) [0..<n]"
proof (induction slots arbitrary: n e secret)
  case Nil
  then show ?case by simp
next
  case (Cons slot slots)
  then obtain m where n: "n = Suc m" and len: "length slots = m" by auto
  show ?case
  proof (cases "e + 1 < 256")
    case True
    have "derive_slots H d (Suc e) (epoch_secret H root (Suc e)) slots =
      map (\<lambda>i. if Suc e + i + 1 < 256 then Some (epoch_key H root d (Suc e + i + 1)) else None) [0..<m]"
      using Cons.prems(3) n len by (intro Cons.IH) force+
    with True Cons.prems(1) n show ?thesis
      by (simp add: key_simps map_upt_Suc Let_def del: upt_Suc)
  next
    case False
    have "(slot # slots) ! i = None" if "i < n" for i
      using Cons.prems(3) False that by auto
    then have "slot # slots = map (\<lambda>i. None) [0..<n]"
      using Cons.prems(2) by (auto simp: list_eq_iff_nth_eq)
    with False show ?thesis by (auto simp: epoch_next_def)
  qed
qed

lemma keys_ok_ahead_none:
  assumes "keys_ok H root d ks"
  shows "length (ks_ahead ks) = MAX_EPOCH_CATCHUP"
    and "i < MAX_EPOCH_CATCHUP \<Longrightarrow> \<not> recv_epoch ks + i + 1 < 256 \<Longrightarrow> ks_ahead ks ! i = None"
  using assms by (auto simp: keys_ok_def ahead_slots_def)

lemma keys_derive_ahead_slots:
  assumes "keys_ok H root d ks"
  shows "keys_derive_ahead H ks = ks\<lparr>ks_ahead := ahead_slots H root (opposite d) (recv_epoch ks)\<rparr>"
proof -
  have "derive_slots H (opposite d) (recv_epoch ks) (rt_secret (ks_recv ks)) (ks_ahead ks) =
      ahead_slots H root (opposite d) (recv_epoch ks)"
    unfolding ahead_slots_def
    using assms keys_ok_ahead_none [OF assms]
    by (intro derive_slots_filled) (auto simp: keys_ok_def ratchet_ok_def recv_epoch_def)
  then show ?thesis
    using assms by (simp add: keys_derive_ahead_def keys_ok_def recv_epoch_def)
qed

text \<open>Looking ahead changes nothing but the cache, and answers with the key of the epoch.\<close>

definition same_but_cache :: "key_schedule \<Rightarrow> key_schedule \<Rightarrow> bool" where
  "same_but_cache ks ks' \<longleftrightarrow> ks\<lparr>ks_ahead := []\<rparr> = ks'\<lparr>ks_ahead := []\<rparr>"

lemma same_but_cacheD:
  assumes "same_but_cache ks ks'"
  shows "ks_send ks' = ks_send ks" "ks_send_key ks' = ks_send_key ks" "ks_sending ks' = ks_sending ks"
    "ks_recv ks' = ks_recv ks" "ks_recv_key ks' = ks_recv_key ks"
    "ks_recv_previous ks' = ks_recv_previous ks"
  using assms by (cases ks, cases ks', simp add: same_but_cache_def)+

lemma keys_peek_ahead_spec:
  assumes ok: "keys_ok H root d ks" and a: "0 < a" "a \<le> MAX_EPOCH_CATCHUP"
  shows "fst (keys_peek_ahead H ks a) =
      (if recv_epoch ks + a < 256 then Some (epoch_key H root (opposite d) (recv_epoch ks + a)) else None)"
    and "keys_ok H root d (snd (keys_peek_ahead H ks a))"
    and "same_but_cache ks (snd (keys_peek_ahead H ks a))"
proof -
  have slot: "ahead_slots H root (opposite d) (recv_epoch ks) ! (a - 1) =
      (if recv_epoch ks + a < 256 then Some (epoch_key H root (opposite d) (recv_epoch ks + a)) else None)"
    using a by (auto simp: ahead_slots_def)
  have ok': "keys_ok H root d (ks\<lparr>ks_ahead := ahead_slots H root (opposite d) (recv_epoch ks)\<rparr>)"
    using ok by (simp add: keys_ok_def send_epoch_def recv_epoch_def)
  have cache: "ks_ahead ks ! (a - 1) \<noteq> None \<Longrightarrow>
      ks_ahead ks = ahead_slots H root (opposite d) (recv_epoch ks)"
    using ok a by (auto simp: keys_ok_def)
  show "fst (keys_peek_ahead H ks a) =
      (if recv_epoch ks + a < 256 then Some (epoch_key H root (opposite d) (recv_epoch ks + a)) else None)"
    using a cache slot by (auto simp: keys_peek_ahead_def keys_derive_ahead_slots [OF ok] Let_def)
  show "keys_ok H root d (snd (keys_peek_ahead H ks a))"
    using a ok ok' by (auto simp: keys_peek_ahead_def keys_derive_ahead_slots [OF ok] Let_def)
  show "same_but_cache ks (snd (keys_peek_ahead H ks a))"
    using a by (auto simp: keys_peek_ahead_def keys_derive_ahead_def same_but_cache_def Let_def)
qed

lemma keys_reach_Ahead:
  "keys_reach ks e = Ahead a \<Longrightarrow> 0 < a \<and> a \<le> MAX_EPOCH_CATCHUP \<and> e = recv_epoch ks + a"
  by (auto simp: keys_reach_def split: if_splits option.splits)

lemma keys_follow_spec:
  assumes ok: "keys_ok H root d ks" and reach: "keys_reach ks e = Ahead a" and e: "e < 256"
  shows "\<exists>ks'. keys_follow H ks a = (Some e, ks') \<and> keys_ok H root d ks' \<and> recv_epoch ks' = e \<and>
    ks_recv_previous ks' = Some (recv_epoch ks, ks_recv_key ks) \<and> send_epoch ks' = send_epoch ks"
proof -
  from keys_reach_Ahead [OF reach] have a: "0 < a" "a \<le> MAX_EPOCH_CATCHUP" "e = recv_epoch ks + a"
    by auto
  have "ratchet_ok H root (ks_recv ks)" using ok by (simp add: keys_ok_def)
  from ratchet_walk_ok [OF this, of a None] a e obtain r where
    r: "ratchet_walk H a None (ks_recv ks) = (Some (Some e), r)" "ratchet_ok H root r" "rt_epoch r = e"
    by (auto simp: recv_epoch_def)
  with a ok show ?thesis
    by (auto simp: keys_follow_def keys_ok_def ratchet_ok_def epoch_key_def derive_direction_key_def
        send_epoch_def recv_epoch_def)
qed

lemma keys_opening_spec:
  assumes ok: "keys_ok H root d ks" and e: "e < 256"
  shows "fst (keys_opening H ks e) =
      (if keys_reach ks e = Unreachable then None else Some (epoch_key H root (opposite d) e))"
    and "keys_ok H root d (snd (keys_opening H ks e))"
    and "same_but_cache ks (snd (keys_opening H ks e))"
proof -
  consider (cur) "keys_reach ks e = Current" | (prev) "keys_reach ks e = Previous"
    | (ahead) a where "keys_reach ks e = Ahead a" | (un) "keys_reach ks e = Unreachable"
    by (cases "keys_reach ks e") auto
  then have "fst (keys_opening H ks e) =
      (if keys_reach ks e = Unreachable then None else Some (epoch_key H root (opposite d) e)) \<and>
    keys_ok H root d (snd (keys_opening H ks e)) \<and> same_but_cache ks (snd (keys_opening H ks e))"
  proof cases
    case cur
    then have "e = recv_epoch ks" by (auto simp: keys_reach_def split: if_splits option.splits)
    with cur ok show ?thesis
      by (simp add: keys_opening_def keys_reading_def same_but_cache_def keys_ok_def)
  next
    case prev
    then obtain k where "ks_recv_previous ks = Some (e, k)"
      by (auto simp: keys_reach_def split: if_splits option.splits)
    with prev ok show ?thesis
      by (simp add: keys_opening_def keys_reading_def same_but_cache_def keys_ok_def)
  next
    case ahead
    with keys_reach_Ahead [OF ahead] e keys_peek_ahead_spec [OF ok, of a] show ?thesis
      by (auto simp: keys_opening_def)
  next
    case un
    with ok show ?thesis by (simp add: keys_opening_def same_but_cache_def)
  qed
  then show "fst (keys_opening H ks e) =
      (if keys_reach ks e = Unreachable then None else Some (epoch_key H root (opposite d) e))"
    and "keys_ok H root d (snd (keys_opening H ks e))"
    and "same_but_cache ks (snd (keys_opening H ks e))" by blast+
qed

lemma epoch_from_wire_bound [simp]: "epoch_from_wire b < 256"
  by (simp add: epoch_from_wire_def unat_byte_less)

lemma keys_adopt_spec:
  assumes ok: "keys_ok H root d ks" and e: "e < 256"
  shows "keys_ok H root d (snd (keys_adopt H ks e))"
    and "recv_epoch ks \<le> recv_epoch (snd (keys_adopt H ks e))"
    and "send_epoch (snd (keys_adopt H ks e)) = send_epoch ks"
    and "fst (keys_adopt H ks e) \<noteq> None"
  using ok e keys_follow_spec [OF ok _ e] keys_reach_Ahead [of ks e]
  by (auto simp: keys_adopt_def split: reach.splits)

section \<open>The contract of a reader of epochs\<close>

text \<open>What a receiver relies on: the key it is handed for an epoch is the key of that
  epoch, trying one commits to nothing, and adopting an epoch never goes back.\<close>

locale epoch_reader =
  fixes inv :: "'k \<Rightarrow> bool"
    and cur :: "'k \<Rightarrow> epoch"
    and key :: "epoch \<Rightarrow> direction_key"
    and attempt :: "'k \<Rightarrow> epoch \<Rightarrow> direction_key option \<times> 'k"
    and adopt :: "'k \<Rightarrow> epoch \<Rightarrow> epoch option \<times> 'k"
  assumes attempt_key: "inv ks \<Longrightarrow> e < 256 \<Longrightarrow> fst (attempt ks e) = Some k \<Longrightarrow> k = key e"
    and attempt_inv: "inv ks \<Longrightarrow> e < 256 \<Longrightarrow> inv (snd (attempt ks e)) \<and> cur (snd (attempt ks e)) = cur ks"
    and adopt_inv: "inv ks \<Longrightarrow> e < 256 \<Longrightarrow> inv (snd (adopt ks e)) \<and> cur ks \<le> cur (snd (adopt ks e))"
begin

lemma adopt_all_inv:
  "inv ks \<Longrightarrow> list_all (\<lambda>e. e < 256) es \<Longrightarrow>
   inv (foldl (\<lambda>k e. snd (adopt (snd (attempt k e)) e)) ks es) \<and>
   cur ks \<le> cur (foldl (\<lambda>k e. snd (adopt (snd (attempt k e)) e)) ks es)"
proof (induction es arbitrary: ks)
  case Nil
  then show ?case by simp
next
  case (Cons e es)
  let ?k = "snd (adopt (snd (attempt ks e)) e)"
  from Cons.prems have "inv (snd (attempt ks e))" "cur (snd (attempt ks e)) = cur ks" "e < 256"
    using attempt_inv by auto
  with adopt_inv have "inv ?k" "cur ks \<le> cur ?k" by force+
  with Cons show ?case by (auto intro: le_trans)
qed

end

interpretation kreader: epoch_reader "keys_ok H root d" recv_epoch "epoch_key H root (opposite d)"
    "keys_opening H" "keys_adopt H" for H root d
proof (unfold_locales, goal_cases)
  case (1 ks e k)
  then show ?case using keys_opening_spec(1) [OF 1(1,2)] by (auto split: if_splits)
next
  case (2 ks e)
  then show ?case
    using keys_opening_spec(2,3) [OF 2] same_but_cacheD by (force simp: recv_epoch_def)
next
  case (3 ks e)
  then show ?case using keys_adopt_spec [OF 3] by blast
qed

lemma keys_ok_step: "keys_ok H root d ks \<Longrightarrow> keys_ok H root d (keys_step H ks op)"
proof (cases op)
  case Rotate
  assume "keys_ok H root d ks"
  from keys_rotate_spec [OF this] Rotate this show ?thesis by auto
qed (auto simp: keys_opening_spec keys_adopt_spec)

lemma keys_ok_run: "keys_ok H root d ks \<Longrightarrow> keys_ok H root d (keys_run H ks ops)"
  unfolding keys_run_def by (induction ops arbitrary: ks) (auto simp: keys_ok_step)

section \<open>Properties\<close>

text \<open>C23: both ends of a connection agree on keys. Whatever rotations, look-aheads and
  adoptions each side has been through, the key the reader tries on a datagram naming the
  writer's current epoch is exactly the key the writer seals with, or none when that epoch
  is out of the reader's reach.\<close>

theorem keys_agree:
  "let writer = keys_run H (keys_new H root d) wops;
       reader = keys_run H (keys_new H root (opposite d)) rops
   in fst (keys_opening H reader (send_epoch writer)) =
        (if keys_reach reader (send_epoch writer) = Unreachable then None
         else Some (ks_send_key writer))"
proof -
  let ?w = "keys_run H (keys_new H root d) wops"
  let ?r = "keys_run H (keys_new H root (opposite d)) rops"
  have w: "keys_ok H root d ?w" and r: "keys_ok H root (opposite d) ?r"
    by (rule keys_ok_run, rule keys_ok_new)+
  have "send_epoch ?w < 256" "ks_send_key ?w = epoch_key H root d (send_epoch ?w)"
    using w by (auto simp: keys_ok_def ratchet_ok_def send_epoch_def)
  with keys_opening_spec(1) [OF r] show ?thesis by (simp add: Let_def)
qed

text \<open>Adopting a rotation lands on the named epoch in one step; the epoch left behind
  stays readable with its own key, and an epoch stepped over is unreachable.\<close>

theorem keys_adopt_rotation:
  assumes "keys_reach (keys_run H (keys_new H root d) ops) (epoch_from_wire b) = Ahead a"
  shows "let ks = keys_run H (keys_new H root d) ops;
             ks' = keys_run H (keys_new H root d) (ops @ [Adopt b])
         in recv_epoch ks' = recv_epoch ks + a \<and>
            keys_reading ks' (keys_reach ks' (recv_epoch ks)) = Some (ks_recv_key ks) \<and>
            (\<forall>e. recv_epoch ks < e \<and> e < recv_epoch ks' \<longrightarrow> keys_reach ks' e = Unreachable)"
proof -
  let ?ks = "keys_run H (keys_new H root d) ops"
  have ok: "keys_ok H root d ?ks" by (rule keys_ok_run, rule keys_ok_new)
  from keys_follow_spec [OF ok assms] obtain ks' where
    follow: "keys_follow H ?ks a = (Some (epoch_from_wire b), ks')" "recv_epoch ks' = epoch_from_wire b"
      "ks_recv_previous ks' = Some (recv_epoch ?ks, ks_recv_key ?ks)" by auto
  have run: "keys_run H (keys_new H root d) (ops @ [Adopt b]) = ks'"
    using follow(1) assms by (simp add: keys_run_def keys_adopt_def)
  have "epoch_from_wire b = recv_epoch ?ks + a" "0 < a" using keys_reach_Ahead [OF assms] by auto
  with follow(2,3) show ?thesis
    unfolding run Let_def by (auto simp: keys_reach_def keys_reading_def)
qed

definition toy_derive :: derive where
  "toy_derive context secret = of_nat (length context) # secret"

theorem keys_adopt_rotation_witness:
  "let ks = keys_run toy_derive (keys_new toy_derive [7] ServerToClient) [];
       ks' = keys_run toy_derive (keys_new toy_derive [7] ServerToClient) ([] @ [Adopt 3])
   in recv_epoch ks' = recv_epoch ks + 3 \<and>
      keys_reading ks' (keys_reach ks' (recv_epoch ks)) = Some (ks_recv_key ks) \<and>
      (\<forall>e. recv_epoch ks < e \<and> e < recv_epoch ks' \<longrightarrow> keys_reach ks' e = Unreachable)"
  by (rule keys_adopt_rotation)
     (simp add: keys_run_def keys_new_def keys_reach_def recv_epoch_def ratchet_new_def
       epoch_first_def epoch_from_wire_def MAX_EPOCH_CATCHUP_def Let_def)

text \<open>A datagram that merely names an epoch, whose tag nobody has checked, retires
  nothing: it leaves the schedule as it was but for the cache of keys ahead, and no later
  datagram is answered differently because of it.\<close>

theorem keys_peek_commits_nothing:
  "let ks = keys_run H (keys_new H root d) ops;
       ks' = snd (keys_opening H ks (epoch_from_wire b))
   in same_but_cache ks ks' \<and>
      fst (keys_opening H ks' (epoch_from_wire b')) = fst (keys_opening H ks (epoch_from_wire b'))"
proof -
  let ?ks = "keys_run H (keys_new H root d) ops"
  let ?ks' = "snd (keys_opening H ?ks (epoch_from_wire b))"
  have ok: "keys_ok H root d ?ks" by (rule keys_ok_run, rule keys_ok_new)
  have same: "same_but_cache ?ks ?ks'" and ok': "keys_ok H root d ?ks'"
    using keys_opening_spec [OF ok, of "epoch_from_wire b"] by auto
  have "keys_reach ?ks' e = keys_reach ?ks e" for e
    using same_but_cacheD [OF same] by (simp add: keys_reach_def recv_epoch_def)
  with same keys_opening_spec(1) [OF ok] keys_opening_spec(1) [OF ok'] show ?thesis
    by (simp add: Let_def)
qed

end
