(* ===== verification/Packet.thy ===== *)
theory Packet
  imports Keys
begin

text \<open>
  The wire format of \<^verbatim>\<open>crates/dgram/src/packet.rs\<close>: the cleartext header every datagram
  carries and the body of an acknowledgement. A panic of the source (an \<^verbatim>\<open>assert!\<close>) is
  \<open>None\<close>. A connection id is a list of eight bytes.
\<close>

section \<open>Model\<close>

definition BASE_DATAGRAM :: nat where "BASE_DATAGRAM = 1200"
definition MAX_DATAGRAM :: nat where "MAX_DATAGRAM = 9000"
definition HEADER_BYTES :: nat where "HEADER_BYTES = 1 + 8 + 1 + 6"
definition TAG_BYTES :: nat where "TAG_BYTES = 16"
definition MAX_PAYLOAD :: nat where "MAX_PAYLOAD = MAX_DATAGRAM - HEADER_BYTES - TAG_BYTES"
definition MAX_PACKET_NUMBER :: nat where "MAX_PACKET_NUMBER = 2 ^ 48 - 1"

lemmas packet_consts = BASE_DATAGRAM_def MAX_DATAGRAM_def HEADER_BYTES_def TAG_BYTES_def

type_synonym connection_id = bytes

datatype kind = Frame | Challenge | Response | Alive | Close | AckKind | Probe

fun kind_to_wire :: "kind \<Rightarrow> u8" where
  "kind_to_wire Frame = 0"
| "kind_to_wire Challenge = 1"
| "kind_to_wire Response = 2"
| "kind_to_wire Alive = 3"
| "kind_to_wire Close = 4"
| "kind_to_wire AckKind = 5"
| "kind_to_wire Probe = 6"

definition kind_from_wire :: "u8 \<Rightarrow> kind option" where
  "kind_from_wire b =
     (if b = 0 then Some Frame
      else if b = 1 then Some Challenge
      else if b = 2 then Some Response
      else if b = 3 then Some Alive
      else if b = 4 then Some Close
      else if b = 5 then Some AckKind
      else if b = 6 then Some Probe
      else None)"

fun ack_eliciting :: "kind \<Rightarrow> bool" where
  "ack_eliciting Frame = True"
| "ack_eliciting Challenge = True"
| "ack_eliciting Response = True"
| "ack_eliciting Probe = True"
| "ack_eliciting Alive = False"
| "ack_eliciting Close = False"
| "ack_eliciting AckKind = False"

definition ACK_BODY_BYTES :: nat where "ACK_BODY_BYTES = 6 + 4 + 8"

record ack =
  ack_largest :: nat
  ack_delay :: duration
  ack_map :: u64

definition ack_encode :: "ack \<Rightarrow> bytes option" where
  "ack_encode a =
     (if ack_largest a \<le> MAX_PACKET_NUMBER then
        let micros = (if ack_delay a div 1000 \<le> u32_max then ack_delay a div 1000 else u32_max)
        in Some (be_bytes 6 (ack_largest a) @ be_bytes 4 micros @ be_bytes 8 (unat (ack_map a)))
      else None)"

definition ack_decode :: "bytes \<Rightarrow> ack option" where
  "ack_decode body =
     (if length body \<noteq> ACK_BODY_BYTES then None
      else Some \<lparr>ack_largest = from_be (replicate 2 0 @ take 6 body),
                 ack_delay = from_micros (from_be (take 4 (drop 6 body))),
                 ack_map = of_nat (from_be (drop 10 body))\<rparr>)"

record header =
  hd_kind :: kind
  hd_cid :: connection_id
  hd_epoch :: epoch
  hd_number :: nat

datatype malformed_packet = Short | UnknownKind u8

definition header_encode :: "header \<Rightarrow> bytes option" where
  "header_encode h =
     (if hd_number h \<le> MAX_PACKET_NUMBER then
        Some ([kind_to_wire (hd_kind h)] @ hd_cid h @ [of_nat (hd_epoch h)] @ be_bytes 6 (hd_number h))
      else None)"

definition header_decode :: "bytes \<Rightarrow> malformed_packet + header" where
  "header_decode datagram =
     (if length datagram < HEADER_BYTES + TAG_BYTES then Inl Short
      else case kind_from_wire (datagram ! 0) of
        None \<Rightarrow> Inl (UnknownKind (datagram ! 0))
      | Some kind \<Rightarrow>
          Inr \<lparr>hd_kind = kind,
               hd_cid = take 8 (drop 1 datagram),
               hd_epoch = epoch_from_wire (datagram ! 9),
               hd_number = from_be (replicate 2 0 @ take 6 (drop 10 datagram))\<rparr>)"

definition packet_peek :: "bytes \<Rightarrow> malformed_packet + connection_id" where
  "packet_peek datagram =
     (case header_decode datagram of Inl e \<Rightarrow> Inl e | Inr header \<Rightarrow> Inr (hd_cid header))"

section \<open>Well-formed headers and the codec laws\<close>

text \<open>What the Rust types already guarantee: an eight-byte id and a one-byte epoch.\<close>

definition header_wf :: "header \<Rightarrow> bool" where
  "header_wf h \<longleftrightarrow> length (hd_cid h) = 8 \<and> hd_epoch h < 256"

lemma kind_roundtrip [simp]: "kind_from_wire (kind_to_wire k) = Some k"
  by (cases k) (simp_all add: kind_from_wire_def)

lemma kind_from_wire_inv: "kind_from_wire b = Some k \<Longrightarrow> kind_to_wire k = b"
  by (auto simp: kind_from_wire_def split: if_splits)

lemma from_be_zeros [simp]: "from_be (0 # bs) = from_be bs"
  by (simp add: from_be_def)

lemma length_header_encode: "header_wf h \<Longrightarrow> header_encode h = Some bs \<Longrightarrow> length bs = HEADER_BYTES"
  by (auto simp: header_encode_def header_wf_def HEADER_BYTES_def split: if_splits)

lemma header_decode_encode:
  assumes wf: "header_wf h" and enc: "header_encode h = Some bs" and rest: "TAG_BYTES \<le> length rest"
  shows "header_decode (bs @ rest) = Inr h"
proof -
  from enc have num: "hd_number h \<le> MAX_PACKET_NUMBER"
    and bs: "bs = kind_to_wire (hd_kind h) # hd_cid h @ [of_nat (hd_epoch h)] @ be_bytes 6 (hd_number h)"
    by (auto simp: header_encode_def split: if_splits)
  have len: "length (hd_cid h) = 8" "hd_epoch h < 256" using wf by (auto simp: header_wf_def)
  have "(bs @ rest) ! 9 = of_nat (hd_epoch h)"
    using len(1) by (simp add: bs nth_append)
  moreover have "take 8 (drop 1 (bs @ rest)) = hd_cid h"
    using len(1) by (simp add: bs)
  moreover have "take 6 (drop 10 (bs @ rest)) = be_bytes 6 (hd_number h)"
    using len(1) by (simp add: bs)
  moreover have "from_be (be_bytes 6 (hd_number h)) = hd_number h"
    using num by (intro from_be_be_bytes) (simp add: MAX_PACKET_NUMBER_def)
  moreover have "\<not> length (bs @ rest) < HEADER_BYTES + TAG_BYTES"
    using len(1) rest by (simp add: bs HEADER_BYTES_def)
  moreover have "(bs @ rest) ! 0 = kind_to_wire (hd_kind h)" by (simp add: bs)
  moreover have "epoch_from_wire (of_nat (hd_epoch h)) = hd_epoch h"
    using len(2) by (simp add: epoch_from_wire_def unat_of_nat)
  ultimately show ?thesis
    by (simp add: header_decode_def numeral_2_eq_2)
qed

lemma header_decode_bounds:
  assumes "header_decode bs = Inr h"
  shows "header_wf h" "hd_number h \<le> MAX_PACKET_NUMBER" "HEADER_BYTES + TAG_BYTES \<le> length bs"
proof -
  from assms have len: "HEADER_BYTES + TAG_BYTES \<le> length bs"
    and h: "hd_cid h = take 8 (drop 1 bs)" "hd_epoch h = epoch_from_wire (bs ! 9)"
      "hd_number h = from_be (take 6 (drop 10 bs))"
    by (auto simp: header_decode_def numeral_2_eq_2 split: if_splits option.splits)
  have "hd_number h < 256 ^ 6"
    using from_be_bound [of "take 6 (drop 10 bs)"] h(3) len by (simp add: packet_consts)
  then show "hd_number h \<le> MAX_PACKET_NUMBER" by (simp add: MAX_PACKET_NUMBER_def)
  show "header_wf h" using h len by (simp add: header_wf_def packet_consts)
  show "HEADER_BYTES + TAG_BYTES \<le> length bs" by (rule len)
qed

lemma header_encode_decode:
  assumes "header_decode bs = Inr h"
  shows "header_encode h = Some (take HEADER_BYTES bs)"
proof -
  note len = header_decode_bounds(3) [OF assms] and num = header_decode_bounds(2) [OF assms]
  from assms len obtain k where k: "kind_from_wire (bs ! 0) = Some k"
    and h: "h = \<lparr>hd_kind = k, hd_cid = take 8 (drop 1 bs), hd_epoch = epoch_from_wire (bs ! 9),
              hd_number = from_be (take 6 (drop 10 bs))\<rparr>"
    by (auto simp: header_decode_def numeral_2_eq_2 split: if_splits option.splits)
  have six: "be_bytes 6 (from_be (take 6 (drop 10 bs))) = take 6 (drop 10 bs)"
    using be_bytes_from_be [of "take 6 (drop 10 bs)"] len by (simp add: packet_consts)
  have "take HEADER_BYTES bs = [bs ! 0] @ take 8 (drop 1 bs) @ [bs ! 9] @ take 6 (drop 10 bs)"
    using len by (auto simp: packet_consts list_eq_iff_nth_eq nth_append nth_Cons split: nat.splits)
      (rule arg_cong [where f = "nth bs"], arith)
  with num six k h show ?thesis
    by (simp add: header_encode_def kind_from_wire_inv epoch_from_wire_def)
qed

lemma ack_decode_encode:
  assumes "ack_encode a = Some bs"
  shows "ack_decode bs = Some (a\<lparr>ack_delay := from_micros (min (ack_delay a div 1000) u32_max)\<rparr>)"
proof -
  define m where "m = min (ack_delay a div 1000) u32_max"
  from assms have num: "ack_largest a \<le> MAX_PACKET_NUMBER"
    and bs: "bs = be_bytes 6 (ack_largest a) @ be_bytes 4 m @ be_bytes 8 (unat (ack_map a))"
    by (auto simp: ack_encode_def m_def min_def Let_def split: if_splits)
  have "from_be (be_bytes 6 (ack_largest a)) = ack_largest a"
    using num by (intro from_be_be_bytes) (simp add: MAX_PACKET_NUMBER_def)
  moreover have "from_be (be_bytes 4 m) = m"
    by (intro from_be_be_bytes) (simp add: m_def u32_max_def min_def)
  moreover have "from_be (be_bytes 8 (unat (ack_map a))) = unat (ack_map a)"
    using unsigned_less [of "ack_map a"] by (intro from_be_be_bytes) simp
  ultimately show ?thesis
    by (simp add: ack_decode_def ACK_BODY_BYTES_def bs m_def [symmetric] numeral_2_eq_2)
qed

section \<open>Properties\<close>

text \<open>C30: the header survives the wire: what is encoded, followed by any body and tag,
  decodes to the same kind, connection, epoch and number.\<close>

theorem header_roundtrip:
  assumes "length (hd_cid h) = 8" "hd_epoch h < 256" "header_encode h = Some bs"
    "TAG_BYTES \<le> length rest"
  shows "header_decode (bs @ rest) = Inr h"
  using header_decode_encode assms by (simp add: header_wf_def)

theorem header_roundtrip_witness:
  "\<exists>bs. header_encode \<lparr>hd_kind = Frame, hd_cid = [1,2,3,4,5,6,7,8], hd_epoch = 0, hd_number = 258\<rparr> = Some bs \<and>
     header_decode (bs @ replicate 16 0) =
       Inr \<lparr>hd_kind = Frame, hd_cid = [1,2,3,4,5,6,7,8], hd_epoch = 0, hd_number = 258\<rparr>"
proof -
  let ?h = "\<lparr>hd_kind = Frame, hd_cid = [1,2,3,4,5,6,7,8 :: u8], hd_epoch = 0, hd_number = 258\<rparr>"
  obtain bs where bs: "header_encode ?h = Some bs"
    by (simp add: header_encode_def MAX_PACKET_NUMBER_def)
  with header_roundtrip [of ?h bs "replicate 16 0"] show ?thesis
    by (auto simp: TAG_BYTES_def)
qed

text \<open>The decoder is canonical and total: any datagram it accepts re-encodes to its own
  first sixteen bytes with a packet number of at most 48 bits, and any datagram shorter
  than a header and a tag, or naming an unknown kind, is refused before a key is chosen.\<close>

theorem header_decode_canonical:
  "case header_decode datagram of
     Inr h \<Rightarrow> header_encode h = Some (take HEADER_BYTES datagram) \<and>
             hd_number h \<le> MAX_PACKET_NUMBER \<and> length (hd_cid h) = 8
   | Inl Short \<Rightarrow> length datagram < HEADER_BYTES + TAG_BYTES
   | Inl (UnknownKind b) \<Rightarrow> datagram ! 0 = b \<and> unat b > 6"
proof (cases "header_decode datagram")
  case (Inr h)
  with header_encode_decode [OF Inr] header_decode_bounds [OF Inr] show ?thesis
    by (simp add: header_wf_def)
next
  case (Inl e)
  have "unat b > 6" if "kind_from_wire b = None" for b
  proof (rule ccontr)
    assume "\<not> unat b > 6"
    then have "unat b \<in> {0, 1, 2, 3, 4, 5, 6}" by auto
    then have "(of_nat (unat b) :: u8) \<in> of_nat ` {0, 1, 2, 3, 4, 5, 6}" by (rule imageI)
    then have "b \<in> {0, 1, 2, 3, 4, 5, 6}" by simp
    with that show False by (auto simp: kind_from_wire_def)
  qed
  with Inl show ?thesis
    by (auto simp: header_decode_def split: if_splits option.splits malformed_packet.splits)
qed

text \<open>An acknowledgement survives the wire, its delay rounded down to microseconds and
  saturated at four bytes rather than wrapped, and only bodies of exactly eighteen bytes
  decode.\<close>

theorem ack_roundtrip:
  "(ack_largest a \<le> MAX_PACKET_NUMBER) = (ack_encode a \<noteq> None) \<and>
   (case ack_encode a of
      None \<Rightarrow> True
    | Some bs \<Rightarrow> length bs = ACK_BODY_BYTES \<and>
        ack_decode bs = Some (a\<lparr>ack_delay := from_micros (min (ack_delay a div 1000) u32_max)\<rparr>)) \<and>
   (ack_decode body = None) = (length body \<noteq> ACK_BODY_BYTES)"
proof -
  have "length bs = ACK_BODY_BYTES" if "ack_encode a = Some bs" for bs
    using that by (auto simp: ack_encode_def ACK_BODY_BYTES_def Let_def split: if_splits)
  then show ?thesis
    using ack_decode_encode [of a]
    by (auto simp: ack_encode_def ack_decode_def Let_def split: option.splits if_splits)
qed

end
