(* ===== verification/Aead.thy ===== *)
theory Aead
  imports Packet
begin

text \<open>
  Sealing and opening of one datagram, \<^verbatim>\<open>crates/dgram/src/aead.rs\<close>. The cipher
  (ChaCha20-Poly1305) is a third-party package: it is the parameter \<open>A\<close>, a record of its
  two calls. \<open>aead_law\<close> states what RFC 8439 gives of them as functions: detached
  encryption keeps the length of the body and makes a tag of sixteen bytes, decryption
  undoes it, and decryption succeeds on nothing else.
\<close>

record cipher =
  encrypt_detached :: "direction_key \<Rightarrow> bytes \<Rightarrow> bytes \<Rightarrow> bytes \<Rightarrow> bytes \<times> bytes"
  decrypt_detached :: "direction_key \<Rightarrow> bytes \<Rightarrow> bytes \<Rightarrow> bytes \<Rightarrow> bytes \<Rightarrow> bytes option"

definition aead_law :: "cipher \<Rightarrow> bool" where
  "aead_law A \<longleftrightarrow>
     (\<forall>key nonce aad plain.
        length (fst (encrypt_detached A key nonce aad plain)) = length plain \<and>
        length (snd (encrypt_detached A key nonce aad plain)) = TAG_BYTES) \<and>
     (\<forall>key nonce aad body tag plain.
        decrypt_detached A key nonce aad body tag = Some plain \<longleftrightarrow>
        encrypt_detached A key nonce aad plain = (body, tag))"

definition aead_nonce :: "nat \<Rightarrow> bytes" where
  "aead_nonce number = replicate 4 0 @ be_bytes 8 number"

text \<open>\<^verbatim>\<open>seal\<close> encrypts the body in place and returns the tag; \<^verbatim>\<open>open\<close> verifies, then
  decrypts in place, and on failure leaves the body as it was (\<open>None\<close>).\<close>

definition aead_seal :: "cipher \<Rightarrow> direction_key \<Rightarrow> bytes \<Rightarrow> nat \<Rightarrow> bytes \<Rightarrow> bytes \<times> bytes" where
  "aead_seal A key header number body = encrypt_detached A key (aead_nonce number) header body"

definition aead_open ::
  "cipher \<Rightarrow> direction_key \<Rightarrow> bytes \<Rightarrow> nat \<Rightarrow> bytes \<Rightarrow> bytes \<Rightarrow> bytes option" where
  "aead_open A key header number body tag =
     decrypt_detached A key (aead_nonce number) header body tag"

lemma aead_open_iff:
  "aead_law A \<Longrightarrow>
   aead_open A key header number body tag = Some plain \<longleftrightarrow>
   aead_seal A key header number plain = (body, tag)"
  by (simp add: aead_law_def aead_open_def aead_seal_def)

lemma aead_seal_lengths:
  assumes "aead_law A" "aead_seal A key header number plain = (body, tag)"
  shows "length body = length plain" "length tag = TAG_BYTES"
proof -
  have "length (fst (aead_seal A key header number plain)) = length plain \<and>
    length (snd (aead_seal A key header number plain)) = TAG_BYTES"
    using assms(1) by (simp add: aead_law_def aead_seal_def)
  with assms(2) show "length body = length plain" "length tag = TAG_BYTES" by simp_all
qed

lemma aead_nonce_inj:
  assumes "m \<le> MAX_PACKET_NUMBER" "n \<le> MAX_PACKET_NUMBER" "aead_nonce m = aead_nonce n"
  shows "m = n"
proof -
  have "be_bytes 8 m = be_bytes 8 n" using assms(3) by (simp add: aead_nonce_def)
  moreover have "from_be (be_bytes 8 m) = m" "from_be (be_bytes 8 n) = n"
    using assms by (auto intro!: from_be_be_bytes simp: MAX_PACKET_NUMBER_def)
  ultimately show ?thesis by metis
qed

text \<open>A cipher that satisfies the law, to run the model with: every byte is the plain one
  and the tag carries the length of the associated data and the number.\<close>

definition toy_cipher :: cipher where
  "toy_cipher = \<lparr>
     encrypt_detached = (\<lambda>key nonce aad plain. (plain, take 16 (nonce @ replicate 16 0))),
     decrypt_detached = (\<lambda>key nonce aad body tag.
       if tag = take 16 (nonce @ replicate 16 0) then Some body else None)\<rparr>"

lemma toy_cipher_law: "aead_law toy_cipher"
  by (auto simp: aead_law_def toy_cipher_def TAG_BYTES_def)

end
