(* ===== verification/Path.thy ===== *)
theory Path
  imports Prelude
begin

text \<open>
  Path validation, \<^verbatim>\<open>crates/dgram/src/path.rs\<close>: which address an endpoint sends to, the
  challenges a new address has to answer before the connection moves there, and the
  budget an address that has answered nothing yet is held to.

  Entropy comes from outside the program: a call of \<^verbatim>\<open>getrandom\<close> is an argument of type
  \<open>bytes option\<close>, with \<open>None\<close> for its failure. \<^verbatim>\<open>poll_challenge\<close> takes two, one for each
  address it may have to mint a token for.
\<close>

section \<open>Model\<close>

datatype socket_addr = SocketAddr bytes nat
type_synonym token = bytes

definition AMPLIFICATION_LIMIT :: nat where "AMPLIFICATION_LIMIT = 3"
definition PROBE_INTERVAL :: duration where "PROBE_INTERVAL = from_millis 250"
definition PROBE_LIMIT :: nat where "PROBE_LIMIT = 4"

record probe =
  pb_token :: "token option"
  pb_due :: "instant option"
  pb_sent :: nat
  pb_credit :: nat

definition probe_new :: probe where
  "probe_new = \<lparr>pb_token = None, pb_due = None, pb_sent = 0, pb_credit = 0\<rparr>"

definition probe_earned :: "probe \<Rightarrow> nat \<Rightarrow> probe" where
  "probe_earned p bytes =
     (let earned = u64_saturating_mul AMPLIFICATION_LIMIT bytes
      in p\<lparr>pb_credit := u64_saturating_add (pb_credit p) earned\<rparr>)"

definition probe_arrived :: "probe \<Rightarrow> nat \<Rightarrow> instant \<Rightarrow> probe" where
  "probe_arrived p bytes now =
     (let p' = probe_earned p bytes
      in p'\<lparr>pb_sent := 0,
            pb_due := (case pb_due p' of Some due \<Rightarrow> Some due | None \<Rightarrow> Some now)\<rparr>)"

definition probe_challengeable :: "probe \<Rightarrow> bool" where
  "probe_challengeable p = (pb_due p \<noteq> None \<and> pb_sent p < PROBE_LIMIT)"

definition probe_deadline :: "probe \<Rightarrow> instant option" where
  "probe_deadline p = (if pb_sent p < PROBE_LIMIT then pb_due p else None)"

definition probe_challenge :: "bytes option \<Rightarrow> probe \<Rightarrow> instant \<Rightarrow> token option \<times> probe" where
  "probe_challenge fresh p now =
     (case probe_deadline p of
        None \<Rightarrow> (None, p)
      | Some due \<Rightarrow>
          if now < due then (None, p)
          else
            case (case pb_token p of Some token \<Rightarrow> Some token | None \<Rightarrow> fresh) of
              None \<Rightarrow> (None, p\<lparr>pb_due := Some (now + PROBE_INTERVAL)\<rparr>)
            | Some token \<Rightarrow>
                (Some token, p\<lparr>pb_token := Some token, pb_sent := pb_sent p + 1,
                               pb_due := Some (now + PROBE_INTERVAL)\<rparr>))"

datatype candidate = Proposed probe | Retiring probe

fun candidate_probe :: "candidate \<Rightarrow> probe" where
  "candidate_probe (Proposed p) = p"
| "candidate_probe (Retiring p) = p"

fun candidate_set_probe :: "candidate \<Rightarrow> probe \<Rightarrow> candidate" where
  "candidate_set_probe (Proposed _) p = Proposed p"
| "candidate_set_probe (Retiring _) p = Retiring p"

fun candidate_arrived :: "candidate \<Rightarrow> nat \<Rightarrow> instant \<Rightarrow> candidate" where
  "candidate_arrived (Proposed p) bytes now = Proposed (probe_arrived p bytes now)"
| "candidate_arrived (Retiring p) bytes now = Retiring (probe_earned p bytes)"

fun candidate_contradicted :: "candidate \<Rightarrow> candidate" where
  "candidate_contradicted (Proposed p) = Retiring p"
| "candidate_contradicted (Retiring p) = Retiring p"

datatype arrival = Established | Probing socket_addr | Pending

datatype answered = Validated | Migrated socket_addr

datatype standing = Proven | Claimed probe

record path_validator =
  pv_current :: socket_addr
  pv_standing :: standing
  pv_candidate :: "(socket_addr \<times> candidate) option"

definition path_dialled :: "socket_addr \<Rightarrow> path_validator" where
  "path_dialled peer = \<lparr>pv_current = peer, pv_standing = Proven, pv_candidate = None\<rparr>"

definition path_claimed :: "socket_addr \<Rightarrow> path_validator" where
  "path_claimed peer = \<lparr>pv_current = peer, pv_standing = Claimed probe_new, pv_candidate = None\<rparr>"

definition path_probing :: "path_validator \<Rightarrow> bool" where
  "path_probing v =
     ((case pv_standing v of Claimed p \<Rightarrow> probe_challengeable p | Proven \<Rightarrow> False) \<or>
      (case pv_candidate v of Some (_, c) \<Rightarrow> probe_challengeable (candidate_probe c) | None \<Rightarrow> False))"

definition path_arrived ::
  "path_validator \<Rightarrow> socket_addr \<Rightarrow> nat \<Rightarrow> instant \<Rightarrow> arrival \<times> path_validator" where
  "path_arrived v from bytes now =
     (if from = pv_current v then
        let v1 = v\<lparr>pv_candidate := map_option (\<lambda>(at, c). (at, candidate_contradicted c)) (pv_candidate v)\<rparr>
        in (Established,
            v1\<lparr>pv_standing := (case pv_standing v1 of
                 Claimed p \<Rightarrow> Claimed (probe_arrived p bytes now)
               | Proven \<Rightarrow> Proven)\<rparr>)
      else
        let proposed = (Probing from,
              v\<lparr>pv_candidate := Some (from, Proposed (probe_arrived probe_new bytes now))\<rparr>)
        in case pv_candidate v of
             Some (at, c) \<Rightarrow>
               (if at = from
                then (Pending, v\<lparr>pv_candidate := Some (at, candidate_arrived c bytes now)\<rparr>)
                else proposed)
           | None \<Rightarrow> proposed)"

definition path_poll_candidate ::
  "bytes option \<Rightarrow> path_validator \<Rightarrow> instant \<Rightarrow> (socket_addr \<times> token) option \<times> path_validator" where
  "path_poll_candidate fresh v now =
     (case pv_candidate v of
        None \<Rightarrow> (None, v)
      | Some (at, c) \<Rightarrow>
          (case probe_challenge fresh (candidate_probe c) now of
             (Some token, p) \<Rightarrow>
               (Some (at, token), v\<lparr>pv_candidate := Some (at, candidate_set_probe c p)\<rparr>)
           | (None, p) \<Rightarrow>
               (None, v\<lparr>pv_candidate :=
                 (if PROBE_LIMIT \<le> pb_sent p then None else Some (at, candidate_set_probe c p))\<rparr>)))"

definition path_poll_challenge ::
  "bytes option \<Rightarrow> bytes option \<Rightarrow> path_validator \<Rightarrow> instant \<Rightarrow>
   (socket_addr \<times> token) option \<times> path_validator" where
  "path_poll_challenge fresh1 fresh2 v now =
     (case pv_standing v of
        Proven \<Rightarrow> path_poll_candidate fresh2 v now
      | Claimed p \<Rightarrow>
          (case probe_challenge fresh1 p now of
             (Some token, p') \<Rightarrow> (Some (pv_current v, token), v\<lparr>pv_standing := Claimed p'\<rparr>)
           | (None, p') \<Rightarrow> path_poll_candidate fresh2 (v\<lparr>pv_standing := Claimed p'\<rparr>) now))"

definition path_challenge_deadline :: "path_validator \<Rightarrow> instant option" where
  "path_challenge_deadline v =
     (let claimed = (case pv_standing v of Proven \<Rightarrow> None | Claimed p \<Rightarrow> probe_deadline p);
          candidate = (case pv_candidate v of None \<Rightarrow> None
                       | Some (_, c) \<Rightarrow> probe_deadline (candidate_probe c))
      in case (claimed, candidate) of
           (Some a, Some b) \<Rightarrow> Some (min a b)
         | (Some a, None) \<Rightarrow> Some a
         | (None, b) \<Rightarrow> b)"

definition path_unproven :: "path_validator \<Rightarrow> socket_addr \<Rightarrow> probe option" where
  "path_unproven v to =
     (if to = pv_current v then
        (case pv_standing v of Proven \<Rightarrow> None | Claimed p \<Rightarrow> Some p)
      else case pv_candidate v of
        Some (at, c) \<Rightarrow> (if at = to then Some (candidate_probe c) else None)
      | None \<Rightarrow> None)"

definition path_may_send :: "path_validator \<Rightarrow> socket_addr \<Rightarrow> nat \<Rightarrow> bool" where
  "path_may_send v to bytes =
     (case path_unproven v to of
        Some p \<Rightarrow> bytes \<le> pb_credit p
      | None \<Rightarrow> to = pv_current v)"

text \<open>\<^verbatim>\<open>unproven_mut\<close>: the same place, written.\<close>

definition path_set_unproven :: "path_validator \<Rightarrow> socket_addr \<Rightarrow> probe \<Rightarrow> path_validator" where
  "path_set_unproven v to p =
     (if to = pv_current v then
        (case pv_standing v of Proven \<Rightarrow> v | Claimed _ \<Rightarrow> v\<lparr>pv_standing := Claimed p\<rparr>)
      else case pv_candidate v of
        Some (at, c) \<Rightarrow>
          (if at = to then v\<lparr>pv_candidate := Some (at, candidate_set_probe c p)\<rparr> else v)
      | None \<Rightarrow> v)"

definition path_spent :: "path_validator \<Rightarrow> socket_addr \<Rightarrow> nat \<Rightarrow> path_validator" where
  "path_spent v to bytes =
     (case path_unproven v to of
        Some p \<Rightarrow> path_set_unproven v to (p\<lparr>pb_credit := pb_credit p - bytes\<rparr>)
      | None \<Rightarrow> v)"

definition path_answered ::
  "path_validator \<Rightarrow> socket_addr \<Rightarrow> token \<Rightarrow> answered option \<times> path_validator" where
  "path_answered v from token =
     (if from = pv_current v \<and>
         (case pv_standing v of Claimed p \<Rightarrow> pb_token p = Some token | Proven \<Rightarrow> False)
      then (Some Validated, v\<lparr>pv_standing := Proven\<rparr>)
      else case pv_candidate v of
        None \<Rightarrow> (None, v)
      | Some (at, c) \<Rightarrow>
          if at \<noteq> from \<or> pb_token (candidate_probe c) \<noteq> Some token then (None, v)
          else (Some (Migrated from),
                v\<lparr>pv_candidate := None, pv_current := from, pv_standing := Proven\<rparr>))"

section \<open>The contract: an account that is never overdrawn\<close>

text \<open>What the endpoint relies on when it asks before it sends: an address that is not
  free has an allowance, arrivals raise it by at most the amplification limit, sends are
  refused beyond it and charged to it, and nothing else raises it.\<close>

datatype ('a, 'o) guard_op = Arrive 'a nat instant | Transmit 'a nat | Other 'o

fun guard_step ::
  "('p \<Rightarrow> 'a \<Rightarrow> nat \<Rightarrow> bool) \<Rightarrow> ('p \<Rightarrow> 'a \<Rightarrow> nat \<Rightarrow> 'p) \<Rightarrow>
   ('p \<Rightarrow> 'a \<Rightarrow> nat \<Rightarrow> instant \<Rightarrow> 'p) \<Rightarrow> ('p \<Rightarrow> 'o \<Rightarrow> 'p) \<Rightarrow> 'p \<Rightarrow> ('a, 'o) guard_op \<Rightarrow> 'p" where
  "guard_step may_send spent arrive other p (Arrive a n now) = arrive p a n now"
| "guard_step may_send spent arrive other p (Transmit a n) =
     (if may_send p a n then spent p a n else p)"
| "guard_step may_send spent arrive other p (Other x) = other p x"

fun received_from :: "'a \<Rightarrow> ('a, 'o) guard_op list \<Rightarrow> nat" where
  "received_from a [] = 0"
| "received_from a (Arrive b n now # ops) = (if b = a then n else 0) + received_from a ops"
| "received_from a (op # ops) = received_from a ops"

text \<open>Bytes sent to an address at moments when it was not free.\<close>

fun sent_unproven ::
  "('p \<Rightarrow> 'a \<Rightarrow> bool) \<Rightarrow> ('p \<Rightarrow> 'a \<Rightarrow> nat \<Rightarrow> bool) \<Rightarrow> ('p \<Rightarrow> ('a, 'o) guard_op \<Rightarrow> 'p) \<Rightarrow>
   'a \<Rightarrow> 'p \<Rightarrow> ('a, 'o) guard_op list \<Rightarrow> nat" where
  "sent_unproven free may_send step a p [] = 0"
| "sent_unproven free may_send step a p (op # ops) =
     (case op of
        Transmit b n \<Rightarrow> (if b = a \<and> \<not> free p a \<and> may_send p a n then n else 0)
      | _ \<Rightarrow> 0) + sent_unproven free may_send step a (step p op) ops"

locale amplification_guard =
  fixes free :: "'p \<Rightarrow> 'a \<Rightarrow> bool"
    and allowance :: "'p \<Rightarrow> 'a \<Rightarrow> nat"
    and may_send :: "'p \<Rightarrow> 'a \<Rightarrow> nat \<Rightarrow> bool"
    and spent :: "'p \<Rightarrow> 'a \<Rightarrow> nat \<Rightarrow> 'p"
    and arrive :: "'p \<Rightarrow> 'a \<Rightarrow> nat \<Rightarrow> instant \<Rightarrow> 'p"
    and other :: "'p \<Rightarrow> 'o \<Rightarrow> 'p"
  assumes send_within: "\<not> free p a \<Longrightarrow> may_send p a n \<Longrightarrow> n + allowance (spent p a n) a \<le> allowance p a"
    and spent_other: "may_send p a n \<Longrightarrow> allowance (spent p a n) b \<le> allowance p b"
    and arrive_earns: "allowance (arrive p a n now) b \<le> allowance p b + (if b = a then AMPLIFICATION_LIMIT * n else 0)"
    and other_earns_nothing: "allowance (other p x) b \<le> allowance p b"
begin

lemma sent_bounded_by_allowance:
  "sent_unproven free may_send (guard_step may_send spent arrive other) a p ops
     \<le> allowance p a + AMPLIFICATION_LIMIT * received_from a ops"
proof (induction ops arbitrary: p)
  case Nil
  then show ?case by simp
next
  case (Cons op ops)
  let ?p' = "guard_step may_send spent arrive other p op"
  have IH: "sent_unproven free may_send (guard_step may_send spent arrive other) a ?p' ops
     \<le> allowance ?p' a + AMPLIFICATION_LIMIT * received_from a ops" by (rule Cons.IH)
  show ?case
  proof (cases op)
    case (Arrive b n now)
    with IH arrive_earns [of p b n now a] show ?thesis
      by (auto simp: algebra_simps split: if_splits)
  next
    case (Transmit b n)
    with IH send_within [of p a n] spent_other [of p b n a] show ?thesis
      by (auto split: if_splits)
  next
    case (Other x)
    with IH other_earns_nothing [of p x a] show ?thesis by simp
  qed
qed

end

section \<open>Path validation keeps the contract\<close>

definition path_free :: "path_validator \<Rightarrow> socket_addr \<Rightarrow> bool" where
  "path_free v a \<longleftrightarrow> a = pv_current v \<and> pv_standing v = Proven"

definition path_allowance :: "path_validator \<Rightarrow> socket_addr \<Rightarrow> nat" where
  "path_allowance v a = (case path_unproven v a of Some p \<Rightarrow> pb_credit p | None \<Rightarrow> 0)"

datatype path_event = PollChallenge "bytes option" "bytes option" instant | AnswerFrom socket_addr token

fun path_event_step :: "path_validator \<Rightarrow> path_event \<Rightarrow> path_validator" where
  "path_event_step v (PollChallenge f1 f2 now) = snd (path_poll_challenge f1 f2 v now)"
| "path_event_step v (AnswerFrom a token) = snd (path_answered v a token)"

definition path_arrive_step :: "path_validator \<Rightarrow> socket_addr \<Rightarrow> nat \<Rightarrow> instant \<Rightarrow> path_validator" where
  "path_arrive_step v a n now = snd (path_arrived v a n now)"

definition path_step :: "path_validator \<Rightarrow> (socket_addr, path_event) guard_op \<Rightarrow> path_validator" where
  "path_step = guard_step path_may_send path_spent path_arrive_step path_event_step"

lemma candidate_probe_simps [simp]:
  "candidate_probe (candidate_set_probe c p) = p"
  "candidate_probe (candidate_contradicted c) = candidate_probe c"
  by (cases c; simp)+

lemma probe_earned_credit: "pb_credit (probe_earned p n) \<le> pb_credit p + AMPLIFICATION_LIMIT * n"
  using u64_saturating_add_le [of "pb_credit p" "u64_saturating_mul AMPLIFICATION_LIMIT n"]
    u64_saturating_mul_le [of AMPLIFICATION_LIMIT n]
  by (simp add: probe_earned_def)

lemma probe_arrived_credit: "pb_credit (probe_arrived p n now) \<le> pb_credit p + AMPLIFICATION_LIMIT * n"
  using probe_earned_credit [of p n] by (simp add: probe_arrived_def Let_def)

lemma candidate_arrived_credit:
  "pb_credit (candidate_probe (candidate_arrived c n now)) \<le> pb_credit (candidate_probe c) + AMPLIFICATION_LIMIT * n"
  by (cases c) (simp_all add: probe_earned_credit probe_arrived_credit)

lemma probe_challenge_credit [simp]: "pb_credit (snd (probe_challenge f p now)) = pb_credit p"
  by (simp add: probe_challenge_def split: option.splits)

text \<open>The allowance is a function of the two probes a validator may hold.\<close>

lemma path_allowance_current:
  "path_allowance v (pv_current v) =
     (case pv_standing v of Proven \<Rightarrow> 0 | Claimed p \<Rightarrow> pb_credit p)"
  by (simp add: path_allowance_def path_unproven_def split: standing.splits)

lemma path_allowance_candidate:
  "a \<noteq> pv_current v \<Longrightarrow> path_allowance v a =
     (case pv_candidate v of
        Some (at, c) \<Rightarrow> (if at = a then pb_credit (candidate_probe c) else 0) | None \<Rightarrow> 0)"
  by (auto simp: path_allowance_def path_unproven_def split: option.splits)

lemma path_allowance_cases:
  "path_allowance v a =
     (if a = pv_current v then (case pv_standing v of Proven \<Rightarrow> 0 | Claimed p \<Rightarrow> pb_credit p)
      else case pv_candidate v of
        Some (at, c) \<Rightarrow> (if at = a then pb_credit (candidate_probe c) else 0) | None \<Rightarrow> 0)"
  by (auto simp: path_allowance_current path_allowance_candidate)

lemma probe_challenge_eq_credit: "probe_challenge f p now = (t, p') \<Longrightarrow> pb_credit p' = pb_credit p"
  using probe_challenge_credit [of f p now] by simp

lemma path_poll_candidate_frame [simp]:
  "pv_current (snd (path_poll_candidate f v now)) = pv_current v"
  "pv_standing (snd (path_poll_candidate f v now)) = pv_standing v"
  by (auto simp: path_poll_candidate_def split: option.splits prod.splits)

lemma path_poll_candidate_allowance:
  "path_allowance (snd (path_poll_candidate f v now)) a \<le> path_allowance v a"
  by (auto simp: path_poll_candidate_def path_allowance_cases
      dest!: probe_challenge_eq_credit split: option.splits prod.splits)

lemma path_poll_challenge_frame [simp]:
  "pv_current (snd (path_poll_challenge f1 f2 v now)) = pv_current v"
  by (auto simp: path_poll_challenge_def split: standing.splits option.splits prod.splits)

lemma path_poll_challenge_allowance:
  "path_allowance (snd (path_poll_challenge f1 f2 v now)) a \<le> path_allowance v a"
proof (cases "pv_standing v")
  case Proven
  then show ?thesis by (simp add: path_poll_challenge_def path_poll_candidate_allowance)
next
  case (Claimed p)
  obtain t p' where c: "probe_challenge f1 p now = (t, p')" by (cases "probe_challenge f1 p now")
  have same: "path_allowance (v\<lparr>pv_standing := Claimed p'\<rparr>) a = path_allowance v a"
    using Claimed probe_challenge_eq_credit [OF c] by (simp add: path_allowance_cases)
  show ?thesis
    using Claimed c same path_poll_candidate_allowance [of f2 "v\<lparr>pv_standing := Claimed p'\<rparr>" now a]
    by (cases t) (simp_all add: path_poll_challenge_def)
qed

lemma path_arrived_allowance:
  "path_allowance (snd (path_arrived v a n now)) b
     \<le> path_allowance v b + (if b = a then AMPLIFICATION_LIMIT * n else 0)"
proof (cases "a = pv_current v")
  case True
  then show ?thesis
    by (cases "pv_standing v") (auto simp: path_arrived_def path_allowance_cases Let_def
        probe_arrived_credit split: option.splits)
next
  case False
  have new: "pb_credit (probe_arrived probe_new n now) \<le> AMPLIFICATION_LIMIT * n"
    using probe_arrived_credit [of probe_new n now] by (simp add: probe_new_def)
  show ?thesis
  proof (cases "pv_candidate v")
    case None
    with False new show ?thesis
      by (auto simp: path_arrived_def path_allowance_cases Let_def split: standing.splits)
  next
    case (Some q)
    obtain at c where q: "q = (at, c)" by (cases q)
    with Some False new candidate_arrived_credit [of c n now] show ?thesis
      by (auto simp: path_arrived_def path_allowance_cases Let_def intro: le_SucI)
  qed
qed

lemma path_spent_allowance:
  "path_allowance (path_spent v a n) b = path_allowance v b - (if b = a then n else 0)"
proof (cases "a = pv_current v")
  case True
  then show ?thesis
    by (cases "pv_standing v")
       (simp_all add: path_spent_def path_set_unproven_def path_unproven_def path_allowance_cases)
next
  case False
  show ?thesis
  proof (cases "pv_candidate v")
    case None
    with False show ?thesis
      by (simp add: path_spent_def path_unproven_def path_allowance_cases)
  next
    case (Some q)
    obtain at c where "q = (at, c)" by (cases q)
    with Some False show ?thesis
      by (cases "at = a")
         (simp_all add: path_spent_def path_set_unproven_def path_unproven_def path_allowance_cases)
  qed
qed

lemma path_may_send_allowance: "\<not> path_free v a \<Longrightarrow> path_may_send v a n \<Longrightarrow> n \<le> path_allowance v a"
  by (auto simp: path_free_def path_may_send_def path_allowance_def path_unproven_def
      split: option.splits standing.splits if_splits)

lemma path_answered_allowance: "path_allowance (snd (path_answered v a t)) b \<le> path_allowance v b"
  by (auto simp: path_answered_def path_allowance_cases split: option.splits standing.splits)

interpretation pguard: amplification_guard path_free path_allowance path_may_send path_spent
    path_arrive_step path_event_step
proof (unfold_locales, goal_cases)
  case (1 v a n)
  then show ?case using path_may_send_allowance [of v a n] by (simp add: path_spent_allowance)
next
  case (2 v a n b)
  then show ?case by (simp add: path_spent_allowance)
next
  case (3 v a n now b)
  then show ?case by (simp add: path_arrive_step_def path_arrived_allowance)
next
  case (4 v x b)
  then show ?case
    by (cases x) (simp_all add: path_poll_challenge_allowance path_answered_allowance)
qed

section \<open>Challenges over a run\<close>

definition path_run :: "path_validator \<Rightarrow> (socket_addr, path_event) guard_op list \<Rightarrow> path_validator" where
  "path_run v ops = foldl path_step v ops"

text \<open>The challenges a step hands out, and those of a run.\<close>

fun challenge_of :: "path_validator \<Rightarrow> (socket_addr, path_event) guard_op \<Rightarrow> (socket_addr \<times> token) list" where
  "challenge_of v (Other (PollChallenge f1 f2 now)) =
     (case fst (path_poll_challenge f1 f2 v now) of None \<Rightarrow> [] | Some c \<Rightarrow> [c])"
| "challenge_of v op = []"

fun challenges :: "path_validator \<Rightarrow> (socket_addr, path_event) guard_op list \<Rightarrow> (socket_addr \<times> token) list" where
  "challenges v [] = []"
| "challenges v (op # ops) = challenge_of v op @ challenges (path_step v op) ops"

fun arrivals_from :: "'a \<Rightarrow> ('a, 'o) guard_op list \<Rightarrow> nat" where
  "arrivals_from a [] = 0"
| "arrivals_from a (Arrive b n now # ops) = (if b = a then 1 else 0) + arrivals_from a ops"
| "arrivals_from a (op # ops) = arrivals_from a ops"

lemma path_step_simps [simp]:
  "path_step v (Arrive a n now) = snd (path_arrived v a n now)"
  "path_step v (Transmit a n) = (if path_may_send v a n then path_spent v a n else v)"
  "path_step v (Other (PollChallenge f1 f2 now)) = snd (path_poll_challenge f1 f2 v now)"
  "path_step v (Other (AnswerFrom a t)) = snd (path_answered v a t)"
  by (simp_all add: path_step_def path_arrive_step_def)

lemma path_run_append: "path_run v (xs @ ys) = path_run (path_run v xs) ys"
  by (simp add: path_run_def)

lemma path_run_simps [simp]: "path_run v [] = v" "path_run v (op # ops) = path_run (path_step v op) ops"
  by (simp_all add: path_run_def)

lemma challenges_append: "challenges v (xs @ ys) = challenges v xs @ challenges (path_run v xs) ys"
  by (induction xs arbitrary: v) auto

text \<open>The probe a validator holds for an address, whichever of the two places it is in.\<close>

lemma path_unproven_spent:
  "path_unproven (path_spent v a n) b =
     map_option (\<lambda>p. if b = a then p\<lparr>pb_credit := pb_credit p - n\<rparr> else p) (path_unproven v b)"
proof (cases "a = pv_current v")
  case True
  then show ?thesis
    by (cases "pv_standing v"; cases "pv_candidate v")
       (auto simp: path_spent_def path_set_unproven_def path_unproven_def)
next
  case False
  show ?thesis
  proof (cases "pv_candidate v")
    case None
    with False show ?thesis
      by (cases "pv_standing v") (simp_all add: path_spent_def path_unproven_def)
  next
    case (Some q)
    obtain at c where "q = (at, c)" by (cases q)
    with Some False show ?thesis
      by (cases "at = a"; cases "pv_standing v")
         (simp_all add: path_spent_def path_set_unproven_def path_unproven_def)
  qed
qed

lemma path_spent_current [simp]: "pv_current (path_spent v a n) = pv_current v"
  by (auto simp: path_spent_def path_set_unproven_def split: option.splits standing.splits)

lemma path_unproven_arrived:
  assumes "path_unproven (snd (path_arrived v a n now)) b = Some p"
  shows "path_unproven v b = Some p \<or> b = a \<and>
    (\<exists>q. (q = probe_new \<or> path_unproven v b = Some q) \<and>
       (p = probe_arrived q n now \<or> p = probe_earned q n))"
proof (cases "a = pv_current v")
  case True
  with assms show ?thesis
    by (cases "pv_standing v")
       (auto simp: path_arrived_def path_unproven_def Let_def split: if_splits option.splits)
next
  case False
  show ?thesis
  proof (cases "pv_candidate v")
    case None
    with False assms show ?thesis
      by (auto simp: path_arrived_def path_unproven_def Let_def split: if_splits)
  next
    case (Some q)
    obtain at c where "q = (at, c)" by (cases q)
    with Some False assms show ?thesis
      by (cases c) (auto simp: path_arrived_def path_unproven_def Let_def split: if_splits)
  qed
qed

lemma path_arrived_current [simp]: "pv_current (snd (path_arrived v a n now)) = pv_current v"
  by (auto simp: path_arrived_def Let_def split: option.splits)

lemma path_unproven_answered:
  "path_unproven (snd (path_answered v a t)) b = Some p \<Longrightarrow> path_unproven v b = Some p"
  by (auto simp: path_answered_def path_unproven_def split: if_splits option.splits standing.splits)

text \<open>What a poll does to the probe of an address: nothing, or one step of
  \<^verbatim>\<open>challenge\<close>, and it hands out a token for an address only by such a step.\<close>

definition challenged :: "path_validator \<Rightarrow> path_validator \<Rightarrow> (socket_addr \<times> token) option \<Rightarrow> instant \<Rightarrow> bool" where
  "challenged v v' out now \<longleftrightarrow>
     (\<forall>b p'. path_unproven v' b = Some p' \<longrightarrow>
        (\<exists>p. path_unproven v b = Some p \<and>
           (p' = p \<and> map_option fst out \<noteq> Some b \<or>
            (\<exists>f t. probe_challenge f p now = (t, p') \<and>
               (map_option fst out = Some b \<longrightarrow> map_option snd out = t) \<and>
               (map_option fst out \<noteq> Some b \<longrightarrow> t = None))))) \<and>
     (\<forall>b t. out = Some (b, t) \<longrightarrow> path_unproven v' b \<noteq> None)"

text \<open>A candidate is never the address in use.\<close>

definition path_wf :: "path_validator \<Rightarrow> bool" where
  "path_wf v \<longleftrightarrow> (case pv_candidate v of None \<Rightarrow> True | Some (at, _) \<Rightarrow> at \<noteq> pv_current v)"

lemma path_wf_new [simp]: "path_wf (path_dialled a)" "path_wf (path_claimed a)"
  by (simp_all add: path_wf_def path_dialled_def path_claimed_def)

lemma path_poll_candidate_challenged:
  assumes "path_wf v"
  shows "challenged v (snd (path_poll_candidate f v now)) (fst (path_poll_candidate f v now)) now"
proof (cases "pv_candidate v")
  case None
  then show ?thesis by (auto simp: path_poll_candidate_def challenged_def)
next
  case (Some q)
  obtain at c where q: "q = (at, c)" by (cases q)
  obtain t p' where c: "probe_challenge f (candidate_probe c) now = (t, p')"
    by (cases "probe_challenge f (candidate_probe c) now")
  from assms Some q have "at \<noteq> pv_current v" by (simp add: path_wf_def)
  with Some q c show ?thesis
    by (cases t) (auto simp: path_poll_candidate_def challenged_def path_unproven_def
        split: if_splits standing.splits)
qed

lemma challenged_after:
  assumes ch: "challenged v1 w out now"
    and others: "\<And>b. b \<noteq> c \<Longrightarrow> path_unproven v1 b = path_unproven v b"
    and c: "path_unproven v c = Some p" "probe_challenge f p now = (None, p')"
      "path_unproven w c = Some p'" "map_option fst out \<noteq> Some c"
  shows "challenged v w out now"
  unfolding challenged_def
proof (intro conjI allI impI)
  fix b q
  assume q: "path_unproven w b = Some q"
  show "\<exists>p. path_unproven v b = Some p \<and>
      (q = p \<and> map_option fst out \<noteq> Some b \<or>
       (\<exists>f t. probe_challenge f p now = (t, q) \<and>
          (map_option fst out = Some b \<longrightarrow> map_option snd out = t) \<and>
          (map_option fst out \<noteq> Some b \<longrightarrow> t = None)))"
  proof (cases "b = c")
    case True
    with q c show ?thesis by auto
  next
    case False
    with ch q others [OF False] show ?thesis unfolding challenged_def by metis
  qed
next
  fix b t
  assume "out = Some (b, t)"
  with ch show "path_unproven w b \<noteq> None" by (simp add: challenged_def)
qed

lemma path_poll_challenge_challenged:
  assumes wf: "path_wf v"
  shows "challenged v (snd (path_poll_challenge f1 f2 v now)) (fst (path_poll_challenge f1 f2 v now)) now"
proof (cases "pv_standing v")
  case Proven
  with path_poll_candidate_challenged [OF wf] show ?thesis by (simp add: path_poll_challenge_def)
next
  case (Claimed p)
  obtain t p' where c: "probe_challenge f1 p now = (t, p')" by (cases "probe_challenge f1 p now")
  let ?v = "v\<lparr>pv_standing := Claimed p'\<rparr>"
  have un: "path_unproven ?v b = (if b = pv_current v then Some p' else path_unproven v b)" for b
    by (simp add: path_unproven_def)
  have cur: "path_unproven v (pv_current v) = Some p" using Claimed by (simp add: path_unproven_def)
  show ?thesis
  proof (cases t)
    case (Some token)
    with Claimed c un cur show ?thesis
      by (auto simp: path_poll_challenge_def challenged_def)
  next
    case None
    have "path_wf ?v" using wf by (auto simp: path_wf_def split: option.splits)
    from path_poll_candidate_challenged [OF this, of f2 now]
    have ch: "challenged ?v (snd (path_poll_candidate f2 ?v now)) (fst (path_poll_candidate f2 ?v now)) now" .
    have poll: "path_poll_challenge f1 f2 v now = path_poll_candidate f2 ?v now"
      using Claimed c None by (simp add: path_poll_challenge_def)
    have cand: "map_option fst (fst (path_poll_candidate f2 ?v now)) \<noteq> Some (pv_current v)"
      using \<open>path_wf ?v\<close>
      by (auto simp: path_poll_candidate_def path_wf_def split: option.splits prod.splits)
    have "path_unproven (snd (path_poll_candidate f2 ?v now)) (pv_current v) = Some p'"
      by (simp add: path_unproven_def)
    with ch poll cand un cur c None show ?thesis
      using challenged_after [OF ch, of "pv_current v" v p f1 p'] by simp
  qed
qed

lemma path_wf_step: "path_wf v \<Longrightarrow> path_wf (path_step v op)"
proof (cases op)
  case (Other x)
  assume "path_wf v"
  then show ?thesis
    using Other
    by (cases x) (auto simp: path_wf_def path_poll_challenge_def path_poll_candidate_def path_answered_def
        split: option.splits prod.splits standing.splits if_splits)
next
  case (Transmit a n)
  assume "path_wf v"
  then show ?thesis
    using Transmit
    by (auto simp: path_wf_def path_spent_def path_set_unproven_def
        split: option.splits standing.splits if_splits)
next
  case (Arrive a n now)
  assume "path_wf v"
  then show ?thesis
    using Arrive by (auto simp: path_wf_def path_arrived_def Let_def split: option.splits if_splits)
qed

lemma path_wf_run: "path_wf v \<Longrightarrow> path_wf (path_run v ops)"
  by (induction ops arbitrary: v) (auto simp: path_wf_step)

lemma probe_challenge_cases:
  assumes "probe_challenge f p now = (t, p')"
  shows "(pb_due p' = None) = (pb_due p = None) \<and>
    (t = None \<and> pb_token p' = pb_token p \<and> pb_sent p' = pb_sent p \<or>
     t \<noteq> None \<and> pb_token p' = t \<and> pb_sent p' = pb_sent p + 1 \<and> pb_sent p < PROBE_LIMIT \<and> pb_due p \<noteq> None)"
  using assms by (auto simp: probe_challenge_def probe_deadline_def split: option.splits if_splits)

text \<open>Every token a probe holds was handed out for its address.\<close>

definition tokens_issued :: "(socket_addr \<times> token) list \<Rightarrow> path_validator \<Rightarrow> bool" where
  "tokens_issued L v \<longleftrightarrow>
     (\<forall>b p t. path_unproven v b = Some p \<longrightarrow> pb_token p = Some t \<longrightarrow> (b, t) \<in> set L)"

lemma tokens_issued_step:
  assumes iss: "tokens_issued L v" and wf: "path_wf v"
  shows "tokens_issued (L @ challenge_of v op) (path_step v op)"
proof (cases op)
  case (Arrive a n now)
  have tok: "pb_token (probe_arrived q n now) = pb_token q" "pb_token (probe_earned q n) = pb_token q"
    "pb_token probe_new = None" for q
    by (simp_all add: probe_arrived_def probe_earned_def probe_new_def Let_def)
  have "(b, t) \<in> set L"
    if un: "path_unproven (snd (path_arrived v a n now)) b = Some p" and "pb_token p = Some t" for b p t
    using path_unproven_arrived [OF un] that(2) iss tok by (auto simp: tokens_issued_def)
  with Arrive show ?thesis by (simp add: tokens_issued_def)
next
  case (Transmit a n)
  with iss show ?thesis by (auto simp: tokens_issued_def path_unproven_spent split: if_splits)
next
  case (Other x)
  show ?thesis
  proof (cases x)
    case (AnswerFrom a t)
    with Other iss show ?thesis by (auto simp: tokens_issued_def dest: path_unproven_answered)
  next
    case (PollChallenge f1 f2 now)
    let ?out = "fst (path_poll_challenge f1 f2 v now)"
    let ?v' = "snd (path_poll_challenge f1 f2 v now)"
    have "(b, t) \<in> set L \<or> ?out = Some (b, t)"
      if un: "path_unproven ?v' b = Some p'" and tok: "pb_token p' = Some t" for b p' t
    proof -
      from path_poll_challenge_challenged [OF wf, of f1 f2 now] un obtain p where
        p: "path_unproven v b = Some p" and
        cases: "p' = p \<or> (\<exists>f t. probe_challenge f p now = (t, p') \<and>
           (map_option fst ?out = Some b \<longrightarrow> map_option snd ?out = t) \<and>
           (map_option fst ?out \<noteq> Some b \<longrightarrow> t = None))"
        unfolding challenged_def by blast
      then show ?thesis
        using iss tok unfolding tokens_issued_def
        by (auto dest!: probe_challenge_cases)
    qed
    then have "(b, t) \<in> set (L @ challenge_of v op)"
      if "path_unproven ?v' b = Some p'" "pb_token p' = Some t" for b p' t
      using Other PollChallenge that by force
    moreover have step: "path_step v op = ?v'" using Other PollChallenge by simp
    ultimately show ?thesis unfolding tokens_issued_def step by blast
  qed
qed

lemma tokens_issued_run:
  "tokens_issued L v \<Longrightarrow> path_wf v \<Longrightarrow> tokens_issued (L @ challenges v ops) (path_run v ops)"
proof (induction ops arbitrary: L v)
  case Nil
  then show ?case by simp
next
  case (Cons op ops)
  from Cons.IH [OF tokens_issued_step [OF Cons.prems] path_wf_step [OF Cons.prems(2)]] show ?case
    by simp
qed

lemma tokens_issued_new [simp]: "tokens_issued [] (path_dialled a)" "tokens_issued [] (path_claimed a)"
  by (auto simp: tokens_issued_def path_dialled_def path_claimed_def path_unproven_def probe_new_def
      split: if_splits)

lemma path_answered_migrated:
  assumes "pv_current (snd (path_answered v a t)) \<noteq> pv_current v"
  shows "pv_current (snd (path_answered v a t)) = a"
    and "\<exists>p. path_unproven v a = Some p \<and> pb_token p = Some t"
  using assms by (auto simp: path_answered_def path_unproven_def split: if_splits option.splits standing.splits)

lemma path_step_moves:
  assumes "pv_current (path_step v op) \<noteq> pv_current v" "tokens_issued L v"
  shows "\<exists>t. op = Other (AnswerFrom (pv_current (path_step v op)) t) \<and>
    (pv_current (path_step v op), t) \<in> set L"
proof (cases op)
  case (Other x)
  show ?thesis
  proof (cases x)
    case (PollChallenge f1 f2 now)
    with Other assms(1) show ?thesis by simp
  next
    case (AnswerFrom a t)
    with Other assms(1) have moved: "pv_current (snd (path_answered v a t)) \<noteq> pv_current v" by simp
    then obtain p where "path_unproven v a = Some p" "pb_token p = Some t"
      using path_answered_migrated(2) by blast
    with assms(2) have "(a, t) \<in> set L" by (auto simp: tokens_issued_def)
    with path_answered_migrated(1) [OF moved] AnswerFrom Other show ?thesis by simp
  qed
qed (use assms(1) in \<open>auto split: if_splits\<close>)

text \<open>The chances an address has left.\<close>

definition chances :: "path_validator \<Rightarrow> socket_addr \<Rightarrow> nat" where
  "chances v a = (case path_unproven v a of
     Some p \<Rightarrow> (if pb_due p = None then 0 else PROBE_LIMIT - pb_sent p) | None \<Rightarrow> 0)"

lemma chances_step:
  assumes wf: "path_wf v"
  shows "length (filter (\<lambda>c. fst c = a) (challenge_of v op)) + chances (path_step v op) a
    \<le> chances v a + PROBE_LIMIT * arrivals_from a [op]"
proof (cases op)
  case (Arrive b n now)
  show ?thesis
  proof (cases "b = a")
    case True
    with Arrive show ?thesis by (auto simp: chances_def split: option.splits)
  next
    case False
    with Arrive path_unproven_arrived [of v b n now a] show ?thesis
      by (auto simp: chances_def split: option.splits)
  qed
next
  case (Transmit b n)
  then show ?thesis by (auto simp: chances_def path_unproven_spent split: option.splits if_splits)
next
  case (Other x)
  show ?thesis
  proof (cases x)
    case (AnswerFrom b t)
    with Other path_unproven_answered [of v b t a] show ?thesis
      by (auto simp: chances_def split: option.splits)
  next
    case (PollChallenge f1 f2 now)
    let ?out = "fst (path_poll_challenge f1 f2 v now)"
    let ?v' = "snd (path_poll_challenge f1 f2 v now)"
    have ch: "challenged v ?v' ?out now" by (rule path_poll_challenge_challenged [OF wf])
    show ?thesis
    proof (cases "path_unproven ?v' a")
      case None
      with ch have "map_option fst ?out \<noteq> Some a" by (auto simp: challenged_def)
      with Other PollChallenge None show ?thesis by (auto simp: chances_def split: option.splits)
    next
      case (Some p')
      with ch obtain p where
        p: "path_unproven v a = Some p" and
        cases: "p' = p \<and> map_option fst ?out \<noteq> Some a \<or> (\<exists>f t. probe_challenge f p now = (t, p') \<and>
           (map_option fst ?out = Some a \<longrightarrow> map_option snd ?out = t) \<and>
           (map_option fst ?out \<noteq> Some a \<longrightarrow> t = None))"
        unfolding challenged_def by blast
      with Some Other PollChallenge show ?thesis
        by (auto simp: chances_def dest!: probe_challenge_cases split: option.splits)
    qed
  qed
qed

lemma arrivals_from_Cons: "arrivals_from a (op # ops) = arrivals_from a [op] + arrivals_from a ops"
  by (cases op) auto

lemma challenges_bounded:
  "path_wf v \<Longrightarrow> length (filter (\<lambda>c. fst c = a) (challenges v ops))
     \<le> chances v a + PROBE_LIMIT * arrivals_from a ops"
proof (induction ops arbitrary: v)
  case Nil
  then show ?case by simp
next
  case (Cons op ops)
  from Cons.IH [OF path_wf_step [OF Cons.prems], of op] chances_step [OF Cons.prems, of a op]
  show ?case by (simp add: arrivals_from_Cons [of a op ops] algebra_simps)
qed

section \<open>Properties\<close>

text \<open>The amplification bound. Over any sequence of arrivals, guarded sends, polls and
  answers, the bytes sent to an address while it has proved nothing never exceed three
  times the bytes received from it, for an accepting and for a dialling endpoint.\<close>

theorem path_amplification_bound:
  "sent_unproven path_free path_may_send path_step a (path_claimed peer) ops
     \<le> AMPLIFICATION_LIMIT * received_from a ops \<and>
   sent_unproven path_free path_may_send path_step a (path_dialled peer) ops
     \<le> AMPLIFICATION_LIMIT * received_from a ops"
proof -
  have "path_allowance (path_claimed peer) a = 0" "path_allowance (path_dialled peer) a = 0"
    by (simp_all add: path_allowance_cases path_claimed_def path_dialled_def probe_new_def)
  then show ?thesis
    using pguard.sent_bounded_by_allowance [of a "path_claimed peer" ops]
      pguard.sent_bounded_by_allowance [of a "path_dialled peer" ops]
    by (simp add: path_step_def)
qed

text \<open>C22: the connection never moves on a claim. At any point of any run the address in
  use is the one the endpoint was opened on, or one from which a token arrived that had
  earlier been handed out as a challenge for that very address.\<close>

theorem path_moves_only_on_answer:
  "pv_current (path_run (path_claimed peer) ops) = peer \<or>
   (\<exists>before t after. ops = before @ Other (AnswerFrom (pv_current (path_run (path_claimed peer) ops)) t) # after \<and>
      (pv_current (path_run (path_claimed peer) ops), t) \<in> set (challenges (path_claimed peer) before))"
proof (induction ops rule: rev_induct)
  case Nil
  then show ?case by (simp add: path_claimed_def)
next
  case (snoc op ops)
  let ?v = "path_run (path_claimed peer) ops"
  have v': "path_run (path_claimed peer) (ops @ [op]) = path_step ?v op" by (simp add: path_run_append)
  show ?case
  proof (cases "pv_current (path_step ?v op) = pv_current ?v")
    case True
    with snoc v' show ?thesis by (metis append.assoc append_Cons)
  next
    case False
    have "tokens_issued (challenges (path_claimed peer) ops) ?v"
      using tokens_issued_run [of "[]" "path_claimed peer" ops] by simp
    from path_step_moves [OF False this] obtain t where
      t: "op = Other (AnswerFrom (pv_current (path_step ?v op)) t)"
        "(pv_current (path_step ?v op), t) \<in> set (challenges (path_claimed peer) ops)" by blast
    then have "ops @ [op] = ops @ Other (AnswerFrom (pv_current (path_step ?v op)) t) # []" by simp
    with t(2) show ?thesis unfolding v' by blast
  qed
qed

text \<open>Silence is bounded. The number of challenges ever handed out for an address is
  at most four for each datagram that arrived from it.\<close>

theorem path_challenges_bounded:
  "length (filter (\<lambda>c. fst c = a) (challenges (path_claimed peer) ops))
     \<le> PROBE_LIMIT * arrivals_from a ops"
proof -
  have "chances (path_claimed peer) a = 0"
    by (simp add: chances_def path_unproven_def path_claimed_def probe_new_def)
  with challenges_bounded [of "path_claimed peer" a ops] show ?thesis by simp
qed

end
