(* ===== verification/Mtu.thy ===== *)
theory Mtu
  imports Packet
begin

text \<open>
  The path-MTU search, \<^verbatim>\<open>crates/dgram/src/mtu.rs\<close>: a state machine over four fixed
  candidate sizes, with a confirmation phase before a width in force is given up.
  Each method of \<^verbatim>\<open>Mtu\<close> is a function on the record \<open>mtu\<close>; the counters are natural
  numbers, \<^verbatim>\<open>usize::MAX\<close> is \<open>usize_max\<close>.
\<close>

section \<open>Model\<close>

definition CANDIDATES :: "nat list" where "CANDIDATES = [1400, 1500, 4000, 8900]"
definition CANDIDATE_LOSSES :: nat where "CANDIDATE_LOSSES = 2"
definition PMTU_BLACKHOLE_LOSSES :: nat where "PMTU_BLACKHOLE_LOSSES = 3"
definition PMTU_BLACKHOLE_SILENCES :: nat where "PMTU_BLACKHOLE_SILENCES = 2"
definition CONFIRM_LOSSES :: nat where "CONFIRM_LOSSES = 2"
definition PROBE_SPACING :: duration where "PROBE_SPACING = from_secs 1"
definition COOLDOWN :: duration where "COOLDOWN = from_secs 60"
definition SEARCH_RETRY :: duration where "SEARCH_RETRY = from_secs 60"

datatype fragmentation = Refused | Permitted

datatype search =
    Unproven
  | Asking (ask_candidate: nat) (ask_outstanding: "nat option") (ask_lost: nat) (ask_due: "instant option")
  | Settled
  | Confirming (conf_due: instant) (conf_outstanding: "nat option") (conf_lost: nat)
  | Cooling instant

record mtu =
  m_plpmtu :: nat
  m_search :: search
  m_next :: nat
  m_blackhole :: nat
  m_silences :: nat
  m_suspect :: nat
  m_small_arrived :: bool
  m_fragmentation :: fragmentation

definition mtu_new :: "fragmentation \<Rightarrow> mtu" where
  "mtu_new f =
     \<lparr>m_plpmtu = BASE_DATAGRAM,
      m_search = (case f of Refused \<Rightarrow> Unproven | Permitted \<Rightarrow> Settled),
      m_next = 0, m_blackhole = 0, m_silences = 0, m_suspect = usize_max,
      m_small_arrived = False, m_fragmentation = f\<rparr>"

definition mtu_datagram :: "mtu \<Rightarrow> nat" where
  "mtu_datagram m = m_plpmtu m"

text \<open>The loop of \<^verbatim>\<open>begin\<close> walks the candidates from \<^verbatim>\<open>next\<close> on.\<close>

fun begin_scan :: "nat \<Rightarrow> nat \<Rightarrow> nat list \<Rightarrow> nat \<times> search" where
  "begin_scan plpmtu next [] = (next, Settled)"
| "begin_scan plpmtu next (candidate # rest) =
     (if plpmtu < candidate then (next, Asking candidate None 0 None)
      else begin_scan plpmtu (next + 1) rest)"

definition mtu_begin :: "mtu \<Rightarrow> mtu" where
  "mtu_begin m =
     (let (next, search) = begin_scan (m_plpmtu m) (m_next m) (drop (m_next m) CANDIDATES)
      in m\<lparr>m_next := next, m_search := search\<rparr>)"

definition mtu_proven :: "mtu \<Rightarrow> mtu" where
  "mtu_proven m = (if m_search m = Unproven then mtu_begin m else m)"

definition mtu_migrated :: "mtu \<Rightarrow> mtu" where
  "mtu_migrated m = mtu_new (m_fragmentation m)"

definition mtu_poll :: "mtu \<Rightarrow> instant \<Rightarrow> nat option \<times> mtu" where
  "mtu_poll m now =
     (let m1 = (case m_search m of Cooling until \<Rightarrow> (if until \<le> now then mtu_begin m else m) | _ \<Rightarrow> m)
      in case m_search m1 of
           Asking candidate None lost due \<Rightarrow>
             (if (case due of None \<Rightarrow> True | Some d \<Rightarrow> d \<le> now) then (Some candidate, m1) else (None, m1))
         | Confirming due None lost \<Rightarrow>
             (if due \<le> now
              then (Some (m_plpmtu m1), m1\<lparr>m_search := Confirming (now + PROBE_SPACING) None lost\<rparr>)
              else (None, m1))
         | _ \<Rightarrow> (None, m1))"

definition mtu_confirming :: "mtu \<Rightarrow> bool" where
  "mtu_confirming m = (case m_search m of Confirming _ _ _ \<Rightarrow> True | _ \<Rightarrow> False)"

definition mtu_probing :: "mtu \<Rightarrow> nat \<Rightarrow> mtu" where
  "mtu_probing m number =
     (case m_search m of
        Asking candidate _ lost due \<Rightarrow> m\<lparr>m_search := Asking candidate (Some number) lost due\<rparr>
      | Confirming due _ lost \<Rightarrow> m\<lparr>m_search := Confirming due (Some number) lost\<rparr>
      | _ \<Rightarrow> m)"

definition mtu_deadline :: "mtu \<Rightarrow> instant option" where
  "mtu_deadline m =
     (case m_search m of
        Cooling until \<Rightarrow> Some until
      | Asking _ None _ due \<Rightarrow> due
      | Confirming due None _ \<Rightarrow> Some due
      | _ \<Rightarrow> None)"

definition mtu_withdraw :: "mtu \<Rightarrow> mtu" where
  "mtu_withdraw m =
     (let m1 = m\<lparr>m_blackhole := 0, m_silences := 0, m_suspect := usize_max, m_small_arrived := False\<rparr>
      in if mtu_confirming m1 then mtu_begin m1 else m1)"

definition mtu_acknowledged :: "mtu \<Rightarrow> nat \<Rightarrow> nat \<Rightarrow> mtu" where
  "mtu_acknowledged m number bytes =
     (let m1 = (if bytes \<le> BASE_DATAGRAM then m\<lparr>m_small_arrived := True\<rparr> else m);
          (answered, m2) =
            (case m_search m1 of
               Asking candidate (Some outstanding) _ _ \<Rightarrow>
                 (if outstanding = number
                  then (True, m1\<lparr>m_plpmtu := min candidate MAX_DATAGRAM, m_next := m_next m1 + 1\<rparr>)
                  else (False, m1))
             | Confirming _ (Some outstanding) _ \<Rightarrow> (outstanding = number, m1)
             | _ \<Rightarrow> (False, m1));
          m3 = (if answered \<or> m_suspect m2 \<le> bytes then mtu_withdraw m2 else m2)
      in if answered then mtu_begin m3 else m3)"

definition mtu_oversize :: "mtu \<Rightarrow> nat \<Rightarrow> bool" where
  "mtu_oversize m bytes = (BASE_DATAGRAM < bytes \<and> BASE_DATAGRAM < m_plpmtu m)"

definition mtu_suspected :: "mtu \<Rightarrow> nat \<Rightarrow> instant \<Rightarrow> mtu" where
  "mtu_suspected m bytes now =
     (if \<not> mtu_oversize m bytes then m
      else
        let m1 = m\<lparr>m_blackhole := m_blackhole m + 1, m_suspect := min (m_suspect m) bytes\<rparr>
        in if m_blackhole m1 < PMTU_BLACKHOLE_LOSSES \<or> \<not> m_small_arrived m1 then m1
           else if \<not> mtu_confirming m1 then m1\<lparr>m_search := Confirming now None 0\<rparr>
           else m1)"

definition mtu_narrowed :: "mtu \<Rightarrow> nat \<Rightarrow> instant \<Rightarrow> mtu" where
  "mtu_narrowed m carries now =
     m\<lparr>m_plpmtu := carries, m_blackhole := 0, m_suspect := usize_max, m_small_arrived := False,
       m_next := 0, m_search := Cooling (now + COOLDOWN)\<rparr>"

definition mtu_refused :: "mtu \<Rightarrow> nat \<Rightarrow> instant \<Rightarrow> mtu" where
  "mtu_refused m carries now =
     (let carries = max BASE_DATAGRAM (min carries MAX_DATAGRAM)
      in if m_plpmtu m \<le> carries then m else mtu_narrowed m carries now)"

definition mtu_confirmed_lost :: "mtu \<Rightarrow> nat \<Rightarrow> instant \<Rightarrow> mtu" where
  "mtu_confirmed_lost m lost now =
     (if lost < CONFIRM_LOSSES then m\<lparr>m_search := Confirming (now + PROBE_SPACING) None lost\<rparr>
      else if \<not> m_small_arrived m then mtu_withdraw m
      else mtu_narrowed m BASE_DATAGRAM now)"

definition mtu_probe_gone :: "mtu \<Rightarrow> nat \<Rightarrow> instant \<Rightarrow> bool \<times> mtu" where
  "mtu_probe_gone m number now =
     (case m_search m of
        Asking candidate (Some outstanding) lost due \<Rightarrow>
          (if outstanding = number then
             (True, m\<lparr>m_search :=
                (if CANDIDATE_LOSSES \<le> lost + 1 then Cooling (now + SEARCH_RETRY)
                 else Asking candidate None (lost + 1) (Some (now + PROBE_SPACING)))\<rparr>)
           else (False, m))
      | Confirming _ (Some outstanding) lost \<Rightarrow>
          (if outstanding = number then (True, mtu_confirmed_lost m (lost + 1) now) else (False, m))
      | _ \<Rightarrow> (False, m))"

definition mtu_lost :: "mtu \<Rightarrow> nat \<Rightarrow> nat \<Rightarrow> instant \<Rightarrow> mtu" where
  "mtu_lost m number bytes now =
     (let (gone, m1) = mtu_probe_gone m number now
      in if gone then m1 else mtu_suspected m1 bytes now)"

definition mtu_silent :: "mtu \<Rightarrow> nat \<Rightarrow> nat \<Rightarrow> instant \<Rightarrow> mtu" where
  "mtu_silent m number bytes now =
     (let (gone, m1) = mtu_probe_gone m number now
      in if gone then m1
         else if \<not> mtu_oversize m1 bytes then m1
         else
           let m2 = m1\<lparr>m_silences := m_silences m1 + 1\<rparr>
           in if m_silences m2 < PMTU_BLACKHOLE_SILENCES then m2
              else mtu_suspected (m2\<lparr>m_silences := 0\<rparr>) bytes now)"

definition mtu_forgotten :: "mtu \<Rightarrow> nat \<Rightarrow> instant \<Rightarrow> mtu" where
  "mtu_forgotten m number now = snd (mtu_probe_gone m number now)"

section \<open>Runs\<close>

text \<open>Every call the endpoint makes on the search.\<close>

datatype mtu_op =
    MProven
  | MMigrated
  | MPoll instant
  | MProbing nat
  | MAcknowledged nat nat
  | MLost nat nat instant
  | MSilent nat nat instant
  | MForgotten nat instant
  | MRefused nat instant

fun mtu_step :: "mtu \<Rightarrow> mtu_op \<Rightarrow> mtu" where
  "mtu_step m MProven = mtu_proven m"
| "mtu_step m MMigrated = mtu_migrated m"
| "mtu_step m (MPoll now) = snd (mtu_poll m now)"
| "mtu_step m (MProbing n) = mtu_probing m n"
| "mtu_step m (MAcknowledged n bytes) = mtu_acknowledged m n bytes"
| "mtu_step m (MLost n bytes now) = mtu_lost m n bytes now"
| "mtu_step m (MSilent n bytes now) = mtu_silent m n bytes now"
| "mtu_step m (MForgotten n now) = mtu_forgotten m n now"
| "mtu_step m (MRefused carries now) = mtu_refused m carries now"

definition mtu_run :: "mtu \<Rightarrow> mtu_op list \<Rightarrow> mtu" where
  "mtu_run m ops = foldl mtu_step m ops"

section \<open>Invariant\<close>

text \<open>The width stays between the base size and the widest candidate, the candidates
  before \<^verbatim>\<open>next\<close> are no wider than it, a candidate being asked is the one \<^verbatim>\<open>next\<close> names
  and wider than it, a search at rest has nothing wider left to ask, counts of lost
  probes stay under their limits, and a socket that fragments never leaves the settled
  state.\<close>

definition WIDEST :: nat where "WIDEST = 8900"

fun search_ok :: "nat \<Rightarrow> nat \<Rightarrow> search \<Rightarrow> bool" where
  "search_ok plpmtu next (Asking candidate out lost due) \<longleftrightarrow>
     next < length CANDIDATES \<and> CANDIDATES ! next = candidate \<and> plpmtu < candidate \<and>
     lost < CANDIDATE_LOSSES"
| "search_ok plpmtu next (Confirming due out lost) \<longleftrightarrow> BASE_DATAGRAM < plpmtu \<and> lost < CONFIRM_LOSSES"
| "search_ok plpmtu next Settled \<longleftrightarrow> plpmtu = WIDEST"
| "search_ok plpmtu next (Cooling until) \<longleftrightarrow> plpmtu < WIDEST"
| "search_ok plpmtu next Unproven \<longleftrightarrow> plpmtu = BASE_DATAGRAM"

definition width_ok :: "nat \<Rightarrow> nat \<Rightarrow> bool" where
  "width_ok plpmtu next \<longleftrightarrow>
     BASE_DATAGRAM \<le> plpmtu \<and> plpmtu \<le> WIDEST \<and> (\<forall>c \<in> set (take next CANDIDATES). c \<le> plpmtu)"

definition mtu_ok :: "mtu \<Rightarrow> bool" where
  "mtu_ok m \<longleftrightarrow>
     (m_fragmentation m = Refused \<longrightarrow>
        width_ok (m_plpmtu m) (m_next m) \<and> search_ok (m_plpmtu m) (m_next m) (m_search m)) \<and>
     (m_fragmentation m = Permitted \<longrightarrow> m_plpmtu m = BASE_DATAGRAM \<and> m_search m = Settled)"

lemmas mtu_consts = packet_consts CANDIDATES_def WIDEST_def CANDIDATE_LOSSES_def CONFIRM_LOSSES_def

lemma candidates_between:
  "n < length CANDIDATES \<Longrightarrow> BASE_DATAGRAM < CANDIDATES ! n \<and> CANDIDATES ! n \<le> WIDEST"
proof -
  have "\<forall>c \<in> set CANDIDATES. BASE_DATAGRAM < c \<and> c \<le> WIDEST" by (simp add: mtu_consts)
  then show "n < length CANDIDATES \<Longrightarrow> BASE_DATAGRAM < CANDIDATES ! n \<and> CANDIDATES ! n \<le> WIDEST"
    using nth_mem by blast
qed

lemma width_ok_0 [simp]: "width_ok p 0 \<longleftrightarrow> BASE_DATAGRAM \<le> p \<and> p \<le> WIDEST"
  by (simp add: width_ok_def)

lemma width_ok_all: "width_ok p n \<Longrightarrow> length CANDIDATES \<le> n \<Longrightarrow> p = WIDEST"
  by (auto simp: width_ok_def CANDIDATES_def WIDEST_def)

lemma width_ok_Suc:
  "n < length CANDIDATES \<Longrightarrow> width_ok p (Suc n) \<longleftrightarrow> width_ok p n \<and> CANDIDATES ! n \<le> p"
  by (auto simp: width_ok_def take_Suc_conv_app_nth)

lemma width_ok_mono: "width_ok p n \<Longrightarrow> p \<le> q \<Longrightarrow> q \<le> WIDEST \<Longrightarrow> width_ok q n"
  by (auto simp: width_ok_def)

lemma begin_scan_ok:
  "width_ok p n \<Longrightarrow> begin_scan p n cs = (n', s) \<Longrightarrow> drop n CANDIDATES = cs \<Longrightarrow>
     width_ok p n' \<and> search_ok p n' s \<and> (s = Settled \<or> (\<exists>c. s = Asking c None 0 None))"
proof (induction cs arbitrary: n)
  case Nil
  then show ?case using width_ok_all by auto
next
  case (Cons c cs)
  have at: "n < length CANDIDATES"
    using Cons.prems(3) by (metis drop_all linorder_not_less list.distinct(1))
  have nth: "CANDIDATES ! n = c" and drop: "drop (Suc n) CANDIDATES = cs"
    using Cons.prems(3) by (rule nth_via_drop, metis Cons.prems(3) drop_Suc list.sel(3) tl_drop)
  note at = at nth drop
  show ?case
  proof (cases "p < c")
    case True
    with Cons.prems at show ?thesis by (auto simp: CANDIDATE_LOSSES_def)
  next
    case False
    with Cons.prems at have "width_ok p (Suc n)" by (simp add: width_ok_Suc)
    with Cons.IH [of "Suc n"] Cons.prems at False show ?thesis by simp
  qed
qed

lemma mtu_begin_frame [simp]:
  "m_plpmtu (mtu_begin m) = m_plpmtu m" "m_fragmentation (mtu_begin m) = m_fragmentation m"
  "m_blackhole (mtu_begin m) = m_blackhole m" "m_suspect (mtu_begin m) = m_suspect m"
  "m_small_arrived (mtu_begin m) = m_small_arrived m" "m_silences (mtu_begin m) = m_silences m"
  by (simp_all add: mtu_begin_def split: prod.splits)

lemma mtu_begin_spec:
  assumes "width_ok (m_plpmtu m) (m_next m)"
  shows "width_ok (m_plpmtu m) (m_next (mtu_begin m)) \<and>
         search_ok (m_plpmtu m) (m_next (mtu_begin m)) (m_search (mtu_begin m)) \<and>
         (m_search (mtu_begin m) = Settled \<or> (\<exists>c. m_search (mtu_begin m) = Asking c None 0 None))"
proof -
  obtain n s where scan: "begin_scan (m_plpmtu m) (m_next m) (drop (m_next m) CANDIDATES) = (n, s)"
    by (cases "begin_scan (m_plpmtu m) (m_next m) (drop (m_next m) CANDIDATES)")
  from begin_scan_ok [OF assms scan refl] scan show ?thesis by (simp add: mtu_begin_def)
qed

lemma mtu_begin_ok:
  "width_ok (m_plpmtu m) (m_next m) \<Longrightarrow> m_fragmentation m = Refused \<Longrightarrow> mtu_ok (mtu_begin m)"
  using mtu_begin_spec [of m] by (simp add: mtu_ok_def)

lemma mtu_ok_Refused:
  "m_fragmentation m = Refused \<Longrightarrow>
     mtu_ok m \<longleftrightarrow> width_ok (m_plpmtu m) (m_next m) \<and> search_ok (m_plpmtu m) (m_next m) (m_search m)"
  by (simp add: mtu_ok_def)

lemma mtu_ok_new: "mtu_ok (mtu_new f)"
  by (cases f) (simp_all add: mtu_ok_def mtu_new_def mtu_consts)

section \<open>What each call does to the width\<close>

text \<open>The reference: a width rises only when the probe outstanding for a candidate is
  acknowledged, and falls only by a migration, by a size the kernel names, or when the
  last confirmation probe is given up while small datagrams arrive.\<close>

definition probe_asked :: "mtu \<Rightarrow> nat \<Rightarrow> nat option" where
  "probe_asked m number =
     (case m_search m of
        Asking candidate (Some n) _ _ \<Rightarrow> if n = number then Some candidate else None
      | _ \<Rightarrow> None)"

definition condemned :: "mtu \<Rightarrow> nat \<Rightarrow> bool" where
  "condemned m number =
     (case m_search m of
        Confirming _ (Some n) lost \<Rightarrow> n = number \<and> lost + 1 = CONFIRM_LOSSES \<and> m_small_arrived m
      | _ \<Rightarrow> False)"

fun width_after :: "mtu \<Rightarrow> mtu_op \<Rightarrow> nat" where
  "width_after m MMigrated = BASE_DATAGRAM"
| "width_after m (MAcknowledged n bytes) =
     (case probe_asked m n of Some candidate \<Rightarrow> candidate | None \<Rightarrow> m_plpmtu m)"
| "width_after m (MRefused carries now) = min (m_plpmtu m) (max BASE_DATAGRAM carries)"
| "width_after m (MLost n bytes now) = (if condemned m n then BASE_DATAGRAM else m_plpmtu m)"
| "width_after m (MSilent n bytes now) = (if condemned m n then BASE_DATAGRAM else m_plpmtu m)"
| "width_after m (MForgotten n now) = (if condemned m n then BASE_DATAGRAM else m_plpmtu m)"
| "width_after m MProven = m_plpmtu m"
| "width_after m (MPoll now) = m_plpmtu m"
| "width_after m (MProbing n) = m_plpmtu m"

lemma mtu_width_bounds:
  "mtu_ok m \<Longrightarrow> BASE_DATAGRAM \<le> m_plpmtu m \<and> m_plpmtu m \<le> WIDEST"
  by (cases "m_fragmentation m") (simp_all add: mtu_ok_def width_ok_def mtu_consts)

lemma mtu_withdraw_frame [simp]:
  "m_plpmtu (mtu_withdraw m) = m_plpmtu m" "m_fragmentation (mtu_withdraw m) = m_fragmentation m"
  by (simp_all add: mtu_withdraw_def Let_def)

lemma mtu_confirming_refused: "mtu_ok m \<Longrightarrow> mtu_confirming m \<Longrightarrow> m_fragmentation m = Refused"
  by (cases "m_fragmentation m") (simp_all add: mtu_ok_def mtu_confirming_def)

lemma mtu_withdraw_ok:
  assumes "mtu_ok m"
  shows "mtu_ok (mtu_withdraw m)"
proof -
  let ?m = "m\<lparr>m_blackhole := 0, m_silences := 0, m_suspect := usize_max, m_small_arrived := False\<rparr>"
  have same: "mtu_ok ?m" "mtu_confirming ?m = mtu_confirming m"
    using assms by (simp_all add: mtu_ok_def mtu_confirming_def)
  have "mtu_ok (mtu_begin ?m)" if "mtu_confirming m"
    using mtu_confirming_refused [OF assms that] assms by (intro mtu_begin_ok) (simp_all add: mtu_ok_def)
  with same show ?thesis by (simp add: mtu_withdraw_def Let_def)
qed

lemma mtu_narrowed_ok:
  "m_fragmentation m = Refused \<Longrightarrow> BASE_DATAGRAM \<le> w \<Longrightarrow> w < WIDEST \<Longrightarrow> mtu_ok (mtu_narrowed m w now)"
  by (simp add: mtu_ok_def mtu_narrowed_def)

lemma mtu_suspected_spec:
  "mtu_ok m \<Longrightarrow> mtu_ok (mtu_suspected m bytes now) \<and> m_plpmtu (mtu_suspected m bytes now) = m_plpmtu m"
  by (cases "m_fragmentation m")
    (auto simp: mtu_suspected_def mtu_oversize_def mtu_confirming_def Let_def mtu_ok_def CONFIRM_LOSSES_def)

lemma mtu_confirmed_lost_spec:
  assumes "mtu_ok m" "m_search m = Confirming due out lost"
  shows "mtu_ok (mtu_confirmed_lost m (lost + 1) now) \<and>
         m_plpmtu (mtu_confirmed_lost m (lost + 1) now) =
           (if lost + 1 = CONFIRM_LOSSES \<and> m_small_arrived m then BASE_DATAGRAM else m_plpmtu m)"
proof -
  have refused: "m_fragmentation m = Refused"
    using assms by (cases "m_fragmentation m") (simp_all add: mtu_ok_def)
  with assms have lost: "lost + 1 \<le> CONFIRM_LOSSES" by (simp add: mtu_ok_def)
  show ?thesis
  proof (cases "lost + 1 < CONFIRM_LOSSES")
    case True
    with assms refused show ?thesis by (simp add: mtu_confirmed_lost_def mtu_ok_def)
  next
    case False
    then have "\<not> lost + 1 < CONFIRM_LOSSES" "lost + 1 = CONFIRM_LOSSES" using lost by auto
    with refused mtu_withdraw_ok [OF assms(1)] mtu_narrowed_ok [OF refused, of BASE_DATAGRAM now]
    show ?thesis by (simp add: mtu_confirmed_lost_def mtu_narrowed_def mtu_consts)
  qed
qed

lemma mtu_probe_gone_spec:
  assumes "mtu_ok m" "mtu_probe_gone m number now = (gone, m')"
  shows "mtu_ok m' \<and> m_plpmtu m' = (if condemned m number then BASE_DATAGRAM else m_plpmtu m) \<and>
         (\<not> gone \<longrightarrow> m' = m)"
proof (cases "m_search m")
  case (Asking candidate out lost due)
  moreover have "m_fragmentation m = Refused"
    using assms Asking by (cases "m_fragmentation m") (simp_all add: mtu_ok_def)
  moreover have "candidate \<le> WIDEST"
    using calculation assms(1) candidates_between [of "m_next m"] by (auto simp: mtu_ok_def)
  ultimately show ?thesis using assms
    by (cases out) (auto simp: mtu_probe_gone_def mtu_ok_def condemned_def split: if_splits)
next
  case (Confirming due out lost)
  show ?thesis
  proof (cases "out = Some number")
    case True
    with Confirming assms mtu_confirmed_lost_spec [OF assms(1) Confirming, of now]
    show ?thesis by (auto simp: mtu_probe_gone_def condemned_def)
  next
    case False
    with Confirming assms show ?thesis
      by (cases out) (auto simp: mtu_probe_gone_def condemned_def)
  qed
qed (use assms in \<open>auto simp: mtu_probe_gone_def condemned_def\<close>)

lemma mtu_lost_spec:
  assumes "mtu_ok m"
  shows "mtu_ok (mtu_lost m n bytes now) \<and>
         m_plpmtu (mtu_lost m n bytes now) = (if condemned m n then BASE_DATAGRAM else m_plpmtu m)"
proof -
  obtain gone m' where gone: "mtu_probe_gone m n now = (gone, m')" by fastforce
  from mtu_probe_gone_spec [OF assms gone] mtu_suspected_spec [of m' bytes now] gone
  show ?thesis by (auto simp: mtu_lost_def)
qed

lemma mtu_silent_spec:
  assumes "mtu_ok m"
  shows "mtu_ok (mtu_silent m n bytes now) \<and>
         m_plpmtu (mtu_silent m n bytes now) = (if condemned m n then BASE_DATAGRAM else m_plpmtu m)"
proof -
  obtain gone m' where gone: "mtu_probe_gone m n now = (gone, m')" by fastforce
  have ok: "mtu_ok (m\<lparr>m_silences := k\<rparr>) = mtu_ok m" for k and m :: mtu by (simp add: mtu_ok_def)
  from mtu_probe_gone_spec [OF assms gone] mtu_suspected_spec [of "m'\<lparr>m_silences := 0\<rparr>" bytes now] gone
  show ?thesis by (auto simp: mtu_silent_def Let_def ok)
qed

lemma mtu_forgotten_spec:
  assumes "mtu_ok m"
  shows "mtu_ok (mtu_forgotten m n now) \<and>
         m_plpmtu (mtu_forgotten m n now) = (if condemned m n then BASE_DATAGRAM else m_plpmtu m)"
proof -
  obtain gone m' where gone: "mtu_probe_gone m n now = (gone, m')" by fastforce
  from mtu_probe_gone_spec [OF assms gone] gone show ?thesis by (simp add: mtu_forgotten_def)
qed

lemma mtu_refused_spec:
  assumes "mtu_ok m"
  shows "mtu_ok (mtu_refused m carries now) \<and>
         m_plpmtu (mtu_refused m carries now) = min (m_plpmtu m) (max BASE_DATAGRAM carries)"
proof -
  note bounds = mtu_width_bounds [OF assms]
  let ?c = "max BASE_DATAGRAM (min carries MAX_DATAGRAM)"
  show ?thesis
  proof (cases "m_plpmtu m \<le> ?c")
    case True
    with assms bounds show ?thesis by (auto simp: mtu_refused_def mtu_consts)
  next
    case False
    then have "m_fragmentation m = Refused"
      using assms by (cases "m_fragmentation m") (simp_all add: mtu_ok_def)
    then have "mtu_ok (mtu_narrowed m ?c now)"
      using False bounds by (intro mtu_narrowed_ok) (auto simp: mtu_consts)
    moreover have "?c = min (m_plpmtu m) (max BASE_DATAGRAM carries)"
      using False bounds by (auto simp: mtu_consts)
    ultimately show ?thesis using False by (simp add: mtu_refused_def mtu_narrowed_def)
  qed
qed

lemma mtu_acknowledged_spec:
  assumes "mtu_ok m"
  shows "mtu_ok (mtu_acknowledged m n bytes) \<and>
         m_plpmtu (mtu_acknowledged m n bytes) =
           (case probe_asked m n of Some candidate \<Rightarrow> candidate | None \<Rightarrow> m_plpmtu m)"
proof -
  define m1 where "m1 = (if bytes \<le> BASE_DATAGRAM then m\<lparr>m_small_arrived := True\<rparr> else m)"
  have m1: "mtu_ok m1" "m_search m1 = m_search m" "m_plpmtu m1 = m_plpmtu m"
    "m_fragmentation m1 = m_fragmentation m"
    using assms by (simp_all add: m1_def mtu_ok_def)
  show ?thesis
  proof (cases "\<exists>c lost due. m_search m = Asking c (Some n) lost due")
    case True
    then obtain c lost due where asking: "m_search m = Asking c (Some n) lost due" by blast
    then have refused: "m_fragmentation m1 = Refused"
      using m1 by (cases "m_fragmentation m") (simp_all add: mtu_ok_def)
    with asking m1 have at: "m_next m1 < length CANDIDATES" "CANDIDATES ! m_next m1 = c"
      "width_ok (m_plpmtu m1) (m_next m1)" "m_plpmtu m1 < c"
      by (simp_all add: mtu_ok_def)
    define m2 where "m2 = m1\<lparr>m_plpmtu := min c MAX_DATAGRAM, m_next := m_next m1 + 1\<rparr>"
    have c: "min c MAX_DATAGRAM = c"
      using candidates_between [OF at(1)] at(2) by (simp add: mtu_consts)
    have "width_ok c (m_next m1)"
      using width_ok_mono [OF at(3)] at candidates_between [OF at(1)] by simp
    with at have wide: "width_ok (m_plpmtu m2) (m_next m2)" by (simp add: m2_def c width_ok_Suc)
    have search: "m_search m2 = m_search m" using m1 by (simp add: m2_def)
    then have kept: "m_next (mtu_withdraw m2) = m_next m2"
      using asking by (simp add: mtu_withdraw_def Let_def mtu_confirming_def)
    have "mtu_acknowledged m n bytes = mtu_begin (mtu_withdraw m2)"
      using asking m1 by (simp add: mtu_acknowledged_def Let_def m1_def [symmetric] m2_def)
    moreover have "m_plpmtu m2 = c" "m_fragmentation m2 = Refused" by (simp_all add: m2_def c refused)
    ultimately show ?thesis
      using wide kept asking by (simp add: mtu_begin_ok probe_asked_def)
  next
    case False
    then have none: "probe_asked m n = None"
      by (auto simp: probe_asked_def split: search.splits option.splits)
    have opened: "mtu_ok (mtu_begin (mtu_withdraw m1))" if "mtu_confirming m1"
      using mtu_withdraw_ok [OF m1(1)] mtu_confirming_refused [OF m1(1) that]
      by (intro mtu_begin_ok) (simp_all add: mtu_ok_def)
    have "mtu_acknowledged m n bytes \<in> {m1, mtu_withdraw m1} \<or>
          mtu_confirming m1 \<and> mtu_acknowledged m n bytes = mtu_begin (mtu_withdraw m1)"
      using False m1(2)
      by (auto simp: mtu_acknowledged_def Let_def m1_def [symmetric] mtu_confirming_def
               split: search.splits option.splits)
    with opened none m1 mtu_withdraw_ok [OF m1(1)] show ?thesis by auto
  qed
qed

lemma mtu_poll_cases:
  "m_search m = Cooling until \<Longrightarrow> until \<le> now \<Longrightarrow> m1 = mtu_begin m \<Longrightarrow>
     m_search m1 = Asking c None lost None \<Longrightarrow> mtu_poll m now = (Some c, m1)"
  by (simp add: mtu_poll_def Let_def)

lemma mtu_cooling_wakes:
  assumes "mtu_ok m" "m_search m = Cooling until" "until \<le> now"
  shows "\<exists>c. mtu_poll m now = (Some c, mtu_begin m) \<and> m_search (mtu_begin m) = Asking c None 0 None"
proof -
  have "m_fragmentation m = Refused"
    using assms by (cases "m_fragmentation m") (simp_all add: mtu_ok_def)
  with assms have "width_ok (m_plpmtu m) (m_next m)" "m_plpmtu m < WIDEST" by (simp_all add: mtu_ok_def)
  with mtu_begin_spec [of m] have "\<exists>c. m_search (mtu_begin m) = Asking c None 0 None" by auto
  with mtu_poll_cases [OF assms(2,3) refl] show ?thesis by blast
qed

lemma mtu_poll_spec:
  assumes "mtu_ok m"
  shows "mtu_ok (snd (mtu_poll m now)) \<and> m_plpmtu (snd (mtu_poll m now)) = m_plpmtu m"
proof (cases "\<exists>until. m_search m = Cooling until \<and> until \<le> now")
  case True
  then obtain until where cool: "m_search m = Cooling until" "until \<le> now" by blast
  then have "m_fragmentation m = Refused"
    using assms by (cases "m_fragmentation m") (simp_all add: mtu_ok_def)
  with assms have "mtu_ok (mtu_begin m)" by (intro mtu_begin_ok) (simp_all add: mtu_ok_def)
  with mtu_cooling_wakes [OF assms cool] show ?thesis by auto
next
  case False
  with assms show ?thesis
    by (auto simp: mtu_poll_def Let_def mtu_ok_def split: search.splits option.splits)
qed

lemma mtu_step_spec:
  "mtu_ok m \<Longrightarrow> mtu_ok (mtu_step m op) \<and> m_plpmtu (mtu_step m op) = width_after m op"
proof (cases op)
  case MProven
  assume "mtu_ok m"
  moreover have "m_search m = Unproven \<Longrightarrow> mtu_ok (mtu_begin m)"
    using calculation
    by (intro mtu_begin_ok; cases "m_fragmentation m") (simp_all add: mtu_ok_def)
  ultimately show ?thesis using MProven by (simp add: mtu_proven_def)
next
  case (MProbing n)
  then show "mtu_ok m \<Longrightarrow> ?thesis"
    by (auto simp: mtu_probing_def mtu_ok_def split: search.splits)
qed (simp_all add: mtu_migrated_def mtu_ok_new mtu_new_def [THEN arg_cong, of m_plpmtu] mtu_poll_spec
      mtu_acknowledged_spec mtu_lost_spec mtu_silent_spec mtu_forgotten_spec mtu_refused_spec)

lemma mtu_ok_run: "mtu_ok m \<Longrightarrow> mtu_ok (mtu_run m ops)"
  unfolding mtu_run_def by (induction ops arbitrary: m) (simp_all add: mtu_step_spec)

section \<open>A search whose probes are answered\<close>

text \<open>One exchange as the endpoint runs it: the search offers a size, the datagram goes out
  under a number, and the acknowledgement of that number comes back.\<close>

definition probe_round :: "mtu \<Rightarrow> nat \<times> instant \<Rightarrow> mtu" where
  "probe_round m r =
     (case mtu_poll m (snd r) of
        (Some width, m1) \<Rightarrow> mtu_acknowledged (mtu_probing m1 (fst r)) (fst r) width
      | (None, m1) \<Rightarrow> m1)"

definition probe_rounds :: "mtu \<Rightarrow> (nat \<times> instant) list \<Rightarrow> mtu" where
  "probe_rounds m rs = foldl probe_round m rs"

lemma mtu_ok_probe_round: "mtu_ok m \<Longrightarrow> mtu_ok (probe_round m r)"
proof -
  assume ok: "mtu_ok m"
  have "mtu_ok (mtu_acknowledged (mtu_probing (snd (mtu_poll m (snd r))) (fst r)) (fst r) w)" for w
    using mtu_step_spec [of m "MPoll (snd r)"] mtu_step_spec [of _ "MProbing (fst r)"]
      mtu_step_spec [of _ "MAcknowledged (fst r) w"] ok by simp
  then show ?thesis using mtu_poll_spec [OF ok, of "snd r"]
    by (auto simp: probe_round_def split: prod.splits option.splits)
qed

text \<open>What is left: the candidates not yet passed, and the confirmation if one is open.\<close>

definition search_left :: "mtu \<Rightarrow> nat" where
  "search_left m =
     (case m_search m of
        Settled \<Rightarrow> 0
      | Confirming _ _ _ \<Rightarrow> Suc (length CANDIDATES)
      | _ \<Rightarrow> length CANDIDATES - m_next m)"

lemma begin_scan_next: "begin_scan p n cs = (n', s) \<Longrightarrow> n \<le> n'"
  by (induction p n cs rule: begin_scan.induct) (auto split: if_splits)

lemma mtu_begin_next: "m_next m \<le> m_next (mtu_begin m)"
  using begin_scan_next by (auto simp: mtu_begin_def split: prod.splits)

definition idle_search :: "search \<Rightarrow> bool" where
  "idle_search s \<longleftrightarrow> s = Settled \<or> (\<exists>c lost. s = Asking c None lost None)"

lemma mtu_begin_idle [simp]: "idle_search (m_search (mtu_begin m))"
proof -
  have "begin_scan p k cs = (k', s) \<Longrightarrow> idle_search s" for p k cs k' s
    by (induction p k cs rule: begin_scan.induct) (auto simp: idle_search_def split: if_splits)
  then show ?thesis by (simp add: mtu_begin_def split: prod.splits)
qed

lemma acknowledged_probe:
  assumes "mtu_ok m" "m_search m = Asking c (Some n) lost due"
  shows "idle_search (m_search (mtu_acknowledged m n w)) \<and>
         m_next m < m_next (mtu_acknowledged m n w)"
proof -
  define m1 where "m1 = (if w \<le> BASE_DATAGRAM then m\<lparr>m_small_arrived := True\<rparr> else m)"
  define m2 where "m2 = m1\<lparr>m_plpmtu := min c MAX_DATAGRAM, m_next := m_next m1 + 1\<rparr>"
  have m1: "m_search m1 = m_search m" "m_next m1 = m_next m" by (simp_all add: m1_def)
  have ack: "mtu_acknowledged m n w = mtu_begin (mtu_withdraw m2)"
    using assms m1 by (simp add: mtu_acknowledged_def Let_def m1_def [symmetric] m2_def)
  have "m_next (mtu_withdraw m2) = m_next m + 1"
    using assms m1 by (simp add: mtu_withdraw_def Let_def mtu_confirming_def m2_def)
  with mtu_begin_next [of "mtu_withdraw m2"] ack
  have "m_next m < m_next (mtu_acknowledged m n w)" by simp
  then show ?thesis using ack by simp
qed

lemma acknowledged_confirmation:
  assumes "m_search m = Confirming due (Some n) lost"
  shows "idle_search (m_search (mtu_acknowledged m n w))"
  using assms by (simp add: mtu_acknowledged_def Let_def)

lemma mtu_poll_offers:
  assumes "mtu_ok m" "mtu_poll m now = (Some w, m1)"
  shows "(\<exists>lost due. m_search m1 = Asking w None lost due \<and> \<not> mtu_confirming m \<and> m_search m \<noteq> Settled \<and> m_next m \<le> m_next m1) \<or>
         (\<exists>due lost. m_search m1 = Confirming due None lost \<and> mtu_confirming m)"
proof (cases "\<exists>until. m_search m = Cooling until \<and> until \<le> now")
  case True
  then obtain until where "m_search m = Cooling until" "until \<le> now" by blast
  with mtu_cooling_wakes [OF assms(1) this] assms(2) mtu_begin_next [of m]
  show ?thesis by (auto simp: mtu_confirming_def)
next
  case False
  with assms(2) show ?thesis
    by (auto simp: mtu_poll_def Let_def mtu_confirming_def split: search.splits option.splits if_splits)
qed

lemma probe_round_progress:
  assumes ok: "mtu_ok m" and offer: "fst (mtu_poll m (snd r)) \<noteq> None"
  shows "idle_search (m_search (probe_round m r)) \<and> search_left (probe_round m r) < search_left m"
proof -
  obtain w m1 where poll: "mtu_poll m (snd r) = (Some w, m1)"
    using offer by (cases "mtu_poll m (snd r)") auto
  let ?p = "mtu_probing m1 (fst r)"
  let ?a = "mtu_acknowledged ?p (fst r) w"
  have round: "probe_round m r = ?a" by (simp add: probe_round_def poll)
  have "mtu_ok m1" using mtu_poll_spec [OF ok, of "snd r"] poll by simp
  then have okp: "mtu_ok ?p" using mtu_step_spec [of m1 "MProbing (fst r)"] by simp
  from mtu_poll_offers [OF ok poll] show ?thesis
  proof (elim disjE exE conjE)
    fix lost due
    assume asking: "m_search m1 = Asking w None lost due" and "\<not> mtu_confirming m"
      and "m_search m \<noteq> Settled" and "m_next m \<le> m_next m1"
    then have search: "m_search ?p = Asking w (Some (fst r)) lost due" and nxt: "m_next ?p = m_next m1"
      by (simp_all add: mtu_probing_def)
    have "m_next m1 < length CANDIDATES"
      using okp search nxt by (cases "m_fragmentation ?p") (simp_all add: mtu_ok_def)
    moreover have "search_left m = length CANDIDATES - m_next m"
      using \<open>\<not> mtu_confirming m\<close> \<open>m_search m \<noteq> Settled\<close>
      by (auto simp: search_left_def mtu_confirming_def split: search.splits)
    moreover note acknowledged_probe [OF okp search, of w]
    ultimately show ?thesis using round nxt \<open>m_next m \<le> m_next m1\<close>
      by (auto simp: search_left_def idle_search_def)
  next
    fix due lost
    assume conf: "m_search m1 = Confirming due None lost" and "mtu_confirming m"
    then have "m_search ?p = Confirming due (Some (fst r)) lost" by (simp add: mtu_probing_def)
    from acknowledged_confirmation [OF this, of w] round \<open>mtu_confirming m\<close>
    show ?thesis by (auto simp: search_left_def idle_search_def mtu_confirming_def split: search.splits)
  qed
qed

lemma probe_rounds_settle:
  "mtu_ok m \<Longrightarrow> idle_search (m_search m) \<Longrightarrow> search_left m \<le> length rs \<Longrightarrow>
     m_search (probe_rounds m rs) = Settled \<and> mtu_ok (probe_rounds m rs)"
proof (induction rs arbitrary: m)
  case Nil
  then show ?case
    by (cases "m_fragmentation m") (auto simp: probe_rounds_def idle_search_def search_left_def mtu_ok_def)
next
  case (Cons r rs)
  have step: "mtu_ok (probe_round m r)" using Cons.prems by (simp add: mtu_ok_probe_round)
  show ?case
  proof (cases "m_search m = Settled")
    case True
    then have "probe_round m r = m" by (simp add: probe_round_def mtu_poll_def)
    with Cons.IH [of m] Cons.prems True show ?thesis by (simp add: probe_rounds_def search_left_def)
  next
    case False
    with Cons.prems have "fst (mtu_poll m (snd r)) \<noteq> None"
      by (auto simp: idle_search_def mtu_poll_def)
    with probe_round_progress [of m r] Cons.prems Cons.IH [of "probe_round m r"] step
    show ?thesis by (simp add: probe_rounds_def)
  qed
qed

section \<open>The premise the search opened on\<close>

lemma fragmentation_kept [simp]:
  "m_fragmentation (mtu_new f) = f"
  "m_fragmentation (mtu_proven m) = m_fragmentation m"
  "m_fragmentation (mtu_migrated m) = m_fragmentation m"
  "m_fragmentation (mtu_probing m n) = m_fragmentation m"
  "m_fragmentation (mtu_suspected m bytes now) = m_fragmentation m"
  "m_fragmentation (mtu_narrowed m w now) = m_fragmentation m"
  "m_fragmentation (mtu_refused m w now) = m_fragmentation m"
  by (simp_all add: mtu_new_def mtu_proven_def mtu_migrated_def mtu_probing_def mtu_suspected_def
      mtu_narrowed_def mtu_refused_def Let_def split: search.splits)

lemma fragmentation_kept_lost [simp]:
  "m_fragmentation (mtu_confirmed_lost m k now) = m_fragmentation m"
  "m_fragmentation (snd (mtu_probe_gone m n now)) = m_fragmentation m"
  by (auto simp: mtu_confirmed_lost_def mtu_probe_gone_def split: search.splits option.splits)

lemma fragmentation_kept_calls [simp]:
  "m_fragmentation (snd (mtu_poll m now)) = m_fragmentation m"
  "m_fragmentation (mtu_acknowledged m n bytes) = m_fragmentation m"
  "m_fragmentation (mtu_lost m n bytes now) = m_fragmentation m"
  "m_fragmentation (mtu_silent m n bytes now) = m_fragmentation m"
  "m_fragmentation (mtu_forgotten m n now) = m_fragmentation m"
  by (auto simp: mtu_poll_def mtu_acknowledged_def mtu_lost_def mtu_silent_def mtu_forgotten_def Let_def
      split_beta split: search.splits option.splits)

lemma mtu_step_fragmentation: "m_fragmentation (mtu_step m op) = m_fragmentation m"
  by (cases op) simp_all

lemma mtu_run_fragmentation [simp]: "m_fragmentation (mtu_run m ops) = m_fragmentation m"
  unfolding mtu_run_def by (induction ops arbitrary: m) (simp_all add: mtu_step_fragmentation)

lemma probe_rounds_fragmentation: "m_fragmentation (probe_rounds m rs) = m_fragmentation m"
proof -
  have "m_fragmentation (probe_round m r) = m_fragmentation m" for m r
    by (simp add: probe_round_def split_beta split: option.splits)
  then show ?thesis
    unfolding probe_rounds_def by (induction rs arbitrary: m) simp_all
qed

section \<open>Properties\<close>

text \<open>Whatever the endpoint reports to the search, the datagram size in force is at
  least the base size every path carries and at most the largest datagram the packet layer
  admits; and on a socket that fragments it stays at the base size and no probe is ever
  offered.\<close>

theorem mtu_width_in_range:
  "BASE_DATAGRAM \<le> mtu_datagram (mtu_run (mtu_new f) ops) \<and>
   mtu_datagram (mtu_run (mtu_new f) ops) \<le> MAX_DATAGRAM \<and>
   mtu_datagram (mtu_run (mtu_new Permitted) ops) = BASE_DATAGRAM \<and>
   fst (mtu_poll (mtu_run (mtu_new Permitted) ops) now) = None"
proof -
  have ok: "mtu_ok (mtu_run (mtu_new g) ops)" for g by (simp add: mtu_ok_run mtu_ok_new)
  have "m_fragmentation (mtu_run (mtu_new Permitted) ops) = Permitted"
    by (simp add: mtu_run_fragmentation)
  with ok [of Permitted] mtu_width_bounds [OF ok [of f]] show ?thesis
    by (simp add: mtu_datagram_def mtu_ok_def mtu_poll_def mtu_consts)
qed

text \<open>C28. On every state the search can reach, each call moves the width exactly as the
  reference says: it rises only to the candidate whose outstanding probe was acknowledged,
  and falls only by a migration, a size the kernel refused above, or the second lost
  confirmation probe of a path that still carries small datagrams.\<close>

theorem mtu_width_refines:
  "mtu_datagram (mtu_step (mtu_run (mtu_new f) ops) op) = width_after (mtu_run (mtu_new f) ops) op"
  by (simp add: mtu_datagram_def mtu_step_spec mtu_ok_run mtu_ok_new)

text \<open>C29. A search whose probes come back finishes: from any reachable state in which it
  offers a probe, five answered rounds leave it settled at the widest candidate.\<close>

theorem mtu_search_completes:
  assumes "fst (mtu_poll (mtu_run (mtu_new f) ops) (snd r)) \<noteq> None" "4 \<le> length rs"
  shows "mtu_datagram (probe_rounds (mtu_run (mtu_new f) ops) (r # rs)) = 8900 \<and>
         m_search (probe_rounds (mtu_run (mtu_new f) ops) (r # rs)) = Settled"
proof -
  let ?m = "mtu_run (mtu_new f) ops"
  have ok: "mtu_ok ?m" by (simp add: mtu_ok_run mtu_ok_new)
  have "search_left ?m \<le> 5" by (auto simp: search_left_def CANDIDATES_def split: search.splits)
  with probe_round_progress [OF ok assms(1)]
  have round: "idle_search (m_search (probe_round ?m r))" "search_left (probe_round ?m r) \<le> length rs"
    using assms(2) by auto
  have settled: "m_search (probe_rounds ?m (r # rs)) = Settled" "mtu_ok (probe_rounds ?m (r # rs))"
    using probe_rounds_settle [OF mtu_ok_probe_round [OF ok] round] by (simp_all add: probe_rounds_def)
  have "m_fragmentation ?m = Refused"
    using assms(1) ok by (cases "m_fragmentation ?m") (simp_all add: mtu_ok_def mtu_poll_def)
  then have "m_fragmentation (probe_rounds ?m (r # rs)) = Refused"
    by (simp add: probe_rounds_fragmentation)
  with settled show ?thesis by (simp add: mtu_ok_def mtu_datagram_def WIDEST_def)
qed

lemma mtu_search_completes_witness:
  "mtu_datagram (probe_rounds (mtu_run (mtu_new Refused) [MProven]) ((1, 0) # [(2, 1), (3, 2), (4, 3), (5, 4)])) = 8900"
proof -
  have "fst (mtu_poll (mtu_run (mtu_new Refused) [MProven]) (snd (1::nat, 0::nat))) \<noteq> None"
    by (simp add: mtu_run_def mtu_new_def mtu_proven_def mtu_begin_def mtu_poll_def mtu_consts)
  from mtu_search_completes [OF this, of "[(2, 1), (3, 2), (4, 3), (5, 4)]"] show ?thesis by simp
qed

text \<open>The instant the search asks to be woken at is honest: on every reachable state it
  offers a probe at \<open>now\<close> exactly when a candidate has never been asked, or when the
  deadline it names has come. A wake-up at the deadline is never in vain.\<close>

theorem mtu_deadline_exact:
  "fst (mtu_poll (mtu_run (mtu_new f) ops) now) \<noteq> None \<longleftrightarrow>
     (case mtu_deadline (mtu_run (mtu_new f) ops) of
        Some d \<Rightarrow> d \<le> now
      | None \<Rightarrow> \<exists>c lost. m_search (mtu_run (mtu_new f) ops) = Asking c None lost None)"
proof -
  let ?m = "mtu_run (mtu_new f) ops"
  have ok: "mtu_ok ?m" by (simp add: mtu_ok_run mtu_ok_new)
  show ?thesis
  proof (cases "\<exists>until. m_search ?m = Cooling until \<and> until \<le> now")
    case True
    then obtain until where "m_search ?m = Cooling until" "until \<le> now" by blast
    with mtu_cooling_wakes [OF ok this] show ?thesis by (auto simp: mtu_deadline_def)
  next
    case False
    then show ?thesis
      by (auto simp: mtu_poll_def mtu_deadline_def Let_def split: search.splits option.splits)
  qed
qed

end
