(* ===== verification/Loss.thy ===== *)
theory Loss
  imports Packet "HOL-Library.Multiset"
begin

text \<open>
  Round-trip estimation and loss detection, \<^verbatim>\<open>crates/dgram/src/loss.rs\<close>. The flight is a
  list in the order of sealing; the two reports \<^verbatim>\<open>arrived\<close> and \<^verbatim>\<open>gone\<close> are fields, as in
  the source, cleared by each call. The estimators work on microseconds as natural
  numbers: the bound on them proved below is what keeps the source's \<^verbatim>\<open>u64\<close> sums
  from wrapping.
\<close>

section \<open>Model: the round trip\<close>

definition PACKET_THRESHOLD :: nat where "PACKET_THRESHOLD = 3"
definition INITIAL_RTT :: duration where "INITIAL_RTT = from_millis 333"
definition MIN_LOSS_DELAY :: duration where "MIN_LOSS_DELAY = from_millis 1"
definition TIMER_GRANULARITY :: nat where "TIMER_GRANULARITY = 1000"
definition MAX_ACK_DELAY :: duration where "MAX_ACK_DELAY = from_millis 25"
definition MAX_TRACKED :: nat where "MAX_TRACKED = 4096"
definition PERSISTENT_CONGESTION_THRESHOLD :: nat where "PERSISTENT_CONGESTION_THRESHOLD = 3"
definition RTT_MIN_WINDOW :: duration where "RTT_MIN_WINDOW = from_secs 10"
definition MAX_PTO_BACKOFF :: nat where "MAX_PTO_BACKOFF = 6"

definition micros :: "duration \<Rightarrow> nat" where
  "micros d = min (d div 1000) u64_max"

record rtt =
  rtt_smoothed_us :: "nat option"
  rtt_var :: nat
  rtt_latest_adjusted :: nat
  rtt_min_adjusted :: "(nat \<times> instant) option"

definition rtt_default :: rtt where
  "rtt_default = \<lparr>rtt_smoothed_us = None, rtt_var = 0, rtt_latest_adjusted = 0, rtt_min_adjusted = None\<rparr>"

definition abs_diff :: "nat \<Rightarrow> nat \<Rightarrow> nat" where
  "abs_diff a b = (if a < b then b - a else a - b)"

definition rtt_sample :: "rtt \<Rightarrow> duration \<Rightarrow> duration \<Rightarrow> instant \<Rightarrow> rtt" where
  "rtt_sample r taken delay now =
     (let adjusted = max (micros taken - micros delay) 1;
          replace = (case rtt_min_adjusted r of
              None \<Rightarrow> True
            | Some (least, since) \<Rightarrow>
                adjusted < least \<or> RTT_MIN_WINDOW \<le> saturating_duration_since now since);
          r1 = r\<lparr>rtt_latest_adjusted := adjusted\<rparr>;
          r2 = (if replace then r1\<lparr>rtt_min_adjusted := Some (adjusted, now)\<rparr> else r1)
      in case rtt_smoothed_us r2 of
           None \<Rightarrow> r2\<lparr>rtt_smoothed_us := Some adjusted, rtt_var := adjusted div 2\<rparr>
         | Some smoothed \<Rightarrow>
             r2\<lparr>rtt_var := (rtt_var r2 * 3 + abs_diff smoothed adjusted) div 4,
                rtt_smoothed_us := Some ((smoothed * 7 + adjusted) div 8)\<rparr>)"

definition rtt_smoothed :: "rtt \<Rightarrow> duration option" where
  "rtt_smoothed r = map_option from_micros (rtt_smoothed_us r)"

definition rtt_variation :: "rtt \<Rightarrow> duration" where
  "rtt_variation r = from_micros (rtt_var r)"

definition rtt_latest :: "rtt \<Rightarrow> duration" where
  "rtt_latest r = from_micros (rtt_latest_adjusted r)"

definition rtt_minimum :: "rtt \<Rightarrow> duration option" where
  "rtt_minimum r = map_option (\<lambda>(least, _). from_micros least) (rtt_min_adjusted r)"

definition rtt_loss_delay :: "rtt \<Rightarrow> duration" where
  "rtt_loss_delay r =
     (let base = (case rtt_smoothed_us r of
          None \<Rightarrow> micros INITIAL_RTT
        | Some smoothed \<Rightarrow> max (max smoothed (rtt_latest_adjusted r)) (rtt_var r))
      in max (from_micros (base * 9 div 8)) MIN_LOSS_DELAY)"

definition rtt_probe_timeout :: "rtt \<Rightarrow> duration" where
  "rtt_probe_timeout r =
     (let smoothed = (case rtt_smoothed_us r of None \<Rightarrow> micros INITIAL_RTT | Some s \<Rightarrow> s)
      in from_micros (smoothed + max (4 * rtt_var r) TIMER_GRANULARITY) + MAX_ACK_DELAY)"

definition rtt_persistent_congestion_period :: "rtt \<Rightarrow> duration" where
  "rtt_persistent_congestion_period r = rtt_probe_timeout r * PERSISTENT_CONGESTION_THRESHOLD"

section \<open>Model: the flight\<close>

datatype limited = Application | Window

record in_flight =
  if_number :: nat
  if_bytes :: nat
  if_sent :: instant
  if_limited :: limited

record arrived_packet =
  ar_number :: nat
  ar_bytes :: nat
  ar_sent :: instant
  ar_limited :: limited

datatype cause = Lost | Silent | Overflowed

record gone_packet =
  gn_number :: nat
  gn_bytes :: nat
  gn_sent :: instant
  gn_cause :: cause

record written_off_packet =
  wo_number :: nat
  wo_cause :: cause

text \<open>\<^verbatim>\<open>Acknowledgement\<close> wraps an \<open>ack\<close> that passed this check.\<close>

definition acknowledgement_checked :: "ack \<Rightarrow> nat \<Rightarrow> ack option" where
  "acknowledgement_checked a next = (if ack_largest a < next then Some a else None)"

definition ack_covers :: "ack \<Rightarrow> nat \<Rightarrow> bool" where
  "ack_covers a number =
     (if number = ack_largest a then True
      else if ack_largest a < number then False
      else let behind = ack_largest a - number
           in behind \<le> 64 \<and> ack_map a AND push_bit (behind - 1) 1 \<noteq> 0)"

record loss_detector =
  ld_sent :: "in_flight list"
  ld_rtt :: rtt
  ld_largest_acked :: "nat option"
  ld_arrived :: "arrived_packet list"
  ld_gone :: "gone_packet list"
  ld_written_off :: "written_off_packet list"
  ld_silence :: nat
  ld_silent_since :: "instant option"
  ld_answered :: bool
  ld_persistent :: bool
  ld_revived :: bool
  ld_losses :: nat
  ld_spurious :: nat

definition loss_new :: loss_detector where
  "loss_new =
     \<lparr>ld_sent = [], ld_rtt = rtt_default, ld_largest_acked = None, ld_arrived = [], ld_gone = [],
      ld_written_off = [], ld_silence = 0, ld_silent_since = None, ld_answered = False,
      ld_persistent = False, ld_revived = False, ld_losses = 0, ld_spurious = 0\<rparr>"

definition loss_probe_timeout :: "loss_detector \<Rightarrow> duration" where
  "loss_probe_timeout ld =
     duration_saturating_mul (rtt_probe_timeout (ld_rtt ld)) (2 ^ min (ld_silence ld) MAX_PTO_BACKOFF)"

definition loss_migrated :: "loss_detector \<Rightarrow> loss_detector" where
  "loss_migrated ld =
     ld\<lparr>ld_rtt := rtt_default, ld_silence := 0, ld_silent_since := None, ld_answered := False,
        ld_largest_acked := None, ld_written_off := []\<rparr>"

definition loss_tracked :: "loss_detector \<Rightarrow> nat" where
  "loss_tracked ld = length (ld_sent ld)"

definition loss_admits :: "loss_detector \<Rightarrow> bool" where
  "loss_admits ld = (length (ld_sent ld) < MAX_TRACKED)"

definition loss_clear :: "loss_detector \<Rightarrow> loss_detector" where
  "loss_clear ld = ld\<lparr>ld_arrived := [], ld_gone := [], ld_persistent := False, ld_revived := False\<rparr>"

text \<open>\<^verbatim>\<open>pop_front\<close> while the register holds more than 64.\<close>

fun trim_front :: "nat \<Rightarrow> 'a list \<Rightarrow> 'a list" where
  "trim_front limit [] = []"
| "trim_front limit (x # xs) = (if limit < length (x # xs) then trim_front limit xs else x # xs)"

definition loss_retire :: "loss_detector \<Rightarrow> in_flight \<Rightarrow> cause \<Rightarrow> loss_detector" where
  "loss_retire ld packet cause =
     (let ld1 = (if cause = Lost then ld\<lparr>ld_losses := ld_losses ld + 1\<rparr> else ld)
      in ld1\<lparr>ld_written_off :=
               trim_front 64 (ld_written_off ld1 @ [\<lparr>wo_number = if_number packet, wo_cause = cause\<rparr>]),
             ld_gone := ld_gone ld1 @
               [\<lparr>gn_number = if_number packet, gn_bytes = if_bytes packet, gn_sent = if_sent packet,
                 gn_cause = cause\<rparr>]\<rparr>)"

text \<open>The loop of \<^verbatim>\<open>sealed\<close>: while the table holds too many, the oldest overflows.\<close>

fun overflow_scan :: "in_flight list \<Rightarrow> loss_detector \<Rightarrow> loss_detector" where
  "overflow_scan [] ld = ld\<lparr>ld_sent := []\<rparr>"
| "overflow_scan (oldest # rest) ld =
     (if MAX_TRACKED < length (oldest # rest) then overflow_scan rest (loss_retire ld oldest Overflowed)
      else ld\<lparr>ld_sent := oldest # rest\<rparr>)"

definition loss_sealed :: "loss_detector \<Rightarrow> in_flight \<Rightarrow> loss_detector" where
  "loss_sealed ld packet =
     (let ld1 = loss_clear ld in overflow_scan (ld_sent ld1 @ [packet]) ld1)"

text \<open>One packet given up on in silence: the run of silence it belongs to, and whether that
  run has now lasted long enough to be persistent congestion.\<close>

definition loss_abandon :: "loss_detector \<Rightarrow> in_flight \<Rightarrow> loss_detector" where
  "loss_abandon ld oldest =
     (let since = (case ld_silent_since ld of Some s \<Rightarrow> s | None \<Rightarrow> if_sent oldest);
          ld1 = ld\<lparr>ld_silent_since := Some since\<rparr>
      in if \<not> ld_answered ld1 \<and> rtt_smoothed (ld_rtt ld1) \<noteq> None \<and>
            rtt_persistent_congestion_period (ld_rtt ld1) \<le> saturating_duration_since (if_sent oldest) since
         then ld1\<lparr>ld_persistent := True, ld_answered := True\<rparr>
         else ld1)"

text \<open>What \<^verbatim>\<open>detect\<close> decides of the oldest packet: \<open>None\<close> ends the loop.\<close>

definition loss_verdict ::
  "nat option \<Rightarrow> duration \<Rightarrow> duration \<Rightarrow> instant \<Rightarrow> in_flight \<Rightarrow> cause option" where
  "loss_verdict largest_acked loss_delay probe_timeout now oldest =
     (let age = saturating_duration_since now (if_sent oldest);
          overtaken = (case largest_acked of
              Some largest \<Rightarrow> if_number oldest + PACKET_THRESHOLD \<le> largest | None \<Rightarrow> False);
          stale = ((case largest_acked of Some largest \<Rightarrow> if_number oldest < largest | None \<Rightarrow> False) \<and>
              loss_delay \<le> age)
      in if overtaken \<or> stale then Some Lost
         else if probe_timeout \<le> age then Some Silent
         else None)"

fun detect_scan ::
  "duration \<Rightarrow> duration \<Rightarrow> instant \<Rightarrow> in_flight list \<Rightarrow> bool \<Rightarrow> loss_detector \<Rightarrow> bool \<times> loss_detector" where
  "detect_scan loss_delay probe_timeout now [] abandoned ld = (abandoned, ld\<lparr>ld_sent := []\<rparr>)"
| "detect_scan loss_delay probe_timeout now (oldest # rest) abandoned ld =
     (case loss_verdict (ld_largest_acked ld) loss_delay probe_timeout now oldest of
        None \<Rightarrow> (abandoned, ld\<lparr>ld_sent := oldest # rest\<rparr>)
      | Some Silent \<Rightarrow>
          detect_scan loss_delay probe_timeout now rest True
            (loss_retire (loss_abandon ld oldest) oldest Silent)
      | Some cause \<Rightarrow>
          detect_scan loss_delay probe_timeout now rest abandoned (loss_retire ld oldest cause))"

definition loss_detect :: "loss_detector \<Rightarrow> instant \<Rightarrow> loss_detector" where
  "loss_detect ld now =
     (let (abandoned, ld1) =
        detect_scan (rtt_loss_delay (ld_rtt ld)) (loss_probe_timeout ld) now (ld_sent ld) False ld
      in if abandoned then ld1\<lparr>ld_silence := ld_silence ld1 + 1\<rparr> else ld1)"

text \<open>The two loops of \<^verbatim>\<open>count_spurious\<close>.\<close>

fun spurious_floor :: "nat \<Rightarrow> written_off_packet list \<Rightarrow> written_off_packet list" where
  "spurious_floor floor [] = []"
| "spurious_floor floor (w # ws) = (if wo_number w < floor then spurious_floor floor ws else w # ws)"

fun spurious_scan ::
  "ack \<Rightarrow> written_off_packet list \<Rightarrow> nat \<Rightarrow> bool \<Rightarrow> written_off_packet list \<times> nat \<times> bool" where
  "spurious_scan a [] spurious revived = ([], spurious, revived)"
| "spurious_scan a (w # ws) spurious revived =
     (if ack_covers a (wo_number w)
      then spurious_scan a ws (spurious + 1) (revived \<or> wo_cause w \<noteq> Overflowed)
      else let (kept, s, r) = spurious_scan a ws spurious revived in (w # kept, s, r))"

definition loss_count_spurious :: "loss_detector \<Rightarrow> ack \<Rightarrow> loss_detector" where
  "loss_count_spurious ld a =
     (let (kept, spurious, revived) =
        spurious_scan a (spurious_floor (ack_largest a - 64) (ld_written_off ld)) (ld_spurious ld) (ld_revived ld)
      in ld\<lparr>ld_written_off := kept, ld_spurious := spurious, ld_revived := revived\<rparr>)"

text \<open>\<^verbatim>\<open>partition_point\<close> counts the leading elements that satisfy the predicate; the flight
  ascends by number, which is what the binary search of the library asks for.\<close>

definition partition_point :: "('a \<Rightarrow> bool) \<Rightarrow> 'a list \<Rightarrow> nat" where
  "partition_point P xs = length (takeWhile P xs)"

definition arrived_of :: "in_flight \<Rightarrow> arrived_packet" where
  "arrived_of p = \<lparr>ar_number = if_number p, ar_bytes = if_bytes p, ar_sent = if_sent p, ar_limited = if_limited p\<rparr>"

text \<open>The backwards walk of \<^verbatim>\<open>acknowledged\<close> from \<^verbatim>\<open>end\<close> down to \<^verbatim>\<open>start\<close>: the flight left,
  the arrivals pushed so far, and the sample.\<close>

fun ack_scan ::
  "ack \<Rightarrow> instant \<Rightarrow> nat \<Rightarrow> nat \<Rightarrow> in_flight list \<Rightarrow> arrived_packet list \<Rightarrow> duration option \<Rightarrow>
     in_flight list \<times> arrived_packet list \<times> duration option" where
  "ack_scan a now start 0 sent arrived sample = (sent, arrived, sample)"
| "ack_scan a now start (Suc index) sent arrived sample =
     (if start \<le> index then
        let packet = sent ! index in
        if \<not> ack_covers a (if_number packet) then ack_scan a now start index sent arrived sample
        else
          ack_scan a now start index (take index sent @ drop (Suc index) sent)
            (arrived @ [arrived_of packet])
            (if if_number packet = ack_largest a
             then Some (saturating_duration_since now (if_sent packet)) else sample)
      else (sent, arrived, sample))"

definition loss_acknowledged :: "loss_detector \<Rightarrow> ack \<Rightarrow> instant \<Rightarrow> duration option \<times> loss_detector" where
  "loss_acknowledged ld a now =
     (let ld1 = (loss_clear ld)\<lparr>ld_silence := 0, ld_silent_since := None, ld_answered := False,
            ld_largest_acked := Some (case ld_largest_acked ld of
                None \<Rightarrow> ack_largest a | Some seen \<Rightarrow> max seen (ack_largest a))\<rparr>;
          finish = partition_point (\<lambda>p. if_number p \<le> ack_largest a) (ld_sent ld1);
          start = partition_point (\<lambda>p. if_number p < ack_largest a - 64) (ld_sent ld1);
          (sent, arrived, sample) = ack_scan a now start finish (ld_sent ld1) [] None;
          ld2 = loss_count_spurious (ld1\<lparr>ld_sent := sent, ld_arrived := rev arrived\<rparr>) a;
          ld3 = (case sample of
              Some taken \<Rightarrow> ld2\<lparr>ld_rtt := rtt_sample (ld_rtt ld2) taken (ack_delay a) now\<rparr>
            | None \<Rightarrow> ld2)
      in (sample, loss_detect ld3 now))"

definition loss_expire :: "loss_detector \<Rightarrow> instant \<Rightarrow> loss_detector" where
  "loss_expire ld now = loss_detect (loss_clear ld) now"

definition loss_deadline :: "loss_detector \<Rightarrow> instant option" where
  "loss_deadline ld =
     (case ld_sent ld of
        [] \<Rightarrow> None
      | oldest # _ \<Rightarrow>
          let deadline = if_sent oldest + loss_probe_timeout ld
          in if (case ld_largest_acked ld of Some largest \<Rightarrow> if_number oldest < largest | None \<Rightarrow> False)
             then Some (min deadline (if_sent oldest + rtt_loss_delay (ld_rtt ld)))
             else Some deadline)"

section \<open>Driving the detector\<close>

text \<open>How the endpoint drives it: numbers are dealt in order, the clock never runs
  backwards, and an acknowledgement passes \<^verbatim>\<open>Acknowledgement::checked\<close> first.\<close>

record loss_driver =
  dv_next :: nat
  dv_clock :: instant
  dv_loss :: loss_detector

datatype loss_op = LSeal nat limited | LAck ack | LExpire | LMigrated | LWait duration

definition driver_new :: "instant \<Rightarrow> loss_driver" where
  "driver_new start = \<lparr>dv_next = 0, dv_clock = start, dv_loss = loss_new\<rparr>"

fun driver_step :: "loss_driver \<Rightarrow> loss_op \<Rightarrow> loss_driver" where
  "driver_step d (LSeal bytes limited) =
     d\<lparr>dv_next := dv_next d + 1,
       dv_loss := loss_sealed (dv_loss d)
         \<lparr>if_number = dv_next d, if_bytes = bytes, if_sent = dv_clock d, if_limited = limited\<rparr>\<rparr>"
| "driver_step d (LAck a) =
     (case acknowledgement_checked a (dv_next d) of
        None \<Rightarrow> d
      | Some a \<Rightarrow> d\<lparr>dv_loss := snd (loss_acknowledged (dv_loss d) a (dv_clock d))\<rparr>)"
| "driver_step d LExpire = d\<lparr>dv_loss := loss_expire (dv_loss d) (dv_clock d)\<rparr>"
| "driver_step d LMigrated = d\<lparr>dv_loss := loss_migrated (dv_loss d)\<rparr>"
| "driver_step d (LWait dt) = d\<lparr>dv_clock := dv_clock d + dt\<rparr>"

definition driver_run :: "loss_driver \<Rightarrow> loss_op list \<Rightarrow> loss_driver" where
  "driver_run d ops = foldl driver_step d ops"

section \<open>What the loops compute\<close>

named_theorems loss_frames

lemma trim_front_drop: "trim_front limit xs = drop (length xs - limit) xs"
  by (induction limit xs rule: trim_front.induct) (auto simp: Suc_diff_le not_less)

lemma loss_retire_frame [loss_frames]:
  "ld_sent (loss_retire ld p c) = ld_sent ld" "ld_rtt (loss_retire ld p c) = ld_rtt ld"
  "ld_largest_acked (loss_retire ld p c) = ld_largest_acked ld"
  "ld_arrived (loss_retire ld p c) = ld_arrived ld" "ld_silence (loss_retire ld p c) = ld_silence ld"
  by (simp_all add: loss_retire_def Let_def)

lemma loss_abandon_frame [loss_frames]:
  "ld_sent (loss_abandon ld p) = ld_sent ld" "ld_rtt (loss_abandon ld p) = ld_rtt ld"
  "ld_largest_acked (loss_abandon ld p) = ld_largest_acked ld" "ld_gone (loss_abandon ld p) = ld_gone ld"
  "ld_arrived (loss_abandon ld p) = ld_arrived ld" "ld_silence (loss_abandon ld p) = ld_silence ld"
  "ld_written_off (loss_abandon ld p) = ld_written_off ld"
  by (simp_all add: loss_abandon_def Let_def)

lemma loss_clear_frame [loss_frames]:
  "ld_sent (loss_clear ld) = ld_sent ld" "ld_rtt (loss_clear ld) = ld_rtt ld"
  "ld_largest_acked (loss_clear ld) = ld_largest_acked ld" "ld_gone (loss_clear ld) = []"
  "ld_arrived (loss_clear ld) = []" "ld_silence (loss_clear ld) = ld_silence ld"
  "ld_written_off (loss_clear ld) = ld_written_off ld"
  by (simp_all add: loss_clear_def)

definition gone_of :: "cause \<Rightarrow> in_flight \<Rightarrow> gone_packet" where
  "gone_of cause p = \<lparr>gn_number = if_number p, gn_bytes = if_bytes p, gn_sent = if_sent p, gn_cause = cause\<rparr>"

lemma loss_retire_gone [loss_frames]: "ld_gone (loss_retire ld p c) = ld_gone ld @ [gone_of c p]"
  by (simp add: loss_retire_def gone_of_def Let_def)

lemma loss_retire_written_off: "length (ld_written_off (loss_retire ld p c)) \<le> 64"
  by (simp add: loss_retire_def Let_def trim_front_drop)

lemma overflow_scan_spec:
  "ld_sent (overflow_scan xs ld) = drop (length xs - MAX_TRACKED) xs \<and>
   ld_gone (overflow_scan xs ld) = ld_gone ld @ map (gone_of Overflowed) (take (length xs - MAX_TRACKED) xs) \<and>
   ld_arrived (overflow_scan xs ld) = ld_arrived ld \<and>
   ld_rtt (overflow_scan xs ld) = ld_rtt ld \<and>
   ld_largest_acked (overflow_scan xs ld) = ld_largest_acked ld \<and>
   (length (ld_written_off ld) \<le> 64 \<longrightarrow> length (ld_written_off (overflow_scan xs ld)) \<le> 64)"
proof (induction xs ld rule: overflow_scan.induct)
  case (2 oldest rest ld)
  then show ?case
    by (cases "MAX_TRACKED < length (oldest # rest)")
      (simp_all add: loss_frames loss_retire_written_off Suc_diff_le not_less)
qed simp

lemma detect_scan_spec:
  assumes "detect_scan delay pto now xs abandoned ld = (abandoned', ld')"
  defines "V \<equiv> loss_verdict (ld_largest_acked ld) delay pto now"
  shows "ld_sent ld' = dropWhile (\<lambda>p. V p \<noteq> None) xs \<and>
         ld_gone ld' = ld_gone ld @ map (\<lambda>p. gone_of (the (V p)) p) (takeWhile (\<lambda>p. V p \<noteq> None) xs) \<and>
         ld_arrived ld' = ld_arrived ld \<and> ld_rtt ld' = ld_rtt ld \<and>
         ld_largest_acked ld' = ld_largest_acked ld \<and>
         (length (ld_written_off ld) \<le> 64 \<longrightarrow> length (ld_written_off ld') \<le> 64)"
  using assms(1) unfolding V_def
proof (induction delay pto now xs abandoned ld rule: detect_scan.induct)
  case (2 delay pto now oldest rest abandoned ld)
  show ?case
  proof (cases "loss_verdict (ld_largest_acked ld) delay pto now oldest")
    case None
    with "2.prems" show ?thesis by auto
  next
    case (Some c)
    with "2.prems" "2.IH" show ?thesis
      by (cases c) (auto simp: loss_frames loss_retire_written_off)
  qed
qed auto

lemma loss_detect_spec:
  defines "V \<equiv> \<lambda>ld now. loss_verdict (ld_largest_acked ld) (rtt_loss_delay (ld_rtt ld)) (loss_probe_timeout ld) now"
  shows "ld_sent (loss_detect ld now) = dropWhile (\<lambda>p. V ld now p \<noteq> None) (ld_sent ld)"
    "ld_gone (loss_detect ld now) =
       ld_gone ld @ map (\<lambda>p. gone_of (the (V ld now p)) p) (takeWhile (\<lambda>p. V ld now p \<noteq> None) (ld_sent ld))"
    "ld_arrived (loss_detect ld now) = ld_arrived ld"
    "ld_rtt (loss_detect ld now) = ld_rtt ld"
    "ld_largest_acked (loss_detect ld now) = ld_largest_acked ld"
    "length (ld_written_off ld) \<le> 64 \<Longrightarrow> length (ld_written_off (loss_detect ld now)) \<le> 64"
proof -
  obtain ab ld' where scan:
    "detect_scan (rtt_loss_delay (ld_rtt ld)) (loss_probe_timeout ld) now (ld_sent ld) False ld = (ab, ld')"
    by fastforce
  note spec = detect_scan_spec [OF scan]
  show "ld_sent (loss_detect ld now) = dropWhile (\<lambda>p. V ld now p \<noteq> None) (ld_sent ld)"
    "ld_gone (loss_detect ld now) =
       ld_gone ld @ map (\<lambda>p. gone_of (the (V ld now p)) p) (takeWhile (\<lambda>p. V ld now p \<noteq> None) (ld_sent ld))"
    "ld_arrived (loss_detect ld now) = ld_arrived ld"
    "ld_rtt (loss_detect ld now) = ld_rtt ld"
    "ld_largest_acked (loss_detect ld now) = ld_largest_acked ld"
    "length (ld_written_off ld) \<le> 64 \<Longrightarrow> length (ld_written_off (loss_detect ld now)) \<le> 64"
    using spec by (simp_all add: loss_detect_def scan V_def)
qed

lemma ack_covers_range: "ack_covers a n \<Longrightarrow> n \<le> ack_largest a \<and> ack_largest a - 64 \<le> n"
  by (auto simp: ack_covers_def Let_def split: if_splits)

lemma ack_covers_largest [simp]: "ack_covers a (ack_largest a)"
  by (simp add: ack_covers_def)

abbreviation covered :: "ack \<Rightarrow> in_flight \<Rightarrow> bool" where
  "covered a p \<equiv> ack_covers a (if_number p)"

definition sample_of :: "ack \<Rightarrow> instant \<Rightarrow> duration option \<Rightarrow> in_flight list \<Rightarrow> duration option" where
  "sample_of a now s ps =
     (case filter (\<lambda>p. if_number p = ack_largest a) ps of
        [] \<Rightarrow> s | p # _ \<Rightarrow> Some (saturating_duration_since now (if_sent p)))"

lemma ack_scan_spec:
  "ack_scan a now start (length xs) (xs @ ys) arrived sample =
     (take start xs @ filter (\<lambda>p. \<not> covered a p) (drop start xs) @ ys,
      arrived @ map arrived_of (rev (filter (covered a) (drop start xs))),
      sample_of a now sample (drop start xs))"
proof (induction xs arbitrary: ys arrived sample rule: rev_induct)
  case Nil
  then show ?case by (simp add: sample_of_def)
next
  case (snoc x xs)
  show ?case
  proof (cases "start \<le> length xs")
    case True
    show ?thesis
    proof (cases "covered a x")
      case cov: True
      then show ?thesis using True snoc [of ys]
        by (auto simp: sample_of_def split: list.splits)
    next
      case cov: False
      then have "if_number x \<noteq> ack_largest a" by auto
      with cov True snoc [of "x # ys"] show ?thesis by (simp add: sample_of_def)
    qed
  next
    case False
    then show ?thesis by (simp add: sample_of_def)
  qed
qed

section \<open>An ascending flight\<close>

definition later :: "in_flight \<Rightarrow> in_flight \<Rightarrow> bool" where
  "later p q \<longleftrightarrow> if_number p < if_number q \<and> if_sent p \<le> if_sent q"

definition ascending :: "in_flight list \<Rightarrow> bool" where
  "ascending ps \<longleftrightarrow> sorted_wrt later ps"

lemma ascending_filter: "ascending ps \<Longrightarrow> ascending (filter P ps)"
  by (simp add: ascending_def sorted_wrt_filter)

lemma ascending_drop: "ascending ps \<Longrightarrow> ascending (drop n ps)"
  by (simp add: ascending_def sorted_wrt_drop)

lemma ascending_dropWhile: "ascending ps \<Longrightarrow> ascending (dropWhile P ps)"
  by (simp add: dropWhile_eq_drop ascending_drop)

lemma ascending_snoc:
  "ascending (ps @ [p]) \<longleftrightarrow> ascending ps \<and> (\<forall>q \<in> set ps. later q p)"
  by (simp add: ascending_def sorted_wrt_append)

text \<open>A test that only ever holds of earlier packets when it holds of a later one splits an
  ascending flight in two.\<close>

lemma ascending_takeWhile:
  assumes "ascending ps" "\<And>p q. later p q \<Longrightarrow> P q \<Longrightarrow> P p"
  shows "takeWhile P ps = filter P ps" "dropWhile P ps = filter (\<lambda>p. \<not> P p) ps"
proof -
  have "takeWhile P ps = filter P ps \<and> dropWhile P ps = filter (\<lambda>p. \<not> P p) ps"
    using assms(1)
  proof (induction ps)
    case (Cons p ps)
    then have later: "\<forall>q \<in> set ps. later p q" and "ascending ps" by (auto simp: ascending_def)
    show ?case
    proof (cases "P p")
      case True
      with Cons.IH \<open>ascending ps\<close> show ?thesis by simp
    next
      case False
      then have "\<forall>q \<in> set ps. \<not> P q" using later assms(2) by blast
      then have "filter P ps = [] \<and> filter (\<lambda>p. \<not> P p) ps = ps" by simp
      with False show ?thesis by simp
    qed
  qed simp
  then show "takeWhile P ps = filter P ps" "dropWhile P ps = filter (\<lambda>p. \<not> P p) ps" by auto
qed

lemma takeWhile_idle: "(\<And>x. P x \<Longrightarrow> Q x) \<Longrightarrow> takeWhile P (takeWhile Q xs) = takeWhile P xs"
  by (induction xs) auto

lemma ack_scan_ascending:
  assumes "ascending ps"
  shows "ack_scan a now (partition_point (\<lambda>p. if_number p < ack_largest a - 64) ps)
           (partition_point (\<lambda>p. if_number p \<le> ack_largest a) ps) ps [] None =
         (filter (\<lambda>p. \<not> covered a p) ps, map arrived_of (rev (filter (covered a) ps)), sample_of a now None ps)"
proof -
  let ?E = "\<lambda>p. if_number p \<le> ack_largest a"
  let ?S = "\<lambda>p. if_number p < ack_largest a - 64"
  define old mid new where "old = takeWhile ?S (takeWhile ?E ps)"
    and "mid = dropWhile ?S (takeWhile ?E ps)" and "new = dropWhile ?E ps"
  have ps: "ps = (old @ mid) @ new" by (simp add: old_def mid_def new_def)
  have start: "takeWhile ?S ps = old" unfolding old_def by (rule takeWhile_idle [symmetric]) simp
  have xs: "takeWhile ?E ps = old @ mid" by (simp add: old_def mid_def)
  have "new = filter (\<lambda>p. \<not> ?E p) ps"
    unfolding new_def by (rule ascending_takeWhile [OF assms]) (simp add: later_def)
  then have new: "\<forall>p \<in> set new. \<not> covered a p" "\<forall>p \<in> set new. if_number p \<noteq> ack_largest a"
    using ack_covers_range by fastforce+
  have old: "\<forall>p \<in> set old. \<not> covered a p" "\<forall>p \<in> set old. if_number p \<noteq> ack_largest a"
    using ack_covers_range by (force simp: old_def dest: set_takeWhileD)+
  have "sample_of a now None ps = sample_of a now None mid"
    using old(2) new(2) by (simp add: sample_of_def ps filter_False)
  moreover have "filter (\<lambda>p. \<not> covered a p) ps = old @ filter (\<lambda>p. \<not> covered a p) mid @ new"
    "filter (covered a) ps = filter (covered a) mid"
    using old(1) new(1) by (simp_all add: ps filter_True filter_False)
  moreover have "ack_scan a now (length old) (length (old @ mid)) ps [] None =
      (old @ filter (\<lambda>p. \<not> covered a p) mid @ new, map arrived_of (rev (filter (covered a) mid)),
       sample_of a now None mid)"
    using ack_scan_spec [of a now "length old" "old @ mid" new "[]" None] by (simp only: ps) simp
  ultimately show ?thesis by (simp only: partition_point_def start xs)
qed

lemma loss_count_spurious_frame [loss_frames]:
  "ld_sent (loss_count_spurious ld a) = ld_sent ld" "ld_rtt (loss_count_spurious ld a) = ld_rtt ld"
  "ld_largest_acked (loss_count_spurious ld a) = ld_largest_acked ld"
  "ld_gone (loss_count_spurious ld a) = ld_gone ld" "ld_arrived (loss_count_spurious ld a) = ld_arrived ld"
  "ld_silence (loss_count_spurious ld a) = ld_silence ld"
  by (simp_all add: loss_count_spurious_def split_beta)

lemma loss_count_spurious_register:
  "length (ld_written_off (loss_count_spurious ld a)) \<le> length (ld_written_off ld)"
proof -
  have floor: "length (spurious_floor f ws) \<le> length ws" for f ws by (induction ws) auto
  have scan: "length (fst (spurious_scan a ws s r)) \<le> length ws" for ws s r
  proof (induction ws arbitrary: s r)
    case (Cons w ws)
    show ?case
      using Cons [of "s + 1" "r \<or> wo_cause w \<noteq> Overflowed"] Cons [of s r] by (simp add: split_beta)
  qed simp
  show ?thesis
    using floor [of "ack_largest a - 64" "ld_written_off ld"]
      scan [of "spurious_floor (ack_largest a - 64) (ld_written_off ld)" "ld_spurious ld" "ld_revived ld"]
    by (simp add: loss_count_spurious_def split_beta)
qed

text \<open>The state \<^verbatim>\<open>acknowledged\<close> hands to \<^verbatim>\<open>detect\<close>.\<close>

definition ack_taken :: "loss_detector \<Rightarrow> ack \<Rightarrow> instant \<Rightarrow> loss_detector" where
  "ack_taken ld a now =
     (let ld2 = loss_count_spurious ((loss_clear ld)\<lparr>ld_silence := 0, ld_silent_since := None, ld_answered := False,
            ld_largest_acked := Some (case ld_largest_acked ld of
                None \<Rightarrow> ack_largest a | Some seen \<Rightarrow> max seen (ack_largest a)),
            ld_sent := filter (\<lambda>p. \<not> covered a p) (ld_sent ld),
            ld_arrived := map arrived_of (filter (covered a) (ld_sent ld))\<rparr>) a
      in case sample_of a now None (ld_sent ld) of
           Some taken \<Rightarrow> ld2\<lparr>ld_rtt := rtt_sample (ld_rtt ld2) taken (ack_delay a) now\<rparr>
         | None \<Rightarrow> ld2)"

lemma loss_acknowledged_eq:
  assumes "ascending (ld_sent ld)"
  shows "loss_acknowledged ld a now = (sample_of a now None (ld_sent ld), loss_detect (ack_taken ld a now) now)"
  using ack_scan_ascending [OF assms, of a now]
  by (cases "sample_of a now None (ld_sent ld)")
    (simp_all add: loss_acknowledged_def ack_taken_def Let_def loss_frames rev_map)

lemma ack_taken_frame [loss_frames]:
  "ld_sent (ack_taken ld a now) = filter (\<lambda>p. \<not> covered a p) (ld_sent ld)"
  "ld_arrived (ack_taken ld a now) = map arrived_of (filter (covered a) (ld_sent ld))"
  "ld_gone (ack_taken ld a now) = []"
  "ld_largest_acked (ack_taken ld a now) =
     Some (case ld_largest_acked ld of None \<Rightarrow> ack_largest a | Some seen \<Rightarrow> max seen (ack_largest a))"
  by (simp_all add: ack_taken_def Let_def loss_frames split: option.split)

lemma ack_taken_silence: "ld_silence (ack_taken ld a now) = 0"
  by (simp add: ack_taken_def Let_def loss_frames split: option.split)

lemma ack_taken_register: "length (ld_written_off (ack_taken ld a now)) \<le> length (ld_written_off ld)"
proof -
  have "length (ld_written_off (loss_count_spurious ld' a)) \<le> length (ld_written_off ld)"
    if "ld_written_off ld' = ld_written_off ld" for ld'
    using loss_count_spurious_register [of ld' a] that by simp
  then show ?thesis by (simp add: ack_taken_def Let_def loss_frames split: option.split)
qed

section \<open>Invariant\<close>

text \<open>The flight ascends, its packets were dealt and sealed before now, no packet in it has
  been overtaken, and the table and the register are within their bounds.\<close>

definition overtaken_by :: "nat option \<Rightarrow> in_flight \<Rightarrow> bool" where
  "overtaken_by largest p =
     (case largest of Some l \<Rightarrow> if_number p + PACKET_THRESHOLD \<le> l | None \<Rightarrow> False)"

definition driver_ok :: "loss_driver \<Rightarrow> bool" where
  "driver_ok d \<longleftrightarrow>
     ascending (ld_sent (dv_loss d)) \<and>
     (\<forall>p \<in> set (ld_sent (dv_loss d)). if_number p < dv_next d \<and> if_sent p \<le> dv_clock d \<and>
        \<not> overtaken_by (ld_largest_acked (dv_loss d)) p) \<and>
     (\<forall>l. ld_largest_acked (dv_loss d) = Some l \<longrightarrow> l < dv_next d) \<and>
     length (ld_sent (dv_loss d)) \<le> MAX_TRACKED \<and> length (ld_written_off (dv_loss d)) \<le> 64"

lemma verdict_None_not_overtaken:
  "loss_verdict largest delay pto now p = None \<Longrightarrow> \<not> overtaken_by largest p"
  by (auto simp: loss_verdict_def overtaken_by_def Let_def split: option.splits if_splits)

lemma verdict_mono:
  "later p q \<Longrightarrow> loss_verdict largest delay pto now q \<noteq> None \<Longrightarrow> loss_verdict largest delay pto now p \<noteq> None"
  by (auto simp: loss_verdict_def later_def saturating_duration_since_def Let_def split: option.splits if_splits)

abbreviation verdict_at :: "loss_detector \<Rightarrow> instant \<Rightarrow> in_flight \<Rightarrow> cause option" where
  "verdict_at ld now \<equiv>
     loss_verdict (ld_largest_acked ld) (rtt_loss_delay (ld_rtt ld)) (loss_probe_timeout ld) now"

lemma loss_detect_ascending:
  assumes "ascending (ld_sent ld)"
  shows "ld_sent (loss_detect ld now) = filter (\<lambda>p. verdict_at ld now p = None) (ld_sent ld)"
    "ld_gone (loss_detect ld now) = ld_gone ld @
       map (\<lambda>p. gone_of (the (verdict_at ld now p)) p) (filter (\<lambda>p. verdict_at ld now p \<noteq> None) (ld_sent ld))"
  using ascending_takeWhile [OF assms, of "\<lambda>p. verdict_at ld now p \<noteq> None"] verdict_mono
  by (simp_all add: loss_detect_spec)

lemma driver_ok_new: "driver_ok (driver_new t)"
  by (simp add: driver_ok_def driver_new_def loss_new_def ascending_def)

lemma loss_sealed_spec:
  "\<exists>n. ld_sent (loss_sealed ld p) = drop n (ld_sent ld @ [p]) \<and>
       ld_gone (loss_sealed ld p) = map (gone_of Overflowed) (take n (ld_sent ld @ [p]))"
  "length (ld_sent (loss_sealed ld p)) \<le> MAX_TRACKED"
  "ld_arrived (loss_sealed ld p) = []"
  "ld_rtt (loss_sealed ld p) = ld_rtt ld"
  "ld_largest_acked (loss_sealed ld p) = ld_largest_acked ld"
  "length (ld_written_off ld) \<le> 64 \<Longrightarrow> length (ld_written_off (loss_sealed ld p)) \<le> 64"
proof -
  define ps where "ps = ld_sent ld @ [p]"
  have scan: "loss_sealed ld p = overflow_scan ps (loss_clear ld)"
    by (simp add: loss_sealed_def Let_def loss_frames ps_def)
  note spec = overflow_scan_spec [of ps "loss_clear ld"]
  from spec show "\<exists>n. ld_sent (loss_sealed ld p) = drop n (ld_sent ld @ [p]) \<and>
       ld_gone (loss_sealed ld p) = map (gone_of Overflowed) (take n (ld_sent ld @ [p]))"
    unfolding scan ps_def [symmetric] by (intro exI [of _ "length ps - MAX_TRACKED"]) (simp add: loss_frames)
  from spec show "length (ld_sent (loss_sealed ld p)) \<le> MAX_TRACKED" by (simp add: scan)
  from spec show "ld_arrived (loss_sealed ld p) = []" "ld_rtt (loss_sealed ld p) = ld_rtt ld"
    "ld_largest_acked (loss_sealed ld p) = ld_largest_acked ld"
    "length (ld_written_off ld) \<le> 64 \<Longrightarrow> length (ld_written_off (loss_sealed ld p)) \<le> 64"
    by (simp_all add: scan loss_frames)
qed

lemma driver_ok_seal:
  assumes ok: "driver_ok d"
  shows "driver_ok (driver_step d (LSeal bytes limited))"
proof -
  define p where "p = \<lparr>if_number = dv_next d, if_bytes = bytes, if_sent = dv_clock d, if_limited = limited\<rparr>"
  let ?ld = "loss_sealed (dv_loss d) p"
  have new: "if_number p = dv_next d" "if_sent p = dv_clock d" by (simp_all add: p_def)
  then have fresh: "\<not> overtaken_by (ld_largest_acked (dv_loss d)) p"
    using ok by (auto simp: driver_ok_def overtaken_by_def PACKET_THRESHOLD_def split: option.splits)
  have asc: "ascending (ld_sent (dv_loss d) @ [p])"
    using ok new by (auto simp: ascending_snoc driver_ok_def later_def)
  obtain n where n: "ld_sent ?ld = drop n (ld_sent (dv_loss d) @ [p])" using loss_sealed_spec(1) by blast
  then have flight: "ascending (ld_sent ?ld)" using asc by (simp only: ascending_drop)
  have member: "q \<in> set (ld_sent (dv_loss d)) \<or> q = p" if "q \<in> set (ld_sent ?ld)" for q
    using that set_drop_subset [of n "ld_sent (dv_loss d) @ [p]"] unfolding n by auto
  have "if_number q < Suc (dv_next d) \<and> if_sent q \<le> dv_clock d \<and> \<not> overtaken_by (ld_largest_acked ?ld) q"
    if "q \<in> set (ld_sent ?ld)" for q
    using member [OF that] ok new fresh by (auto simp: driver_ok_def loss_sealed_spec(5) less_Suc_eq)
  with flight ok show ?thesis
    by (auto simp: driver_ok_def p_def [symmetric] loss_sealed_spec(2,5,6) less_Suc_eq)
qed

lemma driver_ok_detect:
  assumes "driver_ok d" "ascending (ld_sent ld)" "set (ld_sent ld) \<subseteq> set (ld_sent (dv_loss d))"
    "length (ld_sent ld) \<le> length (ld_sent (dv_loss d))"
    "\<And>l. ld_largest_acked ld = Some l \<Longrightarrow> l < dv_next d"
    "length (ld_written_off ld) \<le> 64"
  shows "driver_ok (d\<lparr>dv_loss := loss_detect ld now\<rparr>)"
proof -
  have "length (filter (\<lambda>p. verdict_at ld now p = None) (ld_sent ld)) \<le> length (ld_sent ld)" by simp
  also have "\<dots> \<le> MAX_TRACKED" using assms(1,4) by (simp add: driver_ok_def)
  finally show ?thesis
    using assms loss_detect_spec(6) [OF assms(6), of now] unfolding driver_ok_def
    by (auto simp: loss_detect_ascending [OF assms(2)] ascending_filter loss_detect_spec(5)
             dest: verdict_None_not_overtaken)
qed

lemma driver_ok_step: "driver_ok d \<Longrightarrow> driver_ok (driver_step d op)"
proof (cases op)
  case (LSeal bytes limited)
  then show "driver_ok d \<Longrightarrow> ?thesis" by (simp only: driver_ok_seal)
next
  case (LAck a)
  assume ok: "driver_ok d"
  then have asc: "ascending (ld_sent (dv_loss d))" by (simp add: driver_ok_def)
  show ?thesis
  proof (cases "ack_largest a < dv_next d")
    case True
    then have "l < dv_next d" if "ld_largest_acked (ack_taken (dv_loss d) a (dv_clock d)) = Some l" for l
      using that ok by (auto simp: loss_frames driver_ok_def split: option.splits)
    moreover have "length (ld_written_off (ack_taken (dv_loss d) a (dv_clock d))) \<le> 64"
      using ack_taken_register [of "dv_loss d" a "dv_clock d"] ok by (simp add: driver_ok_def)
    ultimately have "driver_ok (d\<lparr>dv_loss := loss_detect (ack_taken (dv_loss d) a (dv_clock d)) (dv_clock d)\<rparr>)"
      using asc by (intro driver_ok_detect [OF ok]) (simp_all add: loss_frames ascending_filter)
    with True LAck show ?thesis
      by (simp add: acknowledgement_checked_def loss_acknowledged_eq [OF asc])
  next
    case False
    with LAck ok show ?thesis by (simp add: acknowledgement_checked_def)
  qed
next
  case LExpire
  assume ok: "driver_ok d"
  then have "driver_ok (d\<lparr>dv_loss := loss_detect (loss_clear (dv_loss d)) (dv_clock d)\<rparr>)"
    by (intro driver_ok_detect [OF ok]) (simp_all add: loss_frames driver_ok_def)
  with LExpire show ?thesis by (simp add: loss_expire_def)
next
  case LMigrated
  then show "driver_ok d \<Longrightarrow> ?thesis"
    by (auto simp: driver_ok_def loss_migrated_def overtaken_by_def)
next
  case (LWait dt)
  then show "driver_ok d \<Longrightarrow> ?thesis" by (auto simp: driver_ok_def intro: trans_le_add1)
qed

lemma driver_ok_run: "driver_ok d \<Longrightarrow> driver_ok (driver_run d ops)"
  unfolding driver_run_def by (induction ops arbitrary: d) (simp_all add: driver_ok_step)

section \<open>Every packet leaves the flight once\<close>

text \<open>What the endpoint reads after a call, as (number, size, instant of sealing): the
  packets acknowledged and the packets given up on.\<close>

definition loss_report :: "loss_detector \<Rightarrow> (nat \<times> nat \<times> instant) list" where
  "loss_report ld =
     map (\<lambda>a. (ar_number a, ar_bytes a, ar_sent a)) (ld_arrived ld) @
     map (\<lambda>g. (gn_number g, gn_bytes g, gn_sent g)) (ld_gone ld)"

definition flight_keys :: "loss_driver \<Rightarrow> (nat \<times> nat \<times> instant) list" where
  "flight_keys d = map (\<lambda>p. (if_number p, if_bytes p, if_sent p)) (ld_sent (dv_loss d))"

fun reports_of :: "loss_driver \<Rightarrow> loss_op \<Rightarrow> (nat \<times> nat \<times> instant) list" where
  "reports_of d (LSeal bytes limited) = loss_report (dv_loss (driver_step d (LSeal bytes limited)))"
| "reports_of d (LAck a) =
     (if ack_largest a < dv_next d then loss_report (dv_loss (driver_step d (LAck a))) else [])"
| "reports_of d LExpire = loss_report (dv_loss (driver_step d LExpire))"
| "reports_of d LMigrated = []"
| "reports_of d (LWait dt) = []"

fun seals_of :: "loss_driver \<Rightarrow> loss_op \<Rightarrow> (nat \<times> nat \<times> instant) list" where
  "seals_of d (LSeal bytes limited) = [(dv_next d, bytes, dv_clock d)]"
| "seals_of d op = []"

fun all_reports :: "loss_driver \<Rightarrow> loss_op list \<Rightarrow> (nat \<times> nat \<times> instant) list" where
  "all_reports d [] = []"
| "all_reports d (op # ops) = reports_of d op @ all_reports (driver_step d op) ops"

fun all_seals :: "loss_driver \<Rightarrow> loss_op list \<Rightarrow> (nat \<times> nat \<times> instant) list" where
  "all_seals d [] = []"
| "all_seals d (op # ops) = seals_of d op @ all_seals (driver_step d op) ops"

abbreviation keys_of :: "in_flight list \<Rightarrow> (nat \<times> nat \<times> instant) multiset" where
  "keys_of ps \<equiv> mset (map (\<lambda>p. (if_number p, if_bytes p, if_sent p)) ps)"

lemma report_arrived: "map (\<lambda>a. (ar_number a, ar_bytes a, ar_sent a)) (map arrived_of ps) =
    map (\<lambda>p. (if_number p, if_bytes p, if_sent p)) ps"
  by (simp add: arrived_of_def)

lemma report_gone: "map (\<lambda>g. (gn_number g, gn_bytes g, gn_sent g)) (map (\<lambda>p. gone_of (c p) p) ps) =
    map (\<lambda>p. (if_number p, if_bytes p, if_sent p)) ps"
  by (simp add: gone_of_def)

lemma keys_of_split: "keys_of ps = keys_of (filter P ps) + keys_of (filter (\<lambda>p. \<not> P p) ps)"
  by (induction ps) auto

lemma keys_of_detect:
  assumes "ascending (ld_sent ld)" "ld_gone ld = []"
  shows "keys_of (ld_sent (loss_detect ld now)) +
           mset (map (\<lambda>g. (gn_number g, gn_bytes g, gn_sent g)) (ld_gone (loss_detect ld now))) =
         keys_of (ld_sent ld)"
  using keys_of_split [of "ld_sent ld" "\<lambda>p. verdict_at ld now p = None"]
  by (simp only: loss_detect_ascending [OF assms(1)] assms(2) append_Nil report_gone)

lemma keys_of_sealed:
  "keys_of (ld_sent (loss_sealed ld p)) +
     mset (map (\<lambda>g. (gn_number g, gn_bytes g, gn_sent g)) (ld_gone (loss_sealed ld p))) =
   keys_of (ld_sent ld @ [p])"
proof -
  obtain n where sealed: "ld_sent (loss_sealed ld p) = drop n (ld_sent ld @ [p])"
    "ld_gone (loss_sealed ld p) = map (gone_of Overflowed) (take n (ld_sent ld @ [p]))"
    using loss_sealed_spec(1) by blast
  have "keys_of ps = keys_of (drop n ps) + keys_of (take n ps)" for ps
    using arg_cong [OF append_take_drop_id [of n ps], of "\<lambda>ps. keys_of ps"]
    by (simp add: add.commute del: append_take_drop_id)
  then show ?thesis unfolding sealed report_gone by (rule sym)
qed

lemma driver_step_conserves:
  assumes "driver_ok d"
  shows "mset (flight_keys (driver_step d op)) + mset (reports_of d op) =
         mset (flight_keys d) + mset (seals_of d op)"
proof (cases op)
  case (LSeal bytes limited)
  with keys_of_sealed [of "dv_loss d"
      "\<lparr>if_number = dv_next d, if_bytes = bytes, if_sent = dv_clock d, if_limited = limited\<rparr>"]
  show ?thesis by (simp add: flight_keys_def loss_report_def loss_sealed_spec(3))
next
  case (LAck a)
  have asc: "ascending (ld_sent (dv_loss d))" using assms by (simp add: driver_ok_def)
  show ?thesis
  proof (cases "ack_largest a < dv_next d")
    case True
    let ?ld = "ack_taken (dv_loss d) a (dv_clock d)"
    have "keys_of (ld_sent (dv_loss d)) = keys_of (filter (covered a) (ld_sent (dv_loss d))) + keys_of (ld_sent ?ld)"
      unfolding loss_frames by (rule keys_of_split)
    moreover have "ascending (ld_sent ?ld)" by (simp add: loss_frames ascending_filter asc)
    ultimately show ?thesis
      using keys_of_detect [of ?ld "dv_clock d"] LAck True
      by (simp add: flight_keys_def loss_report_def acknowledgement_checked_def loss_acknowledged_eq [OF asc]
            loss_detect_spec(3) loss_frames report_arrived del: map_map)
  next
    case False
    with LAck show ?thesis by (simp add: acknowledgement_checked_def)
  qed
next
  case LExpire
  have "ascending (ld_sent (loss_clear (dv_loss d)))" using assms by (simp add: driver_ok_def loss_frames)
  with keys_of_detect [of "loss_clear (dv_loss d)" "dv_clock d"] LExpire show ?thesis
    by (simp add: flight_keys_def loss_report_def loss_expire_def loss_detect_spec(3) loss_frames)
next
  case LMigrated
  then show ?thesis by (simp add: flight_keys_def loss_migrated_def)
next
  case (LWait dt)
  then show ?thesis by (simp add: flight_keys_def)
qed

lemma driver_run_conserves:
  "driver_ok d \<Longrightarrow>
     mset (flight_keys (driver_run d ops)) + mset (all_reports d ops) = mset (flight_keys d) + mset (all_seals d ops)"
proof (induction ops arbitrary: d)
  case Nil
  then show ?case by (simp add: driver_run_def)
next
  case (Cons op ops)
  from Cons.IH [OF driver_ok_step [OF Cons.prems], of op] driver_step_conserves [OF Cons.prems, of op]
  show ?case by (simp add: driver_run_def ac_simps)
qed

section \<open>The estimators\<close>

text \<open>The largest sample, in microseconds, and never less than one.\<close>

fun rtt_ceiling :: "(duration \<times> duration \<times> instant) list \<Rightarrow> nat" where
  "rtt_ceiling [] = 1"
| "rtt_ceiling ((taken, delay, now) # samples) = max (micros taken) (rtt_ceiling samples)"

fun rtt_samples :: "rtt \<Rightarrow> (duration \<times> duration \<times> instant) list \<Rightarrow> rtt" where
  "rtt_samples r [] = r"
| "rtt_samples r ((taken, delay, now) # samples) = rtt_samples (rtt_sample r taken delay now) samples"

definition rtt_within :: "nat \<Rightarrow> rtt \<Rightarrow> bool" where
  "rtt_within B r \<longleftrightarrow>
     rtt_var r \<le> B \<and> rtt_latest_adjusted r \<le> B \<and>
     (\<forall>s. rtt_smoothed_us r = Some s \<longrightarrow> s \<le> B) \<and>
     (\<forall>m t. rtt_min_adjusted r = Some (m, t) \<longrightarrow> 0 < m \<and> m \<le> B)"

lemma rtt_within_sample:
  assumes "rtt_within B r" "micros taken \<le> B" "0 < B"
  shows "rtt_within B (rtt_sample r taken delay now)"
proof -
  define adjusted where "adjusted = max (micros taken - micros delay) 1"
  have adj: "0 < adjusted" "adjusted \<le> B" using assms by (auto simp: adjusted_def)
  have var: "(v * 3 + abs_diff s adjusted) div 4 \<le> B" if "s \<le> B" "v \<le> B" for s v
    using that adj by (auto simp: abs_diff_def)
  have "rtt_sample r taken delay now =
      (let r2 = (if (case rtt_min_adjusted r of None \<Rightarrow> True | Some (least, since) \<Rightarrow>
              adjusted < least \<or> RTT_MIN_WINDOW \<le> saturating_duration_since now since)
            then r\<lparr>rtt_latest_adjusted := adjusted, rtt_min_adjusted := Some (adjusted, now)\<rparr>
            else r\<lparr>rtt_latest_adjusted := adjusted\<rparr>)
       in case rtt_smoothed_us r of
           None \<Rightarrow> r2\<lparr>rtt_smoothed_us := Some adjusted, rtt_var := adjusted div 2\<rparr>
         | Some smoothed \<Rightarrow>
             r2\<lparr>rtt_var := (rtt_var r * 3 + abs_diff smoothed adjusted) div 4,
                rtt_smoothed_us := Some ((smoothed * 7 + adjusted) div 8)\<rparr>)"
    unfolding rtt_sample_def Let_def adjusted_def by (simp split: option.split)
  with assms adj var show ?thesis
    by (cases "rtt_smoothed_us r")
      (auto simp: rtt_within_def Let_def split: option.splits if_splits)
qed

lemma rtt_within_samples:
  "rtt_within B r \<Longrightarrow> rtt_ceiling samples \<le> B \<Longrightarrow> 0 < B \<Longrightarrow> rtt_within B (rtt_samples r samples)"
  by (induction r samples rule: rtt_samples.induct) (auto intro: rtt_within_sample)

lemma rtt_within_default: "rtt_within B rtt_default"
  by (simp add: rtt_within_def rtt_default_def)

section \<open>Properties\<close>

text \<open>C19: nothing is counted twice and nothing is forgotten. Over any run, the packets
  sealed are exactly those still in flight together with those reported, as acknowledged
  or as gone; no packet is reported twice, and each keeps its size and instant.\<close>

theorem loss_conservation:
  "mset (flight_keys (driver_run (driver_new t) ops)) + mset (all_reports (driver_new t) ops) =
   mset (all_seals (driver_new t) ops)"
  using driver_run_conserves [OF driver_ok_new [of t], of ops]
  by (simp add: flight_keys_def driver_new_def loss_new_def)

text \<open>C20: what an acknowledgement does, on every reachable flight: one naming a packet never
  sealed changes nothing; otherwise the packets it covers arrive, in order, and of the rest
  exactly those go that are overtaken by three, stale behind a later arrival, or past the
  probe timeout. The two binary searches and the backwards walk with removals amount to
  these filters.\<close>

theorem loss_ack_exact:
  "let d = driver_run (driver_new t) ops; d' = driver_step d (LAck a);
       flight = ld_sent (dv_loss d); ld' = dv_loss d';
       verdict = loss_verdict (ld_largest_acked ld') (rtt_loss_delay (ld_rtt ld'))
         (duration_saturating_mul (rtt_probe_timeout (ld_rtt ld')) 1) (dv_clock d);
       rest = filter (\<lambda>p. \<not> ack_covers a (if_number p)) flight
   in if ack_largest a < dv_next d
      then ld_arrived ld' = map arrived_of (filter (\<lambda>p. ack_covers a (if_number p)) flight) \<and>
           ld_sent ld' = filter (\<lambda>p. verdict p = None) rest \<and>
           ld_gone ld' = map (\<lambda>p. gone_of (the (verdict p)) p) (filter (\<lambda>p. verdict p \<noteq> None) rest)
      else d' = d"
proof -
  let ?d = "driver_run (driver_new t) ops"
  let ?ld = "ack_taken (dv_loss ?d) a (dv_clock ?d)"
  have asc: "ascending (ld_sent (dv_loss ?d))"
    using driver_ok_run [OF driver_ok_new] by (simp add: driver_ok_def)
  then have asc': "ascending (ld_sent ?ld)" by (simp add: loss_frames ascending_filter)
  have "loss_probe_timeout ?ld = duration_saturating_mul (rtt_probe_timeout (ld_rtt ?ld)) 1"
    by (simp add: loss_probe_timeout_def ack_taken_silence)
  with asc' show ?thesis
    by (simp add: Let_def acknowledgement_checked_def loss_acknowledged_eq [OF asc] loss_detect_ascending
          loss_detect_spec(3,4,5) loss_frames)
qed

text \<open>The deadline is exact. On every reachable state, expiring the flight gives up on
  some packet precisely when the instant the detector named has come.\<close>

theorem loss_deadline_exact:
  "let d = driver_run (driver_new t) ops
   in ld_gone (loss_expire (dv_loss d) (dv_clock d)) \<noteq> [] \<longleftrightarrow>
      (case loss_deadline (dv_loss d) of None \<Rightarrow> False | Some deadline \<Rightarrow> deadline \<le> dv_clock d)"
proof -
  let ?d = "driver_run (driver_new t) ops"
  let ?ld = "dv_loss ?d"
  let ?V = "verdict_at ?ld (dv_clock ?d)"
  have ok: "driver_ok ?d" by (rule driver_ok_run [OF driver_ok_new])
  have "loss_probe_timeout (loss_clear ?ld) = loss_probe_timeout ?ld"
    by (simp add: loss_probe_timeout_def loss_frames)
  then have gone: "ld_gone (loss_expire ?ld (dv_clock ?d)) \<noteq> [] \<longleftrightarrow> takeWhile (\<lambda>p. ?V p \<noteq> None) (ld_sent ?ld) \<noteq> []"
    by (simp add: loss_expire_def loss_detect_spec(2) loss_frames)
  show ?thesis
  proof (cases "ld_sent ?ld")
    case Nil
    with gone show ?thesis by (simp add: loss_deadline_def)
  next
    case (Cons p ps)
    then have p: "if_sent p \<le> dv_clock ?d" "\<not> overtaken_by (ld_largest_acked ?ld) p"
      using ok by (auto simp: driver_ok_def)
    have "?V p \<noteq> None \<longleftrightarrow> (case loss_deadline ?ld of None \<Rightarrow> False | Some deadline \<Rightarrow> deadline \<le> dv_clock ?d)"
      using p by (auto simp: loss_verdict_def loss_deadline_def Cons overtaken_by_def Let_def
          saturating_duration_since_def split: option.splits if_splits)
    with gone Cons show ?thesis by (simp add: Let_def)
  qed
qed

text \<open>Memory is bounded however the peer behaves: at most 4096 packets are tracked and 64
  remembered as written off, and the flight ascends by number below the next one dealt.\<close>

theorem loss_memory_bounded:
  "let d = driver_run (driver_new t) ops
   in length (ld_sent (dv_loss d)) \<le> MAX_TRACKED \<and> length (ld_written_off (dv_loss d)) \<le> 64 \<and>
      sorted_wrt (<) (map if_number (ld_sent (dv_loss d)) @ [dv_next d])"
proof -
  have "driver_ok (driver_run (driver_new t) ops)" by (rule driver_ok_run [OF driver_ok_new])
  then show ?thesis
    by (auto simp: driver_ok_def ascending_def Let_def sorted_wrt_append sorted_wrt_map later_def
             elim: sorted_wrt_mono_rel [rotated])
qed

text \<open>The estimators stay within their samples: after any samples, the smoothed round trip,
  its variation, the latest and the minimum are at most the largest sample (in microseconds,
  and at least one), and the minimum is never zero.\<close>

theorem rtt_within_its_samples:
  "rtt_within (rtt_ceiling samples) (rtt_samples rtt_default samples)"
proof -
  have "0 < rtt_ceiling samples" by (induction samples rule: rtt_ceiling.induct) auto
  then show ?thesis by (intro rtt_within_samples) (simp_all add: rtt_within_default)
qed

end
