(* ===== verification/Congestion.thy ===== *)
theory Congestion
  imports Loss
begin

text \<open>
  The congestion window and the pacer, \<^verbatim>\<open>crates/dgram/src/congestion.rs\<close>. Sizes are natural
  numbers; the pacer's \<^verbatim>\<open>u128\<close> products are exact, and its conversions back to \<^verbatim>\<open>usize\<close> and
  \<^verbatim>\<open>u64\<close> saturate as in the source. The growth loop of congestion avoidance ends only while
  the window is positive, so \<open>cong_acknowledged\<close> returns an option whose \<open>None\<close> is a call that
  never returns.
\<close>

section \<open>Model: the pacer\<close>

definition INITIAL_DATAGRAMS :: nat where "INITIAL_DATAGRAMS = 10"
definition MIN_DATAGRAMS :: nat where "MIN_DATAGRAMS = 2"
definition MAX_DATAGRAMS :: nat where "MAX_DATAGRAMS = 512"
definition BURST_DATAGRAMS :: nat where "BURST_DATAGRAMS = 10"
definition PACE_NUMERATOR :: nat where "PACE_NUMERATOR = 5"
definition PACE_DENOMINATOR :: nat where "PACE_DENOMINATOR = 4"
definition INITIAL_PACE :: duration where "INITIAL_PACE = from_millis 100"
definition OVERSHOOT_SAMPLES :: nat where "OVERSHOOT_SAMPLES = 3"
definition OVERSHOOT_FLOOR :: duration where "OVERSHOOT_FLOOR = from_millis 4"
definition OVERSHOOT_CEILING :: duration where "OVERSHOOT_CEILING = from_millis 16"

record pacer =
  pc_tokens :: nat
  pc_refilled :: "instant option"

definition pacer_new :: pacer where
  "pacer_new = \<lparr>pc_tokens = 0, pc_refilled = None\<rparr>"

definition pacer_available :: "pacer \<Rightarrow> instant \<Rightarrow> nat \<Rightarrow> nat \<Rightarrow> duration option \<Rightarrow> nat" where
  "pacer_available p now window burst srtt =
     (case pc_refilled p of
        None \<Rightarrow> burst
      | Some refilled \<Rightarrow>
          let elapsed = micros (saturating_duration_since now refilled);
              gained = (case srtt of
                  Some srtt \<Rightarrow>
                    elapsed * PACE_NUMERATOR * window div (PACE_DENOMINATOR * max (micros srtt) 1)
                | None \<Rightarrow> elapsed * window div micros INITIAL_PACE)
          in min (min (pc_tokens p + min gained usize_max) usize_max) burst)"

definition pacer_spend :: "pacer \<Rightarrow> nat \<Rightarrow> instant \<Rightarrow> nat \<Rightarrow> nat \<Rightarrow> duration option \<Rightarrow> pacer" where
  "pacer_spend p bytes now window burst srtt =
     \<lparr>pc_tokens = pacer_available p now window burst srtt - bytes, pc_refilled = Some now\<rparr>"

definition pacer_ready :: "pacer \<Rightarrow> instant \<Rightarrow> nat \<Rightarrow> nat \<Rightarrow> nat \<Rightarrow> duration option \<Rightarrow> instant" where
  "pacer_ready p now bytes window burst srtt =
     (let short = bytes - pacer_available p now window burst srtt
      in if short = 0 then now
         else
           let window = max window 1;
               wait = (case srtt of
                   Some srtt \<Rightarrow> div_ceil (micros srtt * PACE_DENOMINATOR * short) (PACE_NUMERATOR * window)
                 | None \<Rightarrow> div_ceil (micros INITIAL_PACE * short) window)
           in now + from_micros (min wait u64_max))"

section \<open>Model: the window\<close>

record undo =
  un_window :: nat
  un_ssthresh :: nat

record congestion =
  cc_window :: nat
  cc_ssthresh :: nat
  cc_in_flight :: nat
  cc_credit :: nat
  cc_recovery_start :: "instant option"
  cc_undo :: "undo option"
  cc_datagram :: nat
  cc_overshoot :: nat
  cc_pacer :: pacer
  cc_srtt :: "duration option"

definition cong_new :: "nat \<Rightarrow> congestion" where
  "cong_new datagram =
     \<lparr>cc_window = datagram * INITIAL_DATAGRAMS, cc_ssthresh = usize_max, cc_in_flight = 0,
      cc_credit = 0, cc_recovery_start = None, cc_undo = None, cc_datagram = datagram,
      cc_overshoot = 0, cc_pacer = pacer_new, cc_srtt = None\<rparr>"

definition cong_datagram :: "congestion \<Rightarrow> nat \<Rightarrow> congestion" where
  "cong_datagram c bytes = c\<lparr>cc_datagram := bytes\<rparr>"

definition cong_minimum :: "congestion \<Rightarrow> nat" where
  "cong_minimum c =
     (let floor = cc_datagram c * MIN_DATAGRAMS in if floor < cc_window c then floor else cc_window c)"

definition cong_ceiling :: "congestion \<Rightarrow> nat" where
  "cong_ceiling c = cc_datagram c * MAX_DATAGRAMS"

definition cong_initial :: "congestion \<Rightarrow> nat" where
  "cong_initial c = cc_datagram c * INITIAL_DATAGRAMS"

definition cong_burst :: "congestion \<Rightarrow> nat" where
  "cong_burst c =
     (let burst = cc_datagram c * BURST_DATAGRAMS in if cc_window c < burst then cc_window c else burst)"

definition cong_writable :: "congestion \<Rightarrow> instant \<Rightarrow> nat \<Rightarrow> bool" where
  "cong_writable c now bytes \<longleftrightarrow>
     cc_in_flight c + bytes \<le> cc_window c \<and>
     bytes \<le> pacer_available (cc_pacer c) now (cc_window c) (cong_burst c) (cc_srtt c)"

definition cong_ready :: "congestion \<Rightarrow> instant \<Rightarrow> nat \<Rightarrow> instant option" where
  "cong_ready c now bytes =
     (if cc_window c < cc_in_flight c + bytes then None
      else Some (pacer_ready (cc_pacer c) now bytes (cc_window c) (cong_burst c) (cc_srtt c)))"

definition cong_sealed :: "congestion \<Rightarrow> nat \<Rightarrow> instant \<Rightarrow> limited \<times> congestion" where
  "cong_sealed c bytes now =
     (let limited = (if cc_in_flight c + bytes + cc_datagram c \<le> cc_window c then Application else Window);
          c1 = c\<lparr>cc_in_flight := cc_in_flight c + bytes\<rparr>
      in (limited,
          c1\<lparr>cc_pacer := pacer_spend (cc_pacer c1) bytes now (cc_window c1) (cong_burst c1) (cc_srtt c1)\<rparr>))"

definition cong_check_overshoot :: "congestion \<Rightarrow> rtt \<Rightarrow> congestion" where
  "cong_check_overshoot c r =
     (case rtt_minimum r of
        None \<Rightarrow> c
      | Some minimum \<Rightarrow>
          let trigger = minimum + max OVERSHOOT_FLOOR (min (minimum div 8) OVERSHOOT_CEILING)
          in if rtt_latest r \<le> trigger then c\<lparr>cc_overshoot := 0\<rparr>
             else
               let c1 = c\<lparr>cc_overshoot := cc_overshoot c + 1\<rparr>
               in if OVERSHOOT_SAMPLES \<le> cc_overshoot c1
                  then c1\<lparr>cc_ssthresh := max (cc_window c1) (cong_initial c1)\<rparr>
                  else c1)"

text \<open>The loop of congestion avoidance, from \<^verbatim>\<open>credit\<close> and \<^verbatim>\<open>window\<close>.\<close>

partial_function (option) grow_loop :: "nat \<Rightarrow> nat \<Rightarrow> nat \<Rightarrow> nat \<Rightarrow> (nat \<times> nat) option" where
  "grow_loop datagram ceiling credit window =
     (if window \<le> credit
      then grow_loop datagram ceiling (credit - window) (min (window + datagram) ceiling)
      else Some (credit, window))"

definition cong_acknowledged ::
  "congestion \<Rightarrow> nat \<Rightarrow> instant \<Rightarrow> rtt \<Rightarrow> limited \<Rightarrow> congestion option" where
  "cong_acknowledged c bytes sent r limited =
     (let c1 = c\<lparr>cc_in_flight := cc_in_flight c - bytes, cc_srtt := rtt_smoothed r\<rparr>;
          c2 = (if (case cc_recovery_start c1 of Some start \<Rightarrow> start < sent | None \<Rightarrow> False)
                then c1\<lparr>cc_recovery_start := None\<rparr> else c1);
          c3 = (if cc_window c2 < cc_ssthresh c2 then cong_check_overshoot c2 r else c2)
      in if limited = Application then Some c3
         else if cc_window c3 < cc_ssthresh c3
           then Some (c3\<lparr>cc_window := min (cc_window c3 + bytes) (cong_ceiling c3)\<rparr>)
         else
           (case grow_loop (cc_datagram c3) (cong_ceiling c3) (cc_credit c3 + bytes) (cc_window c3) of
              None \<Rightarrow> None
            | Some (credit, window) \<Rightarrow> Some (c3\<lparr>cc_credit := credit, cc_window := window\<rparr>)))"

definition cong_remember :: "congestion \<Rightarrow> congestion" where
  "cong_remember c = c\<lparr>cc_undo := Some \<lparr>un_window = cc_window c, un_ssthresh = cc_ssthresh c\<rparr>\<rparr>"

definition cong_lost :: "congestion \<Rightarrow> nat \<Rightarrow> instant \<Rightarrow> instant \<Rightarrow> congestion" where
  "cong_lost c bytes sent now =
     (let c1 = c\<lparr>cc_in_flight := cc_in_flight c - bytes\<rparr>
      in if (case cc_recovery_start c1 of Some start \<Rightarrow> sent < start | None \<Rightarrow> False) then c1
         else
           let c2 = (cong_remember c1)\<lparr>cc_recovery_start := Some now\<rparr>;
               window = max (cc_window c2 div 2) (cong_minimum c2)
           in c2\<lparr>cc_window := window, cc_ssthresh := window, cc_credit := 0, cc_overshoot := 0\<rparr>)"

definition cong_spurious :: "congestion \<Rightarrow> congestion" where
  "cong_spurious c =
     (case cc_undo c of
        None \<Rightarrow> c
      | Some undo \<Rightarrow>
          c\<lparr>cc_undo := None,
            cc_window := min (max (cc_window c) (un_window undo)) (cong_ceiling c),
            cc_ssthresh := max (cc_ssthresh c) (un_ssthresh undo),
            cc_recovery_start := None, cc_credit := 0, cc_overshoot := 0\<rparr>)"

definition cong_abandoned :: "congestion \<Rightarrow> nat \<Rightarrow> congestion" where
  "cong_abandoned c bytes = c\<lparr>cc_in_flight := cc_in_flight c - bytes\<rparr>"

definition cong_collapse :: "congestion \<Rightarrow> instant \<Rightarrow> congestion" where
  "cong_collapse c now =
     (let c1 = cong_remember c
      in c1\<lparr>cc_ssthresh := max (cc_window c1 div 2) (cong_initial c1), cc_window := cong_minimum c1,
            cc_credit := 0, cc_recovery_start := Some now, cc_overshoot := 0\<rparr>)"

definition cong_migrated :: "congestion \<Rightarrow> congestion" where
  "cong_migrated c =
     c\<lparr>cc_window := cong_initial c, cc_ssthresh := usize_max, cc_credit := 0,
       cc_recovery_start := None, cc_undo := None, cc_overshoot := 0, cc_srtt := None,
       cc_pacer := pacer_new\<rparr>"

section \<open>The growth loop\<close>

text \<open>It ends, leaves less credit than a window, keeps the window between where it was and
  the ceiling, and adds at most one datagram for each whole window of credit.\<close>

lemma grow_loop_spec:
  assumes "0 < window" "0 < ceiling"
  shows "\<exists>credit' window'. grow_loop datagram ceiling credit window = Some (credit', window') \<and>
     credit' < window' \<and> credit' \<le> credit \<and>
     min window ceiling \<le> window' \<and> window' \<le> max window ceiling \<and>
     window' \<le> window + datagram * (credit div window)"
  using assms
proof (induction credit arbitrary: window rule: less_induct)
  case (less credit)
  show ?case
  proof (cases "window \<le> credit")
    case False
    then show ?thesis by (subst grow_loop.simps) auto
  next
    case True
    let ?w = "min (window + datagram) ceiling"
    have pos: "0 < ?w" "credit - window < credit" using less.prems True by auto
    from less.IH [OF pos(2) pos(1) less.prems(2)] obtain c' w' where
      loop: "grow_loop datagram ceiling (credit - window) ?w = Some (c', w')"
      and w': "c' < w'" "c' \<le> credit - window" "min ?w ceiling \<le> w'" "w' \<le> max ?w ceiling"
        "w' \<le> ?w + datagram * ((credit - window) div ?w)" by blast
    have step: "credit div window = Suc ((credit - window) div window)"
      using True less.prems by (simp add: le_div_geq)
    have "w' \<le> window + datagram * (credit div window)"
    proof (cases "window \<le> ?w")
      case up: True
      then have "(credit - window) div ?w \<le> (credit - window) div window"
        using less.prems by (simp add: div_le_mono2)
      then have "datagram * ((credit - window) div ?w) \<le> datagram * ((credit - window) div window)"
        by (rule mult_le_mono2)
      moreover have "?w \<le> window + datagram" by simp
      ultimately have "w' \<le> (window + datagram) + datagram * ((credit - window) div window)"
        using w'(5) by linarith
      then show ?thesis unfolding step by simp
    next
      case down: False
      then have "?w = ceiling" by auto
      with w'(4) down have "w' \<le> window" by simp
      then show ?thesis by simp
    qed
    moreover have "grow_loop datagram ceiling credit window = Some (c', w')"
      using True loop by (subst grow_loop.simps) simp
    ultimately show ?thesis using w' by auto
  qed
qed

section \<open>The pacer's promise\<close>

lemma div_add_ge: "a div c + b div c \<le> (a + b) div (c :: nat)"
  by (cases "c = 0") (simp_all add: div_add1_eq [of a b c])

lemma micros_advance:
  assumes "r \<le> now" "now + from_micros w < r + from_micros u64_max"
  shows "micros (now + from_micros w - r) = micros (now - r) + w"
proof -
  have "now + from_micros w - r = (now - r) + w * 1000" using assms by (simp add: from_micros_def)
  then have "(now + from_micros w - r) div 1000 = (now - r) div 1000 + w" by simp
  moreover have "(now + from_micros w - r) div 1000 \<le> u64_max"
    using assms(2) by (simp add: from_micros_def)
  ultimately show ?thesis by (simp add: micros_def)
qed

text \<open>Tokens gained over a span, and that waiting the rounded-up time for \<open>short\<close> more of them
  gains at least that many.\<close>

definition pace_gain :: "nat \<Rightarrow> nat \<Rightarrow> duration option \<Rightarrow> nat" where
  "pace_gain elapsed window srtt =
     (case srtt of
        Some srtt \<Rightarrow> elapsed * PACE_NUMERATOR * window div (PACE_DENOMINATOR * max (micros srtt) 1)
      | None \<Rightarrow> elapsed * window div micros INITIAL_PACE)"

definition pace_wait :: "nat \<Rightarrow> nat \<Rightarrow> duration option \<Rightarrow> nat" where
  "pace_wait short window srtt =
     (case srtt of
        Some srtt \<Rightarrow> div_ceil (micros srtt * PACE_DENOMINATOR * short) (PACE_NUMERATOR * window)
      | None \<Rightarrow> div_ceil (micros INITIAL_PACE * short) window)"

lemma pace_gain_wait:
  assumes "0 < window" "\<And>s. srtt = Some s \<Longrightarrow> 1 \<le> micros s"
  shows "pace_gain e window srtt + short \<le> pace_gain (e + pace_wait short window srtt) window srtt"
proof (cases srtt)
  case None
  let ?p = "micros INITIAL_PACE"
  have p: "0 < ?p" by (simp add: micros_def INITIAL_PACE_def from_millis_def u64_max_def)
  have "?p * short \<le> pace_wait short window srtt * window"
    using div_ceil_mult_ge [OF assms(1)] None by (simp add: pace_wait_def)
  then have "(?p * short) div ?p \<le> pace_wait short window srtt * window div ?p" by (rule div_le_mono)
  then have "short \<le> pace_wait short window srtt * window div ?p" using p by simp
  with div_add_ge [of "e * window" ?p "pace_wait short window srtt * window"] None
  show ?thesis by (simp add: pace_gain_def add_mult_distrib)
next
  case (Some s)
  let ?w = "pace_wait short window srtt"
  let ?d = "PACE_DENOMINATOR * max (micros s) 1"
  have s: "max (micros s) 1 = micros s" "0 < ?d" using assms(2) [OF Some] by (simp_all add: PACE_DENOMINATOR_def)
  have pos: "0 < PACE_NUMERATOR * window" using assms(1) by (simp add: PACE_NUMERATOR_def)
  have "micros s * PACE_DENOMINATOR * short \<le> ?w * (PACE_NUMERATOR * window)"
    using div_ceil_mult_ge [OF pos] Some by (simp add: pace_wait_def)
  then have "?d * short \<le> ?w * PACE_NUMERATOR * window" unfolding s(1) by (simp add: ac_simps)
  then have "?d * short div ?d \<le> ?w * PACE_NUMERATOR * window div ?d" by (rule div_le_mono)
  then have "short \<le> ?w * PACE_NUMERATOR * window div ?d" using s(2) by simp
  with div_add_ge [of "e * PACE_NUMERATOR * window" ?d "?w * PACE_NUMERATOR * window"] Some
  show ?thesis by (simp add: pace_gain_def add_mult_distrib)
qed

lemma pacer_available_gain:
  "pc_refilled p = Some r \<Longrightarrow>
     pacer_available p now window burst srtt =
       min (min (pc_tokens p + min (pace_gain (micros (now - r)) window srtt) usize_max) usize_max) burst"
  by (simp add: pacer_available_def pace_gain_def saturating_duration_since_def Let_def split: option.split)

lemma pacer_ready_suffices:
  assumes "bytes \<le> burst" "burst \<le> window" "window \<le> usize_max"
    and past: "\<And>r. pc_refilled p = Some r \<Longrightarrow> r \<le> now"
    and soon: "\<And>r. pc_refilled p = Some r \<Longrightarrow>
      pacer_ready p now bytes window burst srtt < r + from_micros u64_max"
    and srtt: "\<And>s. srtt = Some s \<Longrightarrow> 1 \<le> micros s"
  shows "bytes \<le> pacer_available p (pacer_ready p now bytes window burst srtt) window burst srtt"
proof (cases "bytes \<le> pacer_available p now window burst srtt")
  case True
  then show ?thesis by (simp add: pacer_ready_def)
next
  case False
  then obtain r where r: "pc_refilled p = Some r"
    using assms(1) by (cases "pc_refilled p") (simp_all add: pacer_available_def)
  define short w where "short = bytes - pacer_available p now window burst srtt"
    and "w = pace_wait short (max window 1) srtt"
  have window: "0 < window" "max window 1 = window" using False assms(1,2) by auto
  have short: "0 < short" using False by (simp add: short_def)
  have ready: "pacer_ready p now bytes window burst srtt = now + from_micros (min w u64_max)"
    using short by (simp add: pacer_ready_def short_def [symmetric] w_def pace_wait_def Let_def split: option.split)
  have "w < u64_max" using soon [OF r] past [OF r] ready by (simp add: from_micros_def min_def split: if_splits)
  with ready have t: "pacer_ready p now bytes window burst srtt = now + from_micros w" by simp
  have elapsed: "micros (now + from_micros w - r) = micros (now - r) + w"
    using micros_advance [OF past [OF r]] soon [OF r] t by simp
  let ?g = "pace_gain (micros (now - r)) window srtt"
  let ?g' = "pace_gain (micros (now - r) + w) window srtt"
  have "?g + short \<le> ?g'" unfolding w_def window(2) by (rule pace_gain_wait [OF window(1) srtt])
  moreover have "pacer_available p now window burst srtt = pc_tokens p + ?g"
    using False assms(1-3) unfolding pacer_available_gain [OF r] by (auto simp: min_def split: if_splits)
  ultimately show ?thesis
    using assms(1-3) False unfolding t pacer_available_gain [OF r] elapsed short_def by (auto simp: min_def)
qed

section \<open>Invariant\<close>

text \<open>While the datagram size is one the packet layer admits, the window holds at least two
  base datagrams and at most the ceiling of the widest.\<close>

definition cong_ok :: "congestion \<Rightarrow> bool" where
  "cong_ok c \<longleftrightarrow>
     BASE_DATAGRAM \<le> cc_datagram c \<and> cc_datagram c \<le> MAX_DATAGRAM \<and>
     MIN_DATAGRAMS * BASE_DATAGRAM \<le> cc_window c \<and> cc_window c \<le> MAX_DATAGRAMS * MAX_DATAGRAM"

lemmas cong_consts = packet_consts INITIAL_DATAGRAMS_def MIN_DATAGRAMS_def MAX_DATAGRAMS_def BURST_DATAGRAMS_def
lemmas cong_sizes = cong_minimum_def cong_ceiling_def cong_initial_def cong_burst_def

named_theorems cong_frames

lemma cong_ok_new: "cong_ok (cong_new BASE_DATAGRAM)"
  by (simp add: cong_ok_def cong_new_def cong_consts)

lemma cong_ok_datagram:
  "cong_ok c \<Longrightarrow> BASE_DATAGRAM \<le> n \<Longrightarrow> n \<le> MAX_DATAGRAM \<Longrightarrow> cong_ok (cong_datagram c n)"
  by (simp add: cong_ok_def cong_datagram_def)

lemma cong_ok_sealed: "cong_ok c \<Longrightarrow> cong_ok (snd (cong_sealed c bytes now))"
  by (simp add: cong_ok_def cong_sealed_def Let_def)

lemma cong_ok_lost: "cong_ok c \<Longrightarrow> cong_ok (cong_lost c bytes sent now)"
  by (auto simp: cong_ok_def cong_lost_def cong_remember_def cong_minimum_def cong_consts Let_def)

lemma cong_ok_spurious: "cong_ok c \<Longrightarrow> cong_ok (cong_spurious c)"
  by (auto simp: cong_ok_def cong_spurious_def cong_ceiling_def cong_consts split: option.splits)

lemma cong_ok_abandoned: "cong_ok c \<Longrightarrow> cong_ok (cong_abandoned c bytes)"
  by (simp add: cong_ok_def cong_abandoned_def)

lemma cong_ok_collapse: "cong_ok c \<Longrightarrow> cong_ok (cong_collapse c now)"
  by (auto simp: cong_ok_def cong_collapse_def cong_remember_def cong_minimum_def cong_consts Let_def)

lemma cong_ok_migrated: "cong_ok c \<Longrightarrow> cong_ok (cong_migrated c)"
  by (simp add: cong_ok_def cong_migrated_def cong_initial_def cong_consts)

lemma cong_check_overshoot_frame [cong_frames]:
  "cc_window (cong_check_overshoot c r) = cc_window c"
  "cc_datagram (cong_check_overshoot c r) = cc_datagram c"
  "cc_in_flight (cong_check_overshoot c r) = cc_in_flight c"
  "cc_credit (cong_check_overshoot c r) = cc_credit c"
  "cc_srtt (cong_check_overshoot c r) = cc_srtt c"
  "cc_pacer (cong_check_overshoot c r) = cc_pacer c"
  by (simp_all add: cong_check_overshoot_def Let_def split: option.split)

text \<open>The state \<^verbatim>\<open>acknowledged\<close> has reached when it comes to grow the window.\<close>

definition ack_settled :: "congestion \<Rightarrow> nat \<Rightarrow> instant \<Rightarrow> rtt \<Rightarrow> congestion" where
  "ack_settled c bytes sent r =
     (let c1 = c\<lparr>cc_in_flight := cc_in_flight c - bytes, cc_srtt := rtt_smoothed r\<rparr>;
          c2 = (if (case cc_recovery_start c1 of Some start \<Rightarrow> start < sent | None \<Rightarrow> False)
                then c1\<lparr>cc_recovery_start := None\<rparr> else c1)
      in if cc_window c2 < cc_ssthresh c2 then cong_check_overshoot c2 r else c2)"

lemma ack_settled_frame [cong_frames]:
  "cc_window (ack_settled c bytes sent r) = cc_window c"
  "cc_datagram (ack_settled c bytes sent r) = cc_datagram c"
  "cc_in_flight (ack_settled c bytes sent r) = cc_in_flight c - bytes"
  "cc_credit (ack_settled c bytes sent r) = cc_credit c"
  "cc_srtt (ack_settled c bytes sent r) = rtt_smoothed r"
  "cc_pacer (ack_settled c bytes sent r) = cc_pacer c"
  by (simp_all add: ack_settled_def Let_def cong_frames)

lemma cong_acknowledged_eq:
  "cong_acknowledged c bytes sent r limited =
     (let c3 = ack_settled c bytes sent r
      in if limited = Application then Some c3
         else if cc_window c < cc_ssthresh c3
           then Some (c3\<lparr>cc_window := min (cc_window c + bytes) (cong_ceiling c)\<rparr>)
         else map_option (\<lambda>(credit, window). c3\<lparr>cc_credit := credit, cc_window := window\<rparr>)
                (grow_loop (cc_datagram c) (cong_ceiling c) (cc_credit c + bytes) (cc_window c)))"
proof -
  have "cong_ceiling (ack_settled c bytes sent r) = cong_ceiling c" by (simp add: cong_ceiling_def cong_frames)
  moreover have "cong_acknowledged c bytes sent r limited =
     (let c3 = ack_settled c bytes sent r
      in if limited = Application then Some c3
         else if cc_window c3 < cc_ssthresh c3
           then Some (c3\<lparr>cc_window := min (cc_window c3 + bytes) (cong_ceiling c3)\<rparr>)
         else (case grow_loop (cc_datagram c3) (cong_ceiling c3) (cc_credit c3 + bytes) (cc_window c3) of
              None \<Rightarrow> None
            | Some (credit, window) \<Rightarrow> Some (c3\<lparr>cc_credit := credit, cc_window := window\<rparr>)))"
    unfolding cong_acknowledged_def ack_settled_def by (simp only: Let_def)
  ultimately show ?thesis by (simp add: Let_def cong_frames split: option.split)
qed

lemma cong_acknowledged_spec:
  assumes "0 < cc_window c" "0 < cc_datagram c"
  shows "\<exists>c'. cong_acknowledged c bytes sent r limited = Some c' \<and>
     cc_in_flight c' = cc_in_flight c - bytes \<and> cc_datagram c' = cc_datagram c \<and>
     cc_srtt c' = rtt_smoothed r \<and> cc_pacer c' = cc_pacer c \<and>
     cc_ssthresh c' = cc_ssthresh (ack_settled c bytes sent r) \<and>
     (limited = Application \<longrightarrow> cc_window c' = cc_window c) \<and>
     min (cc_window c) (cong_ceiling c) \<le> cc_window c' \<and>
     cc_window c' \<le> max (cc_window c) (cong_ceiling c) \<and>
     (cc_window c < cc_ssthresh (ack_settled c bytes sent r) \<longrightarrow> cc_window c' \<le> cc_window c + bytes) \<and>
     (cc_ssthresh (ack_settled c bytes sent r) \<le> cc_window c \<longrightarrow>
        cc_window c' \<le> cc_window c + cc_datagram c * ((cc_credit c + bytes) div cc_window c))"
proof -
  have "0 < cong_ceiling c" using assms by (simp add: cong_ceiling_def MAX_DATAGRAMS_def)
  from grow_loop_spec [OF assms(1) this, of "cc_datagram c" "cc_credit c + bytes"]
  obtain credit' window' where
    loop: "grow_loop (cc_datagram c) (cong_ceiling c) (cc_credit c + bytes) (cc_window c) = Some (credit', window')"
      "min (cc_window c) (cong_ceiling c) \<le> window'" "window' \<le> max (cc_window c) (cong_ceiling c)"
      "window' \<le> cc_window c + cc_datagram c * ((cc_credit c + bytes) div cc_window c)" by blast
  show ?thesis
    using loop by (auto simp: cong_acknowledged_eq Let_def cong_frames min_le_iff_disj)
qed

lemma cong_ok_pos: "cong_ok c \<Longrightarrow> 0 < cc_window c \<and> 0 < cc_datagram c"
  by (auto simp: cong_ok_def cong_consts)

lemma cong_ok_acknowledged:
  assumes "cong_ok c"
  shows "\<exists>c'. cong_acknowledged c bytes sent r limited = Some c' \<and> cong_ok c' \<and>
     cc_in_flight c' = cc_in_flight c - bytes \<and> cc_datagram c' = cc_datagram c \<and>
     cc_srtt c' = rtt_smoothed r \<and> cc_pacer c' = cc_pacer c"
proof -
  have pos: "0 < cc_window c" "0 < cc_datagram c" using cong_ok_pos [OF assms] by auto
  have ceiling: "MAX_DATAGRAMS * BASE_DATAGRAM \<le> cong_ceiling c" "cong_ceiling c \<le> MAX_DATAGRAMS * MAX_DATAGRAM"
    using assms by (auto simp: cong_ok_def cong_ceiling_def MAX_DATAGRAMS_def)
  from cong_acknowledged_spec [OF pos, of bytes sent r limited] obtain c' where
    c': "cong_acknowledged c bytes sent r limited = Some c'" "cc_in_flight c' = cc_in_flight c - bytes"
      "cc_datagram c' = cc_datagram c" "cc_srtt c' = rtt_smoothed r" "cc_pacer c' = cc_pacer c"
      "min (cc_window c) (cong_ceiling c) \<le> cc_window c'" "cc_window c' \<le> max (cc_window c) (cong_ceiling c)"
    by blast
  have "cong_ok c'" using assms ceiling c' by (auto simp: cong_ok_def cong_consts)
  with c' show ?thesis by blast
qed

section \<open>Runs\<close>

datatype cong_op =
    CSealed nat instant
  | CAcknowledged nat instant rtt limited
  | CLost nat instant instant
  | CAbandoned nat
  | CSpurious
  | CCollapse instant
  | CMigrated
  | CDatagram nat

fun cong_step :: "congestion \<Rightarrow> cong_op \<Rightarrow> congestion option" where
  "cong_step c (CSealed bytes now) = Some (snd (cong_sealed c bytes now))"
| "cong_step c (CAcknowledged bytes sent r limited) = cong_acknowledged c bytes sent r limited"
| "cong_step c (CLost bytes sent now) = Some (cong_lost c bytes sent now)"
| "cong_step c (CAbandoned bytes) = Some (cong_abandoned c bytes)"
| "cong_step c CSpurious = Some (cong_spurious c)"
| "cong_step c (CCollapse now) = Some (cong_collapse c now)"
| "cong_step c CMigrated = Some (cong_migrated c)"
| "cong_step c (CDatagram n) = Some (cong_datagram c n)"

fun cong_run :: "congestion \<Rightarrow> cong_op list \<Rightarrow> congestion option" where
  "cong_run c [] = Some c"
| "cong_run c (op # ops) = (case cong_step c op of None \<Rightarrow> None | Some c' \<Rightarrow> cong_run c' ops)"

fun datagram_admitted :: "cong_op \<Rightarrow> bool" where
  "datagram_admitted (CDatagram n) \<longleftrightarrow> BASE_DATAGRAM \<le> n \<and> n \<le> MAX_DATAGRAM"
| "datagram_admitted op \<longleftrightarrow> True"

lemma cong_ok_step:
  "cong_ok c \<Longrightarrow> datagram_admitted op \<Longrightarrow> \<exists>c'. cong_step c op = Some c' \<and> cong_ok c'"
proof (cases op)
  case (CAcknowledged bytes sent r limited)
  then show "cong_ok c \<Longrightarrow> ?thesis" using cong_ok_acknowledged [of c bytes sent r limited] by auto
qed (simp_all add: cong_ok_sealed cong_ok_lost cong_ok_abandoned cong_ok_spurious cong_ok_collapse
      cong_ok_migrated cong_ok_datagram)

lemma cong_ok_run:
  "cong_ok c \<Longrightarrow> list_all datagram_admitted ops \<Longrightarrow> \<exists>c'. cong_run c ops = Some c' \<and> cong_ok c'"
proof (induction ops arbitrary: c)
  case (Cons op ops)
  then obtain c' where "cong_step c op = Some c'" "cong_ok c'" using cong_ok_step [of c op] by auto
  with Cons.IH [of c'] Cons.prems show ?case by simp
qed simp

lemma cong_lost_frame:
  "cc_recovery_start c = Some start \<Longrightarrow> sent < start \<Longrightarrow>
     cong_lost c bytes sent now = c\<lparr>cc_in_flight := cc_in_flight c - bytes\<rparr>"
  by (simp add: cong_lost_def Let_def)

lemma cong_lost_episode:
  "cc_recovery_start c = Some now \<Longrightarrow> list_all (\<lambda>(bytes, sent). sent < now) ps \<Longrightarrow>
     cc_window (foldl (\<lambda>c (bytes, sent). cong_lost c bytes sent now) c ps) = cc_window c"
  by (induction ps arbitrary: c) (auto simp: cong_lost_frame)

section \<open>Properties\<close>

text \<open>C33: the controller always returns and never leaves its range. From the opening window,
  through any sequence of sends, arrivals, losses, collapses, undos, migrations and admitted
  changes of datagram size, every call ends and the window stays between two base datagrams
  and 512 of the largest.\<close>

theorem cong_returns_in_range:
  assumes "list_all datagram_admitted ops"
  shows "\<exists>c. cong_run (cong_new BASE_DATAGRAM) ops = Some c \<and>
     2 * BASE_DATAGRAM \<le> cc_window c \<and> cc_window c \<le> 512 * MAX_DATAGRAM"
  using cong_ok_run [OF cong_ok_new assms] by (auto simp: cong_ok_def MIN_DATAGRAMS_def MAX_DATAGRAMS_def)

theorem cong_returns_in_range_witness:
  "\<exists>c. cong_run (cong_new BASE_DATAGRAM)
       [CDatagram 8900, CSealed 1200 5, CLost 1200 5 9, CAcknowledged 1200 10 rtt_default Window] = Some c \<and>
     2 * BASE_DATAGRAM \<le> cc_window c \<and> cc_window c \<le> 512 * MAX_DATAGRAM"
  by (rule cong_returns_in_range) (simp add: packet_consts)

text \<open>C40: signals of congestion never raise the window, and a flight lost together halves it
  once: of packets all sealed before the instant their loss is noticed, every one after the
  first leaves the window where the first put it.\<close>

theorem cong_halves_once:
  assumes "list_all (\<lambda>(bytes, sent). sent < now) ((b, s) # ps)"
  shows "cc_window (cong_lost c b s now) \<le> cc_window c \<and>
     cc_window (cong_collapse c now) \<le> cc_window c \<and>
     (cc_recovery_start c = None \<longrightarrow>
        cc_window (foldl (\<lambda>c (bytes, sent). cong_lost c bytes sent now) c ((b, s) # ps)) =
          max (cc_window c div 2) (min (2 * cc_datagram c) (cc_window c)))"
proof -
  have "cc_window (cong_lost c b s now) \<le> cc_window c" "cc_window (cong_collapse c now) \<le> cc_window c"
    by (auto simp: cong_lost_def cong_collapse_def cong_remember_def cong_minimum_def Let_def)
  moreover have "cc_window (foldl (\<lambda>c (bytes, sent). cong_lost c bytes sent now) c ((b, s) # ps)) =
      max (cc_window c div 2) (min (2 * cc_datagram c) (cc_window c))" if "cc_recovery_start c = None"
  proof -
    have "cc_recovery_start (cong_lost c b s now) = Some now"
      "cc_window (cong_lost c b s now) = max (cc_window c div 2) (min (2 * cc_datagram c) (cc_window c))"
      using that by (auto simp: cong_lost_def cong_remember_def cong_minimum_def MIN_DATAGRAMS_def Let_def)
    with cong_lost_episode [of "cong_lost c b s now" now ps] assms show ?thesis by simp
  qed
  ultimately show ?thesis by blast
qed

theorem cong_halves_once_witness:
  "cc_window (foldl (\<lambda>c (bytes, sent). cong_lost c bytes sent 9) (cong_new 1200) ((1200, 1) # [(1200, 2), (1200, 3)])) = 6000"
  using cong_halves_once [of 9 1200 1 "[(1200, 2), (1200, 3)]" "cong_new 1200"]
  by (simp add: cong_new_def INITIAL_DATAGRAMS_def)

text \<open>The instant the pacer names is one at which it lets the bytes go: whenever the
  window has room and the bytes fit in one burst, asking again at the instant \<^verbatim>\<open>ready\<close>
  returned finds the datagram writable. The round-up is what this rests on.\<close>

theorem cong_ready_is_writable:
  assumes "cong_ready c now bytes = Some t" "bytes \<le> cong_burst c" "cc_window c \<le> usize_max"
    and "case pc_refilled (cc_pacer c) of
           None \<Rightarrow> True | Some r \<Rightarrow> r \<le> now \<and> t < r + from_micros u64_max"
    and "case cc_srtt c of None \<Rightarrow> True | Some s \<Rightarrow> 1 \<le> micros s"
  shows "now \<le> t \<and> cong_writable c t bytes"
proof -
  have burst: "cong_burst c \<le> cc_window c" by (simp add: cong_burst_def Let_def)
  have room: "cc_in_flight c + bytes \<le> cc_window c"
    and t: "t = pacer_ready (cc_pacer c) now bytes (cc_window c) (cong_burst c) (cc_srtt c)"
    using assms(1) by (auto simp: cong_ready_def split: if_splits)
  have "bytes \<le> pacer_available (cc_pacer c) t (cc_window c) (cong_burst c) (cc_srtt c)"
    unfolding t
  proof (rule pacer_ready_suffices [OF assms(2) burst assms(3)])
    show "r \<le> now" if "pc_refilled (cc_pacer c) = Some r" for r using assms(4) that by simp
    show "pacer_ready (cc_pacer c) now bytes (cc_window c) (cong_burst c) (cc_srtt c) < r + from_micros u64_max"
      if "pc_refilled (cc_pacer c) = Some r" for r using assms(4) that by (simp add: t)
    show "1 \<le> micros s" if "cc_srtt c = Some s" for s using assms(5) that by simp
  qed
  with room show ?thesis by (simp add: cong_writable_def t pacer_ready_def Let_def)
qed

theorem cong_ready_is_writable_witness:
  "let c = snd (cong_sealed (snd (cong_sealed (cong_new 1200) 6000 0)) 5900 0) in
   cong_ready c 0 100 = Some 0 \<and> cong_writable c 0 100 \<and>
   (let c' = snd (cong_sealed (cong_new 1200) 12000 0)\<lparr>cc_in_flight := 0\<rparr> in
    cong_ready c' 0 1200 = Some 10000000 \<and> cong_writable c' 10000000 1200)"
proof -
  let ?c = "snd (cong_sealed (snd (cong_sealed (cong_new 1200) 6000 0)) 5900 0)"
  let ?c' = "snd (cong_sealed (cong_new 1200) 12000 0)\<lparr>cc_in_flight := 0\<rparr>"
  note defs = cong_ready_def cong_sealed_def cong_new_def cong_burst_def pacer_spend_def pacer_new_def
    pacer_available_def pacer_ready_def micros_def saturating_duration_since_def INITIAL_PACE_def
    duration_defs u64_max_def usize_max_def div_ceil_def cong_consts
  have "cong_ready ?c 0 100 = Some 0" "cong_ready ?c' 0 1200 = Some 10000000" by (simp_all add: defs)
  moreover from this have "cong_writable ?c 0 100" "cong_writable ?c' 10000000 1200"
    using cong_ready_is_writable [of ?c 0 100 0] cong_ready_is_writable [of ?c' 0 1200 10000000]
    by (simp_all add: defs)
  ultimately show ?thesis by (simp add: Let_def)
qed

text \<open>Growth is measured. An arrival always returns; one sealed while the window had room
  to spare grows nothing; in slow start the window gains at most the bytes that arrived; in
  avoidance at most one datagram for each whole window acknowledged; and it never passes the
  ceiling except where it already was.\<close>

theorem cong_growth:
  assumes "0 < cc_window c" "0 < cc_datagram c"
  shows "\<exists>c'. cong_acknowledged c bytes sent r limited = Some c' \<and>
     cc_in_flight c' = cc_in_flight c - bytes \<and>
     (limited = Application \<longrightarrow> cc_window c' = cc_window c) \<and>
     cc_window c' \<le> max (cc_window c) (512 * cc_datagram c) \<and>
     cc_window c' \<le> cc_window c +
       (if cc_window c < cc_ssthresh c' then bytes
        else cc_datagram c * ((cc_credit c + bytes) div cc_window c))"
proof -
  from cong_acknowledged_spec [OF assms, of bytes sent r limited] obtain c' where
    "cong_acknowledged c bytes sent r limited = Some c'" "cc_in_flight c' = cc_in_flight c - bytes"
    "limited = Application \<longrightarrow> cc_window c' = cc_window c"
    "cc_window c' \<le> max (cc_window c) (cong_ceiling c)"
    "cc_ssthresh c' = cc_ssthresh (ack_settled c bytes sent r)"
    "cc_window c < cc_ssthresh (ack_settled c bytes sent r) \<longrightarrow> cc_window c' \<le> cc_window c + bytes"
    "cc_ssthresh (ack_settled c bytes sent r) \<le> cc_window c \<longrightarrow>
        cc_window c' \<le> cc_window c + cc_datagram c * ((cc_credit c + bytes) div cc_window c)" by blast
  then show ?thesis
    by (cases "cc_window c < cc_ssthresh (ack_settled c bytes sent r)")
      (auto simp: cong_ceiling_def MAX_DATAGRAMS_def mult.commute)
qed

theorem cong_growth_witness:
  "\<exists>c'. cong_acknowledged (cong_new 1200) 1200 5 rtt_default Window = Some c' \<and>
     cc_window c' \<le> max 12000 (512 * 1200)"
  using cong_growth [of "cong_new 1200" 1200 5 rtt_default Window]
  by (auto simp: cong_new_def INITIAL_DATAGRAMS_def)

end
