(* ===== verification/Endpoint.thy ===== *)
theory Endpoint
  imports Replay_Window Keys Aead Path Mtu Congestion
begin

text \<open>
  One end of a datagram connection, \<^verbatim>\<open>crates/dgram/src/endpoint.rs\<close>: the composition of the
  key schedule, the replay window, path validation, loss detection, congestion control and
  the MTU search. Every call is a function of the record \<open>endpoint\<close>, the instant and its
  inputs; \<open>H\<close> is the key derivation and \<open>A\<close> the cipher. A call that would panic, or would
  never return, is \<open>None\<close>; otherwise it gives its result and the endpoint after it. Bytes the
  source appends to \<^verbatim>\<open>out\<close> are returned, and what an arrival decrypts in place is returned
  as the frame.
\<close>

section \<open>Model: types\<close>

datatype send_error = TooLarge nat nat | Exhausted | SendClosed | Blocked

datatype recv_error =
  Malformed malformed_packet | WrongConnection | UnknownEpoch | Auth | Replayed nat

datatype received = ReceivedFrame bytes | ReceivedNothing | ReceivedMigrated socket_addr | ReceivedClosed

datatype ack_debt = DebtSettled | Owed (owed_at: instant) (owed_since: instant) (owed_eliciting: nat)

definition ACK_EVERY :: nat where "ACK_EVERY = 2"
definition KEEPALIVE :: duration where "KEEPALIVE = from_secs 1"

record endpoint =
  ep_cid :: connection_id
  ep_keys :: key_schedule
  ep_next :: nat
  ep_window :: replay_window
  ep_path :: path_validator
  ep_answer :: "(socket_addr \<times> token) option"
  ep_closed :: bool
  ep_role :: direction
  ep_sealed_since_poll :: bool
  ep_quiet_since :: "instant option"
  ep_congestion :: congestion
  ep_loss :: loss_detector
  ep_mtu :: mtu
  ep_debt :: ack_debt
  ep_rekey_every :: nat
  ep_rekey_at :: nat

type_synonym sealing = "((send_error + bytes) \<times> endpoint) option"
type_synonym transmission = "((socket_addr \<times> bytes) option \<times> endpoint) option"

definition ep_new ::
  "derive \<Rightarrow> connection_id \<Rightarrow> bytes \<Rightarrow> path_validator \<Rightarrow> direction \<Rightarrow> fragmentation \<Rightarrow> endpoint" where
  "ep_new H cid root path sending fragmentation =
     \<lparr>ep_cid = cid, ep_keys = keys_new H root sending, ep_next = 0, ep_window = window_new,
      ep_path = path, ep_answer = None, ep_closed = False, ep_role = sending,
      ep_sealed_since_poll = False, ep_quiet_since = None,
      ep_congestion = cong_new BASE_DATAGRAM, ep_loss = loss_new, ep_mtu = mtu_new fragmentation,
      ep_debt = DebtSettled, ep_rekey_every = REKEY_AFTER, ep_rekey_at = REKEY_AFTER\<rparr>"

definition ep_connect :: "derive \<Rightarrow> connection_id \<Rightarrow> bytes \<Rightarrow> socket_addr \<Rightarrow> fragmentation \<Rightarrow> endpoint" where
  "ep_connect H cid root peer fragmentation =
     ep_new H cid root (path_dialled peer) ClientToServer fragmentation"

definition ep_listen :: "derive \<Rightarrow> connection_id \<Rightarrow> bytes \<Rightarrow> socket_addr \<Rightarrow> fragmentation \<Rightarrow> endpoint" where
  "ep_listen H cid root peer fragmentation =
     ep_new H cid root (path_claimed peer) ServerToClient fragmentation"

definition ep_set_rekey_every :: "endpoint \<Rightarrow> nat \<Rightarrow> endpoint" where
  "ep_set_rekey_every ep packets =
     (let every = (if packets = 0 then 1 else packets)
      in ep\<lparr>ep_rekey_every := every, ep_rekey_at := u64_saturating_add (ep_next ep) every\<rparr>)"

definition ep_next_nonce :: "endpoint \<Rightarrow> epoch \<times> nat" where
  "ep_next_nonce ep = (send_epoch (ep_keys ep), ep_next ep)"

definition ep_payload_limit :: "endpoint \<Rightarrow> nat" where
  "ep_payload_limit ep = mtu_datagram (ep_mtu ep) - HEADER_BYTES - TAG_BYTES"

definition tracked :: "kind \<Rightarrow> bool" where
  "tracked kind \<longleftrightarrow> kind = Frame \<or> kind = Probe"

definition ep_admits :: "endpoint \<Rightarrow> socket_addr \<Rightarrow> nat \<Rightarrow> bool" where
  "ep_admits ep to bytes \<longleftrightarrow> loss_admits (ep_loss ep) \<and> path_may_send (ep_path ep) to bytes"

definition ep_ready :: "endpoint \<Rightarrow> instant \<Rightarrow> nat \<Rightarrow> instant option" where
  "ep_ready ep now frame_len =
     (let bytes = frame_len + HEADER_BYTES + TAG_BYTES
      in if \<not> ep_admits ep (pv_current (ep_path ep)) bytes then None
         else cong_ready (ep_congestion ep) now bytes)"

definition ep_writable :: "endpoint \<Rightarrow> instant \<Rightarrow> nat \<Rightarrow> bool" where
  "ep_writable ep now frame_len \<longleftrightarrow>
     (let bytes = frame_len + HEADER_BYTES + TAG_BYTES
      in \<not> ep_closed ep \<and> ep_admits ep (pv_current (ep_path ep)) bytes \<and>
         cong_writable (ep_congestion ep) now bytes)"

record stats =
  st_cwnd :: nat
  st_bytes_in_flight :: nat
  st_srtt :: "duration option"
  st_rttvar :: duration
  st_plpmtu :: nat
  st_lost :: nat
  st_spurious :: nat

definition ep_stats :: "endpoint \<Rightarrow> stats" where
  "ep_stats ep =
     \<lparr>st_cwnd = cc_window (ep_congestion ep), st_bytes_in_flight = cc_in_flight (ep_congestion ep),
      st_srtt = rtt_smoothed (ld_rtt (ep_loss ep)), st_rttvar = rtt_variation (ld_rtt (ep_loss ep)),
      st_plpmtu = mtu_datagram (ep_mtu ep), st_lost = ld_losses (ep_loss ep),
      st_spurious = ld_spurious (ep_loss ep)\<rparr>"

section \<open>Model: what the flight taught\<close>

fun absorb_arrived :: "rtt \<Rightarrow> arrived_packet list \<Rightarrow> congestion \<Rightarrow> mtu \<Rightarrow> (congestion \<times> mtu) option" where
  "absorb_arrived r [] c m = Some (c, m)"
| "absorb_arrived r (arrived # rest) c m =
     (case cong_acknowledged c (ar_bytes arrived) (ar_sent arrived) r (ar_limited arrived) of
        None \<Rightarrow> None
      | Some c' \<Rightarrow> absorb_arrived r rest c' (mtu_acknowledged m (ar_number arrived) (ar_bytes arrived)))"

fun absorb_gone :: "instant \<Rightarrow> gone_packet list \<Rightarrow> congestion \<Rightarrow> mtu \<Rightarrow> congestion \<times> mtu" where
  "absorb_gone now [] c m = (c, m)"
| "absorb_gone now (gone # rest) c m =
     (case gn_cause gone of
        Lost \<Rightarrow>
          absorb_gone now rest (cong_lost c (gn_bytes gone) (gn_sent gone) now)
            (mtu_lost m (gn_number gone) (gn_bytes gone) now)
      | Silent \<Rightarrow>
          absorb_gone now rest (cong_abandoned c (gn_bytes gone))
            (mtu_silent m (gn_number gone) (gn_bytes gone) now)
      | Overflowed \<Rightarrow>
          absorb_gone now rest (cong_abandoned c (gn_bytes gone))
            (mtu_forgotten m (gn_number gone) now))"

definition ep_absorb :: "endpoint \<Rightarrow> instant \<Rightarrow> endpoint option" where
  "ep_absorb ep now =
     (let loss = ep_loss ep;
          c0 = (if ld_revived loss then cong_spurious (ep_congestion ep) else ep_congestion ep)
      in case absorb_arrived (ld_rtt loss) (ld_arrived loss) c0 (ep_mtu ep) of
           None \<Rightarrow> None
         | Some (c1, m1) \<Rightarrow>
             (let (c2, m2) = absorb_gone now (ld_gone loss) c1 m1;
                  c3 = cong_datagram c2 (mtu_datagram m2);
                  c4 = (if ld_persistent loss then cong_collapse c3 now else c3)
              in Some (ep\<lparr>ep_congestion := c4, ep_mtu := m2\<rparr>)))"

definition ep_expire :: "endpoint \<Rightarrow> instant \<Rightarrow> endpoint option" where
  "ep_expire ep now = ep_absorb (ep\<lparr>ep_loss := loss_expire (ep_loss ep) now\<rparr>) now"

section \<open>Model: sealing\<close>

text \<open>The rotation due before a number past \<^verbatim>\<open>rekey_at\<close> is used; \<open>None\<close> is the early return
  with \<^verbatim>\<open>Exhausted\<close>, which changes nothing.\<close>

definition ep_rekey :: "derive \<Rightarrow> endpoint \<Rightarrow> endpoint option" where
  "ep_rekey H ep =
     (if ep_rekey_at ep \<le> ep_next ep then
        (case keys_rotate H (ep_keys ep) of
           (None, ks) \<Rightarrow> None
         | (Some _, ks) \<Rightarrow>
             Some (ep\<lparr>ep_keys := ks,
                      ep_rekey_at := u64_saturating_add (ep_next ep) (ep_rekey_every ep)\<rparr>))
      else Some ep)"

text \<open>The flight's share of a sealed datagram: the window is charged, the table gains a row,
  and what that retires is absorbed.\<close>

definition ep_track :: "endpoint \<Rightarrow> nat \<Rightarrow> nat \<Rightarrow> instant \<Rightarrow> endpoint option" where
  "ep_track ep number bytes now =
     (let (limited, c) = cong_sealed (ep_congestion ep) bytes now
      in ep_absorb (ep\<lparr>ep_congestion := c,
           ep_loss := loss_sealed (ep_loss ep)
             \<lparr>if_number = number, if_bytes = bytes, if_sent = now, if_limited = limited\<rparr>\<rparr>) now)"

definition ep_seal_with ::
  "derive \<Rightarrow> cipher \<Rightarrow> endpoint \<Rightarrow> kind \<Rightarrow> socket_addr \<Rightarrow> instant \<Rightarrow> bytes \<Rightarrow> sealing" where
  "ep_seal_with H A ep kind to now body =
     (if ep_closed ep then Some (Inl SendClosed, ep)
      else if tracked kind \<and> \<not> loss_admits (ep_loss ep) then Some (Inl Blocked, ep)
      else case ep_rekey H ep of
        None \<Rightarrow> Some (Inl Exhausted, ep)
      | Some ep1 \<Rightarrow>
          let header = \<lparr>hd_kind = kind, hd_cid = ep_cid ep1, hd_epoch = send_epoch (ep_keys ep1),
                        hd_number = ep_next ep1\<rparr>
          in case header_encode header of
               None \<Rightarrow> None
             | Some head \<Rightarrow>
                 let (payload, tag) = aead_seal A (ks_send_key (ep_keys ep1)) head (hd_number header) body;
                     datagram = head @ payload @ tag;
                     bytes = length datagram
                 in if \<not> path_may_send (ep_path ep1) to bytes then Some (Inl Blocked, ep1)
                    else
                      let ep2 = ep1\<lparr>ep_path := path_spent (ep_path ep1) to bytes,
                                    ep_next := ep_next ep1 + 1, ep_sealed_since_poll := True\<rparr>
                      in if tracked kind
                         then map_option (\<lambda>ep3. (Inr datagram, ep3)) (ep_track ep2 (hd_number header) bytes now)
                         else Some (Inr datagram, ep2))"

definition ep_seal ::
  "derive \<Rightarrow> cipher \<Rightarrow> endpoint \<Rightarrow> kind \<Rightarrow> bytes \<Rightarrow> socket_addr \<Rightarrow> instant \<Rightarrow> sealing" where
  "ep_seal H A ep kind body to now = ep_seal_with H A ep kind to now body"

definition ep_send ::
  "derive \<Rightarrow> cipher \<Rightarrow> endpoint \<Rightarrow> bytes \<Rightarrow> instant \<Rightarrow> ((send_error + socket_addr \<times> bytes) \<times> endpoint) option" where
  "ep_send H A ep frame now =
     (let limit = ep_payload_limit ep
      in if limit < length frame then Some (Inl (TooLarge (length frame) limit), ep)
         else if \<not> ep_writable ep now (length frame)
           then Some (Inl (if ep_closed ep then SendClosed else Blocked), ep)
         else
           let to = pv_current (ep_path ep)
           in map_option (\<lambda>(r, ep'). (map_sum id (Pair to) r, ep')) (ep_seal H A ep Frame frame to now))"

definition ep_close ::
  "derive \<Rightarrow> cipher \<Rightarrow> endpoint \<Rightarrow> instant \<Rightarrow> ((send_error + socket_addr \<times> bytes) \<times> endpoint) option" where
  "ep_close H A ep now =
     (let to = pv_current (ep_path ep)
      in map_option (\<lambda>(r, ep'). (map_sum id (Pair to) r, ep'\<lparr>ep_closed := True\<rparr>))
           (ep_seal H A ep Close [] to now))"

definition ep_rotate :: "derive \<Rightarrow> endpoint \<Rightarrow> (send_error + epoch) \<times> endpoint" where
  "ep_rotate H ep =
     (case keys_rotate H (ep_keys ep) of
        (None, ks) \<Rightarrow> (Inl Exhausted, ep\<lparr>ep_keys := ks\<rparr>)
      | (Some epoch, ks) \<Rightarrow> (Inr epoch, ep\<lparr>ep_keys := ks\<rparr>))"

section \<open>Model: what is due to be sent\<close>

text \<open>The shape \<^verbatim>\<open>.ok()?\<close> gives the senders below: a datagram for an address, or none.\<close>

definition sent_to :: "socket_addr \<Rightarrow> sealing \<Rightarrow> transmission" where
  "sent_to to r =
     map_option (\<lambda>(r, ep). ((case r of Inr datagram \<Rightarrow> Some (to, datagram) | Inl _ \<Rightarrow> None), ep)) r"

text \<open>Sequencing of senders: the first to produce a datagram ends the poll.\<close>

definition or_else :: "transmission \<Rightarrow> (endpoint \<Rightarrow> transmission) \<Rightarrow> transmission" where
  "or_else r next =
     (case r of
        None \<Rightarrow> None
      | Some (Some sent, ep) \<Rightarrow> Some (Some sent, ep)
      | Some (None, ep) \<Rightarrow> next ep)"

definition ep_poll_answer :: "derive \<Rightarrow> cipher \<Rightarrow> endpoint \<Rightarrow> instant \<Rightarrow> transmission" where
  "ep_poll_answer H A ep now =
     (case ep_answer ep of
        None \<Rightarrow> Some (None, ep)
      | Some (to, token) \<Rightarrow> sent_to to (ep_seal H A (ep\<lparr>ep_answer := None\<rparr>) Response token to now))"

definition ep_acknowledge :: "derive \<Rightarrow> cipher \<Rightarrow> endpoint \<Rightarrow> instant \<Rightarrow> transmission" where
  "ep_acknowledge H A ep now =
     (case ep_debt ep of
        DebtSettled \<Rightarrow> Some (None, ep)
      | Owed at since _ \<Rightarrow>
          if now < at then Some (None, ep)
          else case window_acknowledgement (ep_window ep) of
            None \<Rightarrow> Some (None, ep)
          | Some (largest, bm) \<Rightarrow>
              (case ack_encode \<lparr>ack_largest = largest, ack_delay = saturating_duration_since now since,
                                ack_map = bm\<rparr> of
                 None \<Rightarrow> None
               | Some body \<Rightarrow>
                   let to = pv_current (ep_path ep)
                   in case ep_seal H A ep AckKind body to now of
                        None \<Rightarrow> None
                      | Some (Inl _, ep1) \<Rightarrow> Some (None, ep1)
                      | Some (Inr datagram, ep1) \<Rightarrow> Some (Some (to, datagram), ep1\<lparr>ep_debt := DebtSettled\<rparr>)))"

definition ep_probe_path_mtu :: "derive \<Rightarrow> cipher \<Rightarrow> endpoint \<Rightarrow> instant \<Rightarrow> transmission" where
  "ep_probe_path_mtu H A ep now =
     (let confirming = mtu_confirming (ep_mtu ep); (offer, m) = mtu_poll (ep_mtu ep) now;
          ep1 = ep\<lparr>ep_mtu := m\<rparr>
      in case offer of
           None \<Rightarrow> Some (None, ep1)
         | Some candidate \<Rightarrow>
             if \<not> confirming \<and> \<not> cong_writable (ep_congestion ep1) now candidate then Some (None, ep1)
             else
               let padding = candidate - HEADER_BYTES - TAG_BYTES; to = pv_current (ep_path ep1);
                   number = ep_next ep1
               in case ep_seal_with H A ep1 Probe to now (replicate padding 0) of
                    None \<Rightarrow> None
                  | Some (Inl _, ep2) \<Rightarrow> Some (None, ep2)
                  | Some (Inr datagram, ep2) \<Rightarrow>
                      Some (Some (to, datagram), ep2\<lparr>ep_mtu := mtu_probing (ep_mtu ep2) number\<rparr>))"

definition ep_keepalive :: "derive \<Rightarrow> cipher \<Rightarrow> endpoint \<Rightarrow> instant \<Rightarrow> transmission" where
  "ep_keepalive H A ep now =
     (if ep_role ep \<noteq> ClientToServer \<or> ep_closed ep then Some (None, ep)
      else if ep_sealed_since_poll ep
        then Some (None, ep\<lparr>ep_sealed_since_poll := False, ep_quiet_since := Some now\<rparr>)
      else
        let since = (case ep_quiet_since ep of Some s \<Rightarrow> s | None \<Rightarrow> now);
            ep1 = ep\<lparr>ep_quiet_since := Some since\<rparr>
        in if saturating_duration_since now since < KEEPALIVE then Some (None, ep1)
           else
             let to = pv_current (ep_path ep1)
             in case ep_seal H A ep1 Alive [] to now of
                  None \<Rightarrow> None
                | Some (Inl _, ep2) \<Rightarrow> Some (None, ep2)
                | Some (Inr datagram, ep2) \<Rightarrow>
                    Some (Some (to, datagram), ep2\<lparr>ep_quiet_since := Some now, ep_sealed_since_poll := False\<rparr>))"

definition ep_poll_challenge ::
  "derive \<Rightarrow> cipher \<Rightarrow> bytes option \<Rightarrow> bytes option \<Rightarrow> endpoint \<Rightarrow> instant \<Rightarrow>
   (endpoint \<Rightarrow> transmission) \<Rightarrow> transmission" where
  "ep_poll_challenge H A fresh1 fresh2 ep now next =
     (case path_poll_challenge fresh1 fresh2 (ep_path ep) now of
        (Some (to, token), path) \<Rightarrow>
          let ep1 = ep\<lparr>ep_path := path\<rparr>; cost = HEADER_BYTES + length token + TAG_BYTES
          in if \<not> path_may_send (ep_path ep1) to cost then Some (None, ep1)
             else sent_to to (ep_seal H A ep1 Challenge token to now)
      | (None, path) \<Rightarrow> next (ep\<lparr>ep_path := path\<rparr>))"

definition ep_poll_transmit ::
  "derive \<Rightarrow> cipher \<Rightarrow> bytes option \<Rightarrow> bytes option \<Rightarrow> endpoint \<Rightarrow> instant \<Rightarrow> transmission" where
  "ep_poll_transmit H A fresh1 fresh2 ep now =
     (case ep_expire ep now of
        None \<Rightarrow> None
      | Some ep1 \<Rightarrow>
          or_else (ep_poll_answer H A ep1 now) (\<lambda>ep2.
          or_else (ep_acknowledge H A ep2 now) (\<lambda>ep3.
          ep_poll_challenge H A fresh1 fresh2 ep3 now (\<lambda>ep4.
          or_else (ep_probe_path_mtu H A ep4 now) (\<lambda>ep5.
          ep_keepalive H A ep5 now)))))"

definition earliest :: "instant option list \<Rightarrow> instant option" where
  "earliest ds = (case [d. Some d \<leftarrow> ds] of [] \<Rightarrow> None | d # rest \<Rightarrow> Some (foldl min d rest))"

definition ep_poll_deadline :: "endpoint \<Rightarrow> instant option" where
  "ep_poll_deadline ep =
     (if ep_closed ep then None
      else
        let owed = (case ep_debt ep of Owed at _ _ \<Rightarrow> Some at | DebtSettled \<Rightarrow> None);
            keepalive = (if ep_role ep = ClientToServer
                         then map_option (\<lambda>since. since + KEEPALIVE) (ep_quiet_since ep) else None)
        in earliest [loss_deadline (ep_loss ep), owed, mtu_deadline (ep_mtu ep),
                     path_challenge_deadline (ep_path ep), keepalive])"

section \<open>Model: arrivals\<close>

definition ep_owe_acknowledgement :: "endpoint \<Rightarrow> instant \<Rightarrow> kind \<Rightarrow> endpoint" where
  "ep_owe_acknowledgement ep now kind =
     (let eliciting = (case ep_debt ep of DebtSettled \<Rightarrow> 1 | Owed _ _ e \<Rightarrow> min (e + 1) 255);
          at = (if kind = Probe \<or> ACK_EVERY \<le> eliciting then now
                else case ep_debt ep of DebtSettled \<Rightarrow> now + MAX_ACK_DELAY | Owed at _ _ \<Rightarrow> at)
      in ep\<lparr>ep_debt := Owed at now eliciting\<rparr>)"

text \<open>The arms of \<^verbatim>\<open>match header.kind\<close> that do more than return.\<close>

definition ep_on_response :: "derive \<Rightarrow> endpoint \<Rightarrow> socket_addr \<Rightarrow> bytes \<Rightarrow> received \<times> endpoint" where
  "ep_on_response H ep from body =
     (if length body \<noteq> 8 then (ReceivedNothing, ep)
      else case path_answered (ep_path ep) from body of
        (Some (Migrated moved), path) \<Rightarrow>
          let ep1 = snd (ep_rotate H (ep\<lparr>ep_path := path\<rparr>));
              m = mtu_migrated (ep_mtu ep1);
              c = cong_migrated (cong_datagram (ep_congestion ep1) (mtu_datagram m))
          in (ReceivedMigrated moved,
              ep1\<lparr>ep_mtu := m, ep_congestion := c, ep_loss := loss_migrated (ep_loss ep1)\<rparr>)
      | (_, path) \<Rightarrow> (ReceivedNothing, ep\<lparr>ep_path := path\<rparr>))"

definition ep_on_ack :: "endpoint \<Rightarrow> instant \<Rightarrow> bytes \<Rightarrow> endpoint option" where
  "ep_on_ack ep now body =
     (case ack_decode body of
        None \<Rightarrow> Some ep
      | Some a \<Rightarrow>
          (case acknowledgement_checked a (ep_next ep) of
             None \<Rightarrow> Some ep
           | Some a \<Rightarrow>
               map_option (\<lambda>ep1. ep1\<lparr>ep_mtu := mtu_proven (ep_mtu ep1)\<rparr>)
                 (ep_absorb (ep\<lparr>ep_loss := snd (loss_acknowledged (ep_loss ep) a now)\<rparr>) now)))"

text \<open>What an authenticated, replay-checked datagram does.\<close>

definition ep_deliver ::
  "derive \<Rightarrow> endpoint \<Rightarrow> socket_addr \<Rightarrow> instant \<Rightarrow> nat \<Rightarrow> kind \<Rightarrow> bytes \<Rightarrow> (received \<times> endpoint) option" where
  "ep_deliver H ep from now bytes kind body =
     (let ep1 = ep\<lparr>ep_path := snd (path_arrived (ep_path ep) from bytes now)\<rparr>;
          ep2 = (if ack_eliciting kind then ep_owe_acknowledgement ep1 now kind else ep1)
      in case kind of
           Frame \<Rightarrow> Some (ReceivedFrame body, ep2)
         | Challenge \<Rightarrow>
             Some (ReceivedNothing, if length body = 8 then ep2\<lparr>ep_answer := Some (from, body)\<rparr> else ep2)
         | Response \<Rightarrow> Some (ep_on_response H ep2 from body)
         | AckKind \<Rightarrow> map_option (Pair ReceivedNothing) (ep_on_ack ep2 now body)
         | Alive \<Rightarrow> Some (ReceivedNothing, ep2)
         | Probe \<Rightarrow> Some (ReceivedNothing, ep2)
         | Close \<Rightarrow> Some (ReceivedClosed, ep2\<lparr>ep_closed := True\<rparr>))"

definition ep_recv ::
  "derive \<Rightarrow> cipher \<Rightarrow> endpoint \<Rightarrow> socket_addr \<Rightarrow> instant \<Rightarrow> bytes \<Rightarrow>
   ((recv_error + received) \<times> endpoint) option" where
  "ep_recv H A ep from now datagram =
     (case header_decode datagram of
        Inl e \<Rightarrow> Some (Inl (Malformed e), ep)
      | Inr header \<Rightarrow>
          if hd_cid header \<noteq> ep_cid ep then Some (Inl WrongConnection, ep)
          else
            let head = take HEADER_BYTES datagram;
                payload = take (length datagram - HEADER_BYTES - TAG_BYTES) (drop HEADER_BYTES datagram);
                tag = drop (length datagram - TAG_BYTES) datagram
            in case keys_opening H (ep_keys ep) (hd_epoch header) of
                 (None, ks) \<Rightarrow> Some (Inl UnknownEpoch, ep\<lparr>ep_keys := ks\<rparr>)
               | (Some key, ks) \<Rightarrow>
                   (case aead_open A key head (hd_number header) payload tag of
                      None \<Rightarrow> Some (Inl Auth, ep\<lparr>ep_keys := ks\<rparr>)
                    | Some body \<Rightarrow>
                        (case keys_adopt H ks (hd_epoch header) of
                           (None, ks1) \<Rightarrow> Some (Inl UnknownEpoch, ep\<lparr>ep_keys := ks1\<rparr>)
                         | (Some _, ks1) \<Rightarrow>
                             (case window_admit (ep_window ep) (hd_number header) of
                                (Fresh, w) \<Rightarrow>
                                  map_option (\<lambda>(r, ep'). (Inr r, ep'))
                                    (ep_deliver H (ep\<lparr>ep_keys := ks1, ep_window := w\<rparr>) from now
                                      (length datagram) (hd_kind header) body)
                              | (_, w) \<Rightarrow>
                                  Some (Inl (Replayed (hd_number header)),
                                        ep\<lparr>ep_keys := ks1, ep_window := w\<rparr>)))))"

record accepted =
  ac_endpoint :: endpoint
  ac_root :: bytes

definition accepted_commit :: "accepted \<Rightarrow> endpoint" where
  "accepted_commit a = ac_endpoint a"

definition accepted_release :: "accepted \<Rightarrow> bytes" where
  "accepted_release a = ac_root a"

record rejected =
  rj_root :: bytes
  rj_error :: recv_error

definition ep_accept ::
  "derive \<Rightarrow> cipher \<Rightarrow> connection_id \<Rightarrow> bytes \<Rightarrow> socket_addr \<Rightarrow> instant \<Rightarrow> bytes \<Rightarrow> fragmentation \<Rightarrow>
   (rejected + accepted \<times> received) option" where
  "ep_accept H A cid root from now datagram fragmentation =
     map_option
       (\<lambda>(r, ep). case r of
          Inr received \<Rightarrow> Inr (\<lparr>ac_endpoint = ep, ac_root = root\<rparr>, received)
        | Inl error \<Rightarrow> Inl \<lparr>rj_root = root, rj_error = error\<rparr>)
       (ep_recv H A (ep_new H cid root (path_claimed from) ServerToClient fragmentation) from now datagram)"

definition ep_path_refused :: "endpoint \<Rightarrow> nat \<Rightarrow> instant \<Rightarrow> endpoint" where
  "ep_path_refused ep carries now =
     (let m = mtu_refused (ep_mtu ep) carries now
      in ep\<lparr>ep_mtu := m, ep_congestion := cong_datagram (ep_congestion ep) (mtu_datagram m)\<rparr>)"

definition ep_probing :: "endpoint \<Rightarrow> bool" where
  "ep_probing ep = path_probing (ep_path ep)"

definition ep_confirming_path_mtu :: "endpoint \<Rightarrow> bool" where
  "ep_confirming_path_mtu ep = mtu_confirming (ep_mtu ep)"

section \<open>Runs\<close>

text \<open>Everything a caller does with an endpoint, on a clock that does not run backwards. A run
  records what happened: datagrams that left, datagrams that were accepted, frames that were
  delivered.\<close>

datatype ep_op =
    ESend bytes
  | EClose
  | ERotate
  | EPoll "bytes option" "bytes option"
  | ERecv socket_addr bytes
  | EPathRefused nat
  | EWait duration

datatype ep_event =
    Departed socket_addr bytes
  | Admitted socket_addr bytes received
  | Quiet

record ep_run_state =
  rn_clock :: instant
  rn_endpoint :: endpoint

definition quietly :: "ep_run_state \<Rightarrow> endpoint \<Rightarrow> ep_event \<times> ep_run_state" where
  "quietly s ep = (Quiet, s\<lparr>rn_endpoint := ep\<rparr>)"

fun ep_step :: "derive \<Rightarrow> cipher \<Rightarrow> ep_run_state \<Rightarrow> ep_op \<Rightarrow> (ep_event \<times> ep_run_state) option" where
  "ep_step H A s (ESend frame) =
     map_option (\<lambda>(r, ep). (case r of Inr (to, d) \<Rightarrow> Departed to d | Inl _ \<Rightarrow> Quiet, s\<lparr>rn_endpoint := ep\<rparr>))
       (ep_send H A (rn_endpoint s) frame (rn_clock s))"
| "ep_step H A s EClose =
     map_option (\<lambda>(r, ep). (case r of Inr (to, d) \<Rightarrow> Departed to d | Inl _ \<Rightarrow> Quiet, s\<lparr>rn_endpoint := ep\<rparr>))
       (ep_close H A (rn_endpoint s) (rn_clock s))"
| "ep_step H A s ERotate = Some (quietly s (snd (ep_rotate H (rn_endpoint s))))"
| "ep_step H A s (EPoll fresh1 fresh2) =
     map_option (\<lambda>(r, ep). (case r of Some (to, d) \<Rightarrow> Departed to d | None \<Rightarrow> Quiet, s\<lparr>rn_endpoint := ep\<rparr>))
       (ep_poll_transmit H A fresh1 fresh2 (rn_endpoint s) (rn_clock s))"
| "ep_step H A s (ERecv from d) =
     map_option (\<lambda>(r, ep). (case r of Inr received \<Rightarrow> Admitted from d received | Inl _ \<Rightarrow> Quiet, s\<lparr>rn_endpoint := ep\<rparr>))
       (ep_recv H A (rn_endpoint s) from (rn_clock s) d)"
| "ep_step H A s (EPathRefused carries) =
     Some (quietly s (ep_path_refused (rn_endpoint s) carries (rn_clock s)))"
| "ep_step H A s (EWait dt) = Some (Quiet, s\<lparr>rn_clock := rn_clock s + dt\<rparr>)"

fun ep_run :: "derive \<Rightarrow> cipher \<Rightarrow> ep_run_state \<Rightarrow> ep_op list \<Rightarrow> (ep_event list \<times> ep_run_state) option" where
  "ep_run H A s [] = Some ([], s)"
| "ep_run H A s (op # ops) =
     (case ep_step H A s op of
        None \<Rightarrow> None
      | Some (event, s') \<Rightarrow> map_option (\<lambda>(events, s''). (event # events, s'')) (ep_run H A s' ops))"

end
