(* ===== verification/Endpoint_Invariant.thy ===== *)
theory Endpoint_Invariant
  imports Endpoint
begin

text \<open>
  The invariant of an endpoint and what each of its calls does to it: every call returns, the
  books of the three traffic components agree with each other, and a call that hands out a
  datagram uses the next packet number and pays for it.
\<close>

section \<open>The books of the flight\<close>

definition flight_bytes :: "loss_detector \<Rightarrow> nat" where
  "flight_bytes ld = sum_list (map if_bytes (ld_sent ld))"

definition report_bytes :: "loss_detector \<Rightarrow> nat" where
  "report_bytes ld = sum_list (map ar_bytes (ld_arrived ld)) + sum_list (map gn_bytes (ld_gone ld))"

definition key_bytes :: "nat \<times> nat \<times> instant \<Rightarrow> nat" where
  "key_bytes k = fst (snd k)"

lemma flight_bytes_keys: "flight_bytes (dv_loss d) = sum_list (map key_bytes (flight_keys d))"
  by (simp add: flight_bytes_def flight_keys_def key_bytes_def comp_def)

lemma report_bytes_keys: "report_bytes ld = sum_list (map key_bytes (loss_report ld))"
  by (simp add: report_bytes_def loss_report_def key_bytes_def comp_def)

lemma driver_step_bytes:
  assumes "driver_ok d"
  shows "flight_bytes (dv_loss (driver_step d op)) + sum_list (map key_bytes (reports_of d op)) =
         flight_bytes (dv_loss d) + sum_list (map key_bytes (seals_of d op))"
proof -
  have "sum_mset (image_mset key_bytes (mset (flight_keys (driver_step d op)) + mset (reports_of d op))) =
        sum_mset (image_mset key_bytes (mset (flight_keys d) + mset (seals_of d op)))"
    by (simp only: driver_step_conserves [OF assms])
  then show ?thesis by (simp add: flight_bytes_keys sum_mset_sum_list [symmetric])
qed

definition traffic_ok :: "instant \<Rightarrow> nat \<Rightarrow> congestion \<Rightarrow> mtu \<Rightarrow> loss_detector \<Rightarrow> bool" where
  "traffic_ok now next c m ld \<longleftrightarrow>
     cong_ok c \<and> mtu_ok m \<and> cc_datagram c = mtu_datagram m \<and>
     driver_ok \<lparr>dv_next = next, dv_clock = now, dv_loss = ld\<rparr> \<and>
     cc_in_flight c = flight_bytes ld"

lemma traffic_ok_new: "traffic_ok now 0 (cong_new BASE_DATAGRAM) (mtu_new f) loss_new"
  using driver_ok_new [of now]
  by (simp add: traffic_ok_def cong_ok_new mtu_ok_new driver_new_def flight_bytes_def loss_new_def
      mtu_datagram_def) (simp add: cong_new_def mtu_new_def)

lemma driver_ok_later:
  "driver_ok \<lparr>dv_next = next, dv_clock = now, dv_loss = ld\<rparr> \<Longrightarrow> next \<le> next' \<Longrightarrow> now \<le> now' \<Longrightarrow>
     driver_ok \<lparr>dv_next = next', dv_clock = now', dv_loss = ld\<rparr>"
  by (fastforce simp: driver_ok_def intro: order_trans less_le_trans)

lemma traffic_ok_later:
  "traffic_ok now next c m ld \<Longrightarrow> next \<le> next' \<Longrightarrow> now \<le> now' \<Longrightarrow> traffic_ok now' next' c m ld"
  by (auto simp: traffic_ok_def intro: driver_ok_later)

lemma absorb_arrived_spec:
  "cong_ok c \<Longrightarrow> mtu_ok m \<Longrightarrow>
     \<exists>c' m'. absorb_arrived r as c m = Some (c', m') \<and> cong_ok c' \<and> mtu_ok m' \<and>
       cc_in_flight c' = cc_in_flight c - sum_list (map ar_bytes as)"
proof (induction r as c m rule: absorb_arrived.induct)
  case (2 r a as c m)
  from cong_ok_acknowledged [OF "2.prems"(1)] obtain c' where
    c': "cong_acknowledged c (ar_bytes a) (ar_sent a) r (ar_limited a) = Some c'" "cong_ok c'"
      "cc_in_flight c' = cc_in_flight c - ar_bytes a" by blast
  from "2.IH" [OF c'(1,2)] mtu_acknowledged_spec [OF "2.prems"(2)] c' show ?case by simp
qed simp

lemma cong_signal_in_flight:
  "cc_in_flight (cong_lost c bytes sent now) = cc_in_flight c - bytes"
  "cc_in_flight (cong_abandoned c bytes) = cc_in_flight c - bytes"
  "cc_in_flight (cong_spurious c) = cc_in_flight c"
  "cc_in_flight (cong_collapse c now) = cc_in_flight c"
  "cc_in_flight (cong_datagram c n) = cc_in_flight c"
  "cc_in_flight (cong_migrated c) = cc_in_flight c"
  by (simp_all add: cong_lost_def cong_remember_def cong_abandoned_def cong_spurious_def cong_collapse_def
      cong_datagram_def cong_migrated_def Let_def split: option.split)

lemma cong_collapse_datagram [simp]: "cc_datagram (cong_collapse c now) = cc_datagram c"
  by (simp add: cong_collapse_def cong_remember_def Let_def)

lemma absorb_gone_spec:
  "cong_ok c \<Longrightarrow> mtu_ok m \<Longrightarrow> absorb_gone now gs c m = (c', m') \<Longrightarrow>
     cong_ok c' \<and> mtu_ok m' \<and> cc_in_flight c' = cc_in_flight c - sum_list (map gn_bytes gs)"
proof (induction now gs c m rule: absorb_gone.induct)
  case (2 now g gs c m)
  then show ?case
    by (cases "gn_cause g")
      (simp_all add: cong_ok_lost cong_ok_abandoned cong_signal_in_flight mtu_lost_spec mtu_silent_spec mtu_forgotten_spec)
qed simp

lemma ep_absorb_spec:
  assumes "cong_ok (ep_congestion ep)" "mtu_ok (ep_mtu ep)"
    and "driver_ok \<lparr>dv_next = next, dv_clock = now, dv_loss = ep_loss ep\<rparr>"
    and "cc_in_flight (ep_congestion ep) = flight_bytes (ep_loss ep) + report_bytes (ep_loss ep)"
  shows "\<exists>c m. ep_absorb ep now = Some (ep\<lparr>ep_congestion := c, ep_mtu := m\<rparr>) \<and>
     traffic_ok now next c m (ep_loss ep)"
proof -
  let ?ld = "ep_loss ep"
  define c0 where "c0 = (if ld_revived ?ld then cong_spurious (ep_congestion ep) else ep_congestion ep)"
  have c0: "cong_ok c0" "cc_in_flight c0 = flight_bytes ?ld + report_bytes ?ld"
    using assms by (simp_all add: c0_def cong_ok_spurious cong_signal_in_flight)
  from absorb_arrived_spec [OF c0(1) assms(2), of "ld_rtt ?ld" "ld_arrived ?ld"] obtain c1 m1 where
    one: "absorb_arrived (ld_rtt ?ld) (ld_arrived ?ld) c0 (ep_mtu ep) = Some (c1, m1)" "cong_ok c1" "mtu_ok m1"
      "cc_in_flight c1 = cc_in_flight c0 - sum_list (map ar_bytes (ld_arrived ?ld))" by blast
  obtain c2 m2 where two: "absorb_gone now (ld_gone ?ld) c1 m1 = (c2, m2)" by fastforce
  note spec = absorb_gone_spec [OF one(2,3) two]
  let ?c3 = "cong_datagram c2 (mtu_datagram m2)"
  let ?c4 = "if ld_persistent ?ld then cong_collapse ?c3 now else ?c3"
  have "BASE_DATAGRAM \<le> mtu_datagram m2 \<and> mtu_datagram m2 \<le> MAX_DATAGRAM"
    using mtu_width_bounds [of m2] spec by (simp add: mtu_datagram_def mtu_consts)
  then have "cong_ok ?c3" using spec by (simp add: cong_ok_datagram)
  then have "cong_ok ?c4" by (simp add: cong_ok_collapse)
  moreover have "cc_datagram ?c4 = mtu_datagram m2" by (simp add: cong_datagram_def)
  moreover have "cc_in_flight ?c4 = flight_bytes ?ld"
    using spec one(4) c0(2) by (simp add: cong_signal_in_flight report_bytes_def)
  ultimately have "traffic_ok now next ?c4 m2 ?ld" using spec assms(3) by (simp add: traffic_ok_def)
  moreover have "ep_absorb ep now = Some (ep\<lparr>ep_congestion := ?c4, ep_mtu := m2\<rparr>)"
    by (simp add: ep_absorb_def c0_def [symmetric] one(1) two Let_def)
  ultimately show ?thesis by blast
qed

text \<open>The three calls that change the flight, each followed by its absorption.\<close>

lemma traffic_updates:
  "ep\<lparr>ep_loss := ld, ep_congestion := c, ep_mtu := m\<rparr> = ep\<lparr>ep_congestion := c, ep_mtu := m, ep_loss := ld\<rparr>"
  by simp

lemma ep_expire_spec:
  assumes "traffic_ok now next (ep_congestion ep) (ep_mtu ep) (ep_loss ep)"
  shows "\<exists>c m ld. ep_expire ep now = Some (ep\<lparr>ep_congestion := c, ep_mtu := m, ep_loss := ld\<rparr>) \<and>
     traffic_ok now next c m ld"
proof -
  let ?d = "\<lparr>dv_next = next, dv_clock = now, dv_loss = ep_loss ep\<rparr>"
  let ?ep = "ep\<lparr>ep_loss := loss_expire (ep_loss ep) now\<rparr>"
  have ok: "driver_ok ?d" using assms by (simp add: traffic_ok_def)
  from driver_step_bytes [OF ok, of LExpire] driver_ok_step [OF ok, of LExpire] assms
    ep_absorb_spec [of ?ep "next" now]
  obtain c m where "ep_absorb ?ep now = Some (?ep\<lparr>ep_congestion := c, ep_mtu := m\<rparr>)"
    and "traffic_ok now next c m (ep_loss ?ep)" by (auto simp: traffic_ok_def report_bytes_keys)
  then show ?thesis unfolding ep_expire_def traffic_updates by auto
qed

lemma ep_track_spec:
  assumes "traffic_ok now next (ep_congestion ep) (ep_mtu ep) (ep_loss ep)"
  shows "\<exists>c m ld. ep_track ep next bytes now = Some (ep\<lparr>ep_congestion := c, ep_mtu := m, ep_loss := ld\<rparr>) \<and>
     traffic_ok now (next + 1) c m ld"
proof -
  let ?d = "\<lparr>dv_next = next, dv_clock = now, dv_loss = ep_loss ep\<rparr>"
  obtain limited c where sealed: "cong_sealed (ep_congestion ep) bytes now = (limited, c)" by fastforce
  let ?ep = "ep\<lparr>ep_congestion := c, ep_loss := loss_sealed (ep_loss ep)
    \<lparr>if_number = next, if_bytes = bytes, if_sent = now, if_limited = limited\<rparr>\<rparr>"
  have ok: "driver_ok ?d" using assms by (simp add: traffic_ok_def)
  have c: "cong_ok c" "cc_in_flight c = cc_in_flight (ep_congestion ep) + bytes"
    using cong_ok_sealed [of "ep_congestion ep" bytes now] sealed assms
    by (auto simp: traffic_ok_def cong_sealed_def Let_def)
  from driver_step_bytes [OF ok, of "LSeal bytes limited"] driver_ok_step [OF ok, of "LSeal bytes limited"]
    assms c ep_absorb_spec [of ?ep "next + 1" now]
  obtain c' m where "ep_absorb ?ep now = Some (?ep\<lparr>ep_congestion := c', ep_mtu := m\<rparr>)"
    and "traffic_ok now (next + 1) c' m (ep_loss ?ep)"
    by (auto simp: traffic_ok_def report_bytes_keys key_bytes_def)
  moreover have "?ep\<lparr>ep_congestion := c', ep_mtu := m\<rparr> =
      ep\<lparr>ep_congestion := c', ep_mtu := m, ep_loss := ep_loss ?ep\<rparr>" by simp
  ultimately show ?thesis by (simp only: ep_track_def sealed Let_def prod.case) blast
qed

lemma ep_on_ack_spec:
  assumes "traffic_ok now (ep_next ep) (ep_congestion ep) (ep_mtu ep) (ep_loss ep)"
  shows "\<exists>c m ld. ep_on_ack ep now body = Some (ep\<lparr>ep_congestion := c, ep_mtu := m, ep_loss := ld\<rparr>) \<and>
     traffic_ok now (ep_next ep) c m ld"
proof (cases "\<exists>a. ack_decode body = Some a \<and> ack_largest a < ep_next ep")
  case True
  then obtain a where a: "ack_decode body = Some a" "ack_largest a < ep_next ep" by blast
  let ?d = "\<lparr>dv_next = ep_next ep, dv_clock = now, dv_loss = ep_loss ep\<rparr>"
  let ?ep = "ep\<lparr>ep_loss := snd (loss_acknowledged (ep_loss ep) a now)\<rparr>"
  have ok: "driver_ok ?d" using assms by (simp add: traffic_ok_def)
  from driver_step_bytes [OF ok, of "LAck a"] driver_ok_step [OF ok, of "LAck a"] assms a
    ep_absorb_spec [of ?ep "ep_next ep" now]
  obtain c m where "ep_absorb ?ep now = Some (?ep\<lparr>ep_congestion := c, ep_mtu := m\<rparr>)"
    and "traffic_ok now (ep_next ep) c m (ep_loss ?ep)"
    by (auto simp: traffic_ok_def report_bytes_keys acknowledgement_checked_def)
  moreover from this have "traffic_ok now (ep_next ep) c (mtu_proven m) (ep_loss ?ep)"
    using mtu_step_spec [of m MProven] by (simp add: traffic_ok_def mtu_datagram_def)
  moreover have "?ep\<lparr>ep_congestion := c, ep_mtu := mtu_proven m\<rparr> =
      ep\<lparr>ep_congestion := c, ep_mtu := mtu_proven m, ep_loss := ep_loss ?ep\<rparr>" by simp
  ultimately have "ep_on_ack ep now body =
      Some (ep\<lparr>ep_congestion := c, ep_mtu := mtu_proven m, ep_loss := ep_loss ?ep\<rparr>)"
    using a by (simp add: ep_on_ack_def acknowledgement_checked_def)
  with \<open>traffic_ok now (ep_next ep) c (mtu_proven m) (ep_loss ?ep)\<close> show ?thesis by blast
next
  case False
  then have "ep_on_ack ep now body = Some ep"
    by (auto simp: ep_on_ack_def acknowledgement_checked_def split: option.splits)
  with assms show ?thesis by (intro exI [of _ "ep_congestion ep"] exI [of _ "ep_mtu ep"] exI [of _ "ep_loss ep"]) simp
qed

section \<open>The invariant\<close>

text \<open>The identity is eight bytes; the schedule is one of the root secret's; the packet number
  has not passed the point of rotation, which lies within the share of its epoch; every number
  accepted fits the wire; and the traffic books agree.\<close>

definition ep_ok :: "derive \<Rightarrow> bytes \<Rightarrow> instant \<Rightarrow> endpoint \<Rightarrow> bool" where
  "ep_ok H root now ep \<longleftrightarrow>
     length (ep_cid ep) = 8 \<and> keys_ok H root (ep_role ep) (ep_keys ep) \<and>
     ep_rekey_every ep = REKEY_AFTER \<and> ep_next ep \<le> ep_rekey_at ep \<and>
     ep_rekey_at ep \<le> (send_epoch (ep_keys ep) + 1) * REKEY_AFTER \<and>
     (\<exists>S. window_rel (ep_window ep) S \<and> (\<forall>n \<in> S. n \<le> MAX_PACKET_NUMBER)) \<and>
     traffic_ok now (ep_next ep) (ep_congestion ep) (ep_mtu ep) (ep_loss ep)"

lemma ep_ok_new: "length cid = 8 \<Longrightarrow> ep_ok H root now (ep_new H cid root path d f)"
proof -
  have "send_epoch (keys_new H root d) = 0"
    by (simp add: send_epoch_def keys_new_def ratchet_new_def epoch_first_def Let_def)
  then show "length cid = 8 \<Longrightarrow> ?thesis"
    using window_rel_new by (auto simp: ep_ok_def ep_new_def keys_ok_new traffic_ok_new)
qed

lemma keys_ok_send_epoch: "keys_ok H root d ks \<Longrightarrow> send_epoch ks \<le> 255"
  by (simp add: keys_ok_def ratchet_ok_def send_epoch_def)

lemma ep_rekey_spec:
  assumes "ep_ok H root now ep" "ep_rekey H ep = Some ep1"
  shows "ep_ok H root now ep1" "ep_next ep1 < ep_rekey_at ep1"
    "\<exists>ks at. ep1 = ep\<lparr>ep_keys := ks, ep_rekey_at := at\<rparr>"
proof -
  have keys: "keys_ok H root (ep_role ep) (ep_keys ep)"
    and at: "ep_next ep \<le> ep_rekey_at ep" "ep_rekey_at ep \<le> (send_epoch (ep_keys ep) + 1) * REKEY_AFTER"
    and every: "ep_rekey_every ep = REKEY_AFTER"
    using assms(1) by (simp_all add: ep_ok_def)
  have "ep_ok H root now ep1 \<and> ep_next ep1 < ep_rekey_at ep1 \<and> (\<exists>ks at. ep1 = ep\<lparr>ep_keys := ks, ep_rekey_at := at\<rparr>)"
  proof (cases "ep_rekey_at ep \<le> ep_next ep")
    case False
    then have "ep1 = ep" using assms(2) by (simp add: ep_rekey_def)
    moreover have "ep = ep\<lparr>ep_keys := ep_keys ep, ep_rekey_at := ep_rekey_at ep\<rparr>" by simp
    ultimately show ?thesis using False assms(1) by (metis not_le)
  next
    case True
    from keys_rotate_spec [OF keys] True assms(2) obtain ks where
      ks: "keys_rotate H (ep_keys ep) = (Some (send_epoch (ep_keys ep) + 1), ks)" "keys_ok H root (ep_role ep) ks"
        "send_epoch (ep_keys ep) < 255" "send_epoch ks = send_epoch (ep_keys ep) + 1"
      by (auto simp: ep_rekey_def)
    have bound: "ep_next ep \<le> (send_epoch (ep_keys ep) + 1) * REKEY_AFTER" using at by simp
    also have "\<dots> \<le> 255 * REKEY_AFTER" using ks(3) by (intro mult_right_mono) auto
    finally have "u64_saturating_add (ep_next ep) REKEY_AFTER = ep_next ep + REKEY_AFTER"
      by (simp add: u64_saturating_add_def u64_max_def REKEY_AFTER_def)
    then have ep1: "ep1 = ep\<lparr>ep_keys := ks, ep_rekey_at := ep_next ep + REKEY_AFTER\<rparr>"
      using assms(2) True ks(1) every by (simp add: ep_rekey_def)
    have "ep_next ep + REKEY_AFTER \<le> (send_epoch ks + 1) * REKEY_AFTER" using bound ks(4) by simp
    then have "ep_ok H root now ep1" using assms(1) ks(2) by (simp add: ep_ok_def ep1)
    moreover have "ep_next ep1 < ep_rekey_at ep1" by (simp add: ep1 REKEY_AFTER_def)
    ultimately show ?thesis using ep1 by blast
  qed
  then show "ep_ok H root now ep1" "ep_next ep1 < ep_rekey_at ep1"
    "\<exists>ks at. ep1 = ep\<lparr>ep_keys := ks, ep_rekey_at := at\<rparr>" by blast+
qed

lemma ep_number_fits:
  assumes "ep_ok H root now ep" "ep_next ep < ep_rekey_at ep"
  shows "ep_next ep \<le> MAX_PACKET_NUMBER"
proof -
  have "send_epoch (ep_keys ep) \<le> 255" using assms(1) keys_ok_send_epoch by (auto simp: ep_ok_def)
  then have "(send_epoch (ep_keys ep) + 1) * REKEY_AFTER \<le> 256 * REKEY_AFTER" by (intro mult_right_mono) auto
  moreover have "ep_rekey_at ep \<le> (send_epoch (ep_keys ep) + 1) * REKEY_AFTER" using assms(1) by (simp add: ep_ok_def)
  ultimately show ?thesis using assms(2) by (simp add: MAX_PACKET_NUMBER_def REKEY_AFTER_def)
qed

section \<open>Departures\<close>

text \<open>What a call that may hand out a datagram does to the rest of the endpoint: the window and
  identity stay, standing of addresses stays, no allowance grows; and a datagram that leaves
  carries the next number and is paid for where its address is not free.\<close>

definition departs :: "endpoint \<Rightarrow> (socket_addr \<times> bytes) option \<Rightarrow> endpoint \<Rightarrow> bool" where
  "departs ep sent ep' \<longleftrightarrow>
     ep_window ep' = ep_window ep \<and> ep_cid ep' = ep_cid ep \<and> ep_role ep' = ep_role ep \<and>
     (\<forall>a. path_free (ep_path ep') a = path_free (ep_path ep) a) \<and>
     (\<forall>a. path_allowance (ep_path ep') a \<le> path_allowance (ep_path ep) a) \<and>
     (case sent of
        None \<Rightarrow> ep_next ep' = ep_next ep
      | Some (to, d) \<Rightarrow>
          ep_next ep' = ep_next ep + 1 \<and>
          (\<exists>h. header_decode d = Inr h \<and> hd_number h = ep_next ep \<and> hd_cid h = ep_cid ep) \<and>
          (\<not> path_free (ep_path ep) to \<longrightarrow>
             length d + path_allowance (ep_path ep') to \<le> path_allowance (ep_path ep) to))"

lemma departs_refl [simp]: "departs ep None ep"
  by (simp add: departs_def)

lemma departs_trans: "departs ep None ep1 \<Longrightarrow> departs ep1 sent ep2 \<Longrightarrow> departs ep sent ep2"
  by (fastforce simp: departs_def split: option.splits intro: order_trans)

lemma departs_frame:
  "ep_window ep' = ep_window ep \<Longrightarrow> ep_cid ep' = ep_cid ep \<Longrightarrow> ep_role ep' = ep_role ep \<Longrightarrow>
   ep_path ep' = ep_path ep \<Longrightarrow> ep_next ep' = ep_next ep \<Longrightarrow> departs ep None ep'"
  by (simp add: departs_def)

lemma departs_frame_after:
  "departs ep sent ep1 \<Longrightarrow> ep_window ep' = ep_window ep1 \<Longrightarrow> ep_cid ep' = ep_cid ep1 \<Longrightarrow>
   ep_role ep' = ep_role ep1 \<Longrightarrow> ep_path ep' = ep_path ep1 \<Longrightarrow> ep_next ep' = ep_next ep1 \<Longrightarrow> departs ep sent ep'"
  by (auto simp: departs_def split: option.splits)

lemma path_spent_free: "path_may_send v a n \<Longrightarrow> path_free (path_spent v a n) b = path_free v b"
  by (auto simp: path_free_def path_spent_def path_set_unproven_def path_unproven_def path_may_send_def
      split: option.splits standing.splits if_splits)

definition seal_sent :: "socket_addr \<Rightarrow> send_error + bytes \<Rightarrow> (socket_addr \<times> bytes) option" where
  "seal_sent to r = (case r of Inr d \<Rightarrow> Some (to, d) | Inl _ \<Rightarrow> None)"

lemma seal_sent_simps [simp]: "seal_sent to (Inr d) = Some (to, d)" "seal_sent to (Inl e) = None"
  by (simp_all add: seal_sent_def)

text \<open>The datagram a seal builds, before anything is charged.\<close>

lemma ep_seal_datagram:
  fixes kind :: kind
  assumes ok: "ep_ok H root now ep" "ep_next ep < ep_rekey_at ep" and law: "aead_law A"
  defines "h \<equiv> \<lparr>hd_kind = kind, hd_cid = ep_cid ep, hd_epoch = send_epoch (ep_keys ep), hd_number = ep_next ep\<rparr>"
  shows "\<exists>head. header_encode h = Some head \<and> length head = HEADER_BYTES \<and>
    (\<forall>payload tag. aead_seal A (ks_send_key (ep_keys ep)) head (hd_number h) body = (payload, tag) \<longrightarrow>
       length payload = length body \<and> length tag = TAG_BYTES \<and> header_decode (head @ payload @ tag) = Inr h)"
proof -
  have wf: "header_wf h"
    using ok(1) keys_ok_send_epoch [of H root "ep_role ep" "ep_keys ep"] by (simp add: header_wf_def h_def ep_ok_def)
  obtain head where head: "header_encode h = Some head"
    using ep_number_fits [OF ok] by (simp add: header_encode_def h_def)
  have "length payload = length body \<and> length tag = TAG_BYTES \<and> header_decode (head @ payload @ tag) = Inr h"
    if "aead_seal A (ks_send_key (ep_keys ep)) head (hd_number h) body = (payload, tag)" for payload tag
    using aead_seal_lengths [OF law that] header_decode_encode [OF wf head, of "payload @ tag"] by simp
  with head length_header_encode [OF wf head] show ?thesis by blast
qed

lemma ep_charge_departs:
  assumes "path_may_send (ep_path ep) to (length d)" "header_decode d = Inr h" "hd_number h = ep_next ep"
    "hd_cid h = ep_cid ep"
  shows "departs ep (Some (to, d))
    (ep\<lparr>ep_path := path_spent (ep_path ep) to (length d), ep_next := ep_next ep + 1, ep_sealed_since_poll := s\<rparr>)"
  using assms path_may_send_allowance [OF _ assms(1)]
  by (auto simp: departs_def path_spent_free path_spent_allowance)

lemma ep_seal_with_spec:
  assumes ok: "ep_ok H root now ep" and law: "aead_law A"
  shows "\<exists>r ep'. ep_seal_with H A ep kind to now body = Some (r, ep') \<and> ep_ok H root now ep' \<and>
     departs ep (seal_sent to r) ep'"
proof (cases "ep_closed ep \<or> tracked kind \<and> \<not> loss_admits (ep_loss ep) \<or> ep_rekey H ep = None")
  case True
  then show ?thesis using ok by (auto simp: ep_seal_with_def)
next
  case False
  then obtain ep1 where rekey: "ep_rekey H ep = Some ep1" by auto
  note ok1 = ep_rekey_spec(1,2) [OF ok rekey]
  from ep_rekey_spec(3) [OF ok rekey] obtain ks at where ep1: "ep1 = ep\<lparr>ep_keys := ks, ep_rekey_at := at\<rparr>" by blast
  have dep1: "departs ep None ep1" by (rule departs_frame) (simp_all add: ep1)
  let ?h = "\<lparr>hd_kind = kind, hd_cid = ep_cid ep1, hd_epoch = send_epoch (ep_keys ep1), hd_number = ep_next ep1\<rparr>"
  from ep_seal_datagram [OF ok1 law] obtain head where head: "header_encode ?h = Some head"
    and decode: "\<And>payload tag. aead_seal A (ks_send_key (ep_keys ep1)) head (ep_next ep1) body = (payload, tag) \<Longrightarrow>
      header_decode (head @ payload @ tag) = Inr ?h" by fastforce
  obtain payload tag where seal: "aead_seal A (ks_send_key (ep_keys ep1)) head (ep_next ep1) body = (payload, tag)"
    by fastforce
  let ?d = "head @ payload @ tag"
  let ?n = "length ?d"
  have eq: "ep_seal_with H A ep kind to now body =
    (if \<not> path_may_send (ep_path ep1) to ?n then Some (Inl Blocked, ep1)
     else let ep2 = ep1\<lparr>ep_path := path_spent (ep_path ep1) to ?n, ep_next := ep_next ep1 + 1, ep_sealed_since_poll := True\<rparr>
       in if tracked kind then map_option (\<lambda>ep3. (Inr ?d, ep3)) (ep_track ep2 (ep_next ep1) ?n now)
          else Some (Inr ?d, ep2))"
    using False rekey head seal by (simp add: ep_seal_with_def Let_def)
  show ?thesis
  proof (cases "path_may_send (ep_path ep1) to ?n")
    case False
    with eq ok1 dep1 show ?thesis by auto
  next
    case True
    define ep2 where "ep2 = ep1\<lparr>ep_path := path_spent (ep_path ep1) to ?n, ep_next := ep_next ep1 + 1, ep_sealed_since_poll := True\<rparr>"
    have dep2: "departs ep (Some (to, ?d)) ep2"
      using ep_charge_departs [OF True decode [OF seal]] departs_trans [OF dep1] by (simp add: ep2_def)
    have traffic: "traffic_ok now (ep_next ep1) (ep_congestion ep2) (ep_mtu ep2) (ep_loss ep2)"
      using ok1(1) by (simp add: ep_ok_def ep2_def)
    have next2: "ep_next ep2 = ep_next ep1 + 1" by (simp add: ep2_def)
    have ok2: "ep_ok H root now ep3"
      if "traffic_ok now (ep_next ep2) (ep_congestion ep3) (ep_mtu ep3) (ep_loss ep3)"
        "ep3 = ep2\<lparr>ep_congestion := ep_congestion ep3, ep_mtu := ep_mtu ep3, ep_loss := ep_loss ep3\<rparr>" for ep3
    proof -
      have "ep_cid ep3 = ep_cid ep1" "ep_keys ep3 = ep_keys ep1" "ep_role ep3 = ep_role ep1"
        "ep_rekey_every ep3 = ep_rekey_every ep1" "ep_rekey_at ep3 = ep_rekey_at ep1"
        "ep_window ep3 = ep_window ep1" "ep_next ep3 = ep_next ep2"
        by (subst that(2), simp add: ep2_def)+
      with ok1 that(1) next2 show ?thesis by (simp add: ep_ok_def)
    qed
    show ?thesis
    proof (cases "tracked kind")
      case untracked: False
      have "ep_ok H root now ep2" using traffic_ok_later [OF traffic] by (intro ok2) (simp_all add: next2)
      with eq True untracked dep2 show ?thesis by (simp add: ep2_def)
    next
      case tracked: True
      from ep_track_spec [OF traffic, of ?n] obtain c m ld where
        track: "ep_track ep2 (ep_next ep1) ?n now = Some (ep2\<lparr>ep_congestion := c, ep_mtu := m, ep_loss := ld\<rparr>)"
        and "traffic_ok now (ep_next ep1 + 1) c m ld" by blast
      then have "ep_ok H root now (ep2\<lparr>ep_congestion := c, ep_mtu := m, ep_loss := ld\<rparr>)"
        by (intro ok2) (simp_all add: next2)
      moreover have "departs ep (Some (to, ?d)) (ep2\<lparr>ep_congestion := c, ep_mtu := m, ep_loss := ld\<rparr>)"
        by (rule departs_frame_after [OF dep2]) simp_all
      ultimately show ?thesis using eq True tracked track by (simp add: ep2_def)
    qed
  qed
qed

end
