(* ===== verification/Endpoint_Calls.thy ===== *)
theory Endpoint_Calls
  imports Endpoint_Invariant
begin

text \<open>
  Every call of an endpoint keeps the invariant and returns: the senders that
  \<^verbatim>\<open>poll_transmit\<close> tries in turn, sending and closing, and the handling of an arrival.
\<close>

section \<open>Senders\<close>

definition good_tx :: "derive \<Rightarrow> bytes \<Rightarrow> instant \<Rightarrow> endpoint \<Rightarrow> transmission \<Rightarrow> bool" where
  "good_tx H root now ep r \<longleftrightarrow>
     (\<exists>sent ep'. r = Some (sent, ep') \<and> ep_ok H root now ep' \<and> departs ep sent ep')"

lemma good_tx_None: "ep_ok H root now ep' \<Longrightarrow> departs ep None ep' \<Longrightarrow> good_tx H root now ep (Some (None, ep'))"
  by (simp add: good_tx_def)

lemma good_tx_later: "departs ep None ep1 \<Longrightarrow> good_tx H root now ep1 r \<Longrightarrow> good_tx H root now ep r"
  by (auto simp: good_tx_def intro: departs_trans)

lemma good_tx_or_else:
  assumes "good_tx H root now ep r" "\<And>ep'. ep_ok H root now ep' \<Longrightarrow> good_tx H root now ep' (next ep')"
  shows "good_tx H root now ep (or_else r next)"
proof -
  obtain sent ep' where r: "r = Some (sent, ep')" "ep_ok H root now ep'" "departs ep sent ep'"
    using assms(1) by (auto simp: good_tx_def)
  show ?thesis
  proof (cases sent)
    case None
    with r have "good_tx H root now ep (next ep')" using assms(2) [OF r(2)] good_tx_later by blast
    with r None show ?thesis by (simp add: or_else_def)
  next
    case (Some s)
    with r show ?thesis by (simp add: or_else_def good_tx_def)
  qed
qed

text \<open>A field outside the invariant may change freely; the fields of the answer, the debt and
  the keep-alive clock are such.\<close>

lemma ep_ok_frame:
  "ep_ok H root now ep \<Longrightarrow> ep_cid ep' = ep_cid ep \<Longrightarrow> ep_keys ep' = ep_keys ep \<Longrightarrow> ep_role ep' = ep_role ep \<Longrightarrow>
   ep_rekey_every ep' = ep_rekey_every ep \<Longrightarrow> ep_rekey_at ep' = ep_rekey_at ep \<Longrightarrow> ep_window ep' = ep_window ep \<Longrightarrow>
   ep_next ep' = ep_next ep \<Longrightarrow>
   traffic_ok now (ep_next ep) (ep_congestion ep') (ep_mtu ep') (ep_loss ep') \<Longrightarrow> ep_ok H root now ep'"
  by (simp add: ep_ok_def)

lemma ep_ok_traffic:
  "ep_ok H root now ep \<Longrightarrow> traffic_ok now (ep_next ep) (ep_congestion ep) (ep_mtu ep) (ep_loss ep)"
  by (simp add: ep_ok_def)

lemma ep_ok_free [simp]:
  "ep_ok H root now (ep\<lparr>ep_answer := x\<rparr>) = ep_ok H root now ep"
  "ep_ok H root now (ep\<lparr>ep_debt := y\<rparr>) = ep_ok H root now ep"
  "ep_ok H root now (ep\<lparr>ep_path := v\<rparr>) = ep_ok H root now ep"
  "ep_ok H root now (ep\<lparr>ep_quiet_since := z\<rparr>) = ep_ok H root now ep"
  "ep_ok H root now (ep\<lparr>ep_sealed_since_poll := b\<rparr>) = ep_ok H root now ep"
  "ep_ok H root now (ep\<lparr>ep_closed := b\<rparr>) = ep_ok H root now ep"
  by (simp_all add: ep_ok_def)

lemma sent_to_good:
  assumes "ep_ok H root now ep" "aead_law A"
  shows "good_tx H root now ep (sent_to to (ep_seal H A ep kind body to now))"
proof -
  from ep_seal_with_spec [OF assms, of kind to body] obtain r ep' where
    "ep_seal_with H A ep kind to now body = Some (r, ep')" "ep_ok H root now ep'" "departs ep (seal_sent to r) ep'"
    by blast
  then show ?thesis
    by (cases r) (auto simp: sent_to_def ep_seal_def good_tx_def)
qed

lemma ep_poll_answer_good:
  assumes "ep_ok H root now ep" "aead_law A"
  shows "good_tx H root now ep (ep_poll_answer H A ep now)"
proof (cases "ep_answer ep")
  case None
  with assms show ?thesis by (simp add: ep_poll_answer_def good_tx_None)
next
  case (Some answer)
  obtain to token where "answer = (to, token)" by fastforce
  with Some show ?thesis
    using good_tx_later [OF departs_frame sent_to_good [of H root now "ep\<lparr>ep_answer := None\<rparr>" A to Response token]] assms
    by (simp add: ep_poll_answer_def)
qed

lemma window_acknowledgement_fits:
  assumes "ep_ok H root now ep" "window_acknowledgement (ep_window ep) = Some (largest, bm)"
  shows "largest \<le> MAX_PACKET_NUMBER"
proof -
  obtain S where S: "window_rel (ep_window ep) S" "\<forall>n \<in> S. n \<le> MAX_PACKET_NUMBER"
    using assms(1) by (auto simp: ep_ok_def)
  have "S \<noteq> {}" "finite S" "largest = Max S"
    using window_acknowledgement_rel [OF S(1)] assms(2) S(1) by (auto simp: window_rel_def)
  then show ?thesis using S(2) Max_in by blast
qed

lemma ep_acknowledge_good:
  assumes ok: "ep_ok H root now ep" and law: "aead_law A"
  shows "good_tx H root now ep (ep_acknowledge H A ep now)"
proof -
  have idle: "good_tx H root now ep (Some (None, ep))" using ok by (simp add: good_tx_None)
  show ?thesis
  proof (cases "\<exists>at since e largest bm. ep_debt ep = Owed at since e \<and> at \<le> now \<and>
      window_acknowledgement (ep_window ep) = Some (largest, bm)")
    case False
    with idle show ?thesis
      by (auto simp: ep_acknowledge_def not_less split: ack_debt.splits option.splits)
  next
    case True
    then obtain at since e largest bm where owed: "ep_debt ep = Owed at since e" "at \<le> now"
      and ack: "window_acknowledgement (ep_window ep) = Some (largest, bm)" by blast
    let ?a = "\<lparr>ack_largest = largest, ack_delay = saturating_duration_since now since, ack_map = bm\<rparr>"
    let ?to = "pv_current (ep_path ep)"
    obtain body where body: "ack_encode ?a = Some body"
      using window_acknowledgement_fits [OF ok ack] by (simp add: ack_encode_def Let_def)
    from ep_seal_with_spec [OF ok law, of AckKind ?to body] obtain r ep' where
      r: "ep_seal_with H A ep AckKind ?to now body = Some (r, ep')" "ep_ok H root now ep'"
        "departs ep (seal_sent ?to r) ep'" by blast
    show ?thesis
    proof (cases r)
      case (Inl e)
      with r owed ack body show ?thesis by (simp add: ep_acknowledge_def ep_seal_def good_tx_def)
    next
      case (Inr d)
      have "departs ep (Some (?to, d)) (ep'\<lparr>ep_debt := DebtSettled\<rparr>)"
        by (rule departs_frame_after [of ep "Some (?to, d)" ep']) (use r(3) Inr in simp_all)
      with Inr r owed ack body show ?thesis by (simp add: ep_acknowledge_def ep_seal_def good_tx_def)
    qed
  qed
qed

lemma ep_mtu_width_kept:
  assumes "ep_ok H root now ep" "mtu_ok m" "mtu_datagram m = mtu_datagram (ep_mtu ep)"
  shows "ep_ok H root now (ep\<lparr>ep_mtu := m\<rparr>)"
  using assms by (intro ep_ok_frame [OF assms(1)]) (simp_all add: ep_ok_def traffic_ok_def)

lemma ep_probe_path_mtu_good:
  assumes ok: "ep_ok H root now ep" and law: "aead_law A"
  shows "good_tx H root now ep (ep_probe_path_mtu H A ep now)"
proof -
  obtain offer m where poll: "mtu_poll (ep_mtu ep) now = (offer, m)" by fastforce
  let ?ep = "ep\<lparr>ep_mtu := m\<rparr>"
  have "mtu_ok m" "mtu_datagram m = mtu_datagram (ep_mtu ep)"
    using mtu_poll_spec [of "ep_mtu ep" now] poll ok by (simp_all add: ep_ok_def traffic_ok_def mtu_datagram_def)
  then have ok1: "ep_ok H root now ?ep" by (intro ep_mtu_width_kept [OF ok]) simp_all
  have dep1: "departs ep None ?ep" by (rule departs_frame) simp_all
  show ?thesis
  proof (cases "\<exists>candidate. offer = Some candidate \<and>
      (mtu_confirming (ep_mtu ep) \<or> cong_writable (ep_congestion ep) now candidate)")
    case False
    then have "ep_probe_path_mtu H A ep now = Some (None, ?ep)"
      by (cases offer) (simp_all add: ep_probe_path_mtu_def poll)
    with ok1 dep1 show ?thesis by (simp add: good_tx_None)
  next
    case True
    then obtain candidate where cand: "offer = Some candidate"
      "mtu_confirming (ep_mtu ep) \<or> cong_writable (ep_congestion ep) now candidate" by blast
    let ?to = "pv_current (ep_path ep)" and ?body = "replicate (candidate - HEADER_BYTES - TAG_BYTES) 0"
    from ep_seal_with_spec [OF ok1 law, of Probe ?to ?body] obtain r ep' where
      r: "ep_seal_with H A ?ep Probe ?to now ?body = Some (r, ep')" "ep_ok H root now ep'"
        "departs ?ep (seal_sent ?to r) ep'" by blast
    note dep = departs_trans [OF dep1 r(3)]
    show ?thesis
    proof (cases r)
      case (Inl e)
      with r dep cand poll show ?thesis by (auto simp: ep_probe_path_mtu_def good_tx_def)
    next
      case (Inr d)
      let ?ep' = "ep'\<lparr>ep_mtu := mtu_probing (ep_mtu ep') (ep_next ep)\<rparr>"
      have "ep_ok H root now ?ep'"
        using r(2) mtu_step_spec [of "ep_mtu ep'" "MProbing (ep_next ep)"]
        by (intro ep_mtu_width_kept) (simp_all add: ep_ok_def traffic_ok_def mtu_datagram_def)
      moreover have "departs ep (Some (?to, d)) ?ep'"
        by (rule departs_frame_after [of ep "Some (?to, d)" ep']) (use dep Inr in simp_all)
      ultimately show ?thesis using Inr r cand poll by (auto simp: ep_probe_path_mtu_def good_tx_def)
    qed
  qed
qed

lemma ep_keepalive_good:
  assumes ok: "ep_ok H root now ep" and law: "aead_law A"
  shows "good_tx H root now ep (ep_keepalive H A ep now)"
proof -
  define since where "since = (case ep_quiet_since ep of Some s \<Rightarrow> s | None \<Rightarrow> now)"
  let ?ep = "ep\<lparr>ep_quiet_since := Some since\<rparr>" and ?to = "pv_current (ep_path ep)"
  have ok1: "ep_ok H root now ?ep" using ok by simp
  have dep1: "departs ep None ?ep" by (rule departs_frame) simp_all
  have dep0: "departs ep None (ep\<lparr>ep_sealed_since_poll := False, ep_quiet_since := Some now\<rparr>)"
    by (rule departs_frame) simp_all
  from ep_seal_with_spec [OF ok1 law, of Alive ?to "[]"] obtain r ep' where
    r: "ep_seal_with H A ?ep Alive ?to now [] = Some (r, ep')" "ep_ok H root now ep'"
      "departs ?ep (seal_sent ?to r) ep'" by blast
  note dep = departs_trans [OF dep1 r(3)]
  have "good_tx H root now ep
    (case ep_seal H A ?ep Alive [] ?to now of
       None \<Rightarrow> None
     | Some (Inl _, ep2) \<Rightarrow> Some (None, ep2)
     | Some (Inr datagram, ep2) \<Rightarrow>
         Some (Some (?to, datagram), ep2\<lparr>ep_quiet_since := Some now, ep_sealed_since_poll := False\<rparr>))"
  proof (cases r)
    case (Inl e)
    with r dep show ?thesis by (simp add: ep_seal_def good_tx_def)
  next
    case (Inr d)
    have "departs ep (Some (?to, d)) (ep'\<lparr>ep_quiet_since := Some now, ep_sealed_since_poll := False\<rparr>)"
      by (rule departs_frame_after [of ep "Some (?to, d)" ep']) (use dep Inr in simp_all)
    with Inr r show ?thesis by (simp add: ep_seal_def good_tx_def)
  qed
  with ok ok1 dep1 dep0 show ?thesis
    by (auto simp: ep_keepalive_def Let_def since_def [symmetric] good_tx_None)
qed

lemma path_poll_challenge_free: "path_free (snd (path_poll_challenge f1 f2 v now)) a = path_free v a"
proof (cases "pv_standing v")
  case Proven
  then show ?thesis by (simp add: path_free_def path_poll_challenge_def)
next
  case (Claimed p)
  obtain t p' where c: "probe_challenge f1 p now = (t, p')" by (cases "probe_challenge f1 p now")
  with Claimed show ?thesis by (cases t) (simp_all add: path_free_def path_poll_challenge_def)
qed

lemma ep_poll_challenge_good:
  assumes ok: "ep_ok H root now ep" and law: "aead_law A"
    and cont: "\<And>ep'. ep_ok H root now ep' \<Longrightarrow> good_tx H root now ep' (next ep')"
  shows "good_tx H root now ep (ep_poll_challenge H A f1 f2 ep now next)"
proof -
  obtain challenge path where poll: "path_poll_challenge f1 f2 (ep_path ep) now = (challenge, path)" by fastforce
  let ?ep = "ep\<lparr>ep_path := path\<rparr>"
  have ok1: "ep_ok H root now ?ep" using ok by simp
  have dep1: "departs ep None ?ep"
    using path_poll_challenge_free [of f1 f2 "ep_path ep" now] path_poll_challenge_allowance [of f1 f2 "ep_path ep" now]
    by (simp add: departs_def poll)
  show ?thesis
  proof (cases challenge)
    case None
    with poll good_tx_later [OF dep1 cont [OF ok1]] show ?thesis by (simp add: ep_poll_challenge_def)
  next
    case (Some c)
    obtain to token where "c = (to, token)" by fastforce
    with Some poll ok1 dep1 good_tx_later [OF dep1 sent_to_good [OF ok1 law, of to Challenge token]]
    show ?thesis by (simp add: ep_poll_challenge_def good_tx_None Let_def)
  qed
qed

lemma ep_poll_transmit_good:
  assumes ok: "ep_ok H root now ep" and law: "aead_law A"
  shows "good_tx H root now ep (ep_poll_transmit H A f1 f2 ep now)"
proof -
  from ep_expire_spec [OF ep_ok_traffic [OF ok]] obtain c m ld where
    expire: "ep_expire ep now = Some (ep\<lparr>ep_congestion := c, ep_mtu := m, ep_loss := ld\<rparr>)"
    and traffic: "traffic_ok now (ep_next ep) c m ld" by blast
  let ?ep = "ep\<lparr>ep_congestion := c, ep_mtu := m, ep_loss := ld\<rparr>"
  have ok1: "ep_ok H root now ?ep" using traffic by (intro ep_ok_frame [OF ok]) simp_all
  have dep1: "departs ep None ?ep" by (rule departs_frame) simp_all
  have "good_tx H root now ?ep (ep_poll_transmit H A f1 f2 ep now)"
    unfolding ep_poll_transmit_def expire option.case
    by (intro good_tx_or_else ep_poll_challenge_good ep_poll_answer_good ep_acknowledge_good
        ep_probe_path_mtu_good ep_keepalive_good ok1 law)
  with dep1 show ?thesis by (rule good_tx_later)
qed

lemma ep_send_spec:
  assumes ok: "ep_ok H root now ep" and law: "aead_law A"
  shows "\<exists>r ep'. ep_send H A ep frame now = Some (r, ep') \<and> ep_ok H root now ep' \<and>
     departs ep (case r of Inr s \<Rightarrow> Some s | Inl _ \<Rightarrow> None) ep'"
proof -
  let ?to = "pv_current (ep_path ep)"
  from ep_seal_with_spec [OF ok law, of Frame ?to frame] obtain r ep' where
    "ep_seal_with H A ep Frame ?to now frame = Some (r, ep')" "ep_ok H root now ep'" "departs ep (seal_sent ?to r) ep'"
    by blast
  with ok show ?thesis by (cases r) (auto simp: ep_send_def ep_seal_def Let_def)
qed

lemma ep_close_spec:
  assumes ok: "ep_ok H root now ep" and law: "aead_law A"
  shows "\<exists>r ep'. ep_close H A ep now = Some (r, ep') \<and> ep_ok H root now ep' \<and>
     departs ep (case r of Inr s \<Rightarrow> Some s | Inl _ \<Rightarrow> None) ep'"
proof -
  let ?to = "pv_current (ep_path ep)"
  from ep_seal_with_spec [OF ok law, of Close ?to "[]"] obtain r ep' where
    r: "ep_seal_with H A ep Close ?to now [] = Some (r, ep')" "ep_ok H root now ep'" "departs ep (seal_sent ?to r) ep'"
    by blast
  have "departs ep (seal_sent ?to r) (ep'\<lparr>ep_closed := True\<rparr>)"
    by (rule departs_frame_after [OF r(3)]) simp_all
  with r show ?thesis by (cases r) (auto simp: ep_close_def ep_seal_def Let_def)
qed

section \<open>Rotation, migration, refusal\<close>

lemma ep_rotate_spec:
  assumes "ep_ok H root now ep"
  shows "ep_ok H root now (snd (ep_rotate H ep))" "\<exists>ks. snd (ep_rotate H ep) = ep\<lparr>ep_keys := ks\<rparr>"
proof -
  have keys: "keys_ok H root (ep_role ep) (ep_keys ep)" using assms by (simp add: ep_ok_def)
  from keys_rotate_spec [OF keys] have "ep_ok H root now (snd (ep_rotate H ep)) \<and> (\<exists>ks. snd (ep_rotate H ep) = ep\<lparr>ep_keys := ks\<rparr>)"
  proof (elim disjE exE conjE)
    assume "keys_rotate H (ep_keys ep) = (None, ep_keys ep)"
    then have "snd (ep_rotate H ep) = ep" by (simp add: ep_rotate_def)
    moreover have "ep = ep\<lparr>ep_keys := ep_keys ep\<rparr>" by simp
    ultimately show ?thesis using assms by metis
  next
    fix ks
    assume ks: "keys_rotate H (ep_keys ep) = (Some (send_epoch (ep_keys ep) + 1), ks)" "keys_ok H root (ep_role ep) ks"
      "send_epoch ks = send_epoch (ep_keys ep) + 1"
    then have eq: "snd (ep_rotate H ep) = ep\<lparr>ep_keys := ks\<rparr>" by (simp add: ep_rotate_def)
    have "ep_rekey_at ep \<le> (send_epoch ks + 1) * REKEY_AFTER" using assms ks(3) by (simp add: ep_ok_def)
    with assms ks eq show ?thesis by (auto simp: ep_ok_def)
  qed
  then show "ep_ok H root now (snd (ep_rotate H ep))" "\<exists>ks. snd (ep_rotate H ep) = ep\<lparr>ep_keys := ks\<rparr>" by blast+
qed

lemma traffic_ok_migrated:
  assumes "traffic_ok now next c m ld"
  shows "traffic_ok now next (cong_migrated (cong_datagram c (mtu_datagram (mtu_migrated m)))) (mtu_migrated m)
    (loss_migrated ld)"
proof -
  have width: "mtu_datagram (mtu_migrated m) = BASE_DATAGRAM"
    by (simp add: mtu_datagram_def mtu_migrated_def mtu_new_def)
  have "cong_ok (cong_datagram c BASE_DATAGRAM)"
    using assms by (intro cong_ok_datagram) (simp_all add: traffic_ok_def packet_consts)
  moreover have "mtu_ok (mtu_migrated m)" by (simp add: mtu_migrated_def mtu_ok_new)
  moreover have "driver_ok \<lparr>dv_next = next, dv_clock = now, dv_loss = loss_migrated ld\<rparr>"
    using driver_ok_step [of "\<lparr>dv_next = next, dv_clock = now, dv_loss = ld\<rparr>" LMigrated] assms
    by (simp add: traffic_ok_def)
  moreover have "flight_bytes (loss_migrated ld) = flight_bytes ld"
    by (simp add: flight_bytes_def loss_migrated_def)
  ultimately show ?thesis
    using assms width
    by (simp add: traffic_ok_def cong_ok_migrated cong_signal_in_flight)
      (simp add: cong_migrated_def cong_datagram_def)
qed

lemma ep_path_refused_spec:
  assumes "ep_ok H root now ep"
  shows "ep_ok H root now (ep_path_refused ep carries now)" "departs ep None (ep_path_refused ep carries now)"
proof -
  let ?m = "mtu_refused (ep_mtu ep) carries now"
  have traffic: "cong_ok (ep_congestion ep)" "mtu_ok (ep_mtu ep)" using assms by (simp_all add: ep_ok_def traffic_ok_def)
  then have m: "mtu_ok ?m" using mtu_refused_spec by simp
  then have "BASE_DATAGRAM \<le> mtu_datagram ?m \<and> mtu_datagram ?m \<le> MAX_DATAGRAM"
    using mtu_width_bounds [OF m] by (simp add: mtu_datagram_def mtu_consts)
  with traffic have "cong_ok (cong_datagram (ep_congestion ep) (mtu_datagram ?m))" by (simp add: cong_ok_datagram)
  with assms m show "ep_ok H root now (ep_path_refused ep carries now)"
    by (simp add: ep_ok_def traffic_ok_def ep_path_refused_def cong_signal_in_flight Let_def) (simp add: cong_datagram_def)
  show "departs ep None (ep_path_refused ep carries now)"
    by (rule departs_frame) (simp_all add: ep_path_refused_def Let_def)
qed

section \<open>Arrivals\<close>

text \<open>What a datagram that passed every check may do to the parts the invariant ties down.\<close>

definition heard :: "socket_addr \<Rightarrow> nat \<Rightarrow> endpoint \<Rightarrow> endpoint \<Rightarrow> bool" where
  "heard from n ep ep' \<longleftrightarrow>
     ep_window ep' = ep_window ep \<and> ep_cid ep' = ep_cid ep \<and> ep_role ep' = ep_role ep \<and> ep_next ep' = ep_next ep \<and>
     (\<forall>a. path_allowance (ep_path ep') a \<le>
        path_allowance (ep_path ep) a + (if a = from then AMPLIFICATION_LIMIT * n else 0))"

lemma heard_frame:
  "heard from n ep ep1 \<Longrightarrow> ep_window ep' = ep_window ep1 \<Longrightarrow> ep_cid ep' = ep_cid ep1 \<Longrightarrow> ep_role ep' = ep_role ep1 \<Longrightarrow>
   ep_next ep' = ep_next ep1 \<Longrightarrow> (\<And>a. path_allowance (ep_path ep') a \<le> path_allowance (ep_path ep1) a) \<Longrightarrow>
   heard from n ep ep'"
  by (fastforce simp: heard_def intro: order_trans)

lemma ep_on_response_spec:
  assumes "ep_ok H root now ep" "heard from n ep0 ep"
  shows "ep_ok H root now (snd (ep_on_response H ep from body)) \<and> heard from n ep0 (snd (ep_on_response H ep from body))"
proof (cases "length body = 8 \<and> (\<exists>moved. fst (path_answered (ep_path ep) from body) = Some (Migrated moved))")
  case True
  then obtain moved path where ans: "length body = 8" "path_answered (ep_path ep) from body = (Some (Migrated moved), path)"
    by (metis fst_conv surj_pair)
  let ?ep = "ep\<lparr>ep_path := path\<rparr>"
  have ok1: "ep_ok H root now ?ep" using assms by simp
  from ep_rotate_spec(2) [OF ok1] obtain ks where rot: "snd (ep_rotate H ?ep) = ?ep\<lparr>ep_keys := ks\<rparr>" by blast
  let ?m = "mtu_migrated (ep_mtu ep)"
  let ?ep' = "?ep\<lparr>ep_keys := ks, ep_mtu := ?m,
    ep_congestion := cong_migrated (cong_datagram (ep_congestion ep) (mtu_datagram ?m)),
    ep_loss := loss_migrated (ep_loss ep)\<rparr>"
  have eq: "snd (ep_on_response H ep from body) = ?ep'"
    using ans rot by (simp add: ep_on_response_def Let_def)
  have "ep_ok H root now (?ep\<lparr>ep_keys := ks\<rparr>)" using ep_rotate_spec(1) [OF ok1] rot by simp
  then have "ep_ok H root now ?ep'"
    using traffic_ok_migrated [of now "ep_next ep" "ep_congestion ep" "ep_mtu ep" "ep_loss ep"]
    by (intro ep_ok_frame [of H root now "?ep\<lparr>ep_keys := ks\<rparr>" ?ep']) (simp_all add: ep_ok_def)
  moreover have "heard from n ep0 ?ep'"
    using path_answered_allowance [of "ep_path ep" "from" body] ans
    by (intro heard_frame [OF assms(2)]) simp_all
  ultimately show ?thesis using eq by simp
next
  case False
  then have "\<exists>path. snd (ep_on_response H ep from body) = ep\<lparr>ep_path := path\<rparr> \<and>
      (\<forall>a. path_allowance path a \<le> path_allowance (ep_path ep) a)"
  proof (cases "length body = 8")
    case eight: True
    obtain r path where ans: "path_answered (ep_path ep) from body = (r, path)" by fastforce
    with False eight have "snd (ep_on_response H ep from body) = ep\<lparr>ep_path := path\<rparr>"
      by (auto simp: ep_on_response_def split: option.splits answered.splits)
    with path_answered_allowance [of "ep_path ep" "from" body] ans show ?thesis by auto
  next
    case short: False
    then have "snd (ep_on_response H ep from body) = ep\<lparr>ep_path := ep_path ep\<rparr>" by (simp add: ep_on_response_def)
    then show ?thesis by blast
  qed
  then obtain path where "snd (ep_on_response H ep from body) = ep\<lparr>ep_path := path\<rparr>"
    "\<forall>a. path_allowance path a \<le> path_allowance (ep_path ep) a" by blast
  moreover from this have "heard from n ep0 (ep\<lparr>ep_path := path\<rparr>)" by (intro heard_frame [OF assms(2)]) simp_all
  ultimately show ?thesis using assms(1) by simp
qed

lemma ep_deliver_spec:
  assumes ok: "ep_ok H root now ep"
  shows "\<exists>r ep'. ep_deliver H ep from now n kind body = Some (r, ep') \<and> ep_ok H root now ep' \<and> heard from n ep ep'"
proof -
  define ep1 where "ep1 = ep\<lparr>ep_path := snd (path_arrived (ep_path ep) from n now)\<rparr>"
  define ep2 where "ep2 = (if ack_eliciting kind then ep_owe_acknowledgement ep1 now kind else ep1)"
  have "ep_ok H root now ep1" "heard from n ep ep1"
    using ok path_arrived_allowance [of "ep_path ep" "from" n now] by (simp_all add: ep1_def heard_def)
  then have ok2: "ep_ok H root now ep2" and heard2: "heard from n ep ep2"
    by (simp_all add: ep2_def ep_owe_acknowledgement_def Let_def heard_def)
  have eq: "ep_deliver H ep from now n kind body =
    (case kind of
       Frame \<Rightarrow> Some (ReceivedFrame body, ep2)
     | Challenge \<Rightarrow> Some (ReceivedNothing, if length body = 8 then ep2\<lparr>ep_answer := Some (from, body)\<rparr> else ep2)
     | Response \<Rightarrow> Some (ep_on_response H ep2 from body)
     | AckKind \<Rightarrow> map_option (Pair ReceivedNothing) (ep_on_ack ep2 now body)
     | Alive \<Rightarrow> Some (ReceivedNothing, ep2)
     | Probe \<Rightarrow> Some (ReceivedNothing, ep2)
     | Close \<Rightarrow> Some (ReceivedClosed, ep2\<lparr>ep_closed := True\<rparr>))"
    unfolding ep_deliver_def Let_def ep1_def ep2_def by (rule refl)
  show ?thesis
  proof (cases kind)
    case Response
    with eq ep_on_response_spec [OF ok2 heard2, of body] show ?thesis
      by (cases "ep_on_response H ep2 from body") simp
  next
    case AckKind
    from ep_on_ack_spec [OF ep_ok_traffic [OF ok2], of body] obtain c m ld where
      ack: "ep_on_ack ep2 now body = Some (ep2\<lparr>ep_congestion := c, ep_mtu := m, ep_loss := ld\<rparr>)"
      and traffic: "traffic_ok now (ep_next ep2) c m ld" by blast
    have "ep_ok H root now (ep2\<lparr>ep_congestion := c, ep_mtu := m, ep_loss := ld\<rparr>)"
      using traffic by (intro ep_ok_frame [OF ok2]) simp_all
    moreover have "heard from n ep (ep2\<lparr>ep_congestion := c, ep_mtu := m, ep_loss := ld\<rparr>)"
      by (rule heard_frame [OF heard2]) simp_all
    ultimately show ?thesis using AckKind eq ack by simp
  next
    case Challenge
    have "heard from n ep (ep2\<lparr>ep_answer := x\<rparr>)" for x by (rule heard_frame [OF heard2]) simp_all
    with Challenge eq ok2 heard2 show ?thesis by simp
  next
    case Close
    have "heard from n ep (ep2\<lparr>ep_closed := x\<rparr>)" for x by (rule heard_frame [OF heard2]) simp_all
    with Close eq ok2 show ?thesis by simp
  qed (use eq ok2 heard2 in simp_all)
qed

text \<open>A refused datagram touches nothing but the key schedule, and unless it was a replay under
  a rotation, nothing of that but the cache of keys ahead. An accepted one passed the window.\<close>

definition refused_only :: "recv_error \<Rightarrow> endpoint \<Rightarrow> endpoint \<Rightarrow> bool" where
  "refused_only e ep ep' \<longleftrightarrow>
     ep' = ep\<lparr>ep_keys := ep_keys ep'\<rparr> \<and>
     (case e of
        Replayed n \<Rightarrow> ks_send (ep_keys ep') = ks_send (ep_keys ep)
      | _ \<Rightarrow> same_but_cache (ep_keys ep) (ep_keys ep'))"

definition admitted :: "socket_addr \<Rightarrow> bytes \<Rightarrow> endpoint \<Rightarrow> endpoint \<Rightarrow> bool" where
  "admitted from d ep ep' \<longleftrightarrow>
     (\<exists>h. header_decode d = Inr h \<and> hd_cid h = ep_cid ep \<and>
        window_admit (ep_window ep) (hd_number h) = (Fresh, ep_window ep') \<and>
        heard from (length d) (ep\<lparr>ep_window := ep_window ep'\<rparr>) ep')"

lemma window_admit_refused: "window_admit w n = (a, w') \<Longrightarrow> a \<noteq> Fresh \<Longrightarrow> w' = w"
  by (auto simp: window_admit_def Let_def split: if_splits)

lemma ep_ok_keys:
  "ep_ok H root now ep \<Longrightarrow> keys_ok H root (ep_role ep) ks \<Longrightarrow> send_epoch ks = send_epoch (ep_keys ep) \<Longrightarrow>
     ep_ok H root now (ep\<lparr>ep_keys := ks\<rparr>)"
  by (simp add: ep_ok_def)

lemma ep_ok_admit:
  assumes "ep_ok H root now ep" "window_admit (ep_window ep) n = (Fresh, w)" "n \<le> MAX_PACKET_NUMBER"
  shows "ep_ok H root now (ep\<lparr>ep_window := w\<rparr>)"
proof -
  obtain S where S: "window_rel (ep_window ep) S" "\<forall>n \<in> S. n \<le> MAX_PACKET_NUMBER"
    using assms(1) by (auto simp: ep_ok_def)
  from rwin.admit_cases [OF S(1) assms(2)] have "window_rel w (insert n S)" by auto
  with S(2) assms(1,3) show ?thesis unfolding ep_ok_def by (auto intro!: exI [of _ "insert n S"])
qed

lemma keys_adopt_send:
  assumes "keys_ok H root d ks" "e < 256"
  shows "ks_send (snd (keys_adopt H ks e)) = ks_send ks"
  by (auto simp: keys_adopt_def keys_follow_def Let_def split: reach.split option.split prod.split)

lemma ep_recv_spec:
  assumes ok: "ep_ok H root now ep"
  shows "\<exists>r ep'. ep_recv H A ep from now d = Some (r, ep') \<and> ep_ok H root now ep' \<and>
     (case r of Inl e \<Rightarrow> refused_only e ep ep' | Inr received \<Rightarrow> admitted from d ep ep')"
proof (cases "header_decode d")
  case (Inl e)
  with ok show ?thesis by (simp add: ep_recv_def refused_only_def same_but_cache_def)
next
  case (Inr h)
  show ?thesis
  proof (cases "hd_cid h = ep_cid ep")
    case False
    with Inr ok show ?thesis by (simp add: ep_recv_def refused_only_def same_but_cache_def)
  next
    case cid: True
    have keys: "keys_ok H root (ep_role ep) (ep_keys ep)" using ok by (simp add: ep_ok_def)
    have epoch: "hd_epoch h < 256" using header_decode_bounds(1) [OF Inr] by (simp add: header_wf_def)
    obtain key ks where reader: "keys_opening H (ep_keys ep) (hd_epoch h) = (key, ks)" by fastforce
    have ks: "keys_ok H root (ep_role ep) ks" "same_but_cache (ep_keys ep) ks"
      using keys_opening_spec(2,3) [OF keys epoch] reader by simp_all
    have ks_send: "ks_send ks = ks_send (ep_keys ep)" using same_but_cacheD(1) [OF ks(2)] .
    then have epoch_ks: "send_epoch ks = send_epoch (ep_keys ep)" by (simp add: send_epoch_def)
    have refused: "ep_ok H root now (ep\<lparr>ep_keys := ks\<rparr>)" using ep_ok_keys [OF ok ks(1) epoch_ks] .
    obtain next_epoch ks1 where adopt: "keys_adopt H ks (hd_epoch h) = (next_epoch, ks1)" by fastforce
    have ks1: "keys_ok H root (ep_role ep) ks1" "next_epoch \<noteq> None" "send_epoch ks1 = send_epoch (ep_keys ep)"
      "ks_send ks1 = ks_send (ep_keys ep)"
      using keys_adopt_spec [OF ks(1) epoch] keys_adopt_send [OF ks(1) epoch] adopt epoch_ks ks_send by simp_all
    have ok1: "ep_ok H root now (ep\<lparr>ep_keys := ks1\<rparr>)" using ep_ok_keys [OF ok ks1(1,3)] .
    let ?body = "\<lambda>k. aead_open A k (take HEADER_BYTES d) (hd_number h)
      (take (length d - HEADER_BYTES - TAG_BYTES) (drop HEADER_BYTES d)) (drop (length d - TAG_BYTES) d)"
    show ?thesis
    proof (cases "\<exists>k body. key = Some k \<and> ?body k = Some body")
      case False
      then have "\<exists>e. ep_recv H A ep from now d = Some (Inl e, ep\<lparr>ep_keys := ks\<rparr>) \<and> (e = UnknownEpoch \<or> e = Auth)"
        using Inr cid reader by (cases key) (auto simp: ep_recv_def Let_def split: option.splits)
      with refused ks(2) show ?thesis by (auto simp: refused_only_def)
    next
      case True
      then obtain k body where body: "key = Some k" "?body k = Some body" by blast
      obtain a w where admit: "window_admit (ep_window ep) (hd_number h) = (a, w)" by fastforce
      have eq: "ep_recv H A ep from now d =
        (if a = Fresh then map_option (\<lambda>(r, ep'). (Inr r, ep'))
             (ep_deliver H (ep\<lparr>ep_keys := ks1, ep_window := w\<rparr>) from now (length d) (hd_kind h) body)
         else Some (Inl (Replayed (hd_number h)), ep\<lparr>ep_keys := ks1, ep_window := w\<rparr>))"
        using Inr cid reader body adopt ks1(2) admit
        by (cases a) (auto simp: ep_recv_def Let_def split: option.splits)
      show ?thesis
      proof (cases "a = Fresh")
        case False
        then have "w = ep_window ep" using window_admit_refused [OF admit] by simp
        then have "ep\<lparr>ep_keys := ks1, ep_window := w\<rparr> = ep\<lparr>ep_keys := ks1\<rparr>" by simp
        with eq False ok1 ks1(4) show ?thesis by (simp add: refused_only_def)
      next
        case fresh: True
        have "ep_ok H root now (ep\<lparr>ep_keys := ks1, ep_window := w\<rparr>)"
          using ep_ok_admit [OF ok1, of "hd_number h" w] admit fresh header_decode_bounds(2) [OF Inr] by simp
        from ep_deliver_spec [OF this, of "from" "length d" "hd_kind h" body] obtain r ep' where
          r: "ep_deliver H (ep\<lparr>ep_keys := ks1, ep_window := w\<rparr>) from now (length d) (hd_kind h) body = Some (r, ep')"
            "ep_ok H root now ep'" "heard from (length d) (ep\<lparr>ep_keys := ks1, ep_window := w\<rparr>) ep'" by blast
        then have "admitted from d ep ep'"
          using Inr cid admit fresh by (simp add: admitted_def heard_def)
        with eq fresh r show ?thesis by simp
      qed
    qed
  qed
qed

end
