(* ===== verification/Endpoint_Runs.thy ===== *)
theory Endpoint_Runs
  imports Endpoint_Calls
begin

text \<open>
  What holds of an endpoint over its whole life: it always returns, no two datagrams leave
  under one nonce, no datagram is accepted twice, an unproven address is never sent more than
  three times what came from it, a refused datagram leaves no mark, the books of the flight
  agree, and what one end seals the other opens.
\<close>

section \<open>One step\<close>

definition step_effect :: "ep_event \<Rightarrow> endpoint \<Rightarrow> endpoint \<Rightarrow> bool" where
  "step_effect ev ep ep' =
     (case ev of
        Departed to d \<Rightarrow> departs ep (Some (to, d)) ep'
      | Admitted from d r \<Rightarrow> admitted from d ep ep'
      | Quiet \<Rightarrow> departs ep None ep')"

abbreviation run_ok :: "derive \<Rightarrow> bytes \<Rightarrow> ep_run_state \<Rightarrow> bool" where
  "run_ok H root s \<equiv> ep_ok H root (rn_clock s) (rn_endpoint s)"

lemma ep_ok_later: "ep_ok H root now ep \<Longrightarrow> now \<le> now' \<Longrightarrow> ep_ok H root now' ep"
  using traffic_ok_later by (auto simp: ep_ok_def)

lemma refused_only_departs:
  assumes "refused_only e ep ep'"
  shows "departs ep None ep'"
proof -
  have eq: "ep' = ep\<lparr>ep_keys := ep_keys ep'\<rparr>" using assms by (simp add: refused_only_def)
  show ?thesis by (rule departs_frame) (subst eq, simp)+
qed

lemma ep_step_spec:
  assumes ok: "run_ok H root s" and law: "aead_law A"
  shows "\<exists>ev s'. ep_step H A s op = Some (ev, s') \<and> run_ok H root s' \<and>
     step_effect ev (rn_endpoint s) (rn_endpoint s')"
proof (cases op)
  case (ESend frame)
  from ep_send_spec [OF ok law, of frame] obtain r ep' where
    r: "ep_send H A (rn_endpoint s) frame (rn_clock s) = Some (r, ep')" "ep_ok H root (rn_clock s) ep'"
      "departs (rn_endpoint s) (case r of Inr s \<Rightarrow> Some s | Inl _ \<Rightarrow> None) ep'" by blast
  with ESend show ?thesis by (cases r) (auto simp: step_effect_def)
next
  case EClose
  from ep_close_spec [OF ok law] obtain r ep' where
    r: "ep_close H A (rn_endpoint s) (rn_clock s) = Some (r, ep')" "ep_ok H root (rn_clock s) ep'"
      "departs (rn_endpoint s) (case r of Inr s \<Rightarrow> Some s | Inl _ \<Rightarrow> None) ep'" by blast
  with EClose show ?thesis by (cases r) (auto simp: step_effect_def)
next
  case ERotate
  from ep_rotate_spec [OF ok] obtain ks where
    "snd (ep_rotate H (rn_endpoint s)) = (rn_endpoint s)\<lparr>ep_keys := ks\<rparr>" by blast
  moreover from this have "departs (rn_endpoint s) None (snd (ep_rotate H (rn_endpoint s)))"
    by (intro departs_frame) simp_all
  ultimately show ?thesis using ERotate ep_rotate_spec(1) [OF ok] by (simp add: quietly_def step_effect_def)
next
  case (EPoll f1 f2)
  from ep_poll_transmit_good [OF ok law, of f1 f2] obtain sent ep' where
    "ep_poll_transmit H A f1 f2 (rn_endpoint s) (rn_clock s) = Some (sent, ep')" "ep_ok H root (rn_clock s) ep'"
      "departs (rn_endpoint s) sent ep'" by (auto simp: good_tx_def)
  with EPoll show ?thesis by (cases sent) (auto simp: step_effect_def)
next
  case (ERecv a d)
  from ep_recv_spec [OF ok, of A a d] obtain r ep' where
    "ep_recv H A (rn_endpoint s) a (rn_clock s) d = Some (r, ep')" "ep_ok H root (rn_clock s) ep'"
      "case r of Inl e \<Rightarrow> refused_only e (rn_endpoint s) ep' | Inr received \<Rightarrow> admitted a d (rn_endpoint s) ep'"
    by blast
  with ERecv show ?thesis by (cases r) (auto simp: step_effect_def refused_only_departs)
next
  case (EPathRefused carries)
  with ep_path_refused_spec [OF ok] show ?thesis by (simp add: quietly_def step_effect_def)
next
  case (EWait dt)
  with ok ep_ok_later show ?thesis by (auto simp: step_effect_def intro: ep_ok_later)
qed

lemma ep_run_total:
  assumes law: "aead_law A"
  shows "run_ok H root s \<Longrightarrow> \<exists>events s'. ep_run H A s ops = Some (events, s') \<and> run_ok H root s'"
proof (induction ops arbitrary: s)
  case (Cons op ops)
  from ep_step_spec [OF Cons.prems law, of op] obtain ev s1 where
    "ep_step H A s op = Some (ev, s1)" "run_ok H root s1" by blast
  with Cons.IH [of s1] show ?case by auto
qed simp

text \<open>Runs unfolded from the front, with what is known of the first step.\<close>

lemma ep_run_Cons:
  assumes "ep_run H A s (op # ops) = Some (events, s')" "run_ok H root s" "aead_law A"
  obtains ev s1 rest where "ep_step H A s op = Some (ev, s1)" "ep_run H A s1 ops = Some (rest, s')"
    "events = ev # rest" "run_ok H root s1" "step_effect ev (rn_endpoint s) (rn_endpoint s1)"
proof -
  from ep_step_spec [OF assms(2,3), of op] obtain ev s1 where
    "ep_step H A s op = Some (ev, s1)" "run_ok H root s1" "step_effect ev (rn_endpoint s) (rn_endpoint s1)" by blast
  with assms(1) that show ?thesis by auto
qed

lemma run_identity:
  assumes law: "aead_law A"
  shows "ep_run H A s ops = Some (events, s') \<Longrightarrow> run_ok H root s \<Longrightarrow>
    ep_role (rn_endpoint s') = ep_role (rn_endpoint s) \<and> ep_cid (rn_endpoint s') = ep_cid (rn_endpoint s)"
proof (induction ops arbitrary: s events)
  case (Cons op ops)
  from ep_run_Cons [OF Cons.prems law] obtain ev s1 rest where
    step: "ep_step H A s op = Some (ev, s1)" "ep_run H A s1 ops = Some (rest, s')" "events = ev # rest"
      "run_ok H root s1" "step_effect ev (rn_endpoint s) (rn_endpoint s1)" by blast
  have "ep_role (rn_endpoint s1) = ep_role (rn_endpoint s) \<and> ep_cid (rn_endpoint s1) = ep_cid (rn_endpoint s)"
    using step(5) by (cases ev) (auto simp: step_effect_def departs_def admitted_def heard_def)
  with Cons.IH [OF step(2,4)] show ?case by simp
qed simp

section \<open>Numbers that leave, numbers that are let in\<close>

fun departed :: "ep_event list \<Rightarrow> bytes list" where
  "departed [] = []"
| "departed (Departed to d # events) = d # departed events"
| "departed (_ # events) = departed events"

fun accepted_datagrams :: "ep_event list \<Rightarrow> bytes list" where
  "accepted_datagrams [] = []"
| "accepted_datagrams (Admitted a d r # events) = d # accepted_datagrams events"
| "accepted_datagrams (_ # events) = accepted_datagrams events"

lemma run_departed:
  assumes law: "aead_law A"
  shows "ep_run H A s ops = Some (events, s') \<Longrightarrow> run_ok H root s \<Longrightarrow>
    \<exists>hs. map header_decode (departed events) = map Inr hs \<and>
      sorted_wrt (<) (map hd_number hs) \<and> (\<forall>h \<in> set hs. ep_next (rn_endpoint s) \<le> hd_number h)"
proof (induction ops arbitrary: s events)
  case (Cons op ops)
  from ep_run_Cons [OF Cons.prems law] obtain ev s1 rest where
    step: "ep_step H A s op = Some (ev, s1)" "ep_run H A s1 ops = Some (rest, s')" "events = ev # rest"
      "run_ok H root s1" "step_effect ev (rn_endpoint s) (rn_endpoint s1)" by blast
  from Cons.IH [OF step(2,4)] obtain hs where
    hs: "map header_decode (departed rest) = map Inr hs" "sorted_wrt (<) (map hd_number hs)"
      "\<forall>h \<in> set hs. ep_next (rn_endpoint s1) \<le> hd_number h" by blast
  show ?case
  proof (cases ev)
    case (Departed to d)
    with step(5) obtain h where h: "header_decode d = Inr h" "hd_number h = ep_next (rn_endpoint s)"
      "ep_next (rn_endpoint s1) = ep_next (rn_endpoint s) + 1"
      by (auto simp: step_effect_def departs_def)
    with hs Departed step(3) show ?thesis by (intro exI [of _ "h # hs"]) (auto simp: Suc_le_eq intro: less_imp_le)
  next
    case (Admitted a d r)
    with step(5) have "ep_next (rn_endpoint s1) = ep_next (rn_endpoint s)"
      by (auto simp: step_effect_def admitted_def heard_def)
    with hs Admitted step(3) show ?thesis by auto
  next
    case Quiet
    with step(5) have "ep_next (rn_endpoint s1) = ep_next (rn_endpoint s)"
      by (simp add: step_effect_def departs_def)
    with hs Quiet step(3) show ?thesis by auto
  qed
qed simp

lemma run_admitted:
  assumes law: "aead_law A"
  shows "ep_run H A s ops = Some (events, s') \<Longrightarrow> run_ok H root s \<Longrightarrow> window_rel (ep_window (rn_endpoint s)) S \<Longrightarrow>
    \<exists>hs. map header_decode (accepted_datagrams events) = map Inr hs \<and>
      distinct (map hd_number hs) \<and> set (map hd_number hs) \<inter> S = {}"
proof (induction ops arbitrary: s events S)
  case (Cons op ops)
  from ep_run_Cons [OF Cons.prems(1,2) law] obtain ev s1 rest where
    step: "ep_step H A s op = Some (ev, s1)" "ep_run H A s1 ops = Some (rest, s')" "events = ev # rest"
      "run_ok H root s1" "step_effect ev (rn_endpoint s) (rn_endpoint s1)" by blast
  show ?case
  proof (cases ev)
    case (Admitted a d r)
    with step(5) obtain h where h: "header_decode d = Inr h"
      "window_admit (ep_window (rn_endpoint s)) (hd_number h) = (Fresh, ep_window (rn_endpoint s1))"
      by (auto simp: step_effect_def admitted_def)
    from rwin.admit_cases [OF Cons.prems(3) h(2)] have new: "hd_number h \<notin> S"
      and rel: "window_rel (ep_window (rn_endpoint s1)) (insert (hd_number h) S)" by auto
    from Cons.IH [OF step(2,4) rel] obtain hs where
      "map header_decode (accepted_datagrams rest) = map Inr hs" "distinct (map hd_number hs)"
        "set (map hd_number hs) \<inter> insert (hd_number h) S = {}" by blast
    with h(1) new Admitted step(3) show ?thesis by (intro exI [of _ "h # hs"]) auto
  next
    case (Departed to d)
    with step(5) Cons.prems(3) have "window_rel (ep_window (rn_endpoint s1)) S"
      by (simp add: step_effect_def departs_def)
    with Cons.IH [OF step(2,4)] Departed step(3) show ?thesis by simp
  next
    case Quiet
    with step(5) Cons.prems(3) have "window_rel (ep_window (rn_endpoint s1)) S"
      by (simp add: step_effect_def departs_def)
    with Cons.IH [OF step(2,4)] Quiet step(3) show ?thesis by simp
  qed
qed simp

section \<open>Amplification over a whole run\<close>

fun ep_unproven_sent :: "derive \<Rightarrow> cipher \<Rightarrow> socket_addr \<Rightarrow> ep_run_state \<Rightarrow> ep_op list \<Rightarrow> nat" where
  "ep_unproven_sent H A a s [] = 0"
| "ep_unproven_sent H A a s (op # ops) =
     (case ep_step H A s op of
        None \<Rightarrow> 0
      | Some (ev, s') \<Rightarrow>
          (case ev of
             Departed to d \<Rightarrow>
               (if to = a \<and> \<not> path_free (ep_path (rn_endpoint s)) a then length d else 0)
           | _ \<Rightarrow> 0) + ep_unproven_sent H A a s' ops)"

fun ep_heard_from :: "derive \<Rightarrow> cipher \<Rightarrow> socket_addr \<Rightarrow> ep_run_state \<Rightarrow> ep_op list \<Rightarrow> nat" where
  "ep_heard_from H A a s [] = 0"
| "ep_heard_from H A a s (op # ops) =
     (case ep_step H A s op of
        None \<Rightarrow> 0
      | Some (ev, s') \<Rightarrow>
          (case ev of Admitted b d r \<Rightarrow> (if b = a then length d else 0) | _ \<Rightarrow> 0) + ep_heard_from H A a s' ops)"

lemma admitted_allowance:
  assumes "admitted from d ep ep'"
  shows "path_allowance (ep_path ep') a \<le>
    path_allowance (ep_path ep) a + (if a = from then AMPLIFICATION_LIMIT * length d else 0)"
proof -
  have "heard from (length d) (ep\<lparr>ep_window := ep_window ep'\<rparr>) ep'" using assms by (auto simp: admitted_def)
  then show ?thesis by (simp add: heard_def)
qed

lemma ep_unproven_bounded:
  assumes law: "aead_law A"
  shows "run_ok H root s \<Longrightarrow>
    ep_unproven_sent H A a s ops \<le>
      path_allowance (ep_path (rn_endpoint s)) a + AMPLIFICATION_LIMIT * ep_heard_from H A a s ops"
proof (induction ops arbitrary: s)
  case (Cons op ops)
  from ep_step_spec [OF Cons.prems law, of op] obtain ev s1 where
    step: "ep_step H A s op = Some (ev, s1)" "run_ok H root s1" "step_effect ev (rn_endpoint s) (rn_endpoint s1)" by blast
  note IH = Cons.IH [OF step(2)]
  show ?case
  proof (cases ev)
    case (Departed to d)
    with step(3) have "path_allowance (ep_path (rn_endpoint s1)) a \<le> path_allowance (ep_path (rn_endpoint s)) a"
      "to = a \<Longrightarrow> \<not> path_free (ep_path (rn_endpoint s)) a \<Longrightarrow>
        length d + path_allowance (ep_path (rn_endpoint s1)) a \<le> path_allowance (ep_path (rn_endpoint s)) a"
      by (auto simp: step_effect_def departs_def)
    with IH step(1) Departed show ?thesis by auto
  next
    case (Admitted b d r)
    with step(3) have "path_allowance (ep_path (rn_endpoint s1)) a \<le>
        path_allowance (ep_path (rn_endpoint s)) a + (if a = b then AMPLIFICATION_LIMIT * length d else 0)"
      using admitted_allowance [of b d "rn_endpoint s" "rn_endpoint s1" a] by (simp add: step_effect_def)
    with IH step(1) Admitted show ?thesis by (auto simp: algebra_simps split: if_splits)
  next
    case Quiet
    with step(3) have "path_allowance (ep_path (rn_endpoint s1)) a \<le> path_allowance (ep_path (rn_endpoint s)) a"
      by (simp add: step_effect_def departs_def)
    with IH step(1) Quiet show ?thesis by simp
  qed
qed simp

section \<open>What one end seals, the other opens\<close>

lemma ep_absorb_frame: "ep_absorb ep now = Some ep' \<Longrightarrow> ep_keys ep' = ep_keys ep"
  by (auto simp: ep_absorb_def Let_def split: option.splits prod.splits)

lemma ep_track_frame: "ep_track ep n bytes now = Some ep' \<Longrightarrow> ep_keys ep' = ep_keys ep"
  by (auto simp: ep_track_def Let_def split: prod.splits dest!: ep_absorb_frame)

lemma ep_seal_content:
  assumes ok: "ep_ok H root now ep" and law: "aead_law A"
    and seal: "ep_seal_with H A ep kind to now body = Some (Inr d, ep')"
  shows "\<exists>head payload tag h. d = head @ payload @ tag \<and> length head = HEADER_BYTES \<and> length payload = length body \<and>
    length tag = TAG_BYTES \<and> header_decode d = Inr h \<and> hd_kind h = kind \<and> hd_cid h = ep_cid ep \<and>
    hd_epoch h = send_epoch (ep_keys ep') \<and> hd_number h = ep_next ep \<and>
    aead_seal A (epoch_key H root (ep_role ep) (hd_epoch h)) head (hd_number h) body = (payload, tag)"
proof -
  from seal obtain ep1 where rekey: "ep_rekey H ep = Some ep1"
    by (auto simp: ep_seal_with_def split: if_splits option.splits)
  note ok1 = ep_rekey_spec(1,2) [OF ok rekey]
  from ep_rekey_spec(3) [OF ok rekey] obtain ks at where ep1: "ep1 = ep\<lparr>ep_keys := ks, ep_rekey_at := at\<rparr>" by blast
  let ?h = "\<lparr>hd_kind = kind, hd_cid = ep_cid ep1, hd_epoch = send_epoch (ep_keys ep1), hd_number = ep_next ep1\<rparr>"
  from ep_seal_datagram [OF ok1 law, of kind body] obtain head where head: "header_encode ?h = Some head"
    "length head = HEADER_BYTES"
    and decode: "\<And>payload tag. aead_seal A (ks_send_key (ep_keys ep1)) head (ep_next ep1) body = (payload, tag) \<Longrightarrow>
      length payload = length body \<and> length tag = TAG_BYTES \<and> header_decode (head @ payload @ tag) = Inr ?h"
    by fastforce
  obtain payload tag where made: "aead_seal A (ks_send_key (ep_keys ep1)) head (ep_next ep1) body = (payload, tag)"
    by fastforce
  have d: "d = head @ payload @ tag" and keys: "ep_keys ep' = ep_keys ep1"
    using seal rekey head made
    by (auto simp: ep_seal_with_def Let_def split: if_splits dest!: ep_track_frame)
  have "ks_send_key (ep_keys ep1) = epoch_key H root (ep_role ep) (send_epoch (ep_keys ep1))"
    using ok1(1) by (simp add: ep_ok_def keys_ok_def ep1)
  with decode [OF made] made d keys head(2) show ?thesis
    by (intro exI [of _ head] exI [of _ payload] exI [of _ tag] exI [of _ ?h]) (simp add: ep1)
qed

lemma map_sum_eq_Inr: "map_sum f g x = Inr y \<longleftrightarrow> (\<exists>z. x = Inr z \<and> g z = y)"
  by (cases x) auto

lemma ep_recv_opens:
  assumes ok: "ep_ok H root now ep" and law: "aead_law A"
    and d: "d = head @ payload @ tag" "length head = HEADER_BYTES" "length payload = length body" "length tag = TAG_BYTES"
    and h: "header_decode d = Inr h" "hd_kind h = Frame" "hd_cid h = ep_cid ep"
    and sealed: "aead_seal A (epoch_key H root (opposite (ep_role ep)) (hd_epoch h)) head (hd_number h) body = (payload, tag)"
    and reach: "keys_reach (ep_keys ep) (hd_epoch h) \<noteq> Unreachable"
    and fresh: "fst (window_admit (ep_window ep) (hd_number h)) = Fresh"
  shows "\<exists>ep'. ep_recv H A ep from now d = Some (Inr (ReceivedFrame body), ep')"
proof -
  let ?key = "epoch_key H root (opposite (ep_role ep)) (hd_epoch h)"
  have keys: "keys_ok H root (ep_role ep) (ep_keys ep)" using ok by (simp add: ep_ok_def)
  have epoch: "hd_epoch h < 256" using header_decode_bounds(1) [OF h(1)] by (simp add: header_wf_def)
  obtain ks where reader: "keys_opening H (ep_keys ep) (hd_epoch h) = (Some ?key, ks)" "keys_ok H root (ep_role ep) ks"
    using keys_opening_spec(1,2) [OF keys epoch] reach by (metis prod.collapse)
  obtain e ks1 where adopt: "keys_adopt H ks (hd_epoch h) = (Some e, ks1)"
    using keys_adopt_spec(4) [OF reader(2) epoch] by (metis option.exhaust prod.collapse)
  obtain w where admit: "window_admit (ep_window ep) (hd_number h) = (Fresh, w)"
    using fresh by (metis prod.collapse)
  have parts: "take HEADER_BYTES d = head"
    "take (length d - HEADER_BYTES - TAG_BYTES) (drop HEADER_BYTES d) = payload"
    "drop (length d - TAG_BYTES) d = tag"
    using d by simp_all
  have "aead_open A ?key head (hd_number h) payload tag = Some body"
    using aead_open_iff [OF law] sealed by simp
  with h reader(1) adopt admit parts show ?thesis
    by (simp add: ep_recv_def Let_def ep_deliver_def)
qed

section \<open>Properties\<close>

definition run_start :: "instant \<Rightarrow> endpoint \<Rightarrow> ep_run_state" where
  "run_start t ep = \<lparr>rn_clock = t, rn_endpoint = ep\<rparr>"

lemma run_ok_start: "length cid = 8 \<Longrightarrow> run_ok H root (run_start t (ep_new H cid root path d f))"
  by (simp add: run_start_def ep_ok_new)

lemma run_ok_reached:
  assumes "aead_law A" "length cid = 8"
    and "ep_run H A (run_start t (ep_new H cid root path d f)) ops = Some (events, s)"
  shows "run_ok H root s"
proof -
  from ep_run_total [OF assms(1) run_ok_start [OF assms(2)]] obtain ev s' where
    "ep_run H A (run_start t (ep_new H cid root path d f)) ops = Some (ev, s')" "run_ok H root s'" by blast
  with assms(3) show ?thesis by simp
qed

text \<open>A small endpoint to run the model on: a toy derivation and cipher, one frame sent, one
  poll, and arrivals.\<close>

definition toy_cid :: connection_id where "toy_cid = [1, 2, 3, 4, 5, 6, 7, 8]"
definition toy_peer :: socket_addr where "toy_peer = SocketAddr [127, 0, 0, 1] 9"

definition toy_client :: ep_run_state where
  "toy_client = run_start 0 (ep_new toy_derive toy_cid [7] (path_dialled toy_peer) ClientToServer Refused)"

definition toy_ops :: "ep_op list" where
  "toy_ops = [ESend [1, 2, 3], EWait 5, EPoll None None, ERecv toy_peer [0, 1], ESend [4], EClose]"

lemma toy_cid_length [simp]: "length toy_cid = 8" by (simp add: toy_cid_def)

lemma toy_run: "\<exists>events s. ep_run toy_derive toy_cipher toy_client toy_ops = Some (events, s)"
proof -
  have "run_ok toy_derive [7] toy_client" unfolding toy_client_def by (rule run_ok_start) simp
  from ep_run_total [OF toy_cipher_law this] show ?thesis by blast
qed

text \<open>C10: an endpoint never fails. Whatever is sent, received, polled, rotated or refused, in
  any order and at any pace, every call returns: no assertion on a packet number fires over
  the whole life of the key schedule, and no loop of the congestion controller runs on.\<close>

theorem endpoint_never_fails:
  assumes "aead_law A" "length cid = 8"
  shows "ep_run H A (run_start t (ep_new H cid root path d f)) ops \<noteq> None"
  using ep_run_total [OF assms(1) run_ok_start [OF assms(2)]] by (metis option.distinct(1))

theorem endpoint_never_fails_witness: "ep_run toy_derive toy_cipher toy_client toy_ops \<noteq> None"
  unfolding toy_client_def by (rule endpoint_never_fails) (simp_all add: toy_cipher_law)

text \<open>C1: no nonce is used twice. The datagrams that leave an endpoint over its life decode to
  headers whose packet numbers strictly ascend, and the nonces made of those numbers are
  distinct, rotation or none.\<close>

theorem endpoint_nonces_distinct:
  assumes "aead_law A" "length cid = 8"
    and "ep_run H A (run_start t (ep_new H cid root path d f)) ops = Some (events, s)"
  shows "\<exists>hs. map header_decode (departed events) = map Inr hs \<and>
    sorted_wrt (<) (map hd_number hs) \<and> distinct (map (aead_nonce \<circ> hd_number) hs)"
proof -
  from run_departed [OF assms(1,3) run_ok_start [OF assms(2)]] obtain hs where
    hs: "map header_decode (departed events) = map Inr hs" "sorted_wrt (<) (map hd_number hs)" by blast
  have "hd_number h \<le> MAX_PACKET_NUMBER" if "h \<in> set hs" for h
  proof -
    have "Inr h \<in> set (map header_decode (departed events))" using hs(1) that by auto
    then obtain d where "header_decode d = Inr h" by auto
    then show ?thesis by (rule header_decode_bounds(2))
  qed
  then have "inj_on aead_nonce (set (map hd_number hs))"
    by (intro inj_onI) (auto intro: aead_nonce_inj)
  moreover have "distinct (map hd_number hs)" using hs(2) by (simp add: strict_sorted_iff)
  ultimately have "distinct (map aead_nonce (map hd_number hs))" by (simp only: distinct_map simp_thms)
  with hs show ?thesis by auto
qed

theorem endpoint_nonces_distinct_witness:
  "\<exists>events s hs. ep_run toy_derive toy_cipher toy_client toy_ops = Some (events, s) \<and>
     map header_decode (departed events) = map Inr hs \<and> distinct (map (aead_nonce \<circ> hd_number) hs)"
proof -
  obtain events s where run: "ep_run toy_derive toy_cipher toy_client toy_ops = Some (events, s)"
    using toy_run by blast
  from endpoint_nonces_distinct [OF toy_cipher_law toy_cid_length run [unfolded toy_client_def]] run
  show ?thesis by blast
qed

text \<open>C2: no datagram is accepted twice. Over any run, the datagrams let through have pairwise
  distinct packet numbers, so no frame is delivered again by repeating its datagram.\<close>

theorem endpoint_accepts_once:
  assumes "aead_law A" "length cid = 8"
    and "ep_run H A (run_start t (ep_new H cid root path d f)) ops = Some (events, s)"
  shows "\<exists>hs. map header_decode (accepted_datagrams events) = map Inr hs \<and> distinct (map hd_number hs)"
proof -
  have "window_rel (ep_window (rn_endpoint (run_start t (ep_new H cid root path d f)))) {}"
    by (simp add: run_start_def ep_new_def window_rel_new)
  from run_admitted [OF assms(1,3) run_ok_start [OF assms(2)] this] show ?thesis by blast
qed

text \<open>C9: an endpoint is no amplifier. Over any run of an accepting or a dialling endpoint, the
  bytes that left for an address while it had proved nothing are at most three times the bytes
  of the authenticated datagrams accepted from it.\<close>

theorem endpoint_amplification_bound:
  assumes "aead_law A" "length cid = 8" "path = path_claimed peer \<or> path = path_dialled peer"
  shows "ep_unproven_sent H A a (run_start t (ep_new H cid root path d f)) ops \<le>
    AMPLIFICATION_LIMIT * ep_heard_from H A a (run_start t (ep_new H cid root path d f)) ops"
proof -
  have "path_allowance path a = 0"
    using assms(3) by (auto simp: path_allowance_cases path_claimed_def path_dialled_def probe_new_def)
  moreover have "ep_path (rn_endpoint (run_start t (ep_new H cid root path d f))) = path"
    by (simp add: run_start_def ep_new_def)
  ultimately show ?thesis
    using ep_unproven_bounded [OF assms(1) run_ok_start [OF assms(2), of H root t path d f], of a ops] by simp
qed

text \<open>C11: a refused datagram leaves no mark. On every reachable endpoint, an arrival that is
  refused changes nothing but the key schedule; one that failed authentication, named another
  connection or an unreachable epoch, or was malformed, changes nothing of that either but the
  cache of keys ahead; and a replay, at most what is read with, never what is sealed with.\<close>

theorem endpoint_refusal_leaves_no_mark:
  assumes "aead_law A" "length cid = 8"
    and "ep_run H A (run_start t (ep_new H cid root path d f)) ops = Some (events, s)"
    and "ep_recv H A (rn_endpoint s) from (rn_clock s) datagram = Some (Inl e, ep')"
  shows "ep' = (rn_endpoint s)\<lparr>ep_keys := ep_keys ep'\<rparr> \<and>
    ks_send (ep_keys ep') = ks_send (ep_keys (rn_endpoint s)) \<and>
    ((\<forall>n. e \<noteq> Replayed n) \<longrightarrow> same_but_cache (ep_keys (rn_endpoint s)) (ep_keys ep'))"
proof -
  have "run_ok H root s" by (rule run_ok_reached [OF assms(1-3)])
  from ep_recv_spec [OF this, of A "from" datagram] assms(4) have "refused_only e (rn_endpoint s) ep'" by auto
  then show ?thesis by (cases e) (auto simp: refused_only_def dest: same_but_cacheD(1))
qed

theorem endpoint_refusal_leaves_no_mark_witness:
  "\<exists>ep'. ep_recv toy_derive toy_cipher (rn_endpoint toy_client) toy_peer (rn_clock toy_client) [0] =
       Some (Inl (Malformed Short), ep') \<and>
     same_but_cache (ep_keys (rn_endpoint toy_client)) (ep_keys ep')"
proof -
  have run: "ep_run toy_derive toy_cipher toy_client [] = Some ([], toy_client)" by simp
  have recv: "ep_recv toy_derive toy_cipher (rn_endpoint toy_client) toy_peer (rn_clock toy_client) [0] =
      Some (Inl (Malformed Short), rn_endpoint toy_client)"
    by (simp add: ep_recv_def header_decode_def packet_consts)
  have "same_but_cache (ep_keys (rn_endpoint toy_client)) (ep_keys (rn_endpoint toy_client))"
    using endpoint_refusal_leaves_no_mark [OF toy_cipher_law toy_cid_length run [unfolded toy_client_def]
      recv [unfolded toy_client_def], THEN conjunct2, THEN conjunct2]
    unfolding toy_client_def by blast
  with recv show ?thesis by blast
qed

text \<open>C12: the books agree. On every reachable endpoint, the bytes the congestion controller
  believes in flight are the bytes of the packets the loss detector tracks, and the datagram
  size it counts in is the one the MTU search has in force.\<close>

theorem endpoint_books_agree:
  assumes "aead_law A" "length cid = 8"
    and "ep_run H A (run_start t (ep_new H cid root path d f)) ops = Some (events, s)"
  shows "cc_in_flight (ep_congestion (rn_endpoint s)) = flight_bytes (ep_loss (rn_endpoint s)) \<and>
    cc_datagram (ep_congestion (rn_endpoint s)) = mtu_datagram (ep_mtu (rn_endpoint s))"
proof -
  have "run_ok H root s" by (rule run_ok_reached [OF assms(1-3)])
  then show ?thesis by (simp add: ep_ok_def traffic_ok_def)
qed

theorem endpoint_books_agree_witness:
  "\<exists>events s. ep_run toy_derive toy_cipher toy_client toy_ops = Some (events, s) \<and>
     cc_in_flight (ep_congestion (rn_endpoint s)) = flight_bytes (ep_loss (rn_endpoint s))"
proof -
  obtain events s where run: "ep_run toy_derive toy_cipher toy_client toy_ops = Some (events, s)"
    using toy_run by blast
  from endpoint_books_agree [OF toy_cipher_law toy_cid_length run [unfolded toy_client_def]] run
  show ?thesis by blast
qed

lemma sealed_opens:
  assumes "aead_law A" "length cid = 8"
    and "ep_run H A (run_start t (ep_new H cid root path d f)) ops = Some (events, s)"
    and "ep_run H A (run_start t' (ep_new H cid root path' (opposite d) f')) ops' = Some (events', r)"
    and "ep_send H A (rn_endpoint s) frame (rn_clock s) = Some (Inr (to, datagram), ep')"
    and "keys_reach (ep_keys (rn_endpoint r)) (send_epoch (ep_keys ep')) \<noteq> Unreachable"
    and "fst (window_admit (ep_window (rn_endpoint r)) (ep_next (rn_endpoint s))) = Fresh"
  shows "\<exists>r'. ep_recv H A (rn_endpoint r) from (rn_clock r) datagram = Some (Inr (ReceivedFrame frame), r')"
proof -
  have ok: "run_ok H root s" "run_ok H root r"
    using run_ok_reached [OF assms(1-3)] run_ok_reached [OF assms(1,2,4)] by simp_all
  have ids: "ep_role (rn_endpoint s) = d" "ep_role (rn_endpoint r) = opposite d" "ep_cid (rn_endpoint s) = cid"
    "ep_cid (rn_endpoint r) = cid"
    using run_identity [OF assms(1,3) run_ok_start [OF assms(2)]] run_identity [OF assms(1,4) run_ok_start [OF assms(2)]]
    by (simp_all add: run_start_def ep_new_def)
  have seal: "ep_seal_with H A (rn_endpoint s) Frame to (rn_clock s) frame = Some (Inr datagram, ep')"
    using assms(5) by (auto simp: ep_send_def ep_seal_def Let_def map_sum_eq_Inr split: if_splits)
  from ep_seal_content [OF ok(1) assms(1) seal] obtain head payload tag h where
    parts: "datagram = head @ payload @ tag" "length head = HEADER_BYTES" "length payload = length frame"
      "length tag = TAG_BYTES" "header_decode datagram = Inr h" "hd_kind h = Frame" "hd_cid h = cid"
      "hd_epoch h = send_epoch (ep_keys ep')" "hd_number h = ep_next (rn_endpoint s)"
      "aead_seal A (epoch_key H root d (hd_epoch h)) head (hd_number h) frame = (payload, tag)"
    using ids by auto
  show ?thesis
    by (rule ep_recv_opens [OF ok(2) assms(1) parts(1-6)]) (use parts ids assms(6,7) in simp_all)
qed

text \<open>C3: what one end seals, the other opens. After any lives of the two ends of a connection,
  a frame one of them sends is delivered, byte for byte, by the other, provided the epoch it was
  sealed in is within the other's reach and its number has not been seen: the two ends need not
  have rotated, migrated or acknowledged in step.\<close>

theorem endpoint_roundtrip:
  assumes "aead_law A" "length cid = 8"
    and "ep_run H A (run_start t (ep_new H cid root path d f)) ops = Some (events, s)"
    and "ep_run H A (run_start t' (ep_new H cid root path' (opposite d) f')) ops' = Some (events', r)"
    and "ep_send H A (rn_endpoint s) frame (rn_clock s) = Some (Inr (to, datagram), ep')"
    and "keys_reach (ep_keys (rn_endpoint r)) (send_epoch (ep_keys ep')) \<noteq> Unreachable"
    and "fst (window_admit (ep_window (rn_endpoint r)) (ep_next (rn_endpoint s))) = Fresh"
  shows "\<exists>r'. ep_recv H A (rn_endpoint r) from (rn_clock r) datagram = Some (Inr (ReceivedFrame frame), r')"
  by (rule sealed_opens [OF assms])

definition toy_server :: ep_run_state where
  "toy_server = run_start 0 (ep_new toy_derive toy_cid [7] (path_claimed toy_peer) (opposite ClientToServer) Refused)"

lemma toy_writable: "ep_writable (rn_endpoint toy_client) (rn_clock toy_client) 3"
  by (simp add: ep_writable_def ep_admits_def toy_client_def run_start_def ep_new_def loss_new_def loss_admits_def
      path_dialled_def path_may_send_def path_unproven_def cong_writable_def cong_new_def pacer_new_def
      pacer_available_def cong_burst_def packet_consts MAX_TRACKED_def INITIAL_DATAGRAMS_def BURST_DATAGRAMS_def)

lemma toy_send:
  obtains to d ep' where
    "ep_send toy_derive toy_cipher (rn_endpoint toy_client) [1, 2, 3] (rn_clock toy_client) = Some (Inr (to, d), ep')"
    "send_epoch (ep_keys ep') = 0"
proof -
  let ?ep = "rn_endpoint toy_client" and ?now = "rn_clock toy_client"
  let ?to = "pv_current (ep_path ?ep)"
  have ok: "ep_ok toy_derive [7] ?now ?ep"
    using run_ok_start [of toy_cid] unfolding toy_client_def by simp
  have wide: "\<not> ep_payload_limit ?ep < 3"
    by (simp add: ep_payload_limit_def toy_client_def run_start_def ep_new_def mtu_new_def mtu_datagram_def packet_consts)
  have rekey: "ep_rekey toy_derive ?ep = Some ?ep"
    by (simp add: ep_rekey_def toy_client_def run_start_def ep_new_def REKEY_AFTER_def)
  have epoch: "send_epoch (ep_keys ?ep) = 0"
    by (simp add: toy_client_def run_start_def ep_new_def keys_new_def ratchet_new_def epoch_first_def send_epoch_def Let_def)
  have free: "\<not> ep_closed ?ep" "loss_admits (ep_loss ?ep)" "\<And>n. path_may_send (ep_path ?ep) ?to n"
    using toy_writable
    by (simp_all add: ep_writable_def ep_admits_def toy_client_def run_start_def ep_new_def Let_def
        path_dialled_def path_may_send_def path_unproven_def)
  from ep_seal_with_spec [OF ok toy_cipher_law, of Frame ?to "[1, 2, 3]"] obtain r ep' where
    seal: "ep_seal_with toy_derive toy_cipher ?ep Frame ?to ?now [1, 2, 3] = Some (r, ep')" by blast
  then obtain d where r: "r = Inr d" and keys: "ep_keys ep' = ep_keys ?ep"
    using free rekey
    by (auto simp: ep_seal_with_def Let_def split: if_splits option.splits prod.splits dest!: ep_track_frame)
  show thesis
    by (rule that [of ?to d ep']) (use seal r keys epoch wide toy_writable in
      \<open>simp_all add: ep_send_def ep_seal_def eval_nat_numeral\<close>)
qed

lemma toy_fits:
  "keys_reach (ep_keys (rn_endpoint toy_server)) 0 \<noteq> Unreachable"
  "fst (window_admit (ep_window (rn_endpoint toy_server)) (ep_next (rn_endpoint toy_client))) = Fresh"
  by (simp_all add: toy_server_def toy_client_def run_start_def ep_new_def keys_new_def ratchet_new_def epoch_first_def keys_reach_def
      recv_epoch_def Let_def window_admit_def window_new_def window_get_def window_position_def WIDTH_def WORDS_def)

lemma toy_delivered:
  obtains d s where "d \<noteq> []"
    "ep_step toy_derive toy_cipher toy_server (ERecv toy_peer d) = Some (Admitted toy_peer d (ReceivedFrame [1, 2, 3]), s)"
proof -
  from toy_send obtain to d ep' where
    send: "ep_send toy_derive toy_cipher (rn_endpoint toy_client) [1, 2, 3] (rn_clock toy_client) = Some (Inr (to, d), ep')"
    and epoch: "send_epoch (ep_keys ep') = 0" by blast
  have runs: "ep_run toy_derive toy_cipher toy_client [] = Some ([], toy_client)"
    "ep_run toy_derive toy_cipher toy_server [] = Some ([], toy_server)" by simp_all
  have reach: "keys_reach (ep_keys (rn_endpoint toy_server)) (send_epoch (ep_keys ep')) \<noteq> Unreachable"
    using toy_fits(1) by (simp add: epoch)
  obtain r' where recv: "ep_recv toy_derive toy_cipher (rn_endpoint toy_server) toy_peer (rn_clock toy_server) d =
      Some (Inr (ReceivedFrame [1, 2, 3]), r')"
    using sealed_opens [OF toy_cipher_law toy_cid_length runs(1) [unfolded toy_client_def]
      runs(2) [unfolded toy_server_def] send [unfolded toy_client_def] reach [unfolded toy_server_def]
      toy_fits(2) [unfolded toy_client_def toy_server_def], of toy_peer]
    unfolding toy_client_def toy_server_def by blast
  then have "d \<noteq> []" by (auto simp: ep_recv_def header_decode_def packet_consts)
  then show thesis by (rule that) (simp add: recv)
qed

theorem endpoint_roundtrip_witness:
  "\<exists>to d ep' r'. ep_send toy_derive toy_cipher (rn_endpoint toy_client) [1, 2, 3] (rn_clock toy_client) =
       Some (Inr (to, d), ep') \<and>
     ep_recv toy_derive toy_cipher (rn_endpoint toy_server) toy_peer (rn_clock toy_server) d =
       Some (Inr (ReceivedFrame [1, 2, 3]), r')"
proof -
  from toy_send obtain to d ep' where
    send: "ep_send toy_derive toy_cipher (rn_endpoint toy_client) [1, 2, 3] (rn_clock toy_client) = Some (Inr (to, d), ep')"
    and epoch: "send_epoch (ep_keys ep') = 0" by blast
  have runs: "ep_run toy_derive toy_cipher toy_client [] = Some ([], toy_client)"
    "ep_run toy_derive toy_cipher toy_server [] = Some ([], toy_server)" by simp_all
  have reach: "keys_reach (ep_keys (rn_endpoint toy_server)) (send_epoch (ep_keys ep')) \<noteq> Unreachable"
    using toy_fits(1) by (simp add: epoch)
  from endpoint_roundtrip [OF toy_cipher_law toy_cid_length runs(1) [unfolded toy_client_def]
      runs(2) [unfolded toy_server_def] send [unfolded toy_client_def] reach [unfolded toy_server_def]
      toy_fits(2) [unfolded toy_client_def toy_server_def], of toy_peer] send
  show ?thesis unfolding toy_client_def toy_server_def by blast
qed

text \<open>The datagram of a peer that has proved nothing, heard twice.\<close>

theorem endpoint_accepts_once_witness:
  "\<exists>d events s. ep_run toy_derive toy_cipher toy_server [ERecv toy_peer d, ERecv toy_peer d] = Some (events, s) \<and>
     accepted_datagrams events = [d]"
proof -
  obtain d s1 where first: "ep_step toy_derive toy_cipher toy_server (ERecv toy_peer d) =
      Some (Admitted toy_peer d (ReceivedFrame [1, 2, 3]), s1)"
    by (rule toy_delivered)
  obtain events s where run: "ep_run toy_derive toy_cipher toy_server [ERecv toy_peer d, ERecv toy_peer d] = Some (events, s)"
    using ep_run_total [OF toy_cipher_law run_ok_start [OF toy_cid_length], folded toy_server_def] unfolding toy_server_def by blast
  then obtain ev s2 where ev: "events = [Admitted toy_peer d (ReceivedFrame [1, 2, 3]), ev]"
    "ep_step toy_derive toy_cipher s1 (ERecv toy_peer d) = Some (ev, s2)"
    by (auto simp: first simp del: ep_step.simps split: option.splits)
  from ev(2) have same: "\<forall>a b r. ev = Admitted a b r \<longrightarrow> b = d"
    by (cases "fst (the (ep_recv toy_derive toy_cipher (rn_endpoint s1) toy_peer (rn_clock s1) d))") auto
  from endpoint_accepts_once [OF toy_cipher_law toy_cid_length run [unfolded toy_server_def]] obtain hs where
    "map header_decode (accepted_datagrams events) = map Inr hs" "distinct (map hd_number hs)" by blast
  then have "accepted_datagrams events = [d]" using ev(1) same by (cases ev) (auto simp: Cons_eq_map_conv)
  with run show ?thesis by blast
qed

theorem endpoint_amplification_bound_witness:
  "\<exists>d. 0 < ep_heard_from toy_derive toy_cipher toy_peer toy_server [ERecv toy_peer d, ESend [4, 5]] \<and>
     ep_unproven_sent toy_derive toy_cipher toy_peer toy_server [ERecv toy_peer d, ESend [4, 5]] \<le>
     AMPLIFICATION_LIMIT * ep_heard_from toy_derive toy_cipher toy_peer toy_server [ERecv toy_peer d, ESend [4, 5]]"
proof -
  obtain d s1 where first: "ep_step toy_derive toy_cipher toy_server (ERecv toy_peer d) =
      Some (Admitted toy_peer d (ReceivedFrame [1, 2, 3]), s1)" "d \<noteq> []"
    by (rule toy_delivered)
  have "0 < ep_heard_from toy_derive toy_cipher toy_peer toy_server [ERecv toy_peer d, ESend [4, 5]]"
    using first(2) by (simp only: ep_heard_from.simps first(1) option.case prod.case ep_event.case) simp
  moreover have "ep_unproven_sent toy_derive toy_cipher toy_peer toy_server [ERecv toy_peer d, ESend [4, 5]] \<le>
     AMPLIFICATION_LIMIT * ep_heard_from toy_derive toy_cipher toy_peer toy_server [ERecv toy_peer d, ESend [4, 5]]"
    unfolding toy_server_def by (rule endpoint_amplification_bound [where peer = toy_peer]) (simp_all add: toy_cipher_law)
  ultimately show ?thesis by blast
qed

end
