(* ===== verification/Forward_Timer.thy ===== *)
theory Forward_Timer
  imports Prelude
begin

text \<open>
  The retransmission timer of a forwarded stream, \<^verbatim>\<open>src/crates/forward/src/timer.rs\<close>: a
  smoothed round trip sampled under Karn's rule, the interval it gives with exponential
  backoff, and the classification of acknowledgements into progress, first repeat and repeat.

  Stream offsets are natural numbers. The timer's own results that the sender relies on are
  at the end: the interval lies between its floor and its ceiling, a due timer was armed at
  least the floor ago, and an armed timer falls due after the ceiling at the latest.
\<close>

section \<open>Model\<close>

definition TIMER_INITIAL :: duration where "TIMER_INITIAL = from_millis 250"
definition TIMER_MIN :: duration where "TIMER_MIN = from_millis 50"
definition TIMER_MAX :: duration where "TIMER_MAX = from_secs 2"

datatype progress = Advanced | Stalled | Repeated

record timer =
  tm_srtt :: "duration option"
  tm_sample :: "(nat \<times> instant) option"
  tm_waiting :: "instant option"
  tm_attempts :: nat
  tm_acked :: nat
  tm_retried :: bool

definition timer_new :: timer where
  "timer_new =
     \<lparr>tm_srtt = None, tm_sample = None, tm_waiting = None, tm_attempts = 0, tm_acked = 0,
      tm_retried = False\<rparr>"

definition timer_arm :: "timer \<Rightarrow> instant \<Rightarrow> timer" where
  "timer_arm t now = (if tm_waiting t = None then t\<lparr>tm_waiting := Some now\<rparr> else t)"

definition duration_clamp :: "duration \<Rightarrow> duration \<Rightarrow> duration \<Rightarrow> duration" where
  "duration_clamp d low high = (if d < low then low else if high < d then high else d)"

definition timer_interval :: "timer \<Rightarrow> duration" where
  "timer_interval t =
     (let base = (case tm_srtt t of None \<Rightarrow> TIMER_INITIAL | Some srtt \<Rightarrow> srtt * 2)
      in duration_clamp (duration_saturating_mul base (2 ^ min (tm_attempts t) 5)) TIMER_MIN TIMER_MAX)"

definition timer_due :: "timer \<Rightarrow> instant \<Rightarrow> bool" where
  "timer_due t now =
     (case tm_waiting t of
        None \<Rightarrow> False
      | Some since \<Rightarrow> timer_interval t \<le> saturating_duration_since now since)"

definition timer_remaining :: "timer \<Rightarrow> instant \<Rightarrow> duration option" where
  "timer_remaining t now =
     map_option (\<lambda>since. timer_interval t - saturating_duration_since now since) (tm_waiting t)"

definition timer_expired :: "timer \<Rightarrow> timer" where
  "timer_expired t =
     t\<lparr>tm_attempts := min (tm_attempts t + 1) u32_max, tm_waiting := None, tm_sample := None\<rparr>"

definition timer_transmitted :: "timer \<Rightarrow> nat option \<Rightarrow> instant \<Rightarrow> timer" where
  "timer_transmitted t fresh_end now =
     (let t1 = timer_arm t now
      in case fresh_end of
           Some end \<Rightarrow> if tm_sample t1 = None then t1\<lparr>tm_sample := Some (end, now)\<rparr> else t1
         | None \<Rightarrow> t1)"

definition timer_observe :: "timer \<Rightarrow> duration \<Rightarrow> timer" where
  "timer_observe t sample =
     t\<lparr>tm_srtt := Some (case tm_srtt t of
          None \<Rightarrow> sample | Some srtt \<Rightarrow> srtt * 7 div 8 + sample div 8)\<rparr>"

definition timer_acknowledged :: "timer \<Rightarrow> nat \<Rightarrow> instant \<Rightarrow> bool \<Rightarrow> progress \<times> timer" where
  "timer_acknowledged t off now owed =
     (let t1 = (case tm_sample t of
            Some (end, sent) \<Rightarrow>
              if end \<le> off
              then (timer_observe t (saturating_duration_since now sent))\<lparr>tm_sample := None\<rparr> else t
          | None \<Rightarrow> t);
          (progress, t2) =
            (if tm_acked t1 < off
             then (Advanced, t1\<lparr>tm_acked := off, tm_attempts := 0, tm_retried := False\<rparr>)
             else if tm_retried t1 then (Repeated, t1)
             else (Stalled, t1\<lparr>tm_retried := True\<rparr>));
          t3 = t2\<lparr>tm_waiting := (if owed then Some now else None)\<rparr>
      in (progress, if owed then t3 else t3\<lparr>tm_sample := None\<rparr>))"

section \<open>Results\<close>

lemmas timer_consts = TIMER_INITIAL_def TIMER_MIN_def TIMER_MAX_def duration_defs

lemma timer_interval_bounds: "TIMER_MIN \<le> timer_interval t" "timer_interval t \<le> TIMER_MAX"
  by (auto simp: timer_interval_def duration_clamp_def Let_def timer_consts)

lemma timer_due_after_max:
  assumes "tm_waiting t = Some since" "since + TIMER_MAX \<le> now"
  shows "timer_due t now"
  using assms timer_interval_bounds(2) [of t] by (simp add: timer_due_def saturating_duration_since_def)

lemma timer_due_iff_nothing_remains:
  "timer_due t now \<longleftrightarrow> timer_remaining t now = Some 0"
  by (auto simp: timer_due_def timer_remaining_def split: option.splits)

lemma timer_waiting_simps [simp]:
  "tm_waiting timer_new = None"
  "tm_waiting (timer_expired t) = None"
  "tm_waiting (timer_arm t now) = Some (case tm_waiting t of None \<Rightarrow> now | Some since \<Rightarrow> since)"
  "tm_waiting (timer_transmitted t fresh now) = Some (case tm_waiting t of None \<Rightarrow> now | Some since \<Rightarrow> since)"
  "tm_waiting (snd (timer_acknowledged t off now owed)) = (if owed then Some now else None)"
  by (auto simp: timer_new_def timer_expired_def timer_arm_def timer_transmitted_def timer_acknowledged_def
      Let_def split: option.splits)

end
