(* ===== verification/Sack.thy ===== *)
theory Sack
  imports Prelude
begin

text \<open>
  Selective acknowledgement runs, \<^verbatim>\<open>SackRun\<close> and \<^verbatim>\<open>SackRuns\<close> of
  \<^verbatim>\<open>src/crates/proto/src/lib.rs\<close>: a list of at most 32 pairs of a non-zero gap and a non-zero
  length, each measured from the end of the one before, and the absolute ranges it stands for.
\<close>

section \<open>Model\<close>

definition MAX_FORWARD_CHUNK :: nat where "MAX_FORWARD_CHUNK = 32 * 1024"
definition MAX_ACK_RUNS :: nat where "MAX_ACK_RUNS = 32"

record sack_run =
  sr_gap :: nat
  sr_len :: nat

type_synonym sack_runs = "sack_run list"

definition sack_runs_new :: "sack_run list \<Rightarrow> sack_runs option" where
  "sack_runs_new runs = (if length runs \<le> MAX_ACK_RUNS then Some runs else None)"

definition sack_runs_from_slice :: "sack_run list \<Rightarrow> sack_runs option" where
  "sack_runs_from_slice runs = (if length runs \<le> MAX_ACK_RUNS then Some runs else None)"

fun sack_absolute :: "sack_runs \<Rightarrow> nat \<Rightarrow> (nat \<times> nat) list" where
  "sack_absolute [] cursor = []"
| "sack_absolute (run # runs) cursor =
     (let start = u64_saturating_add cursor (sr_gap run);
          end = u64_saturating_add start (sr_len run)
      in (start, end) # sack_absolute runs end)"

text \<open>\<^verbatim>\<open>NonZeroU32\<close>: what the type of a run's fields guarantees.\<close>

definition sack_run_typed :: "sack_run \<Rightarrow> bool" where
  "sack_run_typed run \<longleftrightarrow> 0 < sr_gap run \<and> sr_gap run \<le> u32_max \<and> 0 < sr_len run \<and> sr_len run \<le> u32_max"

section \<open>Results\<close>

text \<open>Where the last run ends: the cursor the next gap is measured from.\<close>

fun sack_end :: "sack_runs \<Rightarrow> nat \<Rightarrow> nat" where
  "sack_end [] cursor = cursor"
| "sack_end (run # runs) cursor =
     sack_end runs (u64_saturating_add (u64_saturating_add cursor (sr_gap run)) (sr_len run))"

lemma sack_absolute_append:
  "sack_absolute (xs @ ys) cursor = sack_absolute xs cursor @ sack_absolute ys (sack_end xs cursor)"
  by (induction xs arbitrary: cursor) (auto simp: Let_def)

lemma sack_end_append: "sack_end (xs @ ys) cursor = sack_end ys (sack_end xs cursor)"
  by (induction xs arbitrary: cursor) auto

text \<open>Ordered and disjoint by construction, as the type's comment says, short of saturation.\<close>

lemma sack_absolute_ascending:
  assumes "list_all sack_run_typed runs" "sack_end runs cursor < u64_max"
  shows "sorted_wrt (\<lambda>(a, b) (c, d). b < c) ((cursor, cursor) # sack_absolute runs cursor) \<and>
    list_all (\<lambda>(a, b). a < b \<and> b \<le> sack_end runs cursor) (sack_absolute runs cursor) \<and> cursor \<le> sack_end runs cursor"
  using assms
proof (induction runs arbitrary: cursor)
  case (Cons run runs)
  let ?a = "u64_saturating_add cursor (sr_gap run)"
  let ?b = "u64_saturating_add ?a (sr_len run)"
  have IH: "sorted_wrt (\<lambda>(a, b) (c, d). b < c) ((?b, ?b) # sack_absolute runs ?b)"
    "list_all (\<lambda>(a, b). a < b \<and> b \<le> sack_end runs ?b) (sack_absolute runs ?b)" "?b \<le> sack_end runs ?b"
    using Cons.IH [of ?b] Cons.prems by simp_all
  have typed: "0 < sr_gap run" "0 < sr_len run" using Cons.prems by (simp_all add: sack_run_typed_def)
  have "?b < u64_max" using IH(3) Cons.prems(2) by simp
  then have "cursor < ?a" "?a < ?b" using typed by (auto simp: u64_saturating_add_def min_def split: if_splits)
  with IH show ?case by (auto simp: Let_def)
qed simp

end
