(* ===== verification/Forward_Send.thy ===== *)
theory Forward_Send
  imports Forward_Timer Sack
begin

text \<open>
  The sending half of a forwarded stream, \<^verbatim>\<open>src/crates/forward/src/send.rs\<close>: the
  retransmission buffer with its three offsets, what is owed next (a repair, fresh bytes, the
  end, or a probe of a closed window), and the effect of acknowledgements.

  An operation that would panic (an index out of range or a subtraction below zero) is
  \<open>None\<close>. How a \<^verbatim>\<open>VecDeque\<close> splits its contents into two slices is left to the library
  that implements it: the point where the buffer wraps is the argument \<open>wrap\<close> of \<open>sender_fill\<close>.

  The invariant \<open>sender_ok\<close> relates a sender to the bytes it was ever given, and holds
  whatever the peer acknowledges.
\<close>

section \<open>Model\<close>

definition FORWARD_WINDOW :: nat where "FORWARD_WINDOW = 256 * 1024"
definition MAX_HELD_SEGMENTS :: nat where "MAX_HELD_SEGMENTS = 256"
definition CHUNK_WINDOW :: nat where "CHUNK_WINDOW = 32 * 1024"
definition INITIAL_WINDOW :: nat where "INITIAL_WINDOW = CHUNK_WINDOW"

lemmas forward_consts = FORWARD_WINDOW_def MAX_HELD_SEGMENTS_def CHUNK_WINDOW_def INITIAL_WINDOW_def
  MAX_FORWARD_CHUNK_def MAX_ACK_RUNS_def

datatype contradiction = Contradiction

record segment =
  seg_off :: nat
  seg_fin :: bool
  seg_len :: nat

record sender =
  sd_base :: nat
  sd_buffer :: bytes
  sd_next :: nat
  sd_cursor :: nat
  sd_fin :: "nat option"
  sd_fin_sent :: bool
  sd_fin_acked :: bool
  sd_window :: nat
  sd_held :: "(nat \<times> nat) list"
  sd_timer :: timer

datatype owed = OweRepair nat nat | OweFresh nat nat | OweEnd nat | OweProbe nat | OweNothing

definition sender_new :: sender where
  "sender_new =
     \<lparr>sd_base = 0, sd_buffer = [], sd_next = 0, sd_cursor = 0, sd_fin = None, sd_fin_sent = False,
      sd_fin_acked = False, sd_window = INITIAL_WINDOW, sd_held = [], sd_timer = timer_new\<rparr>"

definition sender_end :: "sender \<Rightarrow> nat" where
  "sender_end s = sd_base s + length (sd_buffer s)"

definition sender_writable :: "sender \<Rightarrow> nat option" where
  "sender_writable s =
     (if sd_fin s \<noteq> None then Some 0
      else if FORWARD_WINDOW < length (sd_buffer s) then None
      else Some (FORWARD_WINDOW - length (sd_buffer s)))"

definition sender_write :: "sender \<Rightarrow> bytes \<Rightarrow> instant \<Rightarrow> (nat \<times> sender) option" where
  "sender_write s bytes now =
     (case sender_writable s of
        None \<Rightarrow> None
      | Some room \<Rightarrow>
          let taken = min room (length bytes);
              s1 = s\<lparr>sd_buffer := sd_buffer s @ take taken bytes\<rparr>
          in Some (taken, if 0 < taken then s1\<lparr>sd_timer := timer_arm (sd_timer s1) now\<rparr> else s1))"

definition sender_finish :: "sender \<Rightarrow> sender" where
  "sender_finish s = (if sd_fin s = None then s\<lparr>sd_fin := Some (sender_end s)\<rparr> else s)"

definition sender_unheld :: "sender \<Rightarrow> nat \<Rightarrow> nat" where
  "sender_unheld s off =
     foldl (\<lambda>off (start, end). if start \<le> off \<and> off < end then end else off) off (sd_held s)"

definition sender_next_held :: "sender \<Rightarrow> nat \<Rightarrow> nat option" where
  "sender_next_held s off = find (\<lambda>start. off < start) (map fst (sd_held s))"

definition sender_repair :: "sender \<Rightarrow> nat \<Rightarrow> owed option" where
  "sender_repair s budget =
     (if sd_cursor s < sd_next s then
        let off = sender_unheld s (sd_cursor s)
        in if off < sd_next s then
             let stop = min (case sender_next_held s off of Some start \<Rightarrow> start | None \<Rightarrow> sd_next s) (sd_next s)
             in Some (OweRepair off (min (stop - off) budget))
           else None
      else None)"

definition sender_owed :: "sender \<Rightarrow> bool \<Rightarrow> nat \<Rightarrow> owed" where
  "sender_owed s woken budget =
     (let end = sender_end s
      in case sender_repair s budget of
           Some owed \<Rightarrow> owed
         | None \<Rightarrow>
             let granted = u64_saturating_add (sd_base s) (sd_window s);
                 limit = min end granted
             in if sd_next s < limit then OweFresh (sd_next s) (min (limit - sd_next s) budget)
                else if sd_fin s = Some end \<and> sd_next s = end \<and> \<not> sd_fin_sent s \<and> \<not> sd_fin_acked s
                  then OweEnd end
                else if woken \<and> sd_next s = sd_base s \<and> sd_next s < end then OweProbe (sd_base s)
                else OweNothing)"

definition sender_fill :: "nat \<Rightarrow> sender \<Rightarrow> nat \<Rightarrow> nat \<Rightarrow> (segment option \<times> bytes) option" where
  "sender_fill wrap s off len =
     (if off < sd_base s then None
      else
        let start = off - sd_base s;
            front = take wrap (sd_buffer s);
            back = drop wrap (sd_buffer s);
            piece =
              (if start < length front then Some (take (min len (length front - start)) (drop start front))
               else if length back < start - length front then None
               else Some (take (min len (length back - (start - length front))) (drop (start - length front) back)))
        in case piece of
             None \<Rightarrow> None
           | Some piece \<Rightarrow>
               let taken = length piece;
                   fin = (sd_fin s = Some (off + taken))
               in Some (if 0 < taken \<or> fin then Some \<lparr>seg_off = off, seg_fin = fin, seg_len = taken\<rparr> else None,
                        piece))"

definition sender_poll_transmit ::
  "nat \<Rightarrow> sender \<Rightarrow> instant \<Rightarrow> nat \<Rightarrow> ((segment option \<times> bytes) \<times> sender) option" where
  "sender_poll_transmit wrap s now budget0 =
     (let budget = min budget0 MAX_FORWARD_CHUNK
      in if budget = 0 then Some ((None, []), s)
         else
           let woken = timer_due (sd_timer s) now;
               s1 = (if woken
                     then s\<lparr>sd_cursor := sd_base s, sd_fin_sent := False, sd_timer := timer_expired (sd_timer s)\<rparr>
                     else s)
           in map_option (\<lambda>filled. (filled, s1))
                (case sender_owed s1 woken budget of
                   OweRepair off len \<Rightarrow> sender_fill wrap s1 off len
                 | OweFresh off len \<Rightarrow> sender_fill wrap s1 off len
                 | OweEnd off \<Rightarrow> sender_fill wrap s1 off 0
                 | OweProbe off \<Rightarrow> sender_fill wrap s1 off 1
                 | OweNothing \<Rightarrow> Some (None, [])))"

definition sender_transmitted :: "sender \<Rightarrow> segment \<Rightarrow> instant \<Rightarrow> sender" where
  "sender_transmitted s segment now =
     (let end = seg_off segment + seg_len segment;
          fresh = (if sd_next s < end then Some end else None)
      in s\<lparr>sd_next := max (sd_next s) end, sd_cursor := max (sd_cursor s) end,
           sd_fin_sent := sd_fin_sent s \<or> seg_fin segment,
           sd_timer := timer_transmitted (sd_timer s) fresh now\<rparr>)"

definition sender_awaiting_ack :: "sender \<Rightarrow> bool" where
  "sender_awaiting_ack s \<longleftrightarrow> sd_base s < sender_end s \<or> sd_fin s \<noteq> None \<and> \<not> sd_fin_acked s"

text \<open>The first half of \<^verbatim>\<open>on_ack\<close>: what the cumulative offset releases.\<close>

definition sender_advance :: "sender \<Rightarrow> nat \<Rightarrow> sender" where
  "sender_advance s off =
     (if sd_base s < off then
        let advance = min off (sender_end s) - sd_base s;
            base = sd_base s + advance
        in s\<lparr>sd_buffer := drop advance (sd_buffer s), sd_base := base, sd_next := max (sd_next s) base,
             sd_cursor := max (sd_cursor s) base,
             sd_fin_acked := sd_fin_acked s \<or> (case sd_fin s of Some fin \<Rightarrow> fin < off | None \<Rightarrow> False)\<rparr>
      else s)"

definition sender_on_ack ::
  "sender \<Rightarrow> nat \<Rightarrow> nat \<Rightarrow> sack_runs \<Rightarrow> instant \<Rightarrow> (contradiction + unit) \<times> sender" where
  "sender_on_ack s off window held now =
     (if off < sd_base s then (Inr (), s)
      else
        let s1 = sender_advance s off;
            runs = sack_absolute held off
        in if list_ex (\<lambda>(start, run_end). sd_next s1 < run_end) runs
           then (Inl Contradiction, s1\<lparr>sd_held := []\<rparr>)
           else
             let s2 = s1\<lparr>sd_held := runs, sd_window := window\<rparr>;
                 awaiting = sender_awaiting_ack s2;
                 (progress, timer) = timer_acknowledged (sd_timer s2) off now awaiting;
                 s3 = s2\<lparr>sd_timer := timer\<rparr>
             in (Inr (), if progress = Stalled \<and> 0 < window \<and> awaiting
                         then s3\<lparr>sd_cursor := sd_base s3, sd_fin_sent := False\<rparr> else s3))"

definition sender_is_done :: "sender \<Rightarrow> bool" where
  "sender_is_done s \<longleftrightarrow> sd_fin s \<noteq> None \<and> sd_fin_acked s"

definition sender_deadline :: "sender \<Rightarrow> instant \<Rightarrow> duration option" where
  "sender_deadline s now = timer_remaining (sd_timer s) now"

section \<open>The invariant\<close>

text \<open>\<open>S\<close> is every byte the sender was ever given.\<close>

definition sender_ok :: "bytes \<Rightarrow> sender \<Rightarrow> bool" where
  "sender_ok S s \<longleftrightarrow>
     sd_buffer s = drop (sd_base s) S \<and> sd_base s \<le> sd_cursor s \<and> sd_cursor s \<le> sd_next s \<and>
     sd_next s \<le> length S \<and> length S - sd_base s \<le> FORWARD_WINDOW \<and>
     (sd_fin s \<noteq> None \<longrightarrow> sd_fin s = Some (length S)) \<and>
     (sd_fin s = None \<longrightarrow> \<not> sd_fin_sent s \<and> \<not> sd_fin_acked s) \<and>
     (sd_fin_acked s \<longrightarrow> sd_base s = length S)"

text \<open>A segment that says of the stream what is true of it.\<close>

definition segment_ok :: "bytes \<Rightarrow> nat option \<Rightarrow> segment \<Rightarrow> bytes \<Rightarrow> bool" where
  "segment_ok S fin g b \<longleftrightarrow>
     length b = seg_len g \<and> seg_off g + seg_len g \<le> length S \<and>
     b = take (seg_len g) (drop (seg_off g) S) \<and>
     (seg_fin g \<longleftrightarrow> fin = Some (seg_off g + seg_len g)) \<and> (0 < seg_len g \<or> seg_fin g)"

lemma sender_ok_end: "sender_ok S s \<Longrightarrow> sender_end s = length S"
  by (simp add: sender_ok_def sender_end_def)

lemma sender_ok_new [simp]: "sender_ok [] sender_new"
  by (simp add: sender_ok_def sender_new_def sender_end_def forward_consts)

lemma sender_ok_append:
  assumes "sender_ok S s" "length (sd_buffer s) + length xs \<le> FORWARD_WINDOW" "sd_fin s \<noteq> None \<Longrightarrow> xs = []"
  shows "sender_ok (S @ xs) (s\<lparr>sd_buffer := sd_buffer s @ xs\<rparr>)"
proof (cases "sd_fin s")
  case None
  with assms show ?thesis by (auto simp: sender_ok_def)
next
  case (Some f)
  with assms(3) have "xs = []" by simp
  with assms(1) show ?thesis by simp
qed

lemma sender_ok_timer [simp]: "sender_ok S (s\<lparr>sd_timer := t\<rparr>) = sender_ok S s"
  by (simp add: sender_ok_def)

lemma sender_write_spec:
  assumes ok: "sender_ok S s"
  obtains k s' where "sender_write s bytes now = Some (k, s')" "k \<le> length bytes"
    "sender_ok (S @ take k bytes) s'" "sd_base s' = sd_base s" "sd_next s' = sd_next s" "sd_held s' = sd_held s"
    "sd_fin s' = sd_fin s" "sd_fin_acked s' = sd_fin_acked s" "sd_fin_sent s' = sd_fin_sent s"
    "sd_fin s \<noteq> None \<Longrightarrow> k = 0"
    "tm_waiting (sd_timer s') = (if 0 < k then Some (case tm_waiting (sd_timer s) of None \<Rightarrow> now | Some since \<Rightarrow> since)
                                 else tm_waiting (sd_timer s))"
proof -
  define room where "room = (if sd_fin s \<noteq> None then 0 else FORWARD_WINDOW - length (sd_buffer s))"
  define k where "k = min room (length bytes)"
  define s' where "s' = (let s1 = s\<lparr>sd_buffer := sd_buffer s @ take k bytes\<rparr>
    in if 0 < k then s1\<lparr>sd_timer := timer_arm (sd_timer s1) now\<rparr> else s1)"
  have small: "length (sd_buffer s) \<le> FORWARD_WINDOW" using ok by (simp add: sender_ok_def)
  have k: "k \<le> length bytes" "k \<le> room" by (simp_all add: k_def)
  have room: "sd_fin s \<noteq> None \<Longrightarrow> room = 0" "length (sd_buffer s) + room \<le> FORWARD_WINDOW"
    using small by (simp_all add: room_def)
  have "sender_writable s = Some room" using small by (simp add: sender_writable_def room_def)
  then have written: "sender_write s bytes now = Some (k, s')"
    by (simp add: sender_write_def k_def s'_def Let_def)
  have "sender_ok (S @ take k bytes) (s\<lparr>sd_buffer := sd_buffer s @ take k bytes\<rparr>)"
    using k room by (intro sender_ok_append [OF ok]) auto
  then have "sender_ok (S @ take k bytes) s'" using ok by (auto simp: s'_def Let_def)
  with written k room show thesis
    by (intro that [of k s']) (auto simp: s'_def Let_def)
qed

lemma sender_finish_ok:
  "sender_ok S s \<Longrightarrow> sender_ok S (sender_finish s)"
  by (auto simp: sender_finish_def sender_ok_end sender_ok_def sender_end_def)

lemma sender_finish_fin: "sender_ok S s \<Longrightarrow> sd_fin (sender_finish s) = Some (length S)"
  by (auto simp: sender_finish_def sender_ok_end) (auto simp: sender_ok_def)

section \<open>Filling and transmitting\<close>

text \<open>A slice of one of the two halves is a prefix of the same slice of the whole.\<close>

lemma split_slice:
  fixes wrap start len :: nat and buf :: bytes
  defines "front \<equiv> take wrap buf" and "back \<equiv> drop wrap buf"
  assumes "start \<le> length buf"
  obtains b where
    "(if start < length front then Some (take (min len (length front - start)) (drop start front))
      else if length back < start - length front then None
      else Some (take (min len (length back - (start - length front))) (drop (start - length front) back))) = Some b"
    "b = take (length b) (drop start buf)" "length b \<le> len" "start + length b \<le> length buf"
    "0 < len \<Longrightarrow> start < length buf \<Longrightarrow> b \<noteq> []"
proof (cases "start < length front")
  case True
  define n where "n = min len (length front - start)"
  have n: "n \<le> len" "n \<le> length front - start" "n \<le> wrap - start" "0 < len \<Longrightarrow> 0 < n"
    using True by (auto simp: n_def front_def)
  have "take n (drop start front) = take n (drop start buf)"
    using n(3) by (simp add: front_def drop_take min_absorb1)
  moreover have "length front \<le> length buf" by (simp add: front_def)
  moreover have "length (take n (drop start front)) = n" using n(2) by simp
  ultimately show thesis using True n(1,2,4)
    by (intro that [of "take n (drop start front)"]) (auto simp: n_def [symmetric])
next
  case False
  let ?start = "start - length front"
  define n where "n = min len (length back - ?start)"
  have len: "length buf = length front + length back" by (simp add: front_def back_def)
  have n: "n \<le> len" "n \<le> length back - ?start" "0 < len \<Longrightarrow> start < length buf \<Longrightarrow> 0 < n"
    using False len by (auto simp: n_def)
  have "length front < length buf \<Longrightarrow> length front = wrap" by (simp add: front_def)
  then have drop: "drop ?start back = drop start buf"
    using False assms(3) by (cases "length front < length buf") (auto simp: back_def front_def)
  have "length (take n (drop ?start back)) = n" using n(2) by simp
  moreover have "\<not> length back < ?start" using len assms(3) by simp
  ultimately show thesis using False len assms(3) n drop
    by (intro that [of "take n (drop ?start back)"]) (simp only: if_False n_def [symmetric], auto)
qed

lemma sender_fill_spec:
  assumes ok: "sender_ok S s" and off: "sd_base s \<le> off" "off \<le> sender_end s"
  obtains b where "sender_fill wrap s off len =
      Some (if 0 < length b \<or> sd_fin s = Some (off + length b)
            then Some \<lparr>seg_off = off, seg_fin = (sd_fin s = Some (off + length b)), seg_len = length b\<rparr> else None, b)"
    "b = take (length b) (drop off S)" "length b \<le> len" "off + length b \<le> length S"
    "0 < len \<Longrightarrow> off < sender_end s \<Longrightarrow> b \<noteq> []"
proof -
  have "off - sd_base s \<le> length (sd_buffer s)" using off by (simp add: sender_end_def)
  from split_slice [OF this, of wrap len] obtain b where b:
    "(if off - sd_base s < length (take wrap (sd_buffer s))
      then Some (take (min len (length (take wrap (sd_buffer s)) - (off - sd_base s))) (drop (off - sd_base s) (take wrap (sd_buffer s))))
      else if length (drop wrap (sd_buffer s)) < off - sd_base s - length (take wrap (sd_buffer s)) then None
      else Some (take (min len (length (drop wrap (sd_buffer s)) - (off - sd_base s - length (take wrap (sd_buffer s)))))
        (drop (off - sd_base s - length (take wrap (sd_buffer s))) (drop wrap (sd_buffer s))))) = Some b"
    "b = take (length b) (drop (off - sd_base s) (sd_buffer s))" "length b \<le> len"
    "off - sd_base s + length b \<le> length (sd_buffer s)"
    "0 < len \<Longrightarrow> off - sd_base s < length (sd_buffer s) \<Longrightarrow> b \<noteq> []" by blast
  have fill: "sender_fill wrap s off len =
      Some (if 0 < length b \<or> sd_fin s = Some (off + length b)
            then Some \<lparr>seg_off = off, seg_fin = (sd_fin s = Some (off + length b)), seg_len = length b\<rparr> else None, b)"
    using off(1) by (simp only: sender_fill_def Let_def b(1) option.case not_less [symmetric] if_False)
  have "drop (off - sd_base s) (sd_buffer s) = drop off S" "length S = sender_end s"
    using ok off by (simp_all add: sender_ok_end) (simp add: sender_ok_def)
  with fill b off show thesis by (intro that [of b]) (auto simp: sender_end_def)
qed

lemma unheld_ge: "off \<le> sender_unheld s off"
proof -
  have "off \<le> foldl (\<lambda>off (start, end). if start \<le> off \<and> off < end then end else off) off runs" for runs :: "(nat \<times> nat) list"
  proof (induction runs arbitrary: off)
    case (Cons r runs)
    obtain a b where r: "r = (a, b)" by (cases r)
    show ?case using Cons.IH [of b] Cons.IH [of off] by (auto simp: r)
  qed simp
  then show ?thesis by (simp add: sender_unheld_def)
qed

lemma next_held_gt: "sender_next_held s off = Some start \<Longrightarrow> off < start"
  by (auto simp: sender_next_held_def find_Some_iff)

fun owed_off :: "owed \<Rightarrow> nat" where
  "owed_off (OweRepair off len) = off"
| "owed_off (OweFresh off len) = off"
| "owed_off (OweEnd off) = off"
| "owed_off (OweProbe off) = off"
| "owed_off OweNothing = 0"

text \<open>What is owed lies in the buffer, and is never nothing to say.\<close>

lemma sender_owed_range:
  assumes ok: "sender_ok S s" and budget: "0 < budget"
  shows "case sender_owed s woken budget of
      OweRepair off len \<Rightarrow> sd_base s \<le> off \<and> off < sd_next s \<and> 0 < len \<and> len \<le> budget
    | OweFresh off len \<Rightarrow> off = sd_next s \<and> off < sender_end s \<and> 0 < len \<and> len \<le> budget
    | OweEnd off \<Rightarrow> off = sender_end s \<and> sd_fin s = Some off
    | OweProbe off \<Rightarrow> off = sd_base s \<and> off < sender_end s \<and> sd_next s = sd_base s
    | OweNothing \<Rightarrow> True"
proof (cases "sender_repair s budget")
  case None
  then show ?thesis using budget by (auto simp: sender_owed_def Let_def)
next
  case (Some r)
  let ?off = "sender_unheld s (sd_cursor s)"
  let ?stop = "min (case sender_next_held s ?off of Some start \<Rightarrow> start | None \<Rightarrow> sd_next s) (sd_next s)"
  from Some have r: "r = OweRepair ?off (min (?stop - ?off) budget)" "?off < sd_next s"
    by (auto simp: sender_repair_def Let_def split: if_splits)
  have "?off < ?stop" using r(2) next_held_gt [of s ?off] by (auto split: option.splits)
  moreover have "sd_base s \<le> ?off"
    using unheld_ge [of "sd_cursor s" s] ok by (simp add: sender_ok_def)
  ultimately show ?thesis using Some r budget by (simp add: sender_owed_def Let_def)
qed

text \<open>The state a poll leaves behind, whatever it hands out.\<close>

definition sender_woken :: "sender \<Rightarrow> instant \<Rightarrow> sender" where
  "sender_woken s now =
     (if timer_due (sd_timer s) now
      then s\<lparr>sd_cursor := sd_base s, sd_fin_sent := False, sd_timer := timer_expired (sd_timer s)\<rparr> else s)"

lemma sender_woken_frame [simp]:
  "sd_base (sender_woken s now) = sd_base s" "sd_buffer (sender_woken s now) = sd_buffer s"
  "sd_next (sender_woken s now) = sd_next s" "sd_fin (sender_woken s now) = sd_fin s"
  "sd_fin_acked (sender_woken s now) = sd_fin_acked s" "sd_window (sender_woken s now) = sd_window s"
  "sd_held (sender_woken s now) = sd_held s" "sender_end (sender_woken s now) = sender_end s"
  by (simp_all add: sender_woken_def sender_end_def)

lemma sender_ok_woken: "sender_ok S s \<Longrightarrow> sender_ok S (sender_woken s now)"
  by (auto simp: sender_ok_def sender_woken_def)

lemma sender_poll_cases:
  fixes s :: sender and now :: instant and budget wrap :: nat
  assumes ok: "sender_ok S s" and budget: "0 < budget"
  defines "s1 \<equiv> sender_woken s now"
  defines "due \<equiv> timer_due (sd_timer s) now"
  defines "room \<equiv> min budget MAX_FORWARD_CHUNK"
  obtains "sender_owed s1 due room = OweNothing" "sender_poll_transmit wrap s now budget = Some ((None, []), s1)"
  | g b where "sender_owed s1 due room \<noteq> OweNothing"
      "sender_poll_transmit wrap s now budget = Some ((Some g, b), s1)" "segment_ok S (sd_fin s) g b"
      "sd_base s \<le> seg_off g" "seg_len g \<le> room"
      "seg_off g = owed_off (sender_owed s1 due room)"
proof -
  have pos: "0 < room" using budget by (simp add: room_def forward_consts)
  have ok1: "sender_ok S s1" using ok by (simp add: s1_def sender_ok_woken)
  have "end": "sender_end s1 = length S" using ok1 by (rule sender_ok_end)
  have order: "sd_base s1 \<le> sd_next s1" "sd_next s1 \<le> length S" using ok1 by (simp_all add: sender_ok_def)
  have s1: "s1 = (if due then s\<lparr>sd_cursor := sd_base s, sd_fin_sent := False,
      sd_timer := timer_expired (sd_timer s)\<rparr> else s)" by (simp add: s1_def due_def sender_woken_def)
  have poll: "sender_poll_transmit wrap s now budget = map_option (\<lambda>filled. (filled, s1))
      (case sender_owed s1 due room of
         OweRepair off len \<Rightarrow> sender_fill wrap s1 off len
       | OweFresh off len \<Rightarrow> sender_fill wrap s1 off len
       | OweEnd off \<Rightarrow> sender_fill wrap s1 off 0
       | OweProbe off \<Rightarrow> sender_fill wrap s1 off 1
       | OweNothing \<Rightarrow> Some (None, []))"
    using pos unfolding sender_poll_transmit_def Let_def room_def [symmetric] due_def [symmetric] s1 [symmetric]
    by simp
  note range = sender_owed_range [OF ok1 pos, of due]
  define off where "off = owed_off (sender_owed s1 due room)"
  define len where "len = (case sender_owed s1 due room of OweRepair off len \<Rightarrow> len | OweFresh off len \<Rightarrow> len
                    | OweEnd off \<Rightarrow> 0 | OweProbe off \<Rightarrow> 1 | OweNothing \<Rightarrow> 0)"
  show thesis
  proof (cases "sender_owed s1 due room = OweNothing")
    case True
    then show thesis using poll that(1) by simp
  next
    case False
    have fill: "sender_poll_transmit wrap s now budget = map_option (\<lambda>filled. (filled, s1)) (sender_fill wrap s1 off len)"
      using poll False by (simp add: off_def len_def split: owed.splits)
    have off: "sd_base s1 \<le> off" "off \<le> sender_end s1" "len \<le> room"
      "0 < len \<and> off < sender_end s1 \<or> len = 0 \<and> sd_fin s1 = Some off"
      using range False order pos by (auto simp: off_def len_def "end" split: owed.splits)
    from sender_fill_spec [OF ok1 off(1,2), of wrap len] obtain b where b:
      "sender_fill wrap s1 off len = Some (if 0 < length b \<or> sd_fin s1 = Some (off + length b)
          then Some \<lparr>seg_off = off, seg_fin = (sd_fin s1 = Some (off + length b)), seg_len = length b\<rparr> else None, b)"
      "b = take (length b) (drop off S)" "length b \<le> len" "off + length b \<le> length S"
      "0 < len \<Longrightarrow> off < sender_end s1 \<Longrightarrow> b \<noteq> []" by blast
    have some: "0 < length b \<or> sd_fin s1 = Some (off + length b)" using b(3,5) off(4) by auto
    let ?g = "\<lparr>seg_off = off, seg_fin = (sd_fin s1 = Some (off + length b)), seg_len = length b\<rparr>"
    have "segment_ok S (sd_fin s) ?g b" using b(2,4) some by (auto simp: segment_ok_def s1_def)
    with False fill b some off show thesis
      by (intro that(2) [of ?g b]) (auto simp: off_def s1_def)
  qed
qed

lemma sender_transmitted_ok:
  assumes "sender_ok S s" "segment_ok S (sd_fin s) g b"
  shows "sender_ok S (sender_transmitted s g now)"
  using assms by (auto simp: sender_ok_def segment_ok_def sender_transmitted_def Let_def)

lemma sender_transmitted_frame [simp]:
  "sd_base (sender_transmitted s g now) = sd_base s" "sd_buffer (sender_transmitted s g now) = sd_buffer s"
  "sd_fin (sender_transmitted s g now) = sd_fin s" "sd_fin_acked (sender_transmitted s g now) = sd_fin_acked s"
  "sd_held (sender_transmitted s g now) = sd_held s" "sd_window (sender_transmitted s g now) = sd_window s"
  "sd_next (sender_transmitted s g now) = max (sd_next s) (seg_off g + seg_len g)"
  by (simp_all add: sender_transmitted_def Let_def)

section \<open>Acknowledgements\<close>

lemma sender_advance_spec:
  assumes "sender_ok S s" "sd_base s \<le> off"
  shows "sender_ok S (sender_advance s off)" "sd_base (sender_advance s off) = min off (length S)"
    "sd_next (sender_advance s off) = max (sd_next s) (min off (length S))"
    "sd_fin (sender_advance s off) = sd_fin s"
    "sd_fin_acked (sender_advance s off) = (sd_fin_acked s \<or> sd_fin s \<noteq> None \<and> length S < off)"
proof -
  have "end": "sender_end s = length S" using assms(1) by (rule sender_ok_end)
  have base: "sd_base s \<le> length S" "sd_base s \<le> sd_next s" using assms(1) by (auto simp: sender_ok_def)
  show "sd_base (sender_advance s off) = min off (length S)"
    "sd_next (sender_advance s off) = max (sd_next s) (min off (length S))"
    "sd_fin (sender_advance s off) = sd_fin s"
    using assms(2) base "end" by (auto simp: sender_advance_def Let_def)
  show acked: "sd_fin_acked (sender_advance s off) = (sd_fin_acked s \<or> sd_fin s \<noteq> None \<and> length S < off)"
    using assms base by (auto simp: sender_advance_def sender_ok_def Let_def split: option.splits)
  show "sender_ok S (sender_advance s off)"
  proof (cases "sd_base s < off")
    case True
    define m where "m = min off (length S)"
    have m: "sd_base s \<le> m" "m \<le> length S" using True base by (auto simp: m_def)
    obtain a where a: "sender_advance s off = s\<lparr>sd_buffer := drop (m - sd_base s) (sd_buffer s), sd_base := m,
        sd_next := max (sd_next s) m, sd_cursor := max (sd_cursor s) m, sd_fin_acked := a\<rparr>"
      using True m(1) by (simp add: sender_advance_def Let_def "end" m_def [symmetric])
    have "a \<Longrightarrow> m = length S \<and> sd_fin s \<noteq> None"
      using acked assms(1) m by (auto simp: a sender_ok_def m_def)
    then show ?thesis using assms(1) m by (auto simp: a sender_ok_def)
  next
    case False
    then show ?thesis using assms by (simp add: sender_advance_def)
  qed
qed

text \<open>What an acknowledgement leaves behind, of the parts a proof about both ends reads.\<close>

lemma sender_on_ack_spec:
  assumes ok: "sender_ok S s" and ack: "sender_on_ack s off window held now = (r, s')"
  shows "sender_ok S s'" "sd_fin s' = sd_fin s" "sd_base s' = max (sd_base s) (min off (length S))"
    "sd_next s' = max (sd_next s) (min off (length S))"
    "sd_fin_acked s' = (sd_fin_acked s \<or> sd_fin s \<noteq> None \<and> length S < off)"
    "r = Inr () \<longleftrightarrow> off < sd_base s \<or> list_all (\<lambda>(a, b). b \<le> sd_next s') (sack_absolute held off)"
    "r = Inr () \<Longrightarrow> sd_held s' = (if off < sd_base s then sd_held s else sack_absolute held off)"
proof -
  have base: "sd_base s \<le> length S" "sd_base s \<le> sd_next s" "sd_fin_acked s \<Longrightarrow> sd_base s = length S"
    using ok by (auto simp: sender_ok_def)
  have "sender_ok S s' \<and> sd_fin s' = sd_fin s \<and> sd_base s' = max (sd_base s) (min off (length S)) \<and>
    sd_next s' = max (sd_next s) (min off (length S)) \<and>
    sd_fin_acked s' = (sd_fin_acked s \<or> sd_fin s \<noteq> None \<and> length S < off) \<and>
    (r = Inr () \<longleftrightarrow> off < sd_base s \<or> list_all (\<lambda>(a, b). b \<le> sd_next s') (sack_absolute held off)) \<and>
    (r = Inr () \<longrightarrow> sd_held s' = (if off < sd_base s then sd_held s else sack_absolute held off))"
  proof (cases "off < sd_base s")
    case True
    then show ?thesis using ack ok base by (auto simp: sender_on_ack_def)
  next
    case False
    then have le: "sd_base s \<le> off" by simp
    define s1 where "s1 = sender_advance s off"
    note adv = sender_advance_spec [OF ok le, folded s1_def]
    have bad: "list_ex (\<lambda>(start, run_end). sd_next s1 < run_end) runs \<longleftrightarrow> \<not> list_all (\<lambda>(a, b). b \<le> sd_next s1) runs" for runs
      by (induction runs) (auto simp: not_le)
    have keeps: "sender_ok S (s1\<lparr>sd_held := h, sd_window := w, sd_timer := t\<rparr>)"
      "sender_ok S (s1\<lparr>sd_held := h\<rparr>)"
      "sender_ok S (s1\<lparr>sd_held := h, sd_window := w, sd_timer := t, sd_cursor := sd_base s1, sd_fin_sent := False\<rparr>)"
      for h w t using adv(1) by (auto simp: sender_ok_def)
    have same: "max (sd_base s) (min off (length S)) = min off (length S)" using le base(1) by simp
    show ?thesis
    proof (cases "list_all (\<lambda>(a, b). b \<le> sd_next s1) (sack_absolute held off)")
      case False
      then have "r = Inl Contradiction" "s' = s1\<lparr>sd_held := []\<rparr>"
        using ack le by (simp_all add: sender_on_ack_def s1_def [symmetric] bad Let_def)
      then show ?thesis using False le keeps(2) adv(2-) same by simp
    next
      case True
      obtain progress t where t: "timer_acknowledged (sd_timer s1) off now
        (sender_awaiting_ack (s1\<lparr>sd_held := sack_absolute held off, sd_window := window\<rparr>)) = (progress, t)" by fastforce
      have "r = Inr ()" "s' = s1\<lparr>sd_held := sack_absolute held off, sd_window := window, sd_timer := t\<rparr> \<or>
          s' = s1\<lparr>sd_held := sack_absolute held off, sd_window := window, sd_timer := t, sd_cursor := sd_base s1,
                  sd_fin_sent := False\<rparr>"
        using ack le True t by (auto simp: sender_on_ack_def s1_def [symmetric] bad Let_def split: if_splits)
      then show ?thesis using True le keeps(1,3) adv(2-) same by (elim disjE) simp_all
    qed
  qed
  then show "sender_ok S s'" "sd_fin s' = sd_fin s" "sd_base s' = max (sd_base s) (min off (length S))"
    "sd_next s' = max (sd_next s) (min off (length S))"
    "sd_fin_acked s' = (sd_fin_acked s \<or> sd_fin s \<noteq> None \<and> length S < off)"
    "r = Inr () \<longleftrightarrow> off < sd_base s \<or> list_all (\<lambda>(a, b). b \<le> sd_next s') (sack_absolute held off)"
    "r = Inr () \<Longrightarrow> sd_held s' = (if off < sd_base s then sd_held s else sack_absolute held off)"
    by blast+
qed

end
