(* ===== verification/Forward_Recv.thy ===== *)
theory Forward_Recv
  imports Forward_Send
begin

text \<open>
  The receiving half of a forwarded stream, \<^verbatim>\<open>src/crates/forward/src/recv.rs\<close>: bytes placed
  in order, segments held past a gap, the end of the stream as a position, and the
  acknowledgements with their runs.

  The ordered map of held segments is an association list kept in ascending order of offset.
  How much memory a \<^verbatim>\<open>Vec\<close> has reserved is not in its contents: the capacity of the buffer
  held at each offset is the argument \<open>capacity\<close> of the operations that recycle buffers. An
  operation that would panic is \<open>None\<close>.

  \<open>receiver_bounded\<close> holds whatever arrives; \<open>receiver_ok\<close> relates a receiver to the stream
  its peer is sending.
\<close>

section \<open>Model\<close>

definition SPARE_HELD :: nat where "SPARE_HELD = 4"
definition SPARE_HELD_BYTES :: nat where "SPARE_HELD_BYTES = MAX_FORWARD_CHUNK div 4"

record fwd_ack =
  fa_off :: nat
  fa_window :: nat
  fa_held :: sack_runs

record receiver =
  rc_next :: nat
  rc_ready :: bytes
  rc_held :: "(nat \<times> bytes) list"
  rc_held_bytes :: nat
  rc_spare :: "bytes list"
  rc_fin :: "nat option"
  rc_finished :: bool
  rc_ack_owed :: bool
  rc_runs :: "sack_run list"

definition receiver_new :: receiver where
  "receiver_new =
     \<lparr>rc_next = 0, rc_ready = [], rc_held = [], rc_held_bytes = 0, rc_spare = [], rc_fin = None,
      rc_finished = False, rc_ack_owed = False, rc_runs = []\<rparr>"

definition receiver_window :: "receiver \<Rightarrow> nat" where
  "receiver_window r =
     (let free = FORWARD_WINDOW - (length (rc_ready r) + rc_held_bytes r)
      in if free \<le> u32_max then free else u32_max)"

definition receiver_admits :: "receiver \<Rightarrow> nat \<Rightarrow> bool" where
  "receiver_admits r len \<longleftrightarrow> length (rc_ready r) + len \<le> FORWARD_WINDOW"

definition receiver_consume :: "receiver \<Rightarrow> nat \<Rightarrow> receiver" where
  "receiver_consume r n =
     (let before = receiver_window r;
          taken = min n (length (rc_ready r));
          r1 = r\<lparr>rc_ready := drop taken (rc_ready r)\<rparr>
      in if before < CHUNK_WINDOW \<and> CHUNK_WINDOW \<le> receiver_window r1 then r1\<lparr>rc_ack_owed := True\<rparr> else r1)"

definition push_run :: "sack_run list \<Rightarrow> nat \<Rightarrow> nat \<times> nat \<Rightarrow> sack_run list \<times> nat" where
  "push_run runs cursor run =
     (let (start, end) = run;
          gap = start - cursor;
          len = end - start
      in if u32_max < gap \<or> u32_max < len \<or> gap = 0 \<or> len = 0 then (runs, cursor)
         else (runs @ [\<lparr>sr_gap = gap, sr_len = len\<rparr>], end))"

text \<open>One turn of the loop of \<^verbatim>\<open>held_runs\<close>, and the loop.\<close>

definition runs_step ::
  "nat \<Rightarrow> nat \<Rightarrow> (nat \<times> nat) option \<Rightarrow> sack_run list \<Rightarrow> nat \<Rightarrow> (nat \<times> nat) option \<times> sack_run list \<times> nat" where
  "runs_step off end opened runs cursor =
     (case opened of
        Some (start, seen) \<Rightarrow>
          if off \<le> seen then (Some (start, max seen end), runs, cursor)
          else (Some (off, end), push_run runs cursor (start, seen))
      | None \<Rightarrow> (Some (off, end), runs, cursor))"

fun runs_loop ::
  "(nat \<times> bytes) list \<Rightarrow> (nat \<times> nat) option \<Rightarrow> sack_run list \<Rightarrow> nat \<Rightarrow> (nat \<times> nat) option \<times> sack_run list \<times> nat" where
  "runs_loop [] opened runs cursor = (opened, runs, cursor)"
| "runs_loop ((off, held) # rest) opened runs cursor =
     (let (opened', runs', cursor') = runs_step off (u64_saturating_add off (length held)) opened runs cursor
      in if length runs' = MAX_ACK_RUNS then (opened', runs', cursor')
         else runs_loop rest opened' runs' cursor')"

definition merged_runs :: "(nat \<times> bytes) list \<Rightarrow> nat \<Rightarrow> sack_run list" where
  "merged_runs m next =
     (let (opened, runs, cursor) = runs_loop m None [] next
      in case opened of
           Some run \<Rightarrow> if length runs < MAX_ACK_RUNS then fst (push_run runs cursor run) else runs
         | None \<Rightarrow> runs)"

definition receiver_held_runs :: "receiver \<Rightarrow> (sack_runs \<times> receiver) option" where
  "receiver_held_runs r =
     (let runs = merged_runs (rc_held r) (rc_next r)
      in map_option (\<lambda>s. (s, r\<lparr>rc_runs := runs\<rparr>)) (sack_runs_from_slice runs))"

definition receiver_poll_ack :: "receiver \<Rightarrow> (fwd_ack option \<times> receiver) option" where
  "receiver_poll_ack r =
     (if rc_ack_owed r then
        let r1 = r\<lparr>rc_ack_owed := False\<rparr>
        in map_option (\<lambda>(runs, r2). (Some \<lparr>fa_off = rc_next r1, fa_window = receiver_window r1, fa_held = runs\<rparr>, r2))
             (receiver_held_runs r1)
      else Some (None, r))"

definition receiver_held_past :: "receiver \<Rightarrow> nat \<Rightarrow> bool" where
  "receiver_held_past r end =
     list_ex (\<lambda>(off, held). end < u64_saturating_add off (length held)) (rc_held r)"

text \<open>\<^verbatim>\<open>entry\<close> and the assignment through it, on the ordered map.\<close>

fun held_put :: "nat \<Rightarrow> bytes \<Rightarrow> (nat \<times> bytes) list \<Rightarrow> (nat \<times> bytes) list" where
  "held_put off b [] = [(off, b)]"
| "held_put off b ((off', b') # rest) =
     (if off < off' then (off, b) # (off', b') # rest
      else if off = off' then (off, b) # rest
      else (off', b') # held_put off b rest)"

definition receiver_hold :: "receiver \<Rightarrow> nat \<Rightarrow> bytes \<Rightarrow> receiver" where
  "receiver_hold r off bytes =
     (if bytes = [] \<or> MAX_HELD_SEGMENTS \<le> length (rc_held r) \<or>
         u64_saturating_add (rc_next r) FORWARD_WINDOW \<le> off \<or>
         FORWARD_WINDOW < length (rc_ready r) + rc_held_bytes r + length bytes
      then r
      else
        let (entry, r1) =
          (case map_of (rc_held r) off of
             Some entry \<Rightarrow> (entry, r)
           | None \<Rightarrow>
               if rc_spare r = [] then ([], r\<lparr>rc_held := held_put off [] (rc_held r)\<rparr>)
               else (last (rc_spare r),
                     r\<lparr>rc_spare := butlast (rc_spare r), rc_held := held_put off (last (rc_spare r)) (rc_held r)\<rparr>))
        in if length entry < length bytes
           then r1\<lparr>rc_held_bytes := rc_held_bytes r1 + length bytes - length entry,
                   rc_held := held_put off bytes (rc_held r1)\<rparr>
           else r1)"

definition receiver_recycle :: "receiver \<Rightarrow> nat \<Rightarrow> receiver" where
  "receiver_recycle r capacity =
     (if length (rc_spare r) < SPARE_HELD \<and> capacity \<le> SPARE_HELD_BYTES
      then r\<lparr>rc_spare := rc_spare r @ [[]]\<rparr> else r)"

fun drain_loop :: "(nat \<Rightarrow> nat) \<Rightarrow> (nat \<times> bytes) list \<Rightarrow> receiver \<Rightarrow> receiver option" where
  "drain_loop capacity [] r = Some (r\<lparr>rc_held := []\<rparr>)"
| "drain_loop capacity ((off, held) # rest) r =
     (if rc_next r < off then Some (r\<lparr>rc_held := (off, held) # rest\<rparr>)
      else if rc_held_bytes r < length held then None
      else
        let r1 = r\<lparr>rc_held_bytes := rc_held_bytes r - length held\<rparr>;
            end = u64_saturating_add off (length held);
            r2 = (if rc_next r1 < end
                  then r1\<lparr>rc_ready := rc_ready r1 @ drop (rc_next r1 - off) held, rc_next := end\<rparr> else r1)
        in drain_loop capacity rest (receiver_recycle r2 (capacity off)))"

definition receiver_drain_held :: "(nat \<Rightarrow> nat) \<Rightarrow> receiver \<Rightarrow> receiver option" where
  "receiver_drain_held capacity r = drain_loop capacity (rc_held r) r"

definition receiver_settle_end :: "receiver \<Rightarrow> receiver" where
  "receiver_settle_end r =
     (if \<not> rc_finished r \<and> rc_fin r = Some (rc_next r)
      then r\<lparr>rc_next := rc_next r + 1, rc_finished := True\<rparr> else r)"

text \<open>The guards of \<^verbatim>\<open>on_data\<close>: what an end, known or declared, does not allow.\<close>

definition receiver_declare :: "receiver \<Rightarrow> nat \<Rightarrow> bool \<Rightarrow> receiver option" where
  "receiver_declare r end fin =
     (case rc_fin r of
        Some known \<Rightarrow> if known < end \<or> fin \<and> end \<noteq> known then None else Some r
      | None \<Rightarrow>
          if fin then
            if end < rc_next r \<or> receiver_held_past r end then None else Some (r\<lparr>rc_fin := Some end\<rparr>)
          else Some r)"

text \<open>Its placement of the bytes: held past a gap, or appended if the buffer has room.\<close>

definition receiver_place :: "(nat \<Rightarrow> nat) \<Rightarrow> receiver \<Rightarrow> nat \<Rightarrow> nat \<Rightarrow> bytes \<Rightarrow> receiver option" where
  "receiver_place capacity r off end bytes =
     (if rc_next r < end then
        if rc_next r < off then Some (receiver_hold r off bytes)
        else if length bytes < rc_next r - off then None
        else
          let fresh = drop (rc_next r - off) bytes
          in if receiver_admits r (length fresh)
             then receiver_drain_held capacity (r\<lparr>rc_ready := rc_ready r @ fresh, rc_next := end\<rparr>)
             else Some r
      else Some r)"

definition receiver_on_data ::
  "(nat \<Rightarrow> nat) \<Rightarrow> receiver \<Rightarrow> nat \<Rightarrow> bool \<Rightarrow> bytes \<Rightarrow> ((contradiction + unit) \<times> receiver) option" where
  "receiver_on_data capacity r off fin bytes =
     (let end = u64_saturating_add off (length bytes)
      in case receiver_declare r end fin of
           None \<Rightarrow> Some (Inl Contradiction, r)
         | Some r1 \<Rightarrow>
             map_option (\<lambda>r2. (Inr (), receiver_settle_end r2))
               (receiver_place capacity (r1\<lparr>rc_ack_owed := True\<rparr>) off end bytes))"

section \<open>The ordered map of held segments\<close>

abbreviation held_sorted :: "(nat \<times> bytes) list \<Rightarrow> bool" where
  "held_sorted m \<equiv> sorted_wrt (<) (map fst m)"

definition held_total :: "(nat \<times> bytes) list \<Rightarrow> nat" where
  "held_total m = sum_list (map (length \<circ> snd) m)"

lemma held_total_simps [simp]:
  "held_total [] = 0" "held_total ((off, b) # m) = length b + held_total m"
  by (simp_all add: held_total_def)

lemma held_put_keys [simp]: "fst ` set (held_put off b m) = insert off (fst ` set m)"
  by (induction m rule: held_put.induct [of _ off b]) auto

lemma held_put_sorted: "held_sorted m \<Longrightarrow> held_sorted (held_put off b m)"
proof (induction m)
  case (Cons p m)
  obtain k v where p: "p = (k, v)" by (cases p)
  have "\<forall>x \<in> fst ` set m. k < x" using Cons.prems by (auto simp: p)
  then have "k < off \<Longrightarrow> \<forall>x \<in> fst ` set (held_put off b m). k < x" by simp
  with Cons show ?case by (auto simp: p)
qed simp

lemma held_sorted_Cons_fresh: "held_sorted ((off, b) # m) \<Longrightarrow> map_of m off = None"
  by (auto simp: map_of_eq_None_iff)

lemma held_put_total:
  assumes "held_sorted m"
  shows "held_total (held_put off b m) + (case map_of m off of Some old \<Rightarrow> length old | None \<Rightarrow> 0) = held_total m + length b"
  using assms
proof (induction m)
  case (Cons p m)
  obtain k v where p: "p = (k, v)" by (cases p)
  have "map_of m off = None" if "off < k" using Cons.prems that by (auto simp: p map_of_eq_None_iff)
  with Cons show ?case by (auto simp: p held_sorted_Cons_fresh split: option.splits)
qed simp

lemma held_put_length: "length (held_put off b m) \<le> length m + 1"
  by (induction m) auto

lemma held_put_set:
  assumes "held_sorted m"
  shows "set (held_put off b m) = insert (off, b) {(k, v) \<in> set m. k \<noteq> off}"
  using assms
proof (induction m)
  case (Cons p m)
  obtain k v where p: "p = (k, v)" by (cases p)
  have "(off, y) \<notin> set m" if "off \<le> k" for y using Cons.prems that by (auto simp: p)
  with Cons show ?case by (auto simp: p)
qed simp

lemma held_put_put [simp]: "held_put off b (held_put off c m) = held_put off b m"
  by (induction m) auto

section \<open>What holds whatever arrives\<close>

definition receiver_bounded :: "receiver \<Rightarrow> bool" where
  "receiver_bounded r \<longleftrightarrow>
     held_sorted (rc_held r) \<and> rc_held_bytes r = held_total (rc_held r) \<and> rc_held_bytes r \<le> FORWARD_WINDOW \<and>
     length (rc_ready r) + rc_held_bytes r \<le> 2 * FORWARD_WINDOW \<and> length (rc_held r) \<le> MAX_HELD_SEGMENTS \<and>
     length (rc_spare r) \<le> SPARE_HELD \<and> set (rc_spare r) \<subseteq> {[]}"

lemma receiver_bounded_new [simp]: "receiver_bounded receiver_new"
  by (simp add: receiver_bounded_def receiver_new_def)

lemma receiver_bounded_frame [simp]:
  "receiver_bounded (r\<lparr>rc_ack_owed := a\<rparr>) = receiver_bounded r"
  "receiver_bounded (r\<lparr>rc_fin := f\<rparr>) = receiver_bounded r"
  "receiver_bounded (r\<lparr>rc_runs := runs\<rparr>) = receiver_bounded r"
  "receiver_bounded (r\<lparr>rc_next := n\<rparr>) = receiver_bounded r"
  "receiver_bounded (r\<lparr>rc_next := n, rc_finished := d\<rparr>) = receiver_bounded r"
  by (simp_all add: receiver_bounded_def)

lemma receiver_consume_spec:
  "rc_ready (receiver_consume r n) = drop n (rc_ready r)"
  "receiver_bounded r \<Longrightarrow> receiver_bounded (receiver_consume r n)"
  "rc_next (receiver_consume r n) = rc_next r" "rc_held (receiver_consume r n) = rc_held r"
  "rc_fin (receiver_consume r n) = rc_fin r" "rc_finished (receiver_consume r n) = rc_finished r"
  "rc_ack_owed r \<Longrightarrow> rc_ack_owed (receiver_consume r n)"
  by (auto simp: receiver_consume_def receiver_bounded_def Let_def min_def)

lemma receiver_settle_end_bounded: "receiver_bounded r \<Longrightarrow> receiver_bounded (receiver_settle_end r)"
  by (simp add: receiver_settle_end_def)

lemma receiver_hold_cases:
  assumes "receiver_bounded r"
  obtains "receiver_hold r off bytes = r"
  | old spare where
      "receiver_hold r off bytes = r\<lparr>rc_held := held_put off bytes (rc_held r),
         rc_held_bytes := held_total (held_put off bytes (rc_held r)), rc_spare := spare\<rparr>"
      "old = (case map_of (rc_held r) off of Some old \<Rightarrow> length old | None \<Rightarrow> 0)" "old < length bytes"
      "bytes \<noteq> []" "length (rc_held r) < MAX_HELD_SEGMENTS"
      "length (rc_ready r) + rc_held_bytes r + length bytes \<le> FORWARD_WINDOW"
      "length spare \<le> length (rc_spare r)" "set spare \<subseteq> {[]}"
proof -
  let ?refused = "bytes = [] \<or> MAX_HELD_SEGMENTS \<le> length (rc_held r) \<or>
         u64_saturating_add (rc_next r) FORWARD_WINDOW \<le> off \<or>
         FORWARD_WINDOW < length (rc_ready r) + rc_held_bytes r + length bytes"
  have b: "held_sorted (rc_held r)" "rc_held_bytes r = held_total (rc_held r)" "set (rc_spare r) \<subseteq> {[]}"
    using assms by (simp_all add: receiver_bounded_def)
  note total = held_put_total [OF b(1), of off bytes]
  show thesis
  proof (cases ?refused)
    case True
    then show thesis by (intro that(1)) (simp add: receiver_hold_def)
  next
    case False
    show thesis
    proof (cases "map_of (rc_held r) off")
      case None
      let ?spare = "if rc_spare r = [] then [] else butlast (rc_spare r)"
      have spare: "rc_spare r \<noteq> [] \<Longrightarrow> last (rc_spare r) = []" using b(3) last_in_set by fastforce
      have "receiver_hold r off bytes = r\<lparr>rc_held := held_put off bytes (rc_held r),
         rc_held_bytes := held_total (held_put off bytes (rc_held r)), rc_spare := ?spare\<rparr>"
        using False None spare total b(2) by (simp add: receiver_hold_def Let_def)
      moreover have "set ?spare \<subseteq> {[]}" using b(3) by (auto dest: in_set_butlastD)
      ultimately show thesis using False None by (intro that(2) [of ?spare 0]) auto
    next
      case (Some old)
      show thesis
      proof (cases "length old < length bytes")
        case True
        have "rc_held_bytes r + length bytes - length old = held_total (held_put off bytes (rc_held r))"
          using total Some b(2) by simp
        then have "receiver_hold r off bytes = r\<lparr>rc_held := held_put off bytes (rc_held r),
           rc_held_bytes := held_total (held_put off bytes (rc_held r)), rc_spare := rc_spare r\<rparr>"
          using False Some True by (simp add: receiver_hold_def Let_def)
        then show thesis using False Some True b(3) by (intro that(2) [of "rc_spare r" "length old"]) auto
      next
        case False
        then show thesis using Some by (intro that(1)) (simp add: receiver_hold_def Let_def)
      qed
    qed
  qed
qed

lemma receiver_hold_bounded:
  assumes "receiver_bounded r"
  shows "receiver_bounded (receiver_hold r off bytes)"
  using assms
proof (cases rule: receiver_hold_cases [of r off bytes])
  case (2 old spare)
  note total = held_put_total [of "rc_held r" off bytes]
  show ?thesis
    using assms 2 total held_put_length [of off bytes "rc_held r"]
    by (auto simp: receiver_bounded_def held_put_sorted)
qed (use assms in auto)

lemma receiver_recycle_frame [simp]:
  "rc_next (receiver_recycle r c) = rc_next r" "rc_ready (receiver_recycle r c) = rc_ready r"
  "rc_held (receiver_recycle r c) = rc_held r" "rc_held_bytes (receiver_recycle r c) = rc_held_bytes r"
  "rc_fin (receiver_recycle r c) = rc_fin r" "rc_finished (receiver_recycle r c) = rc_finished r"
  "rc_ack_owed (receiver_recycle r c) = rc_ack_owed r" "rc_runs (receiver_recycle r c) = rc_runs r"
  by (simp_all add: receiver_recycle_def)

lemma receiver_recycle_spare:
  assumes "length (rc_spare r) \<le> SPARE_HELD" "set (rc_spare r) \<subseteq> {[]}"
  shows "length (rc_spare (receiver_recycle r c)) \<le> SPARE_HELD" "set (rc_spare (receiver_recycle r c)) \<subseteq> {[]}"
  using assms by (auto simp: receiver_recycle_def)

text \<open>Draining ends, never underflows its count, and moves bytes without making any.\<close>

lemma drain_loop_bounded:
  assumes "rc_held_bytes r = held_total m" "length (rc_spare r) \<le> SPARE_HELD" "set (rc_spare r) \<subseteq> {[]}"
  shows "\<exists>r'. drain_loop capacity m r = Some r' \<and> rc_held_bytes r' = held_total (rc_held r') \<and>
    rc_held_bytes r' \<le> held_total m \<and>
    length (rc_ready r') + rc_held_bytes r' \<le> length (rc_ready r) + held_total m \<and>
    (\<exists>gone. m = gone @ rc_held r') \<and> length (rc_spare r') \<le> SPARE_HELD \<and> set (rc_spare r') \<subseteq> {[]} \<and>
    rc_fin r' = rc_fin r \<and> rc_finished r' = rc_finished r \<and> rc_ack_owed r' = rc_ack_owed r"
  using assms
proof (induction m arbitrary: r)
  case (Cons p m)
  obtain off b where p: "p = (off, b)" by (cases p)
  show ?case
  proof (cases "rc_next r < off")
    case True
    then show ?thesis using Cons.prems by (auto simp: p)
  next
    case False
    define r2 where "r2 = (let r1 = r\<lparr>rc_held_bytes := rc_held_bytes r - length b\<rparr>;
            end = u64_saturating_add off (length b)
      in if rc_next r1 < end
         then r1\<lparr>rc_ready := rc_ready r1 @ drop (rc_next r1 - off) b, rc_next := end\<rparr> else r1)"
    let ?r3 = "receiver_recycle r2 (capacity off)"
    have step: "drain_loop capacity (p # m) r = drain_loop capacity m ?r3"
      using False Cons.prems(1) by (simp add: p r2_def Let_def)
    have r2: "rc_held_bytes r2 = held_total m" "length (rc_ready r2) \<le> length (rc_ready r) + length b"
      "rc_spare r2 = rc_spare r" "rc_fin r2 = rc_fin r" "rc_finished r2 = rc_finished r" "rc_ack_owed r2 = rc_ack_owed r"
      using Cons.prems(1) by (auto simp: r2_def p Let_def)
    from Cons.IH [of ?r3] r2 Cons.prems receiver_recycle_spare [of r2 "capacity off"]
    obtain r' gone where "drain_loop capacity m ?r3 = Some r'" "rc_held_bytes r' = held_total (rc_held r')"
      "rc_held_bytes r' \<le> held_total m"
      "length (rc_ready r') + rc_held_bytes r' \<le> length (rc_ready r2) + held_total m"
      "m = gone @ rc_held r'" "length (rc_spare r') \<le> SPARE_HELD" "set (rc_spare r') \<subseteq> {[]}"
      "rc_fin r' = rc_fin r2" "rc_finished r' = rc_finished r2" "rc_ack_owed r' = rc_ack_owed r2" by auto
    then show ?thesis using r2 step by (auto simp: p intro: exI [of _ "(off, b) # gone"])
  qed
qed auto

lemma receiver_place_in_order:
  assumes "rc_next r < end" "off \<le> rc_next r" "end \<le> off + length bytes"
  shows "receiver_place capacity r off end bytes =
    (if receiver_admits r (length (drop (rc_next r - off) bytes))
     then drain_loop capacity (rc_held r) (r\<lparr>rc_ready := rc_ready r @ drop (rc_next r - off) bytes, rc_next := end\<rparr>)
     else Some r)"
  using assms by (auto simp: receiver_place_def receiver_drain_held_def Let_def)

lemma receiver_place_bounded:
  assumes "receiver_bounded r" "end \<le> off + length bytes"
  shows "\<exists>r'. receiver_place capacity r off end bytes = Some r' \<and> receiver_bounded r' \<and>
    rc_fin r' = rc_fin r \<and> rc_finished r' = rc_finished r \<and> rc_ack_owed r' = rc_ack_owed r"
proof -
  consider "end \<le> rc_next r" | "rc_next r < end" "rc_next r < off" | "rc_next r < end" "off \<le> rc_next r" by linarith
  then show ?thesis
  proof cases
    case 2
    then have "receiver_place capacity r off end bytes = Some (receiver_hold r off bytes)" by (simp add: receiver_place_def)
    moreover have "receiver_bounded (receiver_hold r off bytes)" by (rule receiver_hold_bounded [OF assms(1)])
    moreover have "rc_fin (receiver_hold r off bytes) = rc_fin r \<and> rc_finished (receiver_hold r off bytes) = rc_finished r \<and>
        rc_ack_owed (receiver_hold r off bytes) = rc_ack_owed r"
      by (rule receiver_hold_cases [OF assms(1), of off bytes]) simp_all
    ultimately show ?thesis by simp
  next
    case 3
    define fresh where "fresh = drop (rc_next r - off) bytes"
    define r1 where "r1 = r\<lparr>rc_ready := rc_ready r @ fresh, rc_next := end\<rparr>"
    have place: "receiver_place capacity r off end bytes =
        (if receiver_admits r (length fresh) then drain_loop capacity (rc_held r) r1 else Some r)"
      using receiver_place_in_order [OF 3 assms(2)] by (simp add: fresh_def r1_def)
    show ?thesis
    proof (cases "receiver_admits r (length fresh)")
      case True
      have b: "held_sorted (rc_held r)" "rc_held_bytes r = held_total (rc_held r)" "rc_held_bytes r \<le> FORWARD_WINDOW"
        "length (rc_held r) \<le> MAX_HELD_SEGMENTS" "length (rc_spare r) \<le> SPARE_HELD" "set (rc_spare r) \<subseteq> {[]}"
        using assms(1) by (simp_all add: receiver_bounded_def)
      from drain_loop_bounded [of r1 "rc_held r" capacity] b obtain r' gone where r':
        "drain_loop capacity (rc_held r) r1 = Some r'" "rc_held_bytes r' = held_total (rc_held r')"
        "rc_held_bytes r' \<le> held_total (rc_held r)"
        "length (rc_ready r') + rc_held_bytes r' \<le> length (rc_ready r1) + held_total (rc_held r)"
        "rc_held r = gone @ rc_held r'" "length (rc_spare r') \<le> SPARE_HELD" "set (rc_spare r') \<subseteq> {[]}"
        "rc_fin r' = rc_fin r1" "rc_finished r' = rc_finished r1" "rc_ack_owed r' = rc_ack_owed r1"
        by (auto simp: r1_def)
      have "held_sorted (rc_held r')" using b(1) unfolding r'(5) by (simp add: sorted_wrt_append)
      moreover have "length (rc_held r') \<le> MAX_HELD_SEGMENTS" using b(4) unfolding r'(5) by simp
      moreover have "length (rc_ready r1) \<le> FORWARD_WINDOW" using True by (simp add: receiver_admits_def r1_def)
      ultimately have "receiver_bounded r'" using r' b(2,3) by (simp add: receiver_bounded_def)
      then show ?thesis using place True r' by (simp add: r1_def)
    qed (use place assms(1) in simp)
  qed (use assms(1) in \<open>simp add: receiver_place_def\<close>)
qed

lemma receiver_on_data_bounded:
  assumes "receiver_bounded r"
  shows "\<exists>res r'. receiver_on_data capacity r off fin bytes = Some (res, r') \<and> receiver_bounded r'"
proof -
  let ?e = "u64_saturating_add off (length bytes)"
  show ?thesis
  proof (cases "receiver_declare r ?e fin")
    case None
    then show ?thesis using assms by (simp add: receiver_on_data_def)
  next
    case (Some r1)
    then have "receiver_bounded (r1\<lparr>rc_ack_owed := True\<rparr>)"
      using assms by (auto simp: receiver_declare_def split: option.splits if_splits)
    from receiver_place_bounded [OF this, of ?e off bytes capacity] Some show ?thesis
      by (auto simp: receiver_on_data_def u64_saturating_add_le receiver_settle_end_bounded)
  qed
qed

section \<open>Acknowledgements\<close>

lemma push_run_length: "length (fst (push_run runs cursor run)) \<le> length runs + 1"
  by (simp add: push_run_def split_beta Let_def)

lemma runs_loop_length:
  assumes "runs_loop m opened runs cursor = (opened', runs', cursor')" "length runs < MAX_ACK_RUNS"
  shows "length runs' \<le> MAX_ACK_RUNS"
  using assms
proof (induction m opened runs cursor rule: runs_loop.induct)
  case (2 off held rest opened runs cursor)
  obtain o1 r1 c1 where step: "runs_step off (u64_saturating_add off (length held)) opened runs cursor = (o1, r1, c1)"
    by (cases "runs_step off (u64_saturating_add off (length held)) opened runs cursor") auto
  then have "length r1 \<le> length runs + 1"
    using push_run_length [of runs cursor] by (auto simp: runs_step_def split: option.splits if_splits) (metis fst_conv)
  then have "length r1 = MAX_ACK_RUNS \<or> length r1 < MAX_ACK_RUNS" using "2.prems"(2) by linarith
  then show ?case using "2.prems"(1) "2.IH" [OF step [symmetric] refl] by (auto simp: step)
qed auto

lemma merged_runs_length: "length (merged_runs m next) \<le> MAX_ACK_RUNS"
proof -
  obtain opened runs cursor where loop: "runs_loop m None [] next = (opened, runs, cursor)"
    by (cases "runs_loop m None [] next") auto
  have "length runs \<le> MAX_ACK_RUNS" by (rule runs_loop_length [OF loop]) (simp add: forward_consts)
  then show ?thesis
    using push_run_length [of runs cursor]
    by (auto simp: merged_runs_def loop split: option.splits) (metis Suc_le_eq le_trans)
qed

lemma receiver_poll_ack_eq:
  "receiver_poll_ack r = Some
     (if rc_ack_owed r
      then (Some \<lparr>fa_off = rc_next r, fa_window = receiver_window r, fa_held = merged_runs (rc_held r) (rc_next r)\<rparr>,
            r\<lparr>rc_ack_owed := False, rc_runs := merged_runs (rc_held r) (rc_next r)\<rparr>)
      else (None, r))"
  by (simp add: receiver_poll_ack_def receiver_held_runs_def sack_runs_from_slice_def merged_runs_length
      receiver_window_def Let_def)

section \<open>A receiver of a true stream\<close>

text \<open>\<open>S\<close> is the stream as written so far, \<open>T\<close> what the local socket has already taken.\<close>

definition placed :: "receiver \<Rightarrow> nat" where
  "placed r = (if rc_finished r then rc_next r - 1 else rc_next r)"

definition held_cover :: "(nat \<times> bytes) list \<Rightarrow> nat set" where
  "held_cover m = (\<Union>(off, b) \<in> set m. {off..<off + length b})"

definition receiver_cover :: "receiver \<Rightarrow> nat set" where
  "receiver_cover r = {..<placed r} \<union> held_cover (rc_held r)"

definition slices_of :: "bytes \<Rightarrow> (nat \<times> bytes) list \<Rightarrow> bool" where
  "slices_of S m \<longleftrightarrow> list_all (\<lambda>(off, b). b \<noteq> [] \<and> off + length b \<le> length S \<and> b = take (length b) (drop off S)) m"

definition receiver_ok :: "bytes \<Rightarrow> bytes \<Rightarrow> receiver \<Rightarrow> bool" where
  "receiver_ok S T r \<longleftrightarrow>
     receiver_bounded r \<and> T @ rc_ready r = take (placed r) S \<and> placed r \<le> length S \<and>
     slices_of S (rc_held r) \<and>
     list_all (\<lambda>(off, b). rc_next r < off \<and> off < rc_next r + FORWARD_WINDOW) (rc_held r) \<and>
     (rc_fin r \<noteq> None \<longrightarrow> rc_fin r = Some (length S)) \<and>
     (rc_finished r \<longrightarrow> rc_next r = length S + 1 \<and> rc_fin r \<noteq> None)"

lemma held_cover_simps [simp]:
  "held_cover [] = {}" "held_cover ((off, b) # m) = {off..<off + length b} \<union> held_cover m"
  "held_cover (m @ m') = held_cover m \<union> held_cover m'"
  by (auto simp: held_cover_def)

lemma slices_of_simps [simp]:
  "slices_of S []" "slices_of S (m @ m') \<longleftrightarrow> slices_of S m \<and> slices_of S m'"
  "slices_of S ((off, b) # m) \<longleftrightarrow>
     b \<noteq> [] \<and> off + length b \<le> length S \<and> b = take (length b) (drop off S) \<and> slices_of S m"
  by (auto simp: slices_of_def)

lemma slices_of_extend: "slices_of S m \<Longrightarrow> slices_of (S @ xs) m"
  by (auto simp: slices_of_def list_all_iff)

lemma receiver_ok_new [simp]: "receiver_ok [] [] receiver_new"
  by (simp add: receiver_ok_def) (simp add: receiver_new_def placed_def)

lemma receiver_cover_bound: "receiver_ok S T r \<Longrightarrow> receiver_cover r \<subseteq> {..<length S}"
  by (fastforce simp: receiver_ok_def receiver_cover_def held_cover_def slices_of_def list_all_iff)

lemma receiver_ok_finished:
  assumes "receiver_ok S T r" "rc_finished r"
  shows "rc_held r = []" "placed r = length S" "T @ rc_ready r = S"
proof -
  show "placed r = length S" "T @ rc_ready r = S" using assms by (auto simp: receiver_ok_def placed_def)
  show "rc_held r = []"
    using assms by (cases "rc_held r") (auto simp: receiver_ok_def)
qed

lemma receiver_ok_extend:
  assumes "receiver_ok S T r" "rc_fin r \<noteq> None \<Longrightarrow> xs = []"
  shows "receiver_ok (S @ xs) T r"
proof (cases "rc_fin r")
  case None
  then show ?thesis using assms(1) by (auto simp: receiver_ok_def slices_of_extend)
next
  case (Some f)
  then show ?thesis using assms by simp
qed

lemma receiver_ok_consume:
  assumes "receiver_ok S T r"
  shows "receiver_ok S (T @ take n (rc_ready r)) (receiver_consume r n)"
    "receiver_cover (receiver_consume r n) = receiver_cover r"
  using assms by (auto simp: receiver_ok_def receiver_consume_spec placed_def receiver_cover_def)

text \<open>Where a slice overlaps what is placed, the rest of it continues it.\<close>

lemma slice_continues:
  assumes "b = take (length b) (drop off S)" "off \<le> n" "n \<le> off + length b"
  shows "take n S @ drop (n - off) b = take (off + length b) S"
proof -
  have "drop (n - off) (take (length b) (drop off S)) = take (off + length b - n) (drop n S)"
    using assms(2,3) by (simp add: drop_take add.commute)
  then have "drop (n - off) b = take (off + length b - n) (drop n S)" by (simp only: assms(1) [symmetric])
  then show ?thesis using assms(3) by (simp add: take_add [symmetric])
qed

lemma drain_loop_true:
  assumes "drain_loop capacity m r = Some r'" "held_sorted m" "slices_of S m" "length S \<le> u64_max"
    and "T @ rc_ready r = take (rc_next r) S" "rc_next r \<le> length S"
  shows "T @ rc_ready r' = take (rc_next r') S \<and> rc_next r \<le> rc_next r' \<and> rc_next r' \<le> length S \<and>
    (\<exists>gone. m = gone @ rc_held r') \<and> list_all (\<lambda>(off, b). rc_next r' < off) (rc_held r') \<and>
    {..<rc_next r} \<union> held_cover m = {..<rc_next r'} \<union> held_cover (rc_held r')"
  using assms
proof (induction m arbitrary: r)
  case (Cons p m)
  obtain off b where p: "p = (off, b)" by (cases p)
  show ?case
  proof (cases "rc_next r < off")
    case True
    then have "r' = r\<lparr>rc_held := p # m\<rparr>" using Cons.prems(1) by (simp add: p)
    moreover have "list_all (\<lambda>(k, b). rc_next r < k) (p # m)"
      using True Cons.prems(2) by (auto simp: p list_all_iff)
    ultimately show ?thesis using Cons.prems by auto
  next
    case False
    define e where "e = off + length b"
    have slice: "b = take (length b) (drop off S)" "e \<le> length S" using Cons.prems(3) by (simp_all add: p e_def)
    define r2 where "r2 = (let r1 = r\<lparr>rc_held_bytes := rc_held_bytes r - length b\<rparr>
      in if rc_next r1 < e then r1\<lparr>rc_ready := rc_ready r1 @ drop (rc_next r1 - off) b, rc_next := e\<rparr> else r1)"
    have "u64_saturating_add off (length b) = e" using slice(2) Cons.prems(4) by (simp add: u64_saturating_add_def e_def)
    then have step: "drain_loop capacity m (receiver_recycle r2 (capacity off)) = Some r'"
      using False Cons.prems(1) by (simp add: p r2_def Let_def split: if_splits)
    have r2: "rc_next r2 = max (rc_next r) e" "T @ rc_ready r2 = take (rc_next r2) S"
      using Cons.prems(5) slice_continues [OF slice(1), of "rc_next r"] False
      by (auto simp: r2_def Let_def e_def max_def simp flip: append_assoc)
    have cover: "{..<rc_next r} \<union> held_cover (p # m) = {..<rc_next r2} \<union> held_cover m"
      using False by (auto simp: p r2(1) e_def)
    from Cons.IH [OF step] Cons.prems r2 slice(2) show ?thesis
      unfolding cover by (auto simp: p intro: exI [of _ "(off, b) # _"])
  qed
qed auto


lemma receiver_hold_true:
  assumes ok: "receiver_ok S T r" and un: "\<not> rc_finished r" and len: "length S \<le> u64_max"
    and b: "off + length b \<le> length S" "b = take (length b) (drop off S)" and gap: "rc_next r < off"
  shows "receiver_ok S T (receiver_hold r off b) \<and> \<not> rc_finished (receiver_hold r off b) \<and>
    rc_next (receiver_hold r off b) = rc_next r \<and> receiver_cover r \<subseteq> receiver_cover (receiver_hold r off b) \<and>
    receiver_cover (receiver_hold r off b) \<subseteq> receiver_cover r \<union> {off..<off + length b}"
proof -
  have bounded: "receiver_bounded r" using ok by (simp add: receiver_ok_def)
  have sorted: "held_sorted (rc_held r)" using bounded by (simp add: receiver_bounded_def)
  show ?thesis
  proof (cases "u64_saturating_add (rc_next r) FORWARD_WINDOW \<le> off")
    case True
    then have "receiver_hold r off b = r" by (simp add: receiver_hold_def)
    then show ?thesis using ok un by auto
  next
    case False
    from bounded show ?thesis
    proof (cases rule: receiver_hold_cases [of r off b])
      case 1
      then show ?thesis using ok un by auto
    next
      case (2 old spare)
      let ?m = "held_put off b (rc_held r)"
      have near: "off < rc_next r + FORWARD_WINDOW" using False by (auto simp: u64_saturating_add_def)
      have set: "set ?m = insert (off, b) {(k, v) \<in> set (rc_held r). k \<noteq> off}" by (rule held_put_set [OF sorted])
      have shorter: "(off, v) \<in> set (rc_held r) \<Longrightarrow> length v \<le> length b" for v
        using 2(2,3) sorted by (auto simp: strict_sorted_iff distinct_map map_of_eq_Some_iff dest!: map_of_is_SomeI [rotated])
      have "receiver_bounded (receiver_hold r off b)" by (rule receiver_hold_bounded [OF bounded])
      moreover have "slices_of S ?m" "list_all (\<lambda>(k, v). rc_next r < k \<and> k < rc_next r + FORWARD_WINDOW) ?m"
        using ok b gap near 2(4) by (auto simp: receiver_ok_def slices_of_def list_all_iff set)
      moreover have "held_cover (rc_held r) \<subseteq> held_cover ?m" "held_cover ?m \<subseteq> held_cover (rc_held r) \<union> {off..<off + length b}"
        using shorter by (fastforce simp: held_cover_def set)+
      ultimately show ?thesis using ok un by (auto simp: 2(1) receiver_ok_def receiver_cover_def placed_def)
    qed
  qed
qed

lemma receiver_place_true:
  assumes ok: "receiver_ok S T r" and un: "\<not> rc_finished r" and len: "length S \<le> u64_max"
    and b: "off + length b \<le> length S" "b = take (length b) (drop off S)"
  shows "\<exists>r'. receiver_place capacity r off (off + length b) b = Some r' \<and> receiver_ok S T r' \<and>
    rc_fin r' = rc_fin r \<and> \<not> rc_finished r' \<and> rc_ack_owed r' = rc_ack_owed r \<and> rc_next r \<le> rc_next r' \<and>
    receiver_cover r \<subseteq> receiver_cover r' \<and> receiver_cover r' \<subseteq> receiver_cover r \<union> {off..<off + length b} \<and>
    (off \<le> rc_next r \<longrightarrow> length (rc_ready r) + length b \<le> FORWARD_WINDOW \<longrightarrow> off + length b \<le> rc_next r')"
proof -
  have bounded: "receiver_bounded r" using ok by (simp add: receiver_ok_def)
  from receiver_place_bounded [OF bounded le_refl] obtain r' where
    r': "receiver_place capacity r off (off + length b) b = Some r'" "receiver_bounded r'" "rc_fin r' = rc_fin r"
      "\<not> rc_finished r'" "rc_ack_owed r' = rc_ack_owed r" using un by blast
  consider "off + length b \<le> rc_next r" | "rc_next r < off + length b" "rc_next r < off"
    | "rc_next r < off + length b" "off \<le> rc_next r" by linarith
  then show ?thesis
  proof cases
    case 1
    then have "r' = r" using r'(1) by (simp add: receiver_place_def)
    then show ?thesis using r' ok 1 by auto
  next
    case 2
    then have "r' = receiver_hold r off b" using r'(1) by (simp add: receiver_place_def)
    then show ?thesis using r' receiver_hold_true [OF ok un len b 2(2)] 2 by auto
  next
    case 3
    define fresh where "fresh = drop (rc_next r - off) b"
    define r1 where "r1 = r\<lparr>rc_ready := rc_ready r @ fresh, rc_next := off + length b\<rparr>"
    have place: "Some r' = (if receiver_admits r (length fresh) then drain_loop capacity (rc_held r) r1 else Some r)"
      using receiver_place_in_order [OF 3 le_refl, of capacity] r'(1) by (simp add: fresh_def r1_def)
    show ?thesis
    proof (cases "receiver_admits r (length fresh)")
      case True
      have before: "T @ rc_ready r = take (rc_next r) S" using ok un by (simp add: receiver_ok_def placed_def)
      have r1: "T @ rc_ready r1 = take (rc_next r1) S" "rc_next r1 \<le> length S"
        using slice_continues [OF b(2) 3(2)] 3(1) b(1) by (simp_all add: r1_def fresh_def before [symmetric])
      have held: "held_sorted (rc_held r)" "slices_of S (rc_held r)"
        "list_all (\<lambda>(k, v). k < rc_next r + FORWARD_WINDOW) (rc_held r)"
        using ok by (auto simp: receiver_ok_def receiver_bounded_def list_all_iff)
      from drain_loop_true [OF place [unfolded if_P [OF True], symmetric] held(1,2) len r1]
      obtain gone where d: "T @ rc_ready r' = take (rc_next r') S" "rc_next r1 \<le> rc_next r'" "rc_next r' \<le> length S"
        "rc_held r = gone @ rc_held r'" "list_all (\<lambda>(off, b). rc_next r' < off) (rc_held r')"
        "{..<rc_next r1} \<union> held_cover (rc_held r) = {..<rc_next r'} \<union> held_cover (rc_held r')" by blast
      have grow: "rc_next r < rc_next r1" using 3 by (simp add: r1_def)
      have "slices_of S (rc_held r')" "list_all (\<lambda>(k, v). k < rc_next r + FORWARD_WINDOW) (rc_held r')"
        using held(2,3) unfolding d(4) by simp_all
      then have ok': "receiver_ok S T r'"
        using d(1-3,5) ok r' grow by (auto simp: receiver_ok_def placed_def list_all_iff)
      have cover: "receiver_cover r' = {..<off + length b} \<union> held_cover (rc_held r)"
        "receiver_cover r = {..<rc_next r} \<union> held_cover (rc_held r)"
        using d(6) un r'(4) by (simp_all add: receiver_cover_def placed_def r1_def)
      have "receiver_cover r \<subseteq> receiver_cover r'" "receiver_cover r' \<subseteq> receiver_cover r \<union> {off..<off + length b}"
        unfolding cover using 3 by auto
      then show ?thesis using r' d(2) grow ok' by (simp add: r1_def)
    next
      case False
      then have "r' = r" using place by simp
      moreover have "\<not> length (rc_ready r) + length b \<le> FORWARD_WINDOW"
        using False by (simp add: receiver_admits_def fresh_def)
      ultimately show ?thesis using r' ok by auto
    qed
  qed
qed

lemma receiver_settle_end_true:
  assumes ok: "receiver_ok S T r"
  shows "receiver_ok S T (receiver_settle_end r) \<and> receiver_cover (receiver_settle_end r) = receiver_cover r \<and>
    rc_fin (receiver_settle_end r) = rc_fin r \<and> rc_ack_owed (receiver_settle_end r) = rc_ack_owed r \<and>
    rc_next r \<le> rc_next (receiver_settle_end r) \<and> placed (receiver_settle_end r) = placed r \<and>
    (rc_fin r = Some (placed r) \<longrightarrow> rc_finished (receiver_settle_end r))"
proof (cases "\<not> rc_finished r \<and> rc_fin r = Some (rc_next r)")
  case True
  then have "rc_next r = length S" using ok by (auto simp: receiver_ok_def)
  with True ok have "rc_held r = []" by (cases "rc_held r") (auto simp: receiver_ok_def)
  with True ok \<open>rc_next r = length S\<close> show ?thesis
    by (auto simp: receiver_settle_end_def receiver_ok_def placed_def receiver_cover_def)
next
  case False
  then have "receiver_settle_end r = r" by (auto simp: receiver_settle_end_def)
  with False ok show ?thesis by (auto simp: placed_def)
qed


lemma receiver_on_data_true:
  assumes ok: "receiver_ok S T r" and len: "length S \<le> u64_max"
    and b: "off + length b \<le> length S" "b = take (length b) (drop off S)" "fin \<Longrightarrow> off + length b = length S"
  obtains r' where "receiver_on_data capacity r off fin b = Some (Inr (), r')" "receiver_ok S T r'" "rc_ack_owed r'"
    "rc_fin r' \<noteq> None \<longleftrightarrow> rc_fin r \<noteq> None \<or> fin" "rc_next r \<le> rc_next r'"
    "receiver_cover r \<subseteq> receiver_cover r'" "receiver_cover r' \<subseteq> receiver_cover r \<union> {off..<off + length b}"
    "off \<le> placed r \<Longrightarrow> length (rc_ready r) + length b \<le> FORWARD_WINDOW \<Longrightarrow> off + length b \<le> placed r'"
    "off \<le> placed r \<Longrightarrow> length (rc_ready r) + length b \<le> FORWARD_WINDOW \<Longrightarrow> fin \<Longrightarrow> rc_finished r'"
proof -
  have "end": "u64_saturating_add off (length b) = off + length b"
    using b(1) len by (simp add: u64_saturating_add_def)
  have past: "\<not> receiver_held_past r (length S)"
    using ok len
    by (auto simp: receiver_held_past_def receiver_ok_def slices_of_def list_all_iff list_ex_iff u64_saturating_add_def)
  have near: "placed r \<le> length S" "\<not> rc_finished r \<Longrightarrow> placed r = rc_next r" using ok by (simp_all add: receiver_ok_def placed_def)
  define r1 where "r1 = (if rc_fin r = None \<and> fin then r\<lparr>rc_fin := Some (length S)\<rparr> else r)\<lparr>rc_ack_owed := True\<rparr>"
  have fin_known: "rc_fin r \<noteq> None \<Longrightarrow> rc_fin r = Some (length S)" "rc_finished r \<Longrightarrow> rc_fin r \<noteq> None"
    using ok by (simp_all add: receiver_ok_def)
  have data: "receiver_on_data capacity r off fin b =
      map_option (\<lambda>r2. (Inr (), receiver_settle_end r2)) (receiver_place capacity r1 off (off + length b) b)"
    using fin_known past near b(1,3)
    by (auto simp: receiver_on_data_def receiver_declare_def "end" r1_def Let_def placed_def split: option.splits if_splits)
  have ok1: "receiver_ok S T r1" "receiver_cover r1 = receiver_cover r" "placed r1 = placed r"
    using ok by (auto simp: r1_def receiver_ok_def placed_def receiver_cover_def)
  have frame: "rc_finished r1 = rc_finished r" "rc_next r1 = rc_next r" "rc_ready r1 = rc_ready r" "rc_ack_owed r1"
    "rc_fin r1 \<noteq> None \<longleftrightarrow> rc_fin r \<noteq> None \<or> fin" by (auto simp: r1_def)
  have "\<exists>r2. receiver_place capacity r1 off (off + length b) b = Some r2 \<and> receiver_ok S T r2 \<and>
    rc_fin r2 = rc_fin r1 \<and> rc_ack_owed r2 \<and> rc_next r1 \<le> rc_next r2 \<and>
    receiver_cover r1 \<subseteq> receiver_cover r2 \<and> receiver_cover r2 \<subseteq> receiver_cover r1 \<union> {off..<off + length b} \<and>
    (off \<le> placed r \<longrightarrow> length (rc_ready r) + length b \<le> FORWARD_WINDOW \<longrightarrow> off + length b \<le> placed r2)"
  proof (cases "rc_finished r")
    case True
    then have "receiver_place capacity r1 off (off + length b) b = Some r1" "placed r = length S"
      using ok b(1) by (auto simp: receiver_place_def r1_def receiver_ok_def placed_def)
    with ok1 b(1) frame show ?thesis by auto
  next
    case False
    from receiver_place_true [OF ok1(1) _ len b(1,2), of capacity] False frame near show ?thesis
      by (fastforce simp: placed_def)
  qed
  then obtain r2 where r2: "receiver_place capacity r1 off (off + length b) b = Some r2" "receiver_ok S T r2"
    "rc_fin r2 = rc_fin r1" "rc_ack_owed r2" "rc_next r1 \<le> rc_next r2"
    "receiver_cover r1 \<subseteq> receiver_cover r2" "receiver_cover r2 \<subseteq> receiver_cover r1 \<union> {off..<off + length b}"
    "off \<le> placed r \<longrightarrow> length (rc_ready r) + length b \<le> FORWARD_WINDOW \<longrightarrow> off + length b \<le> placed r2" by blast
  note settle = receiver_settle_end_true [OF r2(2)]
  have "rc_fin r2 = Some (placed r2)" if "off \<le> placed r" "length (rc_ready r) + length b \<le> FORWARD_WINDOW" fin
  proof -
    have "placed r2 = length S" using that r2(2,8) b(3) by (simp add: receiver_ok_def)
    moreover have "rc_fin r2 \<noteq> None" using r2(3) frame(5) that(3) by simp
    ultimately show ?thesis using r2(2) by (simp add: receiver_ok_def)
  qed
  then show thesis
    using data r2 settle ok1(2) frame by (intro that [of "receiver_settle_end r2"]) auto
qed

section \<open>The runs of an acknowledgement\<close>

lemma push_run_absolute:
  assumes "push_run runs cursor (start, end) = (runs', cursor')" "sack_end runs base = cursor" "end \<le> u64_max"
  shows "sack_end runs' base = cursor' \<and>
    (if cursor < start \<and> start < end \<and> start - cursor \<le> u32_max \<and> end - start \<le> u32_max
     then sack_absolute runs' base = sack_absolute runs base @ [(start, end)] \<and> cursor' = end \<and> length runs' = length runs + 1
     else runs' = runs \<and> cursor' = cursor)"
  using assms
  by (auto simp: push_run_def Let_def sack_absolute_append sack_end_append u64_saturating_add_def split: if_splits)

text \<open>What the loop keeps: every run already written, and the one open, lie in \<open>C\<close>.\<close>

definition runs_sound :: "nat \<Rightarrow> nat set \<Rightarrow> (nat \<times> nat) option \<times> sack_run list \<times> nat \<Rightarrow> bool" where
  "runs_sound base C st \<longleftrightarrow>
     (case st of (opened, runs, cursor) \<Rightarrow>
        sack_end runs base = cursor \<and> base \<le> cursor \<and>
        (\<forall>(a, b) \<in> set (sack_absolute runs base). base < a \<and> a < b \<and> {a..<b} \<subseteq> C) \<and>
        (\<forall>a b. opened = Some (a, b) \<longrightarrow> b \<le> u64_max \<and> {a..<b} \<subseteq> C))"

lemma runs_sound_push:
  assumes "runs_sound base C (Some (a, b), runs, cursor)"
  shows "runs_sound base C (None, push_run runs cursor (a, b))"
proof -
  obtain runs' cursor' where push: "push_run runs cursor (a, b) = (runs', cursor')" by fastforce
  with push_run_absolute [OF push, of base] assms show ?thesis
    by (auto simp: runs_sound_def split: if_splits)
qed

lemma runs_sound_step:
  assumes "runs_sound base C (opened, runs, cursor)" "end \<le> u64_max" "{off..<end} \<subseteq> C"
  shows "runs_sound base C (runs_step off end opened runs cursor)"
proof (cases opened)
  case None
  then show ?thesis using assms by (simp add: runs_step_def runs_sound_def)
next
  case (Some run)
  obtain a b where run: "run = (a, b)" by (cases run)
  show ?thesis
  proof (cases "off \<le> b")
    case True
    have "{a..<max b end} \<subseteq> {a..<b} \<union> {off..<end}" using True by auto
    then show ?thesis using assms True by (auto simp: runs_step_def runs_sound_def Some run)
  next
    case False
    obtain runs' cursor' where push: "push_run runs cursor (a, b) = (runs', cursor')" by fastforce
    from runs_sound_push [of base C a b runs cursor] assms have "runs_sound base C (None, runs', cursor')"
      by (simp add: Some run push)
    with assms False show ?thesis by (simp add: runs_step_def runs_sound_def Some run push)
  qed
qed

lemma runs_sound_loop:
  assumes "runs_sound base C (opened, runs, cursor)"
    "list_all (\<lambda>(off, b). off + length b \<le> u64_max \<and> {off..<off + length b} \<subseteq> C) m"
  shows "runs_sound base C (runs_loop m opened runs cursor)"
  using assms
proof (induction m arbitrary: opened runs cursor)
  case (Cons p m)
  obtain off b where p: "p = (off, b)" by (cases p)
  obtain o1 r1 c1 where step: "runs_step off (off + length b) opened runs cursor = (o1, r1, c1)"
    by (cases "runs_step off (off + length b) opened runs cursor") auto
  have "u64_saturating_add off (length b) = off + length b" using Cons.prems(2) by (simp add: p u64_saturating_add_def)
  then have "runs_loop (p # m) opened runs cursor = (if length r1 = MAX_ACK_RUNS then (o1, r1, c1) else runs_loop m o1 r1 c1)"
    by (simp add: p step)
  moreover have "runs_sound base C (o1, r1, c1)"
    using runs_sound_step [OF Cons.prems(1), of "off + length b" off] Cons.prems(2) by (simp add: p step)
  ultimately show ?case using Cons.IH [of o1 r1 c1] Cons.prems(2) by simp
qed simp

lemma merged_runs_sound:
  assumes "list_all (\<lambda>(off, b). off + length b \<le> u64_max) m"
  shows "\<forall>(a, b) \<in> set (sack_absolute (merged_runs m base) base). base < a \<and> a < b \<and> {a..<b} \<subseteq> held_cover m"
proof -
  obtain opened runs cursor where loop: "runs_loop m None [] base = (opened, runs, cursor)"
    by (cases "runs_loop m None [] base") auto
  have "list_all (\<lambda>(off, b). off + length b \<le> u64_max \<and> {off..<off + length b} \<subseteq> held_cover m) m"
    using assms by (auto simp: list_all_iff held_cover_def)
  from runs_sound_loop [OF _ this, of base None "[]" base] have sound: "runs_sound base (held_cover m) (opened, runs, cursor)"
    by (simp add: loop) (simp add: runs_sound_def)
  show ?thesis
  proof (cases "opened \<noteq> None \<and> length runs < MAX_ACK_RUNS")
    case True
    then obtain a b where opened: "opened = Some (a, b)" by auto
    obtain runs' cursor' where push: "push_run runs cursor (a, b) = (runs', cursor')" by fastforce
    have "merged_runs m base = runs'" using True by (simp add: merged_runs_def loop opened push)
    then show ?thesis using runs_sound_push [OF sound [unfolded opened]] by (simp add: push runs_sound_def)
  next
    case False
    then have "merged_runs m base = runs" by (auto simp: merged_runs_def loop split: option.splits)
    then show ?thesis using sound by (simp add: runs_sound_def)
  qed
qed


text \<open>With no more segments held than runs allowed, the runs say all of it.\<close>

definition runs_cover :: "nat \<Rightarrow> (nat \<times> nat) option \<times> sack_run list \<times> nat \<Rightarrow> nat set" where
  "runs_cover base st =
     (case st of (opened, runs, cursor) \<Rightarrow>
        (\<Union>(a, b) \<in> set (sack_absolute runs base). {a..<b}) \<union> (case opened of None \<Rightarrow> {} | Some (a, b) \<Rightarrow> {a..<b}))"

definition runs_room :: "nat \<Rightarrow> nat \<Rightarrow> nat \<Rightarrow> (nat \<times> nat) option \<times> sack_run list \<times> nat \<Rightarrow> bool" where
  "runs_room base B n st \<longleftrightarrow>
     (case st of (opened, runs, cursor) \<Rightarrow>
        sack_end runs base = cursor \<and> base \<le> cursor \<and> B \<le> base + u32_max \<and> B \<le> u64_max \<and>
        length runs + (case opened of None \<Rightarrow> 0 | Some _ \<Rightarrow> 1) + n \<le> MAX_ACK_RUNS \<and>
        (\<forall>a b. opened = Some (a, b) \<longrightarrow> cursor < a \<and> a < b \<and> b \<le> B))"

definition runs_floor :: "(nat \<times> nat) option \<times> sack_run list \<times> nat \<Rightarrow> nat" where
  "runs_floor st = (case st of (None, _, cursor) \<Rightarrow> cursor | (Some (a, _), _, _) \<Rightarrow> a)"

lemma runs_room_push:
  assumes room: "runs_room base B n (Some (a, b), runs, cursor)" and push: "push_run runs cursor (a, b) = (runs', cursor')"
  shows "sack_end runs' base = b" "sack_absolute runs' base = sack_absolute runs base @ [(a, b)]" "cursor' = b"
    "length runs' = length runs + 1"
proof -
  have "b \<le> u64_max" "sack_end runs base = cursor" "cursor < a" "a < b" "a - cursor \<le> u32_max" "b - a \<le> u32_max"
    using room by (auto simp: runs_room_def)
  with push_run_absolute [OF push, of base] show "sack_end runs' base = b"
    "sack_absolute runs' base = sack_absolute runs base @ [(a, b)]" "cursor' = b" "length runs' = length runs + 1"
    by simp_all
qed

lemma runs_step_exact:
  assumes "runs_room base B (Suc n) (opened, runs, cursor)" "runs_floor (opened, runs, cursor) < off" "off < end" "end \<le> B"
  shows "runs_room base B n (runs_step off end opened runs cursor) \<and>
    runs_floor (runs_step off end opened runs cursor) \<le> off \<and>
    length (fst (snd (runs_step off end opened runs cursor))) < MAX_ACK_RUNS \<and>
    runs_cover base (runs_step off end opened runs cursor) = runs_cover base (opened, runs, cursor) \<union> {off..<end}"
proof (cases opened)
  case None
  then show ?thesis using assms by (auto simp: runs_step_def runs_room_def runs_floor_def runs_cover_def)
next
  case (Some run)
  obtain a b where run: "run = (a, b)" by (cases run)
  show ?thesis
  proof (cases "off \<le> b")
    case True
    have "a < off" using assms(2) by (simp add: runs_floor_def Some run)
    then have "{a..<max b end} = {a..<b} \<union> {off..<end}" using True by auto
    then show ?thesis using assms True by (auto simp: runs_step_def runs_room_def runs_floor_def runs_cover_def Some run)
  next
    case False
    obtain runs' cursor' where push: "push_run runs cursor (a, b) = (runs', cursor')" by fastforce
    note pushed = runs_room_push [OF assms(1) [unfolded Some run] push]
    show ?thesis
      using assms False pushed(1,3,4)
      by (auto simp: runs_step_def runs_room_def runs_floor_def runs_cover_def Some run push pushed(2))
  qed
qed

lemma runs_loop_exact:
  assumes "runs_room base B (length m) (opened, runs, cursor)" "held_sorted m"
    "list_all (\<lambda>(off, b). runs_floor (opened, runs, cursor) < off \<and> b \<noteq> [] \<and> off + length b \<le> B) m"
  shows "runs_room base B 0 (runs_loop m opened runs cursor) \<and>
    runs_cover base (runs_loop m opened runs cursor) = runs_cover base (opened, runs, cursor) \<union> held_cover m"
  using assms
proof (induction m arbitrary: opened runs cursor)
  case (Cons p m)
  obtain off b where p: "p = (off, b)" by (cases p)
  obtain o1 r1 c1 where step: "runs_step off (off + length b) opened runs cursor = (o1, r1, c1)"
    by (cases "runs_step off (off + length b) opened runs cursor") auto
  have e: "off + length b \<le> B" "off < off + length b" "runs_floor (opened, runs, cursor) < off" "B \<le> u64_max"
    using Cons.prems by (auto simp: p runs_room_def)
  then have "u64_saturating_add off (length b) = off + length b" by (simp add: u64_saturating_add_def)
  moreover note exact = runs_step_exact [OF Cons.prems(1) [unfolded list.size add_Suc_right add_0_right] e(3,2,1)]
  ultimately have loop: "runs_loop (p # m) opened runs cursor = runs_loop m o1 r1 c1"
    by (simp add: p step)
  have "list_all (\<lambda>(k, b). runs_floor (o1, r1, c1) < k \<and> b \<noteq> [] \<and> k + length b \<le> B) m"
    using Cons.prems(2,3) exact by (fastforce simp: p step list_all_iff)
  with Cons.IH [of o1 r1 c1] exact Cons.prems(2) show ?case unfolding loop by (simp add: step p Un_assoc)
qed simp

lemma merged_runs_exact:
  assumes "held_sorted m" "length m \<le> MAX_ACK_RUNS" "B \<le> base + u32_max" "B \<le> u64_max"
    "list_all (\<lambda>(off, b). base < off \<and> b \<noteq> [] \<and> off + length b \<le> B) m"
  shows "(\<Union>(a, b) \<in> set (sack_absolute (merged_runs m base) base). {a..<b}) = held_cover m"
proof -
  obtain opened runs cursor where loop: "runs_loop m None [] base = (opened, runs, cursor)"
    by (cases "runs_loop m None [] base") auto
  have "runs_room base B (length m) (None, [], base)" using assms by (simp add: runs_room_def)
  from runs_loop_exact [OF this assms(1)] assms(5) have
    exact: "runs_room base B 0 (opened, runs, cursor)" "runs_cover base (opened, runs, cursor) = held_cover m"
    by (simp_all add: loop runs_floor_def) (simp add: runs_cover_def)
  show ?thesis
  proof (cases opened)
    case None
    then show ?thesis using exact(2) by (simp add: merged_runs_def loop runs_cover_def)
  next
    case (Some run)
    obtain a b where run: "run = (a, b)" by (cases run)
    obtain runs' cursor' where push: "push_run runs cursor (a, b) = (runs', cursor')" by fastforce
    have "sack_absolute runs' base = sack_absolute runs base @ [(a, b)]" "length runs < MAX_ACK_RUNS"
      using runs_room_push [OF exact(1) [unfolded Some run] push] exact(1) by (auto simp: runs_room_def Some run)
    then show ?thesis using exact(2) by (simp add: merged_runs_def loop Some run push runs_cover_def Un_commute)
  qed
qed

end
