(* ===== verification/Forward_Stream.thy ===== *)
theory Forward_Stream
  imports Forward_Recv
begin

text \<open>
  A forwarded connection, \<^verbatim>\<open>src/crates/forward/src/lib.rs\<close>: one sender and one receiver behind
  the operations the daemon and the client call, and two such streams joined by a link that
  loses, repeats and reorders what they send.

  The link is a tunnel of two sides. Each side writes, finishes, polls and transmits, takes
  arrivals in any order and any number of times, reads and acknowledges; a poll whose frame
  the sink refused is an operation of its own, as the callers in \<^verbatim>\<open>client/src/forward.rs\<close> and
  \<^verbatim>\<open>server/src/actor.rs\<close> have it. The tunnel's ghost state is what each side ever wrote, what the
  other side's socket has taken of it, and everything ever put on the wire.
\<close>

section \<open>Model: the stream\<close>

record stream =
  fs_send :: sender
  fs_recv :: receiver

definition stream_new :: stream where
  "stream_new = \<lparr>fs_send = sender_new, fs_recv = receiver_new\<rparr>"

definition stream_writable :: "stream \<Rightarrow> nat option" where
  "stream_writable st = sender_writable (fs_send st)"

definition stream_write :: "stream \<Rightarrow> bytes \<Rightarrow> instant \<Rightarrow> (nat \<times> stream) option" where
  "stream_write st bytes now = map_option (\<lambda>(n, s). (n, st\<lparr>fs_send := s\<rparr>)) (sender_write (fs_send st) bytes now)"

definition stream_finish :: "stream \<Rightarrow> stream" where
  "stream_finish st = st\<lparr>fs_send := sender_finish (fs_send st)\<rparr>"

definition stream_poll_transmit ::
  "nat \<Rightarrow> stream \<Rightarrow> instant \<Rightarrow> nat \<Rightarrow> ((segment option \<times> bytes) \<times> stream) option" where
  "stream_poll_transmit wrap st now budget =
     map_option (\<lambda>(sent, s). (sent, st\<lparr>fs_send := s\<rparr>)) (sender_poll_transmit wrap (fs_send st) now budget)"

definition stream_transmitted :: "stream \<Rightarrow> segment \<Rightarrow> instant \<Rightarrow> stream" where
  "stream_transmitted st segment now = st\<lparr>fs_send := sender_transmitted (fs_send st) segment now\<rparr>"

definition stream_on_ack ::
  "stream \<Rightarrow> nat \<Rightarrow> nat \<Rightarrow> sack_runs \<Rightarrow> instant \<Rightarrow> (contradiction + unit) \<times> stream" where
  "stream_on_ack st off window held now =
     map_prod id (\<lambda>s. st\<lparr>fs_send := s\<rparr>) (sender_on_ack (fs_send st) off window held now)"

definition stream_on_data ::
  "(nat \<Rightarrow> nat) \<Rightarrow> stream \<Rightarrow> nat \<Rightarrow> bool \<Rightarrow> bytes \<Rightarrow> ((contradiction + unit) \<times> stream) option" where
  "stream_on_data capacity st off fin bytes =
     map_option (\<lambda>(res, r). (res, st\<lparr>fs_recv := r\<rparr>)) (receiver_on_data capacity (fs_recv st) off fin bytes)"

definition stream_poll_ack :: "stream \<Rightarrow> (fwd_ack option \<times> stream) option" where
  "stream_poll_ack st = map_option (\<lambda>(a, r). (a, st\<lparr>fs_recv := r\<rparr>)) (receiver_poll_ack (fs_recv st))"

definition stream_readable :: "stream \<Rightarrow> bytes" where
  "stream_readable st = rc_ready (fs_recv st)"

definition stream_consume :: "stream \<Rightarrow> nat \<Rightarrow> stream" where
  "stream_consume st n = st\<lparr>fs_recv := receiver_consume (fs_recv st) n\<rparr>"

definition stream_peer_finished :: "stream \<Rightarrow> bool" where
  "stream_peer_finished st = rc_finished (fs_recv st)"

definition stream_is_done :: "stream \<Rightarrow> bool" where
  "stream_is_done st \<longleftrightarrow>
     sender_is_done (fs_send st) \<and> rc_finished (fs_recv st) \<and> length (rc_ready (fs_recv st)) = 0"

definition stream_deadline :: "stream \<Rightarrow> instant \<Rightarrow> duration option" where
  "stream_deadline st now = sender_deadline (fs_send st) now"

section \<open>Model: two streams and the link between them\<close>

datatype side = Near | Far

fun other :: "side \<Rightarrow> side" where
  "other Near = Far"
| "other Far = Near"

text \<open>One direction: the bytes written, those the far socket took, the frames and the
  acknowledgements ever sent about them.\<close>

record flow =
  fl_written :: bytes
  fl_taken :: bytes
  fl_wire :: "(nat \<times> bool \<times> bytes) list"
  fl_acks :: "fwd_ack list"

definition flow_new :: flow where
  "flow_new = \<lparr>fl_written = [], fl_taken = [], fl_wire = [], fl_acks = []\<rparr>"

record tunnel =
  tn_stream :: "side \<Rightarrow> stream"
  tn_flow :: "side \<Rightarrow> flow"
  tn_clock :: instant

definition tunnel_new :: "instant \<Rightarrow> tunnel" where
  "tunnel_new now = \<lparr>tn_stream = (\<lambda>_. stream_new), tn_flow = (\<lambda>_. flow_new), tn_clock = now\<rparr>"

datatype tunnel_op =
    TWrite side bytes
  | TFinish side
  | TSend side nat nat
  | TRefuse side nat nat
  | TDeliver side nat "nat \<Rightarrow> nat"
  | TConsume side nat
  | TPollAck side
  | TAck side nat
  | TWait duration

definition put_stream :: "tunnel \<Rightarrow> side \<Rightarrow> stream \<Rightarrow> tunnel" where
  "put_stream t d st = t\<lparr>tn_stream := (tn_stream t)(d := st)\<rparr>"

definition put_flow :: "tunnel \<Rightarrow> side \<Rightarrow> flow \<Rightarrow> tunnel" where
  "put_flow t d f = t\<lparr>tn_flow := (tn_flow t)(d := f)\<rparr>"

text \<open>\<open>None\<close> is a panic or a contradiction. A frame or acknowledgement is named by its place
  among those ever sent; one never sent is not delivered. Writing stops short of \<open>2 ^ 64\<close>
  bytes, the range of the offsets.\<close>

fun tunnel_step :: "tunnel \<Rightarrow> tunnel_op \<Rightarrow> tunnel option" where
  "tunnel_step t (TWrite d bytes) =
     (let f = tn_flow t d in
      if u64_max < length (fl_written f) + length bytes then Some t
      else map_option (\<lambda>(n, st). put_flow (put_stream t d st) d (f\<lparr>fl_written := fl_written f @ take n bytes\<rparr>))
             (stream_write (tn_stream t d) bytes (tn_clock t)))"
| "tunnel_step t (TFinish d) = Some (put_stream t d (stream_finish (tn_stream t d)))"
| "tunnel_step t (TSend d wrap budget) =
     (case stream_poll_transmit wrap (tn_stream t d) (tn_clock t) budget of
        None \<Rightarrow> None
      | Some ((None, _), st) \<Rightarrow> Some (put_stream t d st)
      | Some ((Some g, b), st) \<Rightarrow>
          let f = tn_flow t d
          in Some (put_flow (put_stream t d (stream_transmitted st g (tn_clock t))) d
               (f\<lparr>fl_wire := fl_wire f @ [(seg_off g, seg_fin g, b)]\<rparr>)))"
| "tunnel_step t (TRefuse d wrap budget) =
     map_option (\<lambda>(_, st). put_stream t d st) (stream_poll_transmit wrap (tn_stream t d) (tn_clock t) budget)"
| "tunnel_step t (TDeliver d i capacity) =
     (let wire = fl_wire (tn_flow t (other d)) in
      if length wire \<le> i then Some t
      else case wire ! i of (off, fin, b) \<Rightarrow>
        (case stream_on_data capacity (tn_stream t d) off fin b of
           Some (Inr _, st) \<Rightarrow> Some (put_stream t d st)
         | _ \<Rightarrow> None))"
| "tunnel_step t (TConsume d n) =
     (let f = tn_flow t (other d) in
      Some (put_flow (put_stream t d (stream_consume (tn_stream t d) n)) (other d)
        (f\<lparr>fl_taken := fl_taken f @ take n (stream_readable (tn_stream t d))\<rparr>)))"
| "tunnel_step t (TPollAck d) =
     map_option (\<lambda>(a, st).
         let f = tn_flow t (other d)
         in put_flow (put_stream t d st) (other d)
              (f\<lparr>fl_acks := fl_acks f @ (case a of Some a \<Rightarrow> [a] | None \<Rightarrow> [])\<rparr>))
       (stream_poll_ack (tn_stream t d))"
| "tunnel_step t (TAck d i) =
     (let acks = fl_acks (tn_flow t d) in
      if length acks \<le> i then Some t
      else case stream_on_ack (tn_stream t d) (fa_off (acks ! i)) (fa_window (acks ! i)) (fa_held (acks ! i)) (tn_clock t) of
          (Inr _, st) \<Rightarrow> Some (put_stream t d st)
        | (Inl _, _) \<Rightarrow> None)"
| "tunnel_step t (TWait dt) = Some (t\<lparr>tn_clock := tn_clock t + dt\<rparr>)"

section \<open>One direction of the tunnel\<close>

text \<open>A run above \<open>base\<close> whose every byte is in \<open>C\<close>.\<close>

definition run_in :: "nat \<Rightarrow> nat set \<Rightarrow> nat \<times> nat \<Rightarrow> bool" where
  "run_in base C run \<longleftrightarrow> base < fst run \<and> fst run < snd run \<and> {fst run..<snd run} \<subseteq> C"

definition ack_ok :: "receiver \<Rightarrow> fwd_ack \<Rightarrow> bool" where
  "ack_ok r a \<longleftrightarrow>
     fa_off a \<le> rc_next r \<and>
     list_all (run_in (fa_off a) (receiver_cover r)) (sack_absolute (fa_held a) (fa_off a))"

definition frame_ok :: "bytes \<Rightarrow> sender \<Rightarrow> nat \<times> bool \<times> bytes \<Rightarrow> bool" where
  "frame_ok S s m \<longleftrightarrow>
     (case m of (off, fin, b) \<Rightarrow>
        off + length b \<le> sd_next s \<and> b = take (length b) (drop off S) \<and> (fin \<longrightarrow> sd_fin s = Some (off + length b)))"

definition flow_ok :: "sender \<Rightarrow> receiver \<Rightarrow> flow \<Rightarrow> bool" where
  "flow_ok s r f \<longleftrightarrow>
     length (fl_written f) \<le> u64_max \<and> sender_ok (fl_written f) s \<and> receiver_ok (fl_written f) (fl_taken f) r \<and>
     receiver_cover r \<subseteq> {..<sd_next s} \<and> (rc_fin r \<noteq> None \<longrightarrow> sd_fin s \<noteq> None) \<and>
     sd_base s \<le> placed r \<and> (sd_fin_acked s \<longrightarrow> rc_finished r) \<and>
     list_all (frame_ok (fl_written f) s) (fl_wire f) \<and> list_all (ack_ok r) (fl_acks f) \<and>
     list_all (run_in (sd_base s) (receiver_cover r)) (sd_held s)"

definition tunnel_ok :: "tunnel \<Rightarrow> bool" where
  "tunnel_ok t \<longleftrightarrow> (\<forall>d. flow_ok (fs_send (tn_stream t d)) (fs_recv (tn_stream t (other d))) (tn_flow t d))"


lemma flow_okI:
  assumes "length (fl_written f) \<le> u64_max" "sender_ok (fl_written f) s" "receiver_ok (fl_written f) (fl_taken f) r"
    "receiver_cover r \<subseteq> {..<sd_next s}" "rc_fin r \<noteq> None \<Longrightarrow> sd_fin s \<noteq> None"
    "sd_base s \<le> placed r" "sd_fin_acked s \<Longrightarrow> rc_finished r"
    "list_all (frame_ok (fl_written f) s) (fl_wire f)" "list_all (ack_ok r) (fl_acks f)"
    "list_all (run_in (sd_base s) (receiver_cover r)) (sd_held s)"
  shows "flow_ok s r f"
  using assms by (auto simp: flow_ok_def)

lemma flow_okD:
  assumes "flow_ok s r f"
  shows "length (fl_written f) \<le> u64_max" "sender_ok (fl_written f) s" "receiver_ok (fl_written f) (fl_taken f) r"
    "receiver_cover r \<subseteq> {..<sd_next s}" "rc_fin r \<noteq> None \<Longrightarrow> sd_fin s \<noteq> None"
    "sd_base s \<le> placed r" "sd_fin_acked s \<Longrightarrow> rc_finished r"
    "list_all (frame_ok (fl_written f) s) (fl_wire f)" "list_all (ack_ok r) (fl_acks f)"
    "list_all (run_in (sd_base s) (receiver_cover r)) (sd_held s)"
  using assms by (auto simp: flow_ok_def)

lemma flow_ok_new: "flow_ok sender_new receiver_new flow_new"
  by (rule flow_okI)
    (simp_all add: flow_new_def sender_new_def receiver_new_def receiver_cover_def placed_def,
     simp_all add: sender_new_def [symmetric] receiver_new_def [symmetric])

text \<open>A sender that has only moved forward keeps every frame it sent.\<close>

lemma frames_kept:
  assumes "list_all (frame_ok S s) wire" "sd_next s \<le> sd_next s'" "sd_next s \<le> length S"
    "\<And>x. sd_fin s = Some x \<Longrightarrow> sd_fin s' = Some x"
  shows "list_all (frame_ok (S @ xs) s') wire"
proof (rule list.pred_mono_strong [OF assms(1)])
  fix m assume "frame_ok S s m"
  then show "frame_ok (S @ xs) s' m" using assms(2-) by (auto simp: frame_ok_def)
qed

lemma flow_write:
  assumes ok: "flow_ok s r f" and room: "length (fl_written f) + length bytes \<le> u64_max"
  obtains k s' where "sender_write s bytes now = Some (k, s')"
    "flow_ok s' r (f\<lparr>fl_written := fl_written f @ take k bytes\<rparr>)"
    "sd_base s' = sd_base s" "sd_fin s' = sd_fin s" "sd_fin_sent s' = sd_fin_sent s" "sd_fin_acked s' = sd_fin_acked s"
    "tm_waiting (sd_timer s') = (if 0 < k then Some (case tm_waiting (sd_timer s) of None \<Rightarrow> now | Some since \<Rightarrow> since)
                                 else tm_waiting (sd_timer s))"
proof -
  note D = flow_okD [OF ok]
  from sender_write_spec [OF D(2), of bytes now] obtain k s' where w: "sender_write s bytes now = Some (k, s')"
    "k \<le> length bytes" "sender_ok (fl_written f @ take k bytes) s'" "sd_base s' = sd_base s" "sd_next s' = sd_next s"
    "sd_held s' = sd_held s" "sd_fin s' = sd_fin s" "sd_fin_acked s' = sd_fin_acked s" "sd_fin_sent s' = sd_fin_sent s"
    "sd_fin s \<noteq> None \<Longrightarrow> k = 0"
    "tm_waiting (sd_timer s') = (if 0 < k then Some (case tm_waiting (sd_timer s) of None \<Rightarrow> now | Some since \<Rightarrow> since)
                                 else tm_waiting (sd_timer s))" by blast
  have "receiver_ok (fl_written f @ take k bytes) (fl_taken f) r"
    using D(5) w(10) by (intro receiver_ok_extend [OF D(3)]) auto
  moreover have "sd_next s \<le> length (fl_written f)" using D(2) by (simp add: sender_ok_def)
  then have "list_all (frame_ok (fl_written f @ take k bytes) s') (fl_wire f)"
    using w by (intro frames_kept [OF D(8)]) simp_all
  ultimately have "flow_ok s' r (f\<lparr>fl_written := fl_written f @ take k bytes\<rparr>)"
    using D w room by (intro flow_okI) auto
  with w show thesis by (intro that) auto
qed

lemma flow_finish:
  assumes "flow_ok s r f"
  shows "flow_ok (sender_finish s) r f"
proof -
  note D = flow_okD [OF assms]
  have nx: "sd_next s \<le> length (fl_written f)" "\<And>x. sd_fin s = Some x \<Longrightarrow> x = length (fl_written f)"
    using D(2) by (auto simp: sender_ok_def)
  have fin: "sd_fin (sender_finish s) = Some (length (fl_written f))" by (rule sender_finish_fin [OF D(2)])
  have "list_all (frame_ok (fl_written f @ []) (sender_finish s)) (fl_wire f)"
    using nx fin by (intro frames_kept [OF D(8)]) (auto simp: sender_finish_def)
  moreover have "sd_base (sender_finish s) = sd_base s" "sd_next (sender_finish s) = sd_next s"
    "sd_fin_acked (sender_finish s) = sd_fin_acked s" "sd_held (sender_finish s) = sd_held s"
    by (simp_all add: sender_finish_def)
  ultimately show ?thesis
    using D sender_finish_ok [OF D(2)] fin by (intro flow_okI) simp_all
qed


lemma flow_woken:
  assumes "flow_ok s r f"
  shows "flow_ok (sender_woken s now) r f"
proof -
  note D = flow_okD [OF assms]
  have "frame_ok (fl_written f) (sender_woken s now) = frame_ok (fl_written f) s" by (auto simp: frame_ok_def fun_eq_iff)
  then show ?thesis using D sender_ok_woken [OF D(2), of now] by (intro flow_okI) simp_all
qed

lemma flow_sent:
  assumes ok: "flow_ok s r f" and g: "segment_ok (fl_written f) (sd_fin s) g b"
  shows "flow_ok (sender_transmitted s g now) r (f\<lparr>fl_wire := fl_wire f @ [(seg_off g, seg_fin g, b)]\<rparr>)"
proof -
  note D = flow_okD [OF ok]
  let ?s = "sender_transmitted s g now"
  have "sd_next s \<le> length (fl_written f)" using D(2) by (simp add: sender_ok_def)
  then have "list_all (frame_ok (fl_written f @ []) ?s) (fl_wire f)" by (intro frames_kept [OF D(8)]) simp_all
  moreover have "frame_ok (fl_written f) ?s (seg_off g, seg_fin g, b)"
    using g by (auto simp: frame_ok_def segment_ok_def)
  moreover have "receiver_cover r \<subseteq> {..<sd_next ?s}" using D(4) by auto
  ultimately show ?thesis
    using D sender_transmitted_ok [OF D(2) g] by (intro flow_okI) simp_all
qed

text \<open>A receiver that has only gained keeps every acknowledgement true.\<close>

lemma run_in_mono: "list_all (run_in base C) runs \<Longrightarrow> C \<subseteq> C' \<Longrightarrow> list_all (run_in base C') runs"
  by (auto simp: list_all_iff run_in_def)

lemma acks_kept:
  assumes "list_all (ack_ok r) acks" "rc_next r \<le> rc_next r'" "receiver_cover r \<subseteq> receiver_cover r'"
  shows "list_all (ack_ok r') acks"
  using assms(1) by (rule list.pred_mono_strong) (use assms(2,3) run_in_mono in \<open>auto simp: ack_ok_def\<close>)

lemma cover_placed: "receiver_cover r \<subseteq> receiver_cover r' \<Longrightarrow> list_all (\<lambda>(off, b). placed r' < off) (rc_held r') \<Longrightarrow> placed r \<le> placed r'"
  by (rule ccontr) (auto simp: receiver_cover_def held_cover_def list_all_iff not_le subset_iff dest!: spec [of _ "placed r'"])

lemma receiver_ok_above: "receiver_ok S T r \<Longrightarrow> list_all (\<lambda>(off, b). placed r < off) (rc_held r)"
  by (auto simp: receiver_ok_def placed_def list_all_iff)

lemma flow_deliver:
  assumes ok: "flow_ok s r f" and m: "(off, fin, b) \<in> set (fl_wire f)"
  obtains r' where "receiver_on_data capacity r off fin b = Some (Inr (), r')" "flow_ok s r' f" "rc_ack_owed r'"
    "off \<le> placed r \<Longrightarrow> length (rc_ready r) + length b \<le> FORWARD_WINDOW \<Longrightarrow> off + length b \<le> placed r'"
    "off \<le> placed r \<Longrightarrow> length (rc_ready r) + length b \<le> FORWARD_WINDOW \<Longrightarrow> fin \<Longrightarrow> rc_finished r'"
proof -
  note D = flow_okD [OF ok]
  have frame: "off + length b \<le> sd_next s" "b = take (length b) (drop off (fl_written f))" "fin \<Longrightarrow> sd_fin s = Some (off + length b)"
    using D(8) m by (auto simp: list_all_iff frame_ok_def)
  have "sd_next s \<le> length (fl_written f)" "sd_fin s \<noteq> None \<Longrightarrow> sd_fin s = Some (length (fl_written f))"
    using D(2) by (auto simp: sender_ok_def)
  with frame have "off + length b \<le> length (fl_written f)" "fin \<Longrightarrow> off + length b = length (fl_written f)" by auto
  from receiver_on_data_true [OF D(3,1) this(1) frame(2) this(2), of fin capacity] obtain r' where r':
    "receiver_on_data capacity r off fin b = Some (Inr (), r')" "receiver_ok (fl_written f) (fl_taken f) r'" "rc_ack_owed r'"
    "rc_fin r' \<noteq> None \<longleftrightarrow> rc_fin r \<noteq> None \<or> fin" "rc_next r \<le> rc_next r'"
    "receiver_cover r \<subseteq> receiver_cover r'" "receiver_cover r' \<subseteq> receiver_cover r \<union> {off..<off + length b}"
    "off \<le> placed r \<Longrightarrow> length (rc_ready r) + length b \<le> FORWARD_WINDOW \<Longrightarrow> off + length b \<le> placed r'"
    "off \<le> placed r \<Longrightarrow> length (rc_ready r) + length b \<le> FORWARD_WINDOW \<Longrightarrow> fin \<Longrightarrow> rc_finished r'" by blast
  have "receiver_cover r' \<subseteq> {..<sd_next s}" using r'(7) D(4) frame(1) by fastforce
  moreover have "placed r \<le> placed r'" by (rule cover_placed [OF r'(6) receiver_ok_above [OF r'(2)]])
  moreover have "rc_finished r'" if "rc_finished r"
  proof -
    have "length (fl_written f) < rc_next r'" using that D(3) r'(5) by (simp add: receiver_ok_def)
    then show ?thesis using r'(2) by (auto simp: receiver_ok_def placed_def split: if_splits)
  qed
  ultimately have "flow_ok s r' f"
    using D r' frame(3) acks_kept [OF D(9) r'(5,6)] run_in_mono [OF D(10) r'(6)] by (intro flow_okI) auto
  with r' show thesis by (intro that) auto
qed

lemma flow_consume:
  assumes "flow_ok s r f"
  shows "flow_ok s (receiver_consume r n) (f\<lparr>fl_taken := fl_taken f @ take n (rc_ready r)\<rparr>)"
proof -
  note D = flow_okD [OF assms]
  note C = receiver_ok_consume [OF D(3), of n]
  have "ack_ok (receiver_consume r n) = ack_ok r"
    by (auto simp: ack_ok_def fun_eq_iff C(2) receiver_consume_spec)
  moreover have "placed (receiver_consume r n) = placed r" by (simp add: placed_def receiver_consume_spec)
  ultimately show ?thesis using D C by (intro flow_okI) (simp_all add: receiver_consume_spec)
qed

lemma flow_poll_ack:
  assumes "flow_ok s r f"
  obtains a r' where "receiver_poll_ack r = Some (a, r')"
    "flow_ok s r' (f\<lparr>fl_acks := fl_acks f @ (case a of Some a \<Rightarrow> [a] | None \<Rightarrow> [])\<rparr>)"
    "rc_ack_owed r \<Longrightarrow> \<exists>x. a = Some x \<and> fa_off x = rc_next r"
    "placed r' = placed r" "rc_finished r' = rc_finished r" "rc_next r' = rc_next r"
proof (cases "rc_ack_owed r")
  case False
  then show thesis using assms by (intro that [of None r]) (simp_all add: receiver_poll_ack_eq)
next
  case True
  note D = flow_okD [OF assms]
  let ?a = "\<lparr>fa_off = rc_next r, fa_window = receiver_window r, fa_held = merged_runs (rc_held r) (rc_next r)\<rparr>"
  let ?r = "r\<lparr>rc_ack_owed := False, rc_runs := merged_runs (rc_held r) (rc_next r)\<rparr>"
  have same: "receiver_cover ?r = receiver_cover r" "placed ?r = placed r" "receiver_ok (fl_written f) (fl_taken f) ?r"
    using D(3) by (auto simp: receiver_cover_def placed_def receiver_ok_def)
  have "list_all (\<lambda>(off, b). off + length b \<le> u64_max) (rc_held r)"
    using D(1,3) by (auto simp: receiver_ok_def slices_of_def list_all_iff)
  from merged_runs_sound [OF this, of "rc_next r"]
  have "list_all (run_in (rc_next r) (receiver_cover r)) (sack_absolute (merged_runs (rc_held r) (rc_next r)) (rc_next r))"
    by (fastforce simp: list_all_iff run_in_def receiver_cover_def)
  then have "ack_ok ?r ?a" by (simp add: ack_ok_def same)
  moreover have "list_all (ack_ok ?r) (fl_acks f)" by (rule acks_kept [OF D(9)]) (simp_all add: same)
  ultimately have "flow_ok s ?r (f\<lparr>fl_acks := fl_acks f @ [?a]\<rparr>)"
    using D same by (intro flow_okI) simp_all
  then show thesis using True same by (intro that [of "Some ?a" ?r]) (simp_all add: receiver_poll_ack_eq)
qed

lemma flow_ack:
  assumes ok: "flow_ok s r f" and a: "a \<in> set (fl_acks f)"
    and ack: "sender_on_ack s (fa_off a) window (fa_held a) now = (res, s')"
  shows "res = Inr ()" "flow_ok s' r f"
    "sd_base s' = max (sd_base s) (min (fa_off a) (length (fl_written f)))"
    "sd_fin_acked s' = (sd_fin_acked s \<or> sd_fin s \<noteq> None \<and> length (fl_written f) < fa_off a)" "sd_fin s' = sd_fin s"
proof -
  note D = flow_okD [OF ok]
  note A = sender_on_ack_spec [OF D(2) ack]
  have ack_ok: "fa_off a \<le> rc_next r"
    "list_all (run_in (fa_off a) (receiver_cover r)) (sack_absolute (fa_held a) (fa_off a))"
    using D(9) a by (auto simp: list_all_iff ack_ok_def)
  have "y \<le> sd_next s" if "run_in base (receiver_cover r) (x, y)" for base x y
  proof -
    have "x < y" "{x..<y} \<subseteq> {..<sd_next s}" using that D(4) by (auto simp: run_in_def)
    moreover from this(1) have "y - 1 \<in> {x..<y}" by auto
    ultimately have "y - 1 \<in> {..<sd_next s}" by blast
    then show ?thesis by auto
  qed
  then have fits: "list_all (\<lambda>(a, b). b \<le> sd_next s') (sack_absolute (fa_held a) (fa_off a))"
    using ack_ok(2) unfolding A(4) by (auto simp: list_all_iff) (meson le_max_iff_disj)
  then show res: "res = Inr ()" using A(6) by simp
  show "sd_base s' = max (sd_base s) (min (fa_off a) (length (fl_written f)))" "sd_fin s' = sd_fin s"
    "sd_fin_acked s' = (sd_fin_acked s \<or> sd_fin s \<noteq> None \<and> length (fl_written f) < fa_off a)"
    by (fact A(3), fact A(2), fact A(5))
  have held: "list_all (run_in (sd_base s') (receiver_cover r)) (sd_held s')"
  proof (cases "fa_off a < sd_base s")
    case True
    then show ?thesis using D(10) A(3,7) res by (simp add: max_def)
  next
    case False
    have "sd_base s \<le> length (fl_written f)" using D(2) by (simp add: sender_ok_def)
    then have "sd_base s' \<le> fa_off a" using False by (simp add: A(3))
    then show ?thesis using ack_ok(2) False A(7) res by (auto simp: list_all_iff run_in_def)
  qed
  have r: "placed r \<le> length (fl_written f)" "rc_next r \<le> placed r \<or> rc_finished r \<and> placed r = length (fl_written f)"
    using D(3) by (auto simp: receiver_ok_def placed_def)
  have "sd_base s' \<le> placed r" using r ack_ok(1) D(6) by (auto simp: A(3))
  moreover have "sd_fin_acked s' \<Longrightarrow> rc_finished r" using r ack_ok(1) D(7) by (auto simp: A(5))
  moreover have "sd_next s \<le> length (fl_written f)" using D(2) by (simp add: sender_ok_def)
  then have "list_all (frame_ok (fl_written f @ []) s') (fl_wire f)"
    by (intro frames_kept [OF D(8)]) (simp_all add: A(2,4))
  moreover have "receiver_cover r \<subseteq> {..<sd_next s'}" using D(4) by (auto simp: A(4))
  ultimately show "flow_ok s' r f"
    using D A(1,2) held by (intro flow_okI) simp_all
qed


section \<open>Both directions\<close>

lemma other_simps [simp]: "other (other d) = d" "other d \<noteq> d" "d \<noteq> other d"
  by (cases d; simp)+

lemma side_cases: "e = d \<or> e = other d"
  by (cases d; cases e) simp_all

abbreviation "sender_at t d \<equiv> fs_send (tn_stream t d)"
abbreviation "receiver_at t d \<equiv> fs_recv (tn_stream t d)"

lemma put_simps [simp]:
  "tn_stream (put_stream t d st) e = (if e = d then st else tn_stream t e)"
  "tn_flow (put_flow t d f) e = (if e = d then f else tn_flow t e)"
  "tn_stream (put_flow t d f) = tn_stream t" "tn_flow (put_stream t d st) = tn_flow t"
  "tn_clock (put_stream t d st) = tn_clock t" "tn_clock (put_flow t d f) = tn_clock t"
  by (simp_all add: put_stream_def put_flow_def)

lemma put_flow_same [simp]: "put_flow (put_stream t d st) e (tn_flow t e) = put_stream t d st"
  by (simp add: put_flow_def put_stream_def)

lemma tunnel_okD: "tunnel_ok t \<Longrightarrow> flow_ok (sender_at t d) (receiver_at t (other d)) (tn_flow t d)"
  by (simp add: tunnel_ok_def)

lemma tunnel_okD_recv: "tunnel_ok t \<Longrightarrow> flow_ok (sender_at t (other d)) (receiver_at t d) (tn_flow t (other d))"
  using tunnel_okD [of t "other d"] by simp

lemma tunnel_ok_send:
  assumes "tunnel_ok t" "flow_ok s (receiver_at t (other d)) f"
  shows "tunnel_ok (put_flow (put_stream t d (tn_stream t d\<lparr>fs_send := s\<rparr>)) d f)"
  unfolding tunnel_ok_def
proof
  fix e
  show "flow_ok (sender_at (put_flow (put_stream t d (tn_stream t d\<lparr>fs_send := s\<rparr>)) d f) e)
      (receiver_at (put_flow (put_stream t d (tn_stream t d\<lparr>fs_send := s\<rparr>)) d f) (other e))
      (tn_flow (put_flow (put_stream t d (tn_stream t d\<lparr>fs_send := s\<rparr>)) d f) e)"
    using assms(2) tunnel_okD [OF assms(1), of e] side_cases [of e d] by auto
qed

lemma tunnel_ok_recv:
  assumes "tunnel_ok t" "flow_ok (sender_at t (other d)) r f"
  shows "tunnel_ok (put_flow (put_stream t d (tn_stream t d\<lparr>fs_recv := r\<rparr>)) (other d) f)"
  unfolding tunnel_ok_def
proof
  fix e
  show "flow_ok (sender_at (put_flow (put_stream t d (tn_stream t d\<lparr>fs_recv := r\<rparr>)) (other d) f) e)
      (receiver_at (put_flow (put_stream t d (tn_stream t d\<lparr>fs_recv := r\<rparr>)) (other d) f) (other e))
      (tn_flow (put_flow (put_stream t d (tn_stream t d\<lparr>fs_recv := r\<rparr>)) (other d) f) e)"
    using assms(2) tunnel_okD [OF assms(1), of e] side_cases [of e d] by auto
qed

lemma tunnel_ok_new: "tunnel_ok (tunnel_new now)"
  by (simp add: tunnel_ok_def tunnel_new_def stream_new_def flow_ok_new)

text \<open>The polls, with the sender they leave behind.\<close>

lemma tunnel_poll:
  fixes t :: tunnel and d :: side and wrap budget :: nat
  assumes ok: "tunnel_ok t"
  defines "s \<equiv> sender_at t d"
  obtains (idle) s1 where "sender_poll_transmit wrap s (tn_clock t) budget = Some ((None, []), s1)"
      "s1 = (if budget = 0 then s else sender_woken s (tn_clock t))"
      "tunnel_ok (put_stream t d (tn_stream t d\<lparr>fs_send := s1\<rparr>))"
      "0 < budget \<Longrightarrow> sender_owed s1 (timer_due (sd_timer s) (tn_clock t)) (min budget MAX_FORWARD_CHUNK) = OweNothing"
  | (sent) g b s1 where "sender_poll_transmit wrap s (tn_clock t) budget = Some ((Some g, b), s1)"
      "s1 = sender_woken s (tn_clock t)" "segment_ok (fl_written (tn_flow t d)) (sd_fin s) g b" "0 < budget"
      "seg_len g \<le> MAX_FORWARD_CHUNK"
      "seg_off g = owed_off (sender_owed s1 (timer_due (sd_timer s) (tn_clock t)) (min budget MAX_FORWARD_CHUNK))"
      "tunnel_ok (put_stream t d (tn_stream t d\<lparr>fs_send := s1\<rparr>))"
proof -
  note D = tunnel_okD [OF ok, of d]
  have S: "sender_ok (fl_written (tn_flow t d)) s" using flow_okD(2) [OF D] by (simp add: s_def)
  show thesis
  proof (cases "budget = 0")
    case True
    have "put_stream t d (tn_stream t d\<lparr>fs_send := s\<rparr>) = t" by (simp add: put_stream_def s_def)
    then show thesis using True ok by (intro idle [of s]) (simp_all add: sender_poll_transmit_def)
  next
    case False
    have ok1: "tunnel_ok (put_stream t d (tn_stream t d\<lparr>fs_send := sender_woken s (tn_clock t)\<rparr>))"
      using tunnel_ok_send [OF ok flow_woken [OF D, of "tn_clock t"]] by (simp add: s_def)
    from False have "0 < budget" by simp
    from S this show thesis
    proof (cases rule: sender_poll_cases [where now = "tn_clock t" and wrap = wrap])
      case 1
      then show thesis using False ok1 by (intro idle) simp_all
    next
      case (2 g b)
      then show thesis using False ok1 by (intro sent) simp_all
    qed
  qed
qed


lemma tunnel_send_ok:
  assumes ok: "tunnel_ok t"
  shows "\<exists>t'. tunnel_step t (TSend d wrap budget) = Some t' \<and> tunnel_ok t'"
  using ok
proof (cases rule: tunnel_poll [where t = t and d = d and wrap = wrap and budget = budget])
  case (idle s1)
  then show ?thesis by (simp add: stream_poll_transmit_def)
next
  case (sent g b s1)
  let ?t1 = "put_stream t d (tn_stream t d\<lparr>fs_send := s1\<rparr>)"
  have fin: "sd_fin s1 = sd_fin (sender_at t d)" by (simp add: sent(2))
  from flow_sent [OF tunnel_okD [OF sent(7), of d], of g b "tn_clock t"] sent(3) fin
  have "flow_ok (sender_transmitted s1 g (tn_clock t)) (receiver_at t (other d))
      (tn_flow t d\<lparr>fl_wire := fl_wire (tn_flow t d) @ [(seg_off g, seg_fin g, b)]\<rparr>)" by simp
  from tunnel_ok_send [OF ok this] sent(1) show ?thesis
    by (simp add: stream_poll_transmit_def stream_transmitted_def Let_def)
qed

lemma tunnel_step_ok:
  assumes ok: "tunnel_ok t"
  shows "\<exists>t'. tunnel_step t op = Some t' \<and> tunnel_ok t'"
proof (cases op)
  case (TWrite d bytes)
  show ?thesis
  proof (cases "u64_max < length (fl_written (tn_flow t d)) + length bytes")
    case False
    then have room: "length (fl_written (tn_flow t d)) + length bytes \<le> u64_max" by simp
    from flow_write [OF tunnel_okD [OF ok, of d] room, of "tn_clock t"] obtain k s' where
      "sender_write (sender_at t d) bytes (tn_clock t) = Some (k, s')"
      "flow_ok s' (receiver_at t (other d)) (tn_flow t d\<lparr>fl_written := fl_written (tn_flow t d) @ take k bytes\<rparr>)" by blast
    with False tunnel_ok_send [OF ok this(2)] show ?thesis by (simp add: TWrite stream_write_def Let_def)
  qed (use ok TWrite in \<open>simp add: Let_def\<close>)
next
  case (TFinish d)
  from tunnel_ok_send [OF ok flow_finish [OF tunnel_okD [OF ok, of d]]] show ?thesis
    by (simp add: TFinish stream_finish_def)
next
  case (TSend d wrap budget)
  then show ?thesis using tunnel_send_ok [OF ok] by simp
next
  case (TRefuse d wrap budget)
  from ok show ?thesis
    by (cases rule: tunnel_poll [where t = t and d = d and wrap = wrap and budget = budget]) (simp_all add: TRefuse stream_poll_transmit_def)
next
  case (TDeliver d i capacity)
  let ?wire = "fl_wire (tn_flow t (other d))"
  show ?thesis
  proof (cases "length ?wire \<le> i")
    case False
    obtain off fin b where m: "?wire ! i = (off, fin, b)" by (cases "?wire ! i") auto
    then have "(off, fin, b) \<in> set ?wire" using False nth_mem [of i ?wire] by simp
    from flow_deliver [OF tunnel_okD_recv [OF ok] this, of capacity] obtain r' where
      "receiver_on_data capacity (receiver_at t d) off fin b = Some (Inr (), r')"
      "flow_ok (sender_at t (other d)) r' (tn_flow t (other d))" by blast
    with False m tunnel_ok_recv [OF ok this(2)] show ?thesis
      by (simp add: TDeliver stream_on_data_def Let_def)
  qed (use ok TDeliver in \<open>simp add: Let_def\<close>)
next
  case (TConsume d n)
  from tunnel_ok_recv [OF ok flow_consume [OF tunnel_okD_recv [OF ok]]] show ?thesis
    by (simp add: TConsume stream_consume_def stream_readable_def Let_def)
next
  case (TPollAck d)
  from flow_poll_ack [OF tunnel_okD_recv [OF ok, of d]] obtain a r' where
    "receiver_poll_ack (receiver_at t d) = Some (a, r')"
    "flow_ok (sender_at t (other d)) r' (tn_flow t (other d)\<lparr>fl_acks := fl_acks (tn_flow t (other d)) @
       (case a of Some a \<Rightarrow> [a] | None \<Rightarrow> [])\<rparr>)" by blast
  with tunnel_ok_recv [OF ok this(2)] show ?thesis by (simp add: TPollAck stream_poll_ack_def Let_def)
next
  case (TAck d i)
  let ?acks = "fl_acks (tn_flow t d)"
  show ?thesis
  proof (cases "length ?acks \<le> i")
    case False
    then have a: "?acks ! i \<in> set ?acks" by simp
    obtain res s' where ack: "sender_on_ack (sender_at t d) (fa_off (?acks ! i)) (fa_window (?acks ! i)) (fa_held (?acks ! i))
      (tn_clock t) = (res, s')" by fastforce
    note acked = flow_ack [OF tunnel_okD [OF ok] a ack]
    from acked(1) tunnel_ok_send [OF ok acked(2)] have
      "res = Inr ()" "tunnel_ok (put_stream t d (tn_stream t d\<lparr>fs_send := s'\<rparr>))" by simp_all
    with False ack show ?thesis by (simp add: TAck stream_on_ack_def Let_def)
  qed (use ok TAck in \<open>simp add: Let_def\<close>)
next
  case (TWait dt)
  then show ?thesis using ok by (simp add: tunnel_ok_def)
qed

text \<open>The tunnel is a system none of whose operations fails.\<close>

interpretation link: invariant_system tunnel_step tunnel_ok "\<lambda>_. True"
  by unfold_locales (rule tunnel_step_ok)

end
