(* ===== verification/Forward_Liveness.thy ===== *)
theory Forward_Liveness
  imports Forward_Stream
begin

text \<open>
  That a forwarded stream moves. \<open>sender_live\<close> is what a sender keeps as long as every frame it
  polled was taken by the sink: where anything is owed, the retransmission timer is running
  or the end is about to be sent. From there an exchange in which nothing is lost (one wait,
  one read, one frame, one acknowledgement) always confirms at least one more byte, or the end.
\<close>

section \<open>A sender that will speak again\<close>

definition sender_live :: "bytes \<Rightarrow> instant \<Rightarrow> sender \<Rightarrow> bool" where
  "sender_live S clock s \<longleftrightarrow>
     (case tm_waiting (sd_timer s) of
        Some since \<Rightarrow> since \<le> clock
      | None \<Rightarrow> sd_base s = length S \<and> (sd_fin s = None \<or> sd_fin_acked s \<or> \<not> sd_fin_sent s))"

definition tunnel_live :: "tunnel \<Rightarrow> bool" where
  "tunnel_live t \<longleftrightarrow> (\<forall>d. sender_live (fl_written (tn_flow t d)) (tn_clock t) (sender_at t d))"

fun never_refused :: "tunnel_op \<Rightarrow> bool" where
  "never_refused (TRefuse d wrap budget) = False"
| "never_refused _ = True"

lemma sender_live_new: "sender_live [] clock sender_new"
  by (simp add: sender_live_def sender_new_def)

lemma unheld_above:
  assumes "list_all (\<lambda>run. off < fst run) (sd_held s)"
  shows "sender_unheld s off = off"
proof -
  have "foldl (\<lambda>off (start, end). if start \<le> off \<and> off < end then end else off) off runs = off"
    if "list_all (\<lambda>run. off < fst run) runs" for runs :: "(nat \<times> nat) list"
    using that by (induction runs) (auto simp: split_beta)
  then show ?thesis using assms by (simp add: sender_unheld_def)
qed

text \<open>Walking from the base, something is owed at the base as long as anything is awaited.\<close>

lemma owed_from_base:
  assumes ok: "sender_ok S s" and cursor: "sd_cursor s = sd_base s"
    and held: "list_all (\<lambda>run. sd_base s < fst run) (sd_held s)"
    and fin: "\<not> sd_fin_sent s" and await: "sender_awaiting_ack s"
    and woken: "woken \<or> sd_base s = length S"
  shows "sender_owed s woken budget \<noteq> OweNothing" "owed_off (sender_owed s woken budget) = sd_base s"
proof -
  have "end": "sender_end s = length S" by (rule sender_ok_end [OF ok])
  have order: "sd_base s \<le> sd_next s" "sd_next s \<le> length S" "sd_fin s \<noteq> None \<Longrightarrow> sd_fin s = Some (length S)"
    using ok by (auto simp: sender_ok_def)
  have unheld: "sender_unheld s (sd_base s) = sd_base s" by (rule unheld_above [OF held])
  have "sender_owed s woken budget \<noteq> OweNothing \<and> owed_off (sender_owed s woken budget) = sd_base s"
  proof (cases "sd_base s < sd_next s")
    case True
    then show ?thesis by (simp add: sender_owed_def sender_repair_def cursor unheld Let_def)
  next
    case False
    then have at: "sd_next s = sd_base s" "sender_repair s budget = None"
      using order(1) by (simp_all add: sender_repair_def cursor)
    show ?thesis
    proof (cases "sd_base s < length S")
      case True
      then show ?thesis using woken by (simp add: sender_owed_def at "end" Let_def)
    next
      case False
      then have "sd_base s = length S" using order(1,2) by simp
      moreover from this have "sd_fin s \<noteq> None" "\<not> sd_fin_acked s" using await by (simp_all add: sender_awaiting_ack_def "end")
      moreover from this(1) have "sd_fin s = Some (length S)" by (rule order(3))
      ultimately show ?thesis using fin by (simp add: sender_owed_def at "end" Let_def)
    qed
  qed
  then show "sender_owed s woken budget \<noteq> OweNothing" "owed_off (sender_owed s woken budget) = sd_base s" by simp_all
qed

lemma held_above: "list_all (run_in base C) runs \<Longrightarrow> list_all (\<lambda>run. base < fst run) runs"
  by (auto simp: list_all_iff run_in_def)

lemma sender_live_later: "sender_live S clock s \<Longrightarrow> clock \<le> later \<Longrightarrow> sender_live S later s"
  by (auto simp: sender_live_def split: option.splits)

text \<open>A poll finds the sender silent only where nothing is awaited.\<close>

lemma sender_poll_live:
  assumes flow: "flow_ok s r f" and live: "sender_live (fl_written f) now s"
    and idle: "sender_owed (sender_woken s now) (timer_due (sd_timer s) now) budget = OweNothing"
  shows "sender_live (fl_written f) now (sender_woken s now)"
proof (cases "timer_due (sd_timer s) now")
  case False
  then show ?thesis using live by (simp add: sender_woken_def)
next
  case True
  note D = flow_okD [OF flow_woken [OF flow, of now]]
  have woken: "sd_cursor (sender_woken s now) = sd_base (sender_woken s now)" "\<not> sd_fin_sent (sender_woken s now)"
    "tm_waiting (sd_timer (sender_woken s now)) = None"
    using True by (simp_all add: sender_woken_def)
  have "\<not> sender_awaiting_ack (sender_woken s now)"
    using owed_from_base(1) [OF D(2) woken(1) held_above [OF D(10)] woken(2), of True budget] idle True by auto
  moreover have "sd_base (sender_woken s now) \<le> length (fl_written f)" using D(2) by (simp add: sender_ok_def)
  ultimately show ?thesis
    using woken sender_ok_end [OF D(2)] by (auto simp: sender_live_def sender_awaiting_ack_def)
qed

lemma sender_ack_live:
  assumes ok: "sender_ok S s" and live: "sender_live S now s"
    and ack: "sender_on_ack s off window held now = (Inr (), s')"
  shows "sender_live S now s'"
proof (cases "off < sd_base s")
  case True
  then show ?thesis using ack live by (simp add: sender_on_ack_def)
next
  case False
  define s2 where "s2 = sender_advance s off\<lparr>sd_held := sack_absolute held off, sd_window := window\<rparr>"
  obtain progress timer where t: "timer_acknowledged (sd_timer s2) off now (sender_awaiting_ack s2) = (progress, timer)"
    by fastforce
  have "tm_waiting timer = (if sender_awaiting_ack s2 then Some now else None)"
    using timer_waiting_simps(5) [of "sd_timer s2" off now "sender_awaiting_ack s2"] by (simp add: t)
  moreover have "s' = s2\<lparr>sd_timer := timer\<rparr> \<or> s' = s2\<lparr>sd_timer := timer, sd_cursor := sd_base s2, sd_fin_sent := False\<rparr>"
    using ack False t by (auto simp: sender_on_ack_def s2_def [symmetric] Let_def split: if_splits)
  moreover have "sender_end s2 = length S" "sd_base s2 \<le> length S"
    using sender_advance_spec [OF ok, of off] False sender_ok_end [of S "sender_advance s off"]
    by (auto simp: s2_def sender_end_def)
  ultimately show ?thesis
    by (auto simp: sender_live_def sender_awaiting_ack_def split: if_splits)
qed


lemma tunnel_live_step:
  assumes ok: "tunnel_ok t" and live: "tunnel_live t" and op: "never_refused op"
  shows "\<exists>t'. tunnel_step t op = Some t' \<and> tunnel_ok t' \<and> tunnel_live t'"
proof -
  obtain t' where step: "tunnel_step t op = Some t'" "tunnel_ok t'" using tunnel_step_ok [OF ok] by blast
  have L: "sender_live (fl_written (tn_flow t d)) (tn_clock t) (sender_at t d)" for d
    using live by (simp add: tunnel_live_def)
  have "tunnel_live t'"
  proof (cases op)
    case (TWrite d bytes)
    show ?thesis
    proof (cases "u64_max < length (fl_written (tn_flow t d)) + length bytes")
      case False
      then have room: "length (fl_written (tn_flow t d)) + length bytes \<le> u64_max" by simp
      from flow_write [OF tunnel_okD [OF ok, of d] room, of "tn_clock t"] obtain k s' where w:
        "sender_write (sender_at t d) bytes (tn_clock t) = Some (k, s')"
        "sd_base s' = sd_base (sender_at t d)" "sd_fin s' = sd_fin (sender_at t d)"
        "sd_fin_sent s' = sd_fin_sent (sender_at t d)" "sd_fin_acked s' = sd_fin_acked (sender_at t d)"
        "tm_waiting (sd_timer s') = (if 0 < k then Some (case tm_waiting (sd_timer (sender_at t d)) of
            None \<Rightarrow> tn_clock t | Some since \<Rightarrow> since) else tm_waiting (sd_timer (sender_at t d)))" by metis
      have "sender_live (fl_written (tn_flow t d) @ take k bytes) (tn_clock t) s'"
        using L [of d] w by (auto simp: sender_live_def split: option.splits if_splits)
      then show ?thesis using step(1) False w(1) L by (auto simp: TWrite stream_write_def Let_def tunnel_live_def)
    qed (use step(1) live TWrite in \<open>simp add: Let_def\<close>)
  next
    case (TFinish d)
    have "sender_live (fl_written (tn_flow t d)) (tn_clock t) (sender_finish (sender_at t d))"
      using L [of d] flow_okD(2) [OF tunnel_okD [OF ok, of d]]
      by (auto simp: sender_live_def sender_finish_def sender_ok_def split: option.splits)
    then show ?thesis using step(1) L by (auto simp: TFinish stream_finish_def tunnel_live_def)
  next
    case (TSend d wrap budget)
    from ok show ?thesis
    proof (cases rule: tunnel_poll [where t = t and d = d and wrap = wrap and budget = budget])
      case (idle s1)
      then have "sender_live (fl_written (tn_flow t d)) (tn_clock t) s1"
        using L [of d] sender_poll_live [OF tunnel_okD [OF ok, of d] L] by auto
      then show ?thesis using step(1) idle(1) L by (auto simp: TSend stream_poll_transmit_def tunnel_live_def)
    next
      case (sent g b s1)
      have "tm_waiting (sd_timer s1) = None \<or> s1 = sender_at t d" by (simp add: sent(2) sender_woken_def)
      then have "sender_live (fl_written (tn_flow t d)) (tn_clock t) (sender_transmitted s1 g (tn_clock t))"
        using L [of d] by (auto simp: sender_live_def sender_transmitted_def Let_def split: option.splits)
      then show ?thesis using step(1) sent(1) L
        by (auto simp: TSend stream_poll_transmit_def stream_transmitted_def tunnel_live_def Let_def)
    qed
  next
    case (TAck d i)
    let ?acks = "fl_acks (tn_flow t d)"
    show ?thesis
    proof (cases "length ?acks \<le> i")
      case False
      then have a: "?acks ! i \<in> set ?acks" by simp
      obtain res s' where ack: "sender_on_ack (sender_at t d) (fa_off (?acks ! i)) (fa_window (?acks ! i)) (fa_held (?acks ! i))
        (tn_clock t) = (res, s')" by fastforce
      have "res = Inr ()" by (rule flow_ack(1) [OF tunnel_okD [OF ok] a ack])
      with ack have "sender_live (fl_written (tn_flow t d)) (tn_clock t) s'"
        using sender_ack_live [OF flow_okD(2) [OF tunnel_okD [OF ok, of d]] L] by simp
      then show ?thesis using step(1) False ack \<open>res = Inr ()\<close> L
        by (auto simp: TAck stream_on_ack_def Let_def tunnel_live_def)
    qed (use step(1) live TAck in \<open>simp add: Let_def\<close>)
  next
    case (TDeliver d i capacity)
    then show ?thesis using step(1) L
      by (auto simp: Let_def tunnel_live_def stream_on_data_def split: if_splits prod.splits option.splits sum.splits)
  next
    case (TConsume d n)
    then show ?thesis using step(1) L by (auto simp: Let_def tunnel_live_def stream_consume_def)
  next
    case (TPollAck d)
    then show ?thesis using step(1) L
      by (auto simp: Let_def tunnel_live_def stream_poll_ack_def)
  next
    case (TWait dt)
    then show ?thesis using step(1) L sender_live_later [OF L] by (auto simp: tunnel_live_def)
  qed (use op in simp)
  with step show ?thesis by blast
qed

interpretation flowing: invariant_system tunnel_step "\<lambda>t. tunnel_ok t \<and> tunnel_live t" never_refused
  by unfold_locales (use tunnel_live_step in blast)

lemma tunnel_live_new: "tunnel_live (tunnel_new now)"
  by (simp add: tunnel_live_def tunnel_new_def stream_new_def flow_new_def sender_live_new)


section \<open>One exchange in which nothing is lost\<close>

definition owing :: "sender \<Rightarrow> nat" where
  "owing s = length (sd_buffer s) + (if sd_fin s \<noteq> None \<and> \<not> sd_fin_acked s then 1 else 0)"

lemma owing_awaiting: "0 < owing s \<longleftrightarrow> sender_awaiting_ack s"
  by (auto simp: owing_def sender_awaiting_ack_def sender_end_def)

text \<open>Two seconds on, the first frame out starts at the base.\<close>

lemma sender_speaks:
  assumes flow: "flow_ok s r f" and live: "sender_live (fl_written f) clock s" and later: "clock + TIMER_MAX \<le> now"
    and await: "sender_awaiting_ack s" and budget: "0 < budget"
  obtains g b where "sender_poll_transmit wrap s now budget = Some ((Some g, b), sender_woken s now)"
    "segment_ok (fl_written f) (sd_fin s) g b" "seg_off g = sd_base s" "seg_len g \<le> MAX_FORWARD_CHUNK"
proof -
  note D = flow_okD [OF flow]
  note D1 = flow_okD [OF flow_woken [OF flow, of now]]
  let ?s = "sender_woken s now"
  have order: "sd_base s \<le> sd_cursor s" "sd_cursor s \<le> sd_next s" "sd_next s \<le> length (fl_written f)"
    using D(2) by (simp_all add: sender_ok_def)
  have "sd_cursor ?s = sd_base ?s \<and> \<not> sd_fin_sent ?s \<and> (timer_due (sd_timer s) now \<or> sd_base ?s = length (fl_written f))"
  proof (cases "tm_waiting (sd_timer s)")
    case None
    then have "sd_base s = length (fl_written f)" "sd_fin s = None \<or> sd_fin_acked s \<or> \<not> sd_fin_sent s"
      using live by (simp_all add: sender_live_def)
    moreover from this(1) have "sd_fin s \<noteq> None" "\<not> sd_fin_acked s"
      using await sender_ok_end [OF D(2)] by (auto simp: sender_awaiting_ack_def)
    ultimately show ?thesis using order None by (simp add: sender_woken_def timer_due_def)
  next
    case (Some since)
    then have "timer_due (sd_timer s) now"
      using live later by (intro timer_due_after_max [OF Some]) (simp add: sender_live_def)
    then show ?thesis by (simp add: sender_woken_def)
  qed
  then have base: "sd_cursor ?s = sd_base ?s" "\<not> sd_fin_sent ?s"
    "timer_due (sd_timer s) now \<or> sd_base ?s = length (fl_written f)" by simp_all
  have "sender_awaiting_ack ?s" using await by (simp add: sender_awaiting_ack_def)
  note owed = owed_from_base [OF D1(2) base(1) held_above [OF D1(10)] base(2) this base(3)]
  from D(2) budget show thesis
  proof (cases rule: sender_poll_cases [where now = now and wrap = wrap])
    case 1
    then show thesis using owed(1) by simp
  next
    case (2 g b)
    then show thesis using owed(2) by (intro that [of g b]) simp_all
  qed
qed

lemma flow_round:
  assumes flow: "flow_ok s r f" and live: "sender_live (fl_written f) clock s" and later: "clock + TIMER_MAX \<le> now"
    and await: "0 < owing s" and budget: "0 < budget"
  obtains g b r1 a r2 s3 where
    "sender_poll_transmit wrap s now budget = Some ((Some g, b), sender_woken s now)"
    "receiver_on_data capacity (receiver_consume r (length (rc_ready r))) (seg_off g) (seg_fin g) b = Some (Inr (), r1)"
    "receiver_poll_ack r1 = Some (Some a, r2)"
    "sender_on_ack (sender_transmitted (sender_woken s now) g now) (fa_off a) (fa_window a) (fa_held a) now = (Inr (), s3)"
    "owing s3 < owing s" "sd_fin s3 = sd_fin s"
proof -
  let ?f1 = "f\<lparr>fl_taken := fl_taken f @ take (length (rc_ready r)) (rc_ready r)\<rparr>"
  let ?r0 = "receiver_consume r (length (rc_ready r))"
  from sender_speaks [OF flow live later] await budget obtain g b where
    g: "sender_poll_transmit wrap s now budget = Some ((Some g, b), sender_woken s now)"
      "segment_ok (fl_written f) (sd_fin s) g b" "seg_off g = sd_base s" "seg_len g \<le> MAX_FORWARD_CHUNK"
    unfolding owing_awaiting by metis
  let ?s = "sender_transmitted (sender_woken s now) g now"
  let ?f2 = "?f1\<lparr>fl_wire := fl_wire f @ [(seg_off g, seg_fin g, b)]\<rparr>"
  have "flow_ok ?s ?r0 ?f2"
    using flow_sent [OF flow_woken [OF flow_consume [OF flow]], of "length (rc_ready r)" now g b now] g(2) by simp
  then have flow2: "flow_ok ?s ?r0 ?f2" "(seg_off g, seg_fin g, b) \<in> set (fl_wire ?f2)" by simp_all
  have len: "length b = seg_len g" "seg_fin g \<longleftrightarrow> sd_fin s = Some (seg_off g + seg_len g)" "0 < seg_len g \<or> seg_fin g"
    using g(2) unfolding segment_ok_def by blast+
  have near: "seg_off g \<le> placed ?r0" "length (rc_ready ?r0) + length b \<le> FORWARD_WINDOW"
    using flow_okD(6) [OF flow] g(3,4) len(1) by (auto simp: placed_def receiver_consume_spec forward_consts)
  from flow_deliver [OF flow2, of capacity] near obtain r1 where
    r1: "receiver_on_data capacity ?r0 (seg_off g) (seg_fin g) b = Some (Inr (), r1)" "flow_ok ?s r1 ?f2" "rc_ack_owed r1"
      "seg_off g + length b \<le> placed r1" "seg_fin g \<Longrightarrow> rc_finished r1" by metis
  from flow_poll_ack [OF r1(2)] obtain a0 r2 where
    a0: "receiver_poll_ack r1 = Some (a0, r2)"
      "flow_ok ?s r2 (?f2\<lparr>fl_acks := fl_acks ?f2 @ (case a0 of Some a \<Rightarrow> [a] | None \<Rightarrow> [])\<rparr>)"
      "rc_ack_owed r1 \<Longrightarrow> \<exists>x. a0 = Some x \<and> fa_off x = rc_next r1" by blast
  from a0(3) [OF r1(3)] obtain a where a0_eq: "a0 = Some a" and a_off: "fa_off a = rc_next r1" by blast
  have a: "receiver_poll_ack r1 = Some (Some a, r2)" "flow_ok ?s r2 (?f2\<lparr>fl_acks := fl_acks f @ [a]\<rparr>)" "fa_off a = rc_next r1"
    using a0(1,2) a_off by (simp_all add: a0_eq)
  let ?f3 = "?f2\<lparr>fl_acks := fl_acks f @ [a]\<rparr>"
  obtain res s3 where ack: "sender_on_ack ?s (fa_off a) (fa_window a) (fa_held a) now = (res, s3)" by fastforce
  have mem: "a \<in> set (fl_acks ?f3)" by simp
  note A = flow_ack [OF a(2) mem ack]
  let ?W = "fl_written f"
  have base: "sd_base s3 = max (sd_base s) (min (rc_next r1) (length ?W))" using A(3) a(3) by simp
  have ok3: "sender_ok ?W s3" using flow_okD(2) [OF A(2)] by simp
  have bufs: "length (sd_buffer s) = length ?W - sd_base s" "length (sd_buffer s3) = length ?W - sd_base s3"
    using flow_okD(2) [OF flow] ok3 by (simp_all add: sender_ok_def)
  have le: "sd_base s \<le> length ?W" using flow_okD(2) [OF flow] by (simp add: sender_ok_def)
  have r1': "placed r1 \<le> length ?W" "placed r1 \<le> rc_next r1" "rc_finished r1 \<Longrightarrow> rc_next r1 = length ?W + 1"
    using flow_okD(3) [OF r1(2)] by (auto simp: receiver_ok_def placed_def)
  have owing3: "owing s3 = (length ?W - sd_base s3) + (if sd_fin s \<noteq> None \<and> \<not> sd_fin_acked s \<and> \<not> length ?W < rc_next r1 then 1 else 0)"
    using A(4,5) a(3) by (auto simp: owing_def bufs)
  have owing0: "owing s = (length ?W - sd_base s) + (if sd_fin s \<noteq> None \<and> \<not> sd_fin_acked s then 1 else 0)"
    by (simp add: owing_def bufs)
  have "owing s3 < owing s"
  proof (cases "0 < seg_len g")
    case True
    then have "sd_base s < sd_base s3" "sd_base s < length ?W"
      using r1(4) r1' g(3) len(1) unfolding base by auto
    then show ?thesis unfolding owing3 owing0 by auto
  next
    case False
    then have fin: "seg_fin g" using len(3) by simp
    then have "rc_next r1 = length ?W + 1" using r1(5) r1'(3) by simp
    moreover have "sd_fin s \<noteq> None" using fin len(2) by auto
    moreover have "sd_base s \<le> sd_base s3" by (simp add: base)
    moreover have "sd_base s = length ?W"
      using fin len(2) False g(3) flow_okD(2) [OF flow] by (auto simp: sender_ok_def)
    moreover have "\<not> sd_fin_acked s"
      using await calculation(4) by (auto simp: owing0 split: if_splits)
    ultimately show ?thesis unfolding owing3 owing0 by simp
  qed
  with g(1) r1(1) a(1) ack A(1,5) show thesis by (intro that [of g b r1 a r2 s3]) auto
qed


text \<open>The exchange as operations of the tunnel: wait out the timer, read what is there, one
  frame, its arrival, the acknowledgement it draws, and that acknowledgement's arrival.\<close>

definition round_ops :: "side \<Rightarrow> nat \<Rightarrow> nat \<Rightarrow> (nat \<Rightarrow> nat) \<Rightarrow> tunnel \<Rightarrow> tunnel_op list" where
  "round_ops d wrap budget capacity t =
     [TWait TIMER_MAX, TConsume (other d) (length (stream_readable (tn_stream t (other d)))), TSend d wrap budget,
      TDeliver (other d) (length (fl_wire (tn_flow t d))) capacity, TPollAck (other d),
      TAck d (length (fl_acks (tn_flow t d)))]"

fun rounds :: "side \<Rightarrow> nat \<Rightarrow> nat \<Rightarrow> (nat \<Rightarrow> nat) \<Rightarrow> nat \<Rightarrow> tunnel \<Rightarrow> tunnel option" where
  "rounds d wrap budget capacity 0 t = Some t"
| "rounds d wrap budget capacity (Suc n) t =
     (case run_ops tunnel_step t (round_ops d wrap budget capacity t) of
        None \<Rightarrow> None
      | Some t' \<Rightarrow> rounds d wrap budget capacity n t')"

lemma round_total:
  assumes "tunnel_ok t" "tunnel_live t"
  shows "\<exists>t'. run_ops tunnel_step t (round_ops d wrap budget capacity t) = Some t' \<and> tunnel_ok t' \<and> tunnel_live t'"
  using flowing.run_total [of t "round_ops d wrap budget capacity t"] assms by (simp add: round_ops_def)

lemma round_progress:
  assumes ok: "tunnel_ok t" and live: "tunnel_live t" and await: "0 < owing (sender_at t d)" and budget: "0 < budget"
    and run: "run_ops tunnel_step t (round_ops d wrap budget capacity t) = Some t'"
  shows "owing (sender_at t' d) < owing (sender_at t d) \<and> sd_fin (sender_at t' d) = sd_fin (sender_at t d) \<and>
    fl_written (tn_flow t' d) = fl_written (tn_flow t d)"
proof -
  let ?now = "tn_clock t + TIMER_MAX" and ?e = "other d"
  have L: "sender_live (fl_written (tn_flow t d)) (tn_clock t) (sender_at t d)" using live by (simp add: tunnel_live_def)
  from flow_round [OF tunnel_okD [OF ok, of d] L le_refl await budget, of wrap capacity] obtain g b r1 a r2 s3 where
    R: "sender_poll_transmit wrap (sender_at t d) ?now budget = Some ((Some g, b), sender_woken (sender_at t d) ?now)"
      "receiver_on_data capacity (receiver_consume (receiver_at t ?e) (length (rc_ready (receiver_at t ?e))))
         (seg_off g) (seg_fin g) b = Some (Inr (), r1)"
      "receiver_poll_ack r1 = Some (Some a, r2)"
      "sender_on_ack (sender_transmitted (sender_woken (sender_at t d) ?now) g ?now) (fa_off a) (fa_window a) (fa_held a) ?now =
         (Inr (), s3)"
      "owing s3 < owing (sender_at t d)" "sd_fin s3 = sd_fin (sender_at t d)" by metis
  let ?t1 = "t\<lparr>tn_clock := ?now\<rparr>"
  obtain t2 where t2: "tunnel_step ?t1 (TConsume ?e (length (rc_ready (receiver_at t ?e)))) = Some t2"
    "sender_at t2 d = sender_at t d" "receiver_at t2 ?e = receiver_consume (receiver_at t ?e) (length (rc_ready (receiver_at t ?e)))"
    "fl_wire (tn_flow t2 d) = fl_wire (tn_flow t d)" "fl_acks (tn_flow t2 d) = fl_acks (tn_flow t d)"
    "fl_written (tn_flow t2 d) = fl_written (tn_flow t d)" "tn_clock t2 = ?now"
    by (simp add: stream_consume_def stream_readable_def Let_def)
  obtain t3 where t3: "tunnel_step t2 (TSend d wrap budget) = Some t3"
    "sender_at t3 d = sender_transmitted (sender_woken (sender_at t d) ?now) g ?now" "receiver_at t3 ?e = receiver_at t2 ?e"
    "fl_wire (tn_flow t3 d) = fl_wire (tn_flow t d) @ [(seg_off g, seg_fin g, b)]" "fl_acks (tn_flow t3 d) = fl_acks (tn_flow t d)"
    "fl_written (tn_flow t3 d) = fl_written (tn_flow t d)" "tn_clock t3 = ?now"
    using R(1) t2(2-) by (simp add: stream_poll_transmit_def stream_transmitted_def Let_def)
  obtain t4 where t4: "tunnel_step t3 (TDeliver ?e (length (fl_wire (tn_flow t d))) capacity) = Some t4"
    "sender_at t4 d = sender_at t3 d" "receiver_at t4 ?e = r1" "fl_acks (tn_flow t4 d) = fl_acks (tn_flow t d)"
    "fl_written (tn_flow t4 d) = fl_written (tn_flow t d)" "tn_clock t4 = ?now"
    using R(2) t3(2-) t2(3) by (simp add: stream_on_data_def Let_def nth_append)
  obtain t5 where t5: "tunnel_step t4 (TPollAck ?e) = Some t5" "sender_at t5 d = sender_at t3 d"
    "fl_acks (tn_flow t5 d) = fl_acks (tn_flow t d) @ [a]" "fl_written (tn_flow t5 d) = fl_written (tn_flow t d)" "tn_clock t5 = ?now"
    using R(3) t4(2-) by (simp add: stream_poll_ack_def Let_def)
  obtain t6 where t6: "tunnel_step t5 (TAck d (length (fl_acks (tn_flow t d)))) = Some t6" "sender_at t6 d = s3"
    "fl_written (tn_flow t6 d) = fl_written (tn_flow t d)"
    using R(4) t5(2-) t3(2) by (simp add: stream_on_ack_def Let_def nth_append)
  have "t' = t6"
    using run t2(1) t3(1) t4(1) t5(1) t6(1) by (simp add: round_ops_def stream_readable_def del: tunnel_step.simps(3-8))
  with R(5,6) t6(2,3) show ?thesis by simp
qed

lemma rounds_deliver:
  assumes "tunnel_ok t" "tunnel_live t" "0 < budget"
  shows "\<exists>n t'. n \<le> owing (sender_at t d) \<and> rounds d wrap budget capacity n t = Some t' \<and> tunnel_ok t' \<and>
    owing (sender_at t' d) = 0 \<and> sd_fin (sender_at t' d) = sd_fin (sender_at t d) \<and>
    fl_written (tn_flow t' d) = fl_written (tn_flow t d)"
  using assms
proof (induction "owing (sender_at t d)" arbitrary: t rule: less_induct)
  case less
  show ?case
  proof (cases "owing (sender_at t d) = 0")
    case True
    then show ?thesis using less.prems by (intro exI [of _ 0] exI [of _ t]) simp
  next
    case False
    from round_total [OF less.prems(1,2)] obtain t1 where
      t1: "run_ops tunnel_step t (round_ops d wrap budget capacity t) = Some t1" "tunnel_ok t1" "tunnel_live t1" by blast
    have p: "owing (sender_at t1 d) < owing (sender_at t d)" "sd_fin (sender_at t1 d) = sd_fin (sender_at t d)"
      "fl_written (tn_flow t1 d) = fl_written (tn_flow t d)"
      using round_progress [OF less.prems(1,2) _ less.prems(3) t1(1)] False by simp_all
    from less.hyps [OF p(1) t1(2,3) less.prems(3)] obtain n t' where
      "n \<le> owing (sender_at t1 d)" "rounds d wrap budget capacity n t1 = Some t'" "tunnel_ok t'"
      "owing (sender_at t' d) = 0" "sd_fin (sender_at t' d) = sd_fin (sender_at t1 d)"
      "fl_written (tn_flow t' d) = fl_written (tn_flow t1 d)" by blast
    then show ?thesis using t1(1) p by (intro exI [of _ "Suc n"] exI [of _ t']) simp
  qed
qed

text \<open>A sender that owes nothing has been confirmed in everything.\<close>

lemma owing_nothing:
  assumes ok: "flow_ok s r f" and none: "owing s = 0"
  shows "fl_taken f @ rc_ready r = fl_written f" "sd_fin s \<noteq> None \<Longrightarrow> rc_finished r \<and> sender_is_done s"
proof -
  note D = flow_okD [OF ok]
  have "sd_buffer s = []" using none by (simp add: owing_def)
  then have "sd_base s = length (fl_written f)" using D(2) by (auto simp: sender_ok_def)
  then have "placed r = length (fl_written f)" using D(3,6) by (simp add: receiver_ok_def)
  then show "fl_taken f @ rc_ready r = fl_written f" using D(3) by (simp add: receiver_ok_def)
  show "rc_finished r \<and> sender_is_done s" if "sd_fin s \<noteq> None"
    using that none D(7) by (auto simp: owing_def sender_is_done_def split: if_splits)
qed

end
