(* ===== verification/Forward_Properties.thy ===== *)
theory Forward_Properties
  imports Forward_Liveness
begin

text \<open>
  What a forwarded stream promises: to an honest peer over any link, to a hostile peer, and
  where the promise has a hole.
\<close>

section \<open>A stream against an arbitrary peer\<close>

text \<open>One stream with its local calls, and arrivals whose contents nothing constrains. A
  contradiction is an answer, not an end: the caller may go on.\<close>

datatype peer_op =
    PWrite bytes
  | PFinish
  | PSend nat nat
  | PRefuse nat nat
  | PAck nat nat sack_runs
  | PData "nat \<Rightarrow> nat" nat bool bytes
  | PConsume nat
  | PPollAck
  | PWait duration

fun peer_step :: "stream \<times> instant \<Rightarrow> peer_op \<Rightarrow> (stream \<times> instant) option" where
  "peer_step (st, now) (PWrite bytes) = map_option (\<lambda>(n, st'). (st', now)) (stream_write st bytes now)"
| "peer_step (st, now) PFinish = Some (stream_finish st, now)"
| "peer_step (st, now) (PSend wrap budget) =
     map_option (\<lambda>((sent, b), st'). (case sent of Some g \<Rightarrow> stream_transmitted st' g now | None \<Rightarrow> st', now))
       (stream_poll_transmit wrap st now budget)"
| "peer_step (st, now) (PRefuse wrap budget) = map_option (\<lambda>(sent, st'). (st', now)) (stream_poll_transmit wrap st now budget)"
| "peer_step (st, now) (PAck off window held) = Some (snd (stream_on_ack st off window held now), now)"
| "peer_step (st, now) (PData capacity off fin bytes) =
     map_option (\<lambda>(res, st'). (st', now)) (stream_on_data capacity st off fin bytes)"
| "peer_step (st, now) (PConsume n) = Some (stream_consume st n, now)"
| "peer_step (st, now) PPollAck = map_option (\<lambda>(a, st'). (st', now)) (stream_poll_ack st)"
| "peer_step (st, now) (PWait dt) = Some (st, now + dt)"

definition peer_ok :: "stream \<times> instant \<Rightarrow> bool" where
  "peer_ok p \<longleftrightarrow> (\<exists>S. sender_ok S (fs_send (fst p))) \<and> receiver_bounded (fs_recv (fst p))"

lemma peer_step_ok:
  assumes "peer_ok p"
  shows "\<exists>p'. peer_step p op = Some p' \<and> peer_ok p'"
proof -
  obtain st now where p: "p = (st, now)" by (cases p)
  obtain S where S: "sender_ok S (fs_send st)" and R: "receiver_bounded (fs_recv st)"
    using assms by (auto simp: peer_ok_def p)
  have poll: "\<exists>sent b s'. sender_poll_transmit wrap (fs_send st) now budget = Some ((sent, b), s') \<and> sender_ok S s' \<and>
      (\<forall>g. sent = Some g \<longrightarrow> segment_ok S (sd_fin s') g b)" for wrap budget
  proof (cases "budget = 0")
    case True
    then show ?thesis using S by (simp add: sender_poll_transmit_def)
  next
    case False
    then have "0 < budget" by simp
    from S this show ?thesis
      by (cases rule: sender_poll_cases [where now = now and wrap = wrap]) (use sender_ok_woken [OF S, of now] in auto)
  qed
  show ?thesis
  proof (cases op)
    case (PWrite bytes)
    from sender_write_spec [OF S, of bytes now] obtain k s' where
      "sender_write (fs_send st) bytes now = Some (k, s')" "sender_ok (S @ take k bytes) s'" by blast
    then show ?thesis using R by (auto simp: p PWrite stream_write_def peer_ok_def)
  next
    case PFinish
    then show ?thesis using R sender_finish_ok [OF S] by (auto simp: p stream_finish_def peer_ok_def)
  next
    case (PSend wrap budget)
    from poll [of wrap budget] obtain sent b s' where poll':
      "sender_poll_transmit wrap (fs_send st) now budget = Some ((sent, b), s')" "sender_ok S s'"
      "\<And>g. sent = Some g \<Longrightarrow> segment_ok S (sd_fin s') g b" by blast
    then show ?thesis
      using R sender_transmitted_ok [OF poll'(2)]
      by (cases sent) (auto simp: p PSend stream_poll_transmit_def stream_transmitted_def peer_ok_def)
  next
    case (PRefuse wrap budget)
    with poll [of wrap budget] R show ?thesis by (auto simp: p stream_poll_transmit_def peer_ok_def)
  next
    case (PAck off window held)
    obtain res s' where ack: "sender_on_ack (fs_send st) off window held now = (res, s')" by fastforce
    then show ?thesis using sender_on_ack_spec(1) [OF S ack] R by (auto simp: p PAck stream_on_ack_def peer_ok_def)
  next
    case (PData capacity off fin bytes)
    then show ?thesis using receiver_on_data_bounded [OF R, of capacity off fin bytes] S
      by (auto simp: p stream_on_data_def peer_ok_def)
  next
    case (PConsume n)
    then show ?thesis using R S by (auto simp: p stream_consume_def peer_ok_def receiver_consume_spec)
  next
    case PPollAck
    then show ?thesis using R S by (auto simp: p stream_poll_ack_def receiver_poll_ack_eq peer_ok_def)
  next
    case (PWait dt)
    then show ?thesis using S R by (auto simp: p peer_ok_def)
  qed
qed

interpretation peer: invariant_system peer_step peer_ok "\<lambda>_. True"
  by unfold_locales (rule peer_step_ok)

section \<open>Evaluation\<close>

text \<open>The equations that run a tunnel on concrete operations.\<close>

lemmas forward_eval = tunnel_new_def stream_new_def sender_new_def receiver_new_def flow_new_def timer_new_def
  stream_write_def stream_finish_def stream_poll_transmit_def stream_transmitted_def stream_on_data_def stream_poll_ack_def
  stream_on_ack_def stream_consume_def stream_readable_def stream_peer_finished_def stream_is_done_def
  put_stream_def put_flow_def sender_finish_def sender_end_def sender_poll_transmit_def sender_owed_def sender_repair_def
  sender_fill_def sender_transmitted_def sender_on_ack_def sender_advance_def sender_awaiting_ack_def sender_is_done_def
  sender_write_def sender_writable_def sender_unheld_def sender_next_held_def
  timer_due_def timer_interval_def timer_arm_def timer_transmitted_def timer_acknowledged_def timer_observe_def timer_expired_def
  receiver_on_data_def receiver_declare_def receiver_place_def receiver_settle_end_def receiver_poll_ack_eq receiver_consume_def
  receiver_window_def receiver_admits_def receiver_drain_held_def merged_runs_def receiver_held_past_def
  receiver_hold_def receiver_recycle_def runs_step_def push_run_def
  u64_saturating_add_def u64_max_def u32_max_def forward_consts saturating_duration_since_def duration_clamp_def Let_def
  timer_consts duration_saturating_mul_def duration_max_def

text \<open>One byte there, nothing back, both ends finished and acknowledged.\<close>

definition done_ops :: "tunnel_op list" where
  "done_ops = [TWrite Near [7], TFinish Near, TFinish Far, TSend Near 0 10, TDeliver Far 0 (\<lambda>_. 0), TPollAck Far,
     TAck Near 0, TSend Far 0 10, TDeliver Near 0 (\<lambda>_. 0), TPollAck Near, TAck Far 0]"

lemma done_run: "\<exists>t. run_ops tunnel_step (tunnel_new 0) done_ops = Some t \<and> stream_is_done (tn_stream t Near)"
  by (simp add: done_ops_def forward_eval)

text \<open>Two frames of which only the second arrives, acknowledged as a run past the gap.\<close>

definition gap_ops :: "tunnel_op list" where
  "gap_ops = [TWrite Near [7, 8], TSend Near 0 1, TSend Near 0 1, TDeliver Far 1 (\<lambda>_. 0), TPollAck Far, TAck Near 0]"

lemma gap_run: "\<exists>t. run_ops tunnel_step (tunnel_new 0) gap_ops = Some t \<and> sd_held (sender_at t Near) = [(1, 2)]"
  by (simp add: gap_ops_def forward_eval)

section \<open>Properties\<close>

text \<open>C4: a tunnel delivers in order over any link. Whatever is lost, repeated or reordered,
  whatever the two sides write, read, refuse or wait, no call panics and neither side ever
  finds the other in contradiction; on each side, what the socket took followed by what waits
  for it is the beginning of what the other side wrote, and once the end is reported, all of it.\<close>

theorem tunnel_delivers_in_order:
  "\<exists>t. run_ops tunnel_step (tunnel_new now) ops = Some t \<and>
     (\<forall>d. \<exists>n. fl_taken (tn_flow t d) @ stream_readable (tn_stream t (other d)) = take n (fl_written (tn_flow t d)) \<and>
        (stream_peer_finished (tn_stream t (other d)) \<longrightarrow> n = length (fl_written (tn_flow t d)) \<and> sd_fin (fs_send (tn_stream t d)) = Some n))"
proof -
  obtain t where t: "run_ops tunnel_step (tunnel_new now) ops = Some t" "tunnel_ok t"
    using link.run_total [OF tunnel_ok_new, of ops now] by (auto simp: list_all_iff)
  have "\<exists>n. fl_taken (tn_flow t d) @ stream_readable (tn_stream t (other d)) = take n (fl_written (tn_flow t d)) \<and>
        (stream_peer_finished (tn_stream t (other d)) \<longrightarrow> n = length (fl_written (tn_flow t d)) \<and> sd_fin (fs_send (tn_stream t d)) = Some n)" for d
  proof -
    note D = flow_okD [OF tunnel_okD [OF t(2), of d]]
    have "sd_fin (sender_at t d) = Some (length (fl_written (tn_flow t d)))" if "rc_finished (receiver_at t (other d))"
      using that D(2,3,5) by (auto simp: receiver_ok_def sender_ok_def)
    then show ?thesis
      using D(3) receiver_ok_finished(2) [OF D(3)]
      by (intro exI [of _ "placed (receiver_at t (other d))"])
         (simp add: stream_readable_def stream_peer_finished_def receiver_ok_def)
  qed
  with t(1) show ?thesis by blast
qed

theorem tunnel_delivers_in_order_witness:
  "\<exists>t. run_ops tunnel_step (tunnel_new 0) [TWrite Near [1, 2, 3], TSend Near 0 2, TDeliver Far 0 (\<lambda>_. 0)] = Some t \<and>
     (\<exists>n. fl_taken (tn_flow t Near) @ stream_readable (tn_stream t Far) = take n (fl_written (tn_flow t Near)))"
  using tunnel_delivers_in_order [of 0 "[TWrite Near [1, 2, 3], TSend Near 0 2, TDeliver Far 0 (\<lambda>_. 0)]"]
  by (metis other.simps(1))

text \<open>C18: forgetting a stream forgets nothing. A side that calls its stream done has had every
  byte it wrote, and its end, placed by the other side, and has itself handed to its socket
  every byte the other side wrote.\<close>

theorem tunnel_done_is_delivered:
  assumes "run_ops tunnel_step (tunnel_new now) ops = Some t" "stream_is_done (tn_stream t d)"
  shows "fl_taken (tn_flow t d) @ stream_readable (tn_stream t (other d)) = fl_written (tn_flow t d) \<and>
    stream_peer_finished (tn_stream t (other d)) \<and> fl_taken (tn_flow t (other d)) = fl_written (tn_flow t (other d))"
proof -
  have ok: "tunnel_ok t" using link.run_inv [OF tunnel_ok_new _ assms(1)] by (simp add: list_all_iff)
  note D = flow_okD [OF tunnel_okD [OF ok, of d]] and E = flow_okD [OF tunnel_okD_recv [OF ok, of d]]
  have "sd_fin_acked (sender_at t d)" "rc_finished (receiver_at t d)" "rc_ready (receiver_at t d) = []"
    using assms(2) by (simp_all add: stream_is_done_def sender_is_done_def)
  moreover from D(7) this(1) have "rc_finished (receiver_at t (other d))" by simp
  ultimately show ?thesis
    using receiver_ok_finished(3) [OF D(3)] receiver_ok_finished(3) [OF E(3)]
    by (simp add: stream_readable_def stream_peer_finished_def)
qed

theorem tunnel_done_is_delivered_witness:
  "\<exists>t. run_ops tunnel_step (tunnel_new 0) done_ops = Some t \<and> stream_is_done (tn_stream t Near) \<and>
     fl_taken (tn_flow t Near) @ stream_readable (tn_stream t Far) = fl_written (tn_flow t Near)"
proof -
  from done_run obtain t where "run_ops tunnel_step (tunnel_new 0) done_ops = Some t" "stream_is_done (tn_stream t Near)" by blast
  with tunnel_done_is_delivered [OF this] show ?thesis by auto
qed

text \<open>C16: the sender skips only what has arrived. On every reachable tunnel each run a sender
  leaves out of a repair lies above its base and every byte of it is placed or held by the
  other side, byte for byte; and everything below its base has been placed.\<close>

theorem tunnel_skips_only_received:
  assumes "run_ops tunnel_step (tunnel_new now) ops = Some t"
  shows "list_all (\<lambda>(a, b). sd_base (fs_send (tn_stream t d)) < a \<and> a < b \<and>
      (\<forall>i. a \<le> i \<and> i < b \<longrightarrow> i < placed (fs_recv (tn_stream t (other d))) \<or>
        (\<exists>(off, seg) \<in> set (rc_held (fs_recv (tn_stream t (other d)))).
           off \<le> i \<and> i < off + length seg \<and> seg ! (i - off) = fl_written (tn_flow t d) ! i)))
      (sd_held (fs_send (tn_stream t d))) \<and>
    sd_base (fs_send (tn_stream t d)) \<le> placed (fs_recv (tn_stream t (other d)))"
proof -
  have ok: "tunnel_ok t" using link.run_inv [OF tunnel_ok_new _ assms(1)] by (simp add: list_all_iff)
  note D = flow_okD [OF tunnel_okD [OF ok, of d]]
  let ?r = "receiver_at t (other d)" and ?W = "fl_written (tn_flow t d)"
  have true: "seg ! (i - off) = ?W ! i" if "(off, seg) \<in> set (rc_held ?r)" "off \<le> i" "i < off + length seg" for off seg i
  proof -
    have "seg = take (length seg) (drop off ?W)" "off + length seg \<le> length ?W"
      using D(3) that(1) by (auto simp: receiver_ok_def slices_of_def list_all_iff)
    then have "seg ! (i - off) = take (length seg) (drop off ?W) ! (i - off)" by simp
    also have "\<dots> = ?W ! i" using that(2,3) \<open>off + length seg \<le> length ?W\<close> by simp
    finally show ?thesis .
  qed
  have "i < placed ?r \<or> (\<exists>(off, seg) \<in> set (rc_held ?r). off \<le> i \<and> i < off + length seg \<and> seg ! (i - off) = ?W ! i)"
    if "i \<in> receiver_cover ?r" for i
    using that true by (fastforce simp: receiver_cover_def held_cover_def)
  moreover have "sd_base (sender_at t d) < a \<and> a < b \<and> (\<forall>i. a \<le> i \<and> i < b \<longrightarrow> i \<in> receiver_cover ?r)"
    if "(a, b) \<in> set (sd_held (sender_at t d))" for a b
    using D(10) that by (fastforce simp: list_all_iff run_in_def)
  ultimately show ?thesis using D(6) unfolding list_all_iff by blast
qed


theorem tunnel_skips_only_received_witness:
  "\<exists>t. run_ops tunnel_step (tunnel_new 0) gap_ops = Some t \<and> sd_held (fs_send (tn_stream t Near)) = [(1, 2)] \<and>
     ((\<exists>(off, seg) \<in> set (rc_held (fs_recv (tn_stream t Far))). off \<le> 1 \<and> 1 < off + length seg) \<or>
      1 < placed (fs_recv (tn_stream t Far)))"
proof -
  from gap_run obtain t where t: "run_ops tunnel_step (tunnel_new 0) gap_ops = Some t" "sd_held (sender_at t Near) = [(1, 2)]" by blast
  show ?thesis using tunnel_skips_only_received [OF t(1), of Near] t by fastforce
qed

text \<open>C17: a hostile peer buys no memory and no panic. Whatever offsets, ends, runs, windows and
  bytes arrive, in any order with the local calls, every call returns, the retransmission
  buffer stays within the window, and what the receiver keeps within twice the window, in at
  most 256 held segments whose bytes it counts exactly.\<close>

theorem stream_survives_any_peer:
  "\<exists>st clock. run_ops peer_step (stream_new, now) ops = Some (st, clock) \<and>
     length (sd_buffer (fs_send st)) \<le> FORWARD_WINDOW \<and>
     length (rc_ready (fs_recv st)) + rc_held_bytes (fs_recv st) \<le> 2 * FORWARD_WINDOW \<and>
     rc_held_bytes (fs_recv st) = sum_list (map (length \<circ> snd) (rc_held (fs_recv st))) \<and>
     length (rc_held (fs_recv st)) \<le> MAX_HELD_SEGMENTS \<and> length (rc_spare (fs_recv st)) \<le> SPARE_HELD"
proof -
  have "peer_ok (stream_new, now)"
    by (auto simp: peer_ok_def stream_new_def intro: exI [of _ "[]"])
  then obtain p where "run_ops peer_step (stream_new, now) ops = Some p" "peer_ok p"
    using peer.run_total [of "(stream_new, now)" ops] by (auto simp: list_all_iff)
  then show ?thesis by (cases p) (auto simp: peer_ok_def sender_ok_def receiver_bounded_def held_total_def)
qed

text \<open>C5: a stream whose frames the sink takes completes. From any state reached without a
  refused frame, at most one exchange in which nothing is lost for each byte written, and one
  for the end, deliver every byte and the end; the link may have done anything before.\<close>

theorem tunnel_completes:
  assumes "list_all never_refused ops" "run_ops tunnel_step (tunnel_new now) ops = Some t" "0 < budget"
  shows "\<exists>n t'. n \<le> length (fl_written (tn_flow t d)) + 1 \<and> rounds d wrap budget capacity n t = Some t' \<and>
    fl_taken (tn_flow t' d) @ stream_readable (tn_stream t' (other d)) = fl_written (tn_flow t d) \<and>
    (sd_fin (fs_send (tn_stream t d)) \<noteq> None \<longrightarrow>
       stream_peer_finished (tn_stream t' (other d)) \<and> sender_is_done (fs_send (tn_stream t' d)))"
proof -
  have ok: "tunnel_ok t" "tunnel_live t"
    using flowing.run_inv [OF _ assms(1,2)] tunnel_ok_new tunnel_live_new by auto
  from rounds_deliver [OF ok assms(3), of d wrap capacity] obtain n t' where
    n: "n \<le> owing (sender_at t d)" "rounds d wrap budget capacity n t = Some t'" "tunnel_ok t'"
      "owing (sender_at t' d) = 0" "sd_fin (sender_at t' d) = sd_fin (sender_at t d)"
      "fl_written (tn_flow t' d) = fl_written (tn_flow t d)" by blast
  have "length (sd_buffer (sender_at t d)) \<le> length (fl_written (tn_flow t d))"
    using flow_okD(2) [OF tunnel_okD [OF ok(1), of d]] by (simp add: sender_ok_def)
  then have "n \<le> length (fl_written (tn_flow t d)) + 1" using n(1) by (auto simp: owing_def split: if_splits)
  with n owing_nothing [OF tunnel_okD [OF n(3)] n(4)] show ?thesis
    by (intro exI [of _ n] exI [of _ t']) (simp add: stream_readable_def stream_peer_finished_def)
qed

theorem tunnel_completes_witness:
  "\<exists>t n t'. run_ops tunnel_step (tunnel_new 0) gap_ops = Some t \<and> n \<le> length (fl_written (tn_flow t Near)) + 1 \<and>
     rounds Near 0 100 (\<lambda>_. 0) n t = Some t' \<and>
     fl_taken (tn_flow t' Near) @ stream_readable (tn_stream t' Far) = fl_written (tn_flow t Near)"
proof -
  have taken: "list_all never_refused gap_ops" by (simp add: gap_ops_def)
  from gap_run obtain t where t: "run_ops tunnel_step (tunnel_new 0) gap_ops = Some t" by blast
  from tunnel_completes [OF taken t, of 100 Near 0 "\<lambda>_. 0"] t show ?thesis by auto
qed

text \<open>An acknowledgement of bytes never sent is taken at its word: no offset is a contradiction
  by itself, and one past everything the sender holds releases all of it, sent or not.\<close>

lemma ack_of_unsent_accepted:
  assumes "sender_ok S s" "sd_base s \<le> off"
  shows "fst (sender_on_ack s off window [] now) = Inr ()"
    "sd_base (snd (sender_on_ack s off window [] now)) = min off (length S)"
proof -
  obtain res s' where ack: "sender_on_ack s off window [] now = (res, s')" by fastforce
  note A = sender_on_ack_spec [OF assms(1) ack]
  have "sd_base s \<le> length S" using assms(1) by (simp add: sender_ok_def)
  with A(3,6) assms(2) show "fst (sender_on_ack s off window [] now) = Inr ()"
    "sd_base (snd (sender_on_ack s off window [] now)) = min off (length S)" by (auto simp: ack)
qed

text \<open>C32: an acknowledgement says all that is held. On every reachable tunnel where at most 32
  segments are held past the gap, the runs of the acknowledgement cover exactly the bytes
  held: overlaps and neighbours are merged, and nothing is cut.\<close>

theorem ack_runs_exact:
  assumes "run_ops tunnel_step (tunnel_new now) ops = Some t"
    and "length (rc_held (fs_recv (tn_stream t d))) \<le> MAX_ACK_RUNS"
    and "stream_poll_ack (tn_stream t d) = Some (Some a, st)"
  shows "fa_off a = rc_next (fs_recv (tn_stream t d)) \<and>
    (\<Union>(x, y) \<in> set (sack_absolute (fa_held a) (fa_off a)). {x..<y}) =
      (\<Union>(off, b) \<in> set (rc_held (fs_recv (tn_stream t d))). {off..<off + length b})"
proof -
  have ok: "tunnel_ok t" using link.run_inv [OF tunnel_ok_new _ assms(1)] by (simp add: list_all_iff)
  let ?r = "receiver_at t d" and ?W = "fl_written (tn_flow t (other d))"
  note D = flow_okD [OF tunnel_okD_recv [OF ok, of d]]
  have a: "fa_off a = rc_next ?r" "fa_held a = merged_runs (rc_held ?r) (rc_next ?r)"
    using assms(3) by (auto simp: stream_poll_ack_def receiver_poll_ack_eq split: if_splits)
  have r: "held_sorted (rc_held ?r)" "held_total (rc_held ?r) \<le> FORWARD_WINDOW" "slices_of ?W (rc_held ?r)"
    "list_all (\<lambda>(off, b). rc_next ?r < off \<and> off < rc_next ?r + FORWARD_WINDOW) (rc_held ?r)"
    using D(3) by (auto simp: receiver_ok_def receiver_bounded_def)
  have small: "(off, b) \<in> set m \<Longrightarrow> length b \<le> held_total m" for off b m
    by (induction m) auto
  define B where "B = min (rc_next ?r + 2 * FORWARD_WINDOW) u64_max"
  have "list_all (\<lambda>(off, b). rc_next ?r < off \<and> b \<noteq> [] \<and> off + length b \<le> B) (rc_held ?r)"
    unfolding list_all_iff
  proof clarify
    fix off b assume mem: "(off, b) \<in> set (rc_held ?r)"
    then have "rc_next ?r < off" "off < rc_next ?r + FORWARD_WINDOW" "b \<noteq> []" "off + length b \<le> length ?W"
      using r(3,4) by (auto simp: list_all_iff slices_of_def)
    moreover have "length b \<le> FORWARD_WINDOW" using small [OF mem] r(2) by simp
    ultimately show "rc_next ?r < off \<and> b \<noteq> [] \<and> off + length b \<le> B" using D(1) by (simp add: B_def)
  qed
  from merged_runs_exact [OF r(1) assms(2) _ _ this] have
    "(\<Union>(x, y) \<in> set (sack_absolute (merged_runs (rc_held ?r) (rc_next ?r)) (rc_next ?r)). {x..<y}) = held_cover (rc_held ?r)"
    by (simp add: B_def forward_consts u32_max_def)
  then show ?thesis by (simp add: a held_cover_def)
qed


theorem ack_runs_exact_witness:
  "\<exists>t a st. run_ops tunnel_step (tunnel_new 0) (take 4 gap_ops) = Some t \<and>
     stream_poll_ack (tn_stream t Far) = Some (Some a, st) \<and>
     (\<Union>(x, y) \<in> set (sack_absolute (fa_held a) (fa_off a)). {x..<y}) = {1}"
proof -
  have "\<exists>t a st. run_ops tunnel_step (tunnel_new 0) (take 4 gap_ops) = Some t \<and>
     rc_held (fs_recv (tn_stream t Far)) = [(1, [8])] \<and> stream_poll_ack (tn_stream t Far) = Some (Some a, st)"
    by (simp add: gap_ops_def forward_eval)
  then obtain t a st where t: "run_ops tunnel_step (tunnel_new 0) (take 4 gap_ops) = Some t"
    "rc_held (fs_recv (tn_stream t Far)) = [(1, [8])]" "stream_poll_ack (tn_stream t Far) = Some (Some a, st)" by blast
  have "length (rc_held (fs_recv (tn_stream t Far))) \<le> MAX_ACK_RUNS" by (simp add: t(2) forward_consts)
  from ack_runs_exact [OF t(1) this t(3)] have
    "(\<Union>(x, y) \<in> set (sack_absolute (fa_held a) (fa_off a)). {x..<y}) =
       (\<Union>(off, b) \<in> set [(1, [8 :: u8])]. {off..<off + length b})" unfolding t(2) by (rule conjunct2)
  also have "\<dots> = {1}" by auto
  finally show ?thesis using t by blast
qed

end
