(* ===== verification/Proto_Text.thy ===== *)
theory Proto_Text
  imports Prelude
begin

text \<open>
  Strings on the wire. A Rust \<^verbatim>\<open>str\<close> is a byte string that is well-formed UTF-8; \<open>utf8_chars\<close> is
  the standard library's \<^verbatim>\<open>from_utf8\<close> and \<^verbatim>\<open>chars\<close>, with \<^verbatim>\<open>is_char_boundary\<close>, \<^verbatim>\<open>get\<close> on a range and
  \<^verbatim>\<open>trim_end_matches\<close> beside it. The text functions of \<^verbatim>\<open>src/crates/proto/src/screen.rs\<close> follow:
  \<^verbatim>\<open>has_control\<close>, \<^verbatim>\<open>reject_control\<close> (in \<open>Proto_Cursor\<close>, with the errors) and \<^verbatim>\<open>push_row_text\<close>, which is shown
  to be a blanking of control characters that moves no character boundary.
\<close>

section \<open>UTF-8\<close>

definition is_cont :: "u8 \<Rightarrow> bool" where
  "is_cont b \<longleftrightarrow> 0x80 \<le> b \<and> b \<le> 0xBF"

text \<open>The second byte of a character of three or four bytes: overlong forms, surrogates and
  anything past U+10FFFF are cut off here.\<close>

definition utf8_second :: "u8 \<Rightarrow> u8 \<Rightarrow> bool" where
  "utf8_second a b \<longleftrightarrow>
     (if a = 0xE0 then 0xA0 \<le> b \<and> b \<le> 0xBF
      else if a = 0xED then 0x80 \<le> b \<and> b \<le> 0x9F
      else if a = 0xF0 then 0x90 \<le> b \<and> b \<le> 0xBF
      else if a = 0xF4 then 0x80 \<le> b \<and> b \<le> 0x8F
      else is_cont b)"

definition utf8_low :: "u8 \<Rightarrow> nat" where
  "utf8_low b = unat b - 0x80"

fun utf8_next :: "bytes \<Rightarrow> (nat \<times> bytes) option" where
  "utf8_next [] = None"
| "utf8_next (a # r) =
     (if a < 0x80 then Some (unat a, r)
      else if 0xC2 \<le> a \<and> a \<le> 0xDF then
        (case r of b # r \<Rightarrow>
           if is_cont b then Some ((unat a - 0xC0) * 64 + utf8_low b, r) else None
         | _ \<Rightarrow> None)
      else if 0xE0 \<le> a \<and> a \<le> 0xEF then
        (case r of b # c # r \<Rightarrow>
           if utf8_second a b \<and> is_cont c
           then Some ((unat a - 0xE0) * 4096 + utf8_low b * 64 + utf8_low c, r) else None
         | _ \<Rightarrow> None)
      else if 0xF0 \<le> a \<and> a \<le> 0xF4 then
        (case r of b # c # d # r \<Rightarrow>
           if utf8_second a b \<and> is_cont c \<and> is_cont d
           then Some ((unat a - 0xF0) * 262144 + utf8_low b * 4096 + utf8_low c * 64 + utf8_low d, r)
           else None
         | _ \<Rightarrow> None)
      else None)"

lemma utf8_next_shorter: "utf8_next bs = Some (c, r) \<Longrightarrow> length r < length bs"
  by (cases bs) (auto split: if_splits list.splits)

function utf8_chars :: "bytes \<Rightarrow> nat list option" where
  "utf8_chars bs =
     (if bs = [] then Some []
      else case utf8_next bs of
        None \<Rightarrow> None
      | Some (c, r) \<Rightarrow> (case utf8_chars r of None \<Rightarrow> None | Some cs \<Rightarrow> Some (c # cs)))"
  by pat_completeness auto
termination
  by (relation "measure length") (auto dest: utf8_next_shorter)

declare utf8_chars.simps [simp del]

definition utf8 :: "bytes \<Rightarrow> bool" where
  "utf8 bs \<longleftrightarrow> utf8_chars bs \<noteq> None"

definition text_chars :: "bytes \<Rightarrow> nat list" where
  "text_chars bs = (case utf8_chars bs of None \<Rightarrow> [] | Some cs \<Rightarrow> cs)"

definition is_char_boundary :: "bytes \<Rightarrow> nat \<Rightarrow> bool" where
  "is_char_boundary bs i \<longleftrightarrow>
     (if i = 0 then True else if length bs \<le> i then i = length bs else \<not> is_cont (bs ! i))"

definition str_get :: "bytes \<Rightarrow> nat \<Rightarrow> nat \<Rightarrow> bytes option" where
  "str_get bs a b =
     (if a \<le> b \<and> is_char_boundary bs a \<and> is_char_boundary bs b then Some (take (b - a) (drop a bs))
      else None)"

text \<open>A space is one byte and no part of another character.\<close>

definition trim_end_spaces :: "bytes \<Rightarrow> bytes" where
  "trim_end_spaces bs = rev (dropWhile (\<lambda>b. b = 0x20) (rev bs))"

text \<open>Unicode's general category Cc.\<close>

definition is_control :: "nat \<Rightarrow> bool" where
  "is_control c \<longleftrightarrow> c \<le> 0x1F \<or> 0x7F \<le> c \<and> c \<le> 0x9F"

section \<open>The text functions of the screen codec\<close>

definition has_control :: "bytes \<Rightarrow> bool" where
  "has_control text \<longleftrightarrow> list_ex is_control (text_chars text)"

definition blank_width :: "bytes \<Rightarrow> nat \<Rightarrow> (nat \<times> bytes) option" where
  "blank_width bs i =
     (if bs ! i \<le> 0x1F \<or> bs ! i = 0x7F then Some (1, [0x20])
      else if bs ! i = 0xC2 \<and> Suc i < length bs \<and> 0x80 \<le> bs ! Suc i \<and> bs ! Suc i \<le> 0x9F
        then Some (2, [0xC2, 0xA0])
      else None)"

lemma blank_width_pos: "blank_width bs i = Some (w, blank) \<Longrightarrow> 0 < w"
  by (auto simp: blank_width_def split: if_splits)

function push_row_scan :: "bytes \<Rightarrow> nat \<Rightarrow> nat \<Rightarrow> bytes \<Rightarrow> bytes" where
  "push_row_scan bs i copied out =
     (if i < length bs then
        (case blank_width bs i of
           None \<Rightarrow> push_row_scan bs (Suc i) copied out
         | Some (width, blank) \<Rightarrow>
             push_row_scan bs (i + width) (i + width)
               (out @ take (i - copied) (drop copied bs) @ blank))
      else out @ drop copied bs)"
  by pat_completeness auto
termination
  by (relation "measure (\<lambda>(bs, i, copied, out). length bs - i)") (auto dest: blank_width_pos)

declare push_row_scan.simps [simp del]

definition push_row_text :: "bytes \<Rightarrow> bytes" where
  "push_row_text text =
     (if \<not> list_ex (\<lambda>b. b \<le> 0x1F \<or> b = 0x7F \<or> b = 0xC2) text then text
      else push_row_scan text 0 0 [])"

section \<open>Characters and boundaries\<close>

lemma lead_not_cont: "a < 0x80 \<Longrightarrow> \<not> is_cont a" "0xC2 \<le> a \<Longrightarrow> \<not> is_cont a"
  by (simp_all add: is_cont_def word_le_nat_alt word_less_nat_alt)

lemma utf8_second_cont: "utf8_second a b \<Longrightarrow> is_cont b"
  by (auto simp: utf8_second_def is_cont_def word_le_nat_alt split: if_splits)

lemma wide_lead: "0xE0 \<le> a \<Longrightarrow> 0xC2 \<le> a" "0xF0 \<le> a \<Longrightarrow> 0xC2 \<le> (a :: u8)"
  by (simp_all add: word_le_nat_alt)

text \<open>The characters of a string one by one: the induction every lemma below uses.\<close>

definition utf8_char :: "nat \<Rightarrow> bytes \<Rightarrow> bool" where
  "utf8_char c x \<longleftrightarrow> x \<noteq> [] \<and> (\<forall>r. utf8_next (x @ r) = Some (c, r)) \<and> \<not> is_cont (hd x) \<and>
     list_all is_cont (tl x)"

lemma utf8_char_intros:
  "a < 0x80 \<Longrightarrow> utf8_char (unat a) [a]"
  "0xC2 \<le> a \<Longrightarrow> a \<le> 0xDF \<Longrightarrow> is_cont b \<Longrightarrow> utf8_char ((unat a - 0xC0) * 64 + utf8_low b) [a, b]"
  "0xE0 \<le> a \<Longrightarrow> a \<le> 0xEF \<Longrightarrow> utf8_second a b \<Longrightarrow> is_cont c \<Longrightarrow>
     utf8_char ((unat a - 0xE0) * 4096 + utf8_low b * 64 + utf8_low c) [a, b, c]"
  "0xF0 \<le> a \<Longrightarrow> a \<le> 0xF4 \<Longrightarrow> utf8_second a b \<Longrightarrow> is_cont c \<Longrightarrow> is_cont d \<Longrightarrow>
     utf8_char ((unat a - 0xF0) * 262144 + utf8_low b * 4096 + utf8_low c * 64 + utf8_low d) [a, b, c, d]"
     apply (simp_all add: utf8_char_def lead_not_cont wide_lead utf8_second_cont)
  by (simp_all add: word_le_nat_alt word_less_nat_alt)

lemma utf8_next_split:
  assumes "utf8_next bs = Some (c, r)"
  obtains x where "bs = x @ r" "utf8_char c x"
proof (cases bs)
  case (Cons a s)
  note next_s = assms [unfolded Cons utf8_next.simps]
  consider "a < 0x80" | "\<not> a < 0x80" "0xC2 \<le> a \<and> a \<le> 0xDF"
    | "\<not> a < 0x80" "\<not> (0xC2 \<le> a \<and> a \<le> 0xDF)" "0xE0 \<le> a \<and> a \<le> 0xEF"
    | "\<not> a < 0x80" "\<not> (0xC2 \<le> a \<and> a \<le> 0xDF)" "\<not> (0xE0 \<le> a \<and> a \<le> 0xEF)" "0xF0 \<le> a \<and> a \<le> 0xF4"
    using next_s by (auto split: if_splits)
  then show ?thesis
  proof cases
    case 1
    then show ?thesis using next_s Cons utf8_char_intros(1) that [of "[a]"] by auto
  next
    case 2
    then show ?thesis using next_s Cons utf8_char_intros(2) that [of "[a, hd s]"]
      by (auto split: list.splits if_splits)
  next
    case 3
    then show ?thesis using next_s Cons utf8_char_intros(3) that [of "[a, hd s, hd (tl s)]"]
      by (auto split: list.splits if_splits)
  next
    case 4
    then show ?thesis using next_s Cons utf8_char_intros(4) that [of "[a, hd s, hd (tl s), hd (tl (tl s))]"]
      by (auto split: list.splits if_splits)
  qed
qed (use assms in simp)

lemma utf8_chars_Nil [simp]: "utf8_chars [] = Some []"
  by (simp add: utf8_chars.simps)

lemma utf8_chars_char: "utf8_char c x \<Longrightarrow> utf8_chars (x @ r) = map_option ((#) c) (utf8_chars r)"
  by (subst utf8_chars.simps) (auto simp: utf8_char_def split: option.splits)

lemma utf8_induct [consumes 1, case_names Nil Char]:
  assumes "utf8 bs" "P []"
    and "\<And>c x r. utf8_char c x \<Longrightarrow> utf8 r \<Longrightarrow> P r \<Longrightarrow> P (x @ r)"
  shows "P bs"
  using assms(1)
proof (induction bs rule: utf8_chars.induct)
  case (1 bs)
  show ?case
  proof (cases "bs = []")
    case False
    then obtain c r where n: "utf8_next bs = Some (c, r)"
      using 1(2) by (auto simp: utf8_def utf8_chars.simps [of bs] split: option.splits)
    then obtain x where x: "bs = x @ r" "utf8_char c x" by (rule utf8_next_split)
    then have "utf8 r" using 1(2) by (simp add: utf8_def utf8_chars_char)
    then show ?thesis using 1(1) [OF False n refl] assms(3) [OF x(2)] x(1) by blast
  qed (use assms(2) in simp)
qed

lemma utf8_Nil [simp]: "utf8 []"
  by (simp add: utf8_def)

lemma utf8_char_append: "utf8_char c x \<Longrightarrow> utf8 (x @ r) = utf8 r"
  by (simp add: utf8_def utf8_chars_char)

lemma text_chars_Nil [simp]: "text_chars [] = []"
  by (simp add: text_chars_def)

lemma text_chars_char: "utf8_char c x \<Longrightarrow> utf8 r \<Longrightarrow> text_chars (x @ r) = c # text_chars r"
  by (auto simp: text_chars_def utf8_chars_char utf8_def)

lemma utf8_append: "utf8 xs \<Longrightarrow> utf8 (xs @ ys) = utf8 ys"
  by (induction xs rule: utf8_induct) (simp_all add: utf8_char_append)

lemma text_chars_append: "utf8 xs \<Longrightarrow> utf8 ys \<Longrightarrow> text_chars (xs @ ys) = text_chars xs @ text_chars ys"
  by (induction xs rule: utf8_induct) (simp_all add: text_chars_char utf8_append)

lemma has_control_append: "utf8 xs \<Longrightarrow> utf8 ys \<Longrightarrow> has_control (xs @ ys) \<longleftrightarrow> has_control xs \<or> has_control ys"
  by (simp add: has_control_def text_chars_append)

text \<open>A boundary is where a well-formed string falls into two.\<close>

lemma char_boundary_char:
  assumes "utf8_char c x" "0 < i" "i < length x"
  shows "\<not> is_char_boundary (x @ r) i"
proof -
  have "is_cont (x ! i)"
    using assms by (cases x; cases i) (auto simp: utf8_char_def list_all_length)
  then show ?thesis using assms by (simp add: is_char_boundary_def nth_append)
qed

lemma utf8_hd_not_cont: "utf8 bs \<Longrightarrow> bs \<noteq> [] \<Longrightarrow> \<not> is_cont (hd bs)"
  by (induction bs rule: utf8_induct) (auto simp: utf8_char_def hd_append)

lemma char_boundary_shift:
  assumes "utf8 r" "length x \<le> i"
  shows "is_char_boundary (x @ r) i = is_char_boundary r (i - length x)"
proof (cases "i = length x")
  case True
  then show ?thesis using utf8_hd_not_cont [OF assms(1)]
    by (cases r) (auto simp: is_char_boundary_def nth_append)
next
  case False
  then show ?thesis using assms(2) by (auto simp: is_char_boundary_def nth_append)
qed

lemma char_boundary_utf8:
  assumes "utf8 bs" "is_char_boundary bs i"
  shows "i \<le> length bs \<and> utf8 (take i bs) \<and> utf8 (drop i bs)"
  using assms
proof (induction bs arbitrary: i rule: utf8_induct)
  case Nil
  then show ?case by (simp add: is_char_boundary_def split: if_splits)
next
  case (Char c x r)
  show ?case
  proof (cases "length x \<le> i")
    case True
    then have "is_char_boundary r (i - length x)" using Char char_boundary_shift by simp
    then show ?thesis using Char.IH [of "i - length x"] Char.hyps True
      by (auto simp: utf8_char_append)
  next
    case False
    then have "i = 0" using Char char_boundary_char by fastforce
    then show ?thesis using Char by (simp add: utf8_char_append)
  qed
qed

lemma boundary_utf8_split:
  assumes "utf8 xs" "utf8 ys"
  shows "is_char_boundary (xs @ ys) (length xs)"
  using char_boundary_shift [OF assms(2), of xs "length xs"] by (simp add: is_char_boundary_def)

section \<open>Blanking controls\<close>

text \<open>What \<^verbatim>\<open>push_row_text\<close> writes, without its bookkeeping of copied stretches.\<close>

fun blank_controls :: "bytes \<Rightarrow> bytes" where
  "blank_controls [] = []"
| "blank_controls (a # r) =
     (if a \<le> 0x1F \<or> a = 0x7F then 0x20 # blank_controls r
      else case r of
        b # r' \<Rightarrow> if a = 0xC2 \<and> 0x80 \<le> b \<and> b \<le> 0x9F then 0xC2 # 0xA0 # blank_controls r'
                 else a # blank_controls r
      | [] \<Rightarrow> [a])"

lemma blank_controls_step:
  assumes "i < length bs"
  shows "blank_controls (drop i bs) =
    (case blank_width bs i of
       None \<Rightarrow> bs ! i # blank_controls (drop (Suc i) bs)
     | Some (w, blank) \<Rightarrow> blank @ blank_controls (drop (i + w) bs))"
proof (cases "Suc i < length bs")
  case True
  have "drop i bs = bs ! i # bs ! Suc i # drop (i + 2) bs"
    using assms True Cons_nth_drop_Suc [of i bs] Cons_nth_drop_Suc [of "Suc i" bs] by simp
  moreover have "drop (Suc i) bs = bs ! Suc i # drop (i + 2) bs"
    using True Cons_nth_drop_Suc [of "Suc i" bs] by simp
  ultimately show ?thesis using True by (simp add: blank_width_def del: drop_Suc)
next
  case False
  then have "drop i bs = [bs ! i]" using assms Cons_nth_drop_Suc [of i bs] by simp
  then show ?thesis using False by (simp add: blank_width_def)
qed

lemma blank_width_inside: "i < length bs \<Longrightarrow> blank_width bs i = Some (w, blank) \<Longrightarrow> i + w \<le> length bs"
  by (auto simp: blank_width_def split: if_splits)

lemma push_row_scan_blank:
  assumes "copied \<le> i" "i \<le> length bs"
  shows "push_row_scan bs i copied out = out @ take (i - copied) (drop copied bs) @ blank_controls (drop i bs)"
  using assms
proof (induction bs i copied out rule: push_row_scan.induct)
  case (1 bs i copied out)
  show ?case
  proof (cases "i < length bs")
    case True
    show ?thesis
    proof (cases "blank_width bs i")
      case None
      have "take (Suc i - copied) (drop copied bs) = take (i - copied) (drop copied bs) @ [bs ! i]"
        using True 1(3) by (simp add: Suc_diff_le take_Suc_conv_app_nth)
      then show ?thesis using True None 1(1) 1(3)
        by (subst push_row_scan.simps) (simp add: blank_controls_step del: drop_Suc)
    next
      case (Some wb)
      obtain w blank where wb: "wb = (w, blank)" by (cases wb)
      show ?thesis using True Some wb 1(2) [OF True Some wb [symmetric]] blank_width_inside [OF True]
        by (subst push_row_scan.simps) (simp add: blank_controls_step)
    qed
  next
    case False
    then show ?thesis using 1(4) by (subst push_row_scan.simps) simp
  qed
qed

lemma blank_controls_same:
  "\<not> list_ex (\<lambda>b. b \<le> 0x1F \<or> b = 0x7F \<or> b = 0xC2) bs \<Longrightarrow> blank_controls bs = bs"
proof (induction bs)
  case (Cons a r)
  then show ?case by (cases r) simp_all
qed simp

lemma push_row_text_blank: "push_row_text t = blank_controls t"
  using blank_controls_same [of t] by (simp add: push_row_text_def push_row_scan_blank)

lemma utf8_char_cases:
  assumes "utf8_char c x"
  obtains (One) a where "x = [a]" "a < 0x80" "c = unat a"
  | (Two) a b where "x = [a, b]" "0xC2 \<le> a" "a \<le> 0xDF" "is_cont b" "c = (unat a - 0xC0) * 64 + utf8_low b"
  | (Three) a b d where "x = [a, b, d]" "0xE0 \<le> a" "utf8_second a b" "is_cont d"
      "c = (unat a - 0xE0) * 4096 + utf8_low b * 64 + utf8_low d"
  | (Four) a b d e where "x = [a, b, d, e]" "0xF0 \<le> a" "utf8_second a b" "is_cont d" "is_cont e"
      "c = (unat a - 0xF0) * 262144 + utf8_low b * 4096 + utf8_low d * 64 + utf8_low e"
proof -
  have n: "utf8_next x = Some (c, [])" using assms by (auto simp: utf8_char_def dest: spec [of _ "[]"])
  then show ?thesis
    using that by (cases x) (auto split: if_splits list.splits)
qed

lemma cont_stays: "is_cont a \<or> 0xE0 \<le> a \<Longrightarrow> blank_controls (a # r) = a # blank_controls r"
  by (cases r) (auto simp: is_cont_def word_le_nat_alt)

lemma blank_controls_char:
  assumes "utf8_char c x"
  shows "blank_controls (x @ r) =
    (if is_control c then (if length x = 1 then [0x20] else [0xC2, 0xA0]) else x) @ blank_controls r"
  using assms
proof (cases rule: utf8_char_cases)
  case (One a)
  then show ?thesis
    by (cases r) (auto simp: is_control_def word_le_nat_alt word_less_nat_alt word_unat_eq_iff)
next
  case (Two a b)
  have "is_control c \<longleftrightarrow> a = 0xC2 \<and> b \<le> 0x9F"
    using Two by (auto simp: is_control_def utf8_low_def is_cont_def word_le_nat_alt word_unat_eq_iff)
  then show ?thesis using Two cont_stays [of b r]
    by (auto simp: is_cont_def word_le_nat_alt word_unat_eq_iff)
next
  case (Three a b d)
  have "0x800 \<le> c"
    using Three by (auto simp: utf8_low_def utf8_second_def is_cont_def word_le_nat_alt word_unat_eq_iff split: if_splits)
  then show ?thesis using Three utf8_second_cont [OF Three(3)]
    by (simp add: is_control_def cont_stays del: blank_controls.simps)
next
  case (Four a b d e)
  have "0x1000 \<le> c"
    using Four by (auto simp: utf8_low_def utf8_second_def is_cont_def word_le_nat_alt word_unat_eq_iff split: if_splits)
  moreover have "0xE0 \<le> a" using Four(2) by (simp add: word_le_nat_alt)
  ultimately show ?thesis using Four utf8_second_cont [OF Four(3)]
    by (simp add: is_control_def cont_stays del: blank_controls.simps)
qed

lemma blank_char: "utf8_char 0x20 [0x20]" "utf8_char 0xA0 [0xC2, 0xA0]"
  using utf8_char_intros(1) [of "0x20"] utf8_char_intros(2) [of "0xC2" "0xA0"]
  by (simp_all add: is_cont_def utf8_low_def)

definition blank_char_of :: "nat \<Rightarrow> bytes \<Rightarrow> nat" where
  "blank_char_of c x = (if is_control c then (if length x = 1 then 0x20 else 0xA0) else c)"

lemma blank_controls_utf8:
  assumes "utf8 bs"
  shows "utf8 (blank_controls bs) \<and> \<not> has_control (blank_controls bs) \<and> length (blank_controls bs) = length bs"
  using assms
proof (induction bs rule: utf8_induct)
  case Nil
  then show ?case by (simp add: has_control_def)
next
  case (Char c x r)
  define y where "y = (if is_control c then (if length x = 1 then [0x20] else [0xC2, 0xA0 :: u8]) else x)"
  have ctl: "is_control c \<Longrightarrow> length x = 1 \<or> length x = 2"
    using Char(1)
    by (cases rule: utf8_char_cases)
      (auto simp: is_control_def utf8_low_def utf8_second_def is_cont_def word_le_nat_alt word_unat_eq_iff split: if_splits)
  have y: "utf8_char (blank_char_of c x) y" "length y = length x"
    using Char(1) ctl blank_char by (auto simp: y_def blank_char_of_def)
  have nc: "\<not> is_control (blank_char_of c x)" by (simp add: blank_char_of_def is_control_def)
  have "blank_controls (x @ r) = y @ blank_controls r"
    unfolding y_def by (rule blank_controls_char [OF Char(1)])
  then show ?case using Char(3) y nc
    by (simp add: utf8_char_append has_control_def text_chars_char)
qed

lemma utf8_char_narrow: "utf8_char c x \<Longrightarrow> length x = 1 \<longleftrightarrow> c < 0x80"
  by (erule utf8_char_cases)
    (auto simp: utf8_low_def utf8_second_def is_cont_def word_le_nat_alt word_less_nat_alt word_unat_eq_iff split: if_splits)

text \<open>Character by character: a control of one byte becomes a space, one of two a no-break space, and nothing else changes.\<close>

definition char_blanked :: "nat \<Rightarrow> nat" where
  "char_blanked c = (if is_control c then (if c < 0x80 then 0x20 else 0xA0) else c)"

lemma blank_controls_chars: "utf8 bs \<Longrightarrow> text_chars (blank_controls bs) = map char_blanked (text_chars bs)"
proof (induction bs rule: utf8_induct)
  case (Char c x r)
  let ?y = "if is_control c then (if length x = 1 then [0x20] else [0xC2, 0xA0]) else x"
  have "utf8_char (char_blanked c) ?y"
    using Char(1) blank_char utf8_char_narrow [OF Char(1)] by (auto simp: char_blanked_def)
  moreover have "utf8 (blank_controls r)" using blank_controls_utf8 [OF Char(2)] by simp
  ultimately show ?case
    using Char(3) by (simp only: blank_controls_char [OF Char(1)] text_chars_char [OF Char(1,2)] text_chars_char list.map)
qed simp

lemma utf8_same_cont:
  assumes "utf8 bs"
  shows "map is_cont (blank_controls bs) = map is_cont bs"
  using assms
proof (induction bs rule: utf8_induct)
  case (Char c x r)
  from Char(1) have "map is_cont (if is_control c then (if length x = 1 then [0x20] else [0xC2, 0xA0]) else x) = map is_cont x"
    by (cases rule: utf8_char_cases)
      (auto simp: is_control_def utf8_low_def utf8_second_def is_cont_def word_le_nat_alt word_less_nat_alt
         word_unat_eq_iff split: if_splits)
  then show ?case using Char(3) by (simp add: blank_controls_char [OF Char(1)])
qed simp

lemma blank_controls_boundary:
  assumes "utf8 bs"
  shows "is_char_boundary (blank_controls bs) i = is_char_boundary bs i"
proof -
  have len: "length (blank_controls bs) = length bs" using blank_controls_utf8 [OF assms] by simp
  have "i < length bs \<Longrightarrow> is_cont (blank_controls bs ! i) = is_cont (bs ! i)"
    using utf8_same_cont [OF assms] len by (metis nth_map)
  then show ?thesis using len by (simp add: is_char_boundary_def)
qed

lemma blank_controls_idle:
  assumes "utf8 bs" "\<not> has_control bs"
  shows "blank_controls bs = bs"
  using assms
proof (induction bs rule: utf8_induct)
  case (Char c x r)
  then show ?case by (simp add: blank_controls_char [OF Char(1)] has_control_def text_chars_char)
qed simp

section \<open>Slices\<close>

lemma str_get_utf8:
  assumes "utf8 bs" "str_get bs a b = Some t"
  shows "utf8 t" "length t = b - a" "b \<le> length bs" "a \<le> b" "t = take (b - a) (drop a bs)"
proof -
  from assms(2) have ab: "a \<le> b" "is_char_boundary bs a" "is_char_boundary bs b"
    and t: "t = take (b - a) (drop a bs)"
    by (auto simp: str_get_def split: if_splits)
  have b: "b \<le> length bs" "utf8 (take b bs)" using char_boundary_utf8 [OF assms(1) ab(3)] by simp_all
  have a: "utf8 (take a bs)" using char_boundary_utf8 [OF assms(1) ab(2)] by simp
  have "take b bs = take a bs @ t"
    using ab(1) take_add [of a "b - a" bs] by (simp add: t)
  then show "utf8 t" using a b(2) utf8_append by simp
  show "length t = b - a" using b t by simp
  show "b \<le> length bs" "a \<le> b" "t = take (b - a) (drop a bs)" using b ab t by simp_all
qed

lemma trim_end_spaces_prefix: "trim_end_spaces bs = take (length (trim_end_spaces bs)) bs"
proof -
  have "bs = trim_end_spaces bs @ rev (takeWhile (\<lambda>b. b = 0x20) (rev bs))"
    unfolding trim_end_spaces_def by (metis rev_append rev_rev_ident takeWhile_dropWhile_id)
  then show ?thesis by (metis append_eq_conv_conj)
qed

lemma trim_end_spaces_rest: "bs = trim_end_spaces bs @ replicate (length bs - length (trim_end_spaces bs)) 0x20"
proof -
  let ?w = "takeWhile (\<lambda>b. b = 0x20) (rev bs)"
  have bs: "bs = trim_end_spaces bs @ rev ?w"
    unfolding trim_end_spaces_def by (metis rev_append rev_rev_ident takeWhile_dropWhile_id)
  have "rev ?w = replicate (length ?w) 0x20"
    by (metis (mono_tags, lifting) replicate_length_same rev_replicate set_takeWhileD)
  moreover have "length ?w = length bs - length (trim_end_spaces bs)"
    by (subst (2) bs) simp
  ultimately show ?thesis using bs by simp
qed

lemma trim_end_spaces_boundary: "utf8 bs \<Longrightarrow> is_char_boundary bs (length (trim_end_spaces bs))"
proof -
  have "\<not> is_cont 0x20" by (simp add: is_cont_def)
  moreover have "length (trim_end_spaces bs) \<le> length bs"
    using arg_cong [OF trim_end_spaces_prefix [of bs], of length] by simp
  ultimately show ?thesis
    using arg_cong [OF trim_end_spaces_rest [of bs], of "\<lambda>xs. xs ! length (trim_end_spaces bs)"]
    by (auto simp: is_char_boundary_def nth_append not_le)
qed

end
