(* ===== verification/Proto_Cursor.thy ===== *)
theory Proto_Cursor
  imports Proto_Text
begin

text \<open>
  The reading and writing of fields in \<^verbatim>\<open>src/crates/proto/src/lib.rs\<close>: the two error types, the
  \<^verbatim>\<open>Cursor\<close> with its position, the integer writers, and the \<^verbatim>\<open>Field\<close> trait as the locale
  \<open>wire_field\<close>: what is put is got back, the hint covers it, and what is got can be put again in
  no more room.

  A decoder takes the cursor and returns an error or a value with the moved cursor;
  \<open>decode_bind\<close> is the source's \<^verbatim>\<open>?\<close>. An encoder returns an error or the bytes it appended;
  \<open>enc_seq\<close> runs encoders in order and stops at the first error.
\<close>

section \<open>Errors\<close>

text \<open>\<^verbatim>\<open>io::ErrorKind\<close> as far as the source looks at it.\<close>

datatype io_kind = UnexpectedEof | OtherKind nat

datatype decode_error =
    Truncated
  | DecOversize nat nat
  | DecVersion nat
  | BadTag u8
  | InvalidField
  | BadUtf8
  | TrailingBytes
  | Io io_kind

definition is_transport_loss :: "decode_error \<Rightarrow> bool" where
  "is_transport_loss e \<longleftrightarrow> (case e of Truncated \<Rightarrow> True | Io _ \<Rightarrow> True | _ \<Rightarrow> False)"

record scroll_band =
  sb_top :: nat
  sb_bottom :: nat
  sb_lines :: nat

datatype encode_error =
    EncOversize
  | BadTerm
  | BadEnv
  | BadCommand
  | BadSessionName
  | BadPattern
  | BadMatch
  | BadForwardTarget
  | RowCount nat nat
  | RowIndex nat
  | BadDeferred
  | BadScroll scroll_band

section \<open>The cursor\<close>

record cursor =
  cu_bytes :: bytes
  cu_pos :: nat

type_synonym 'a decoder = "cursor \<Rightarrow> decode_error + 'a \<times> cursor"

definition decode_ok :: "'a \<Rightarrow> 'a decoder" where
  "decode_ok v c = Inr (v, c)"

definition decode_err :: "decode_error \<Rightarrow> 'a decoder" where
  "decode_err e c = Inl e"

definition decode_bind :: "'a decoder \<Rightarrow> ('a \<Rightarrow> 'b decoder) \<Rightarrow> 'b decoder" where
  "decode_bind p f c = (case p c of Inl e \<Rightarrow> Inl e | Inr (v, c') \<Rightarrow> f v c')"

text \<open>\<^verbatim>\<open>ok_or(DecodeError::InvalidField)\<close>.\<close>

definition decode_some :: "'a option \<Rightarrow> 'a decoder" where
  "decode_some r = (case r of None \<Rightarrow> decode_err InvalidField | Some v \<Rightarrow> decode_ok v)"

text \<open>A loop over a count that carries state from one element to the next.\<close>

fun decode_loop :: "nat \<Rightarrow> ('s \<Rightarrow> ('a \<times> 's) decoder) \<Rightarrow> 's \<Rightarrow> 'a list decoder" where
  "decode_loop 0 f s = decode_ok []"
| "decode_loop (Suc n) f s =
     decode_bind (f s) (\<lambda>(v, s'). decode_bind (decode_loop n f s') (\<lambda>vs. decode_ok (v # vs)))"

text \<open>A loop over a count of elements of one shape.\<close>

fun decode_many :: "nat \<Rightarrow> 'a decoder \<Rightarrow> 'a list decoder" where
  "decode_many 0 p = decode_ok []"
| "decode_many (Suc n) p =
     decode_bind p (\<lambda>v. decode_bind (decode_many n p) (\<lambda>vs. decode_ok (v # vs)))"

definition cursor_new :: "bytes \<Rightarrow> cursor" where
  "cursor_new bs = \<lparr>cu_bytes = bs, cu_pos = 0\<rparr>"

definition cursor_remaining :: "cursor \<Rightarrow> nat" where
  "cursor_remaining c = length (cu_bytes c) - cu_pos c"

definition cursor_take :: "nat \<Rightarrow> bytes decoder" where
  "cursor_take n c =
     (if usize_max < cu_pos c + n then Inl InvalidField
      else if length (cu_bytes c) < cu_pos c + n then Inl Truncated
      else Inr (take n (drop (cu_pos c) (cu_bytes c)), c\<lparr>cu_pos := cu_pos c + n\<rparr>))"

definition cursor_array :: "nat \<Rightarrow> bytes decoder" where
  "cursor_array n = cursor_take n"

definition cursor_u8 :: "u8 decoder" where
  "cursor_u8 = decode_bind (cursor_take 1) (\<lambda>bs. decode_ok (hd bs))"

definition cursor_u16 :: "nat decoder" where
  "cursor_u16 = decode_bind (cursor_array 2) (\<lambda>bs. decode_ok (from_be bs))"

definition cursor_u32 :: "nat decoder" where
  "cursor_u32 = decode_bind (cursor_array 4) (\<lambda>bs. decode_ok (from_be bs))"

definition cursor_u64 :: "nat decoder" where
  "cursor_u64 = decode_bind (cursor_array 8) (\<lambda>bs. decode_ok (from_be bs))"

definition cursor_str :: "nat \<Rightarrow> bytes decoder" where
  "cursor_str len = decode_bind (cursor_take len) (\<lambda>bs. if utf8 bs then decode_ok bs else decode_err BadUtf8)"

definition cursor_exhausted :: "cursor \<Rightarrow> bool" where
  "cursor_exhausted c \<longleftrightarrow> length (cu_bytes c) \<le> cu_pos c"

definition reject_control :: "bytes \<Rightarrow> unit decoder" where
  "reject_control t = (if has_control t then decode_err InvalidField else decode_ok ())"

definition decode_bool :: "bool decoder" where
  "decode_bool = decode_bind cursor_u8 (\<lambda>b.
     if b = 0 then decode_ok False else if b = 1 then decode_ok True else decode_err InvalidField)"

section \<open>Writers\<close>

type_synonym encoded = "encode_error + bytes"

definition put_u16 :: "nat \<Rightarrow> bytes" where "put_u16 value = be_bytes 2 value"
definition put_u32 :: "nat \<Rightarrow> bytes" where "put_u32 value = be_bytes 4 value"
definition put_u64 :: "nat \<Rightarrow> bytes" where "put_u64 value = be_bytes 8 value"

definition put_bool :: "bool \<Rightarrow> bytes" where
  "put_bool b = [if b then 1 else 0]"

fun enc_seq :: "encoded list \<Rightarrow> encoded" where
  "enc_seq [] = Inr []"
| "enc_seq (x # xs) =
     (case x of Inl e \<Rightarrow> Inl e
      | Inr bs \<Rightarrow> (case enc_seq xs of Inl e \<Rightarrow> Inl e | Inr cs \<Rightarrow> Inr (bs @ cs)))"

definition enc_check :: "bool \<Rightarrow> encode_error \<Rightarrow> encoded" where
  "enc_check ok e = (if ok then Inr [] else Inl e)"

text \<open>\<^verbatim>\<open>u8::try_from\<close> and its wider kin, written out at once.\<close>

definition try_u8 :: "encode_error \<Rightarrow> nat \<Rightarrow> encoded" where
  "try_u8 e n = (if n \<le> 255 then Inr [of_nat n] else Inl e)"

definition try_u16 :: "encode_error \<Rightarrow> nat \<Rightarrow> encoded" where
  "try_u16 e n = (if n \<le> 65535 then Inr (put_u16 n) else Inl e)"

definition try_u32 :: "encode_error \<Rightarrow> nat \<Rightarrow> encoded" where
  "try_u32 e n = (if n \<le> u32_max then Inr (put_u32 n) else Inl e)"

definition u16_typed :: "nat \<Rightarrow> bool" where "u16_typed x \<longleftrightarrow> x \<le> 65535"
definition u32_typed :: "nat \<Rightarrow> bool" where "u32_typed x \<longleftrightarrow> x \<le> u32_max"
definition u64_typed :: "nat \<Rightarrow> bool" where "u64_typed x \<longleftrightarrow> x \<le> u64_max"

section \<open>Reading back\<close>

named_theorems parse_intros

definition cursor_at :: "bytes \<Rightarrow> bytes \<Rightarrow> cursor" where
  "cursor_at pre rest = \<lparr>cu_bytes = pre @ rest, cu_pos = length pre\<rparr>"

definition parses :: "'a decoder \<Rightarrow> bytes \<Rightarrow> 'a \<Rightarrow> bool" where
  "parses p bs v \<longleftrightarrow> (\<forall>pre post. length pre + length bs + length post \<le> usize_max \<longrightarrow>
     p (cursor_at pre (bs @ post)) = Inr (v, cursor_at (pre @ bs) post))"

lemma parses_ok [parse_intros]: "bs = [] \<Longrightarrow> w = v \<Longrightarrow> parses (decode_ok v) bs w"
  by (simp add: parses_def decode_ok_def)

lemma parses_bind:
  assumes "parses p xs v" "parses (f v) ys w"
  shows "parses (decode_bind p f) (xs @ ys) w"
  unfolding parses_def
proof (intro allI impI)
  fix pre post :: bytes
  assume len: "length pre + length (xs @ ys) + length post \<le> usize_max"
  have "p (cursor_at pre (xs @ ys @ post)) = Inr (v, cursor_at (pre @ xs) (ys @ post))"
    using assms(1) len by (simp add: parses_def)
  moreover have "f v (cursor_at (pre @ xs) (ys @ post)) = Inr (w, cursor_at ((pre @ xs) @ ys) post)"
    using assms(2) [unfolded parses_def, rule_format, of "pre @ xs" post] len by simp
  ultimately show "decode_bind p f (cursor_at pre ((xs @ ys) @ post)) = Inr (w, cursor_at (pre @ xs @ ys) post)"
    by (simp add: decode_bind_def)
qed

lemma parses_bind_end: "parses p xs v \<Longrightarrow> parses (f v) [] w \<Longrightarrow> parses (decode_bind p f) xs w"
  using parses_bind [of p xs v f "[]" w] by simp

lemma parses_bind_start: "parses p [] v \<Longrightarrow> parses (f v) ys w \<Longrightarrow> parses (decode_bind p f) ys w"
  using parses_bind [of p "[]" v f ys w] by simp

lemma parses_bind_Cons: "parses p [x] v \<Longrightarrow> parses (f v) ys w \<Longrightarrow> parses (decode_bind p f) (x # ys) w"
  using parses_bind [of p "[x]" v f ys w] by simp

lemma parses_some [parse_intros]: "r = Some v \<Longrightarrow> parses (decode_some r) [] v"
  by (simp add: decode_some_def parses_ok)

lemma parses_take [parse_intros]: "length bs = n \<Longrightarrow> parses (cursor_take n) bs bs"
  by (auto simp: parses_def cursor_take_def cursor_at_def)

lemma parses_array [parse_intros]: "length bs = n \<Longrightarrow> parses (cursor_array n) bs bs"
  by (simp add: cursor_array_def parses_take)

lemma parses_u8 [parse_intros]: "parses cursor_u8 [b] b"
  unfolding cursor_u8_def by (rule parses_bind_end [OF parses_take]) (simp_all add: parses_ok)

lemma parses_u16 [parse_intros]: "u16_typed x \<Longrightarrow> parses cursor_u16 (put_u16 x) x"
  unfolding cursor_u16_def put_u16_def
  by (rule parses_bind_end [OF parses_array]) (simp_all add: parses_ok from_be_be_bytes u16_typed_def)

lemma parses_u32 [parse_intros]: "u32_typed x \<Longrightarrow> parses cursor_u32 (put_u32 x) x"
  unfolding cursor_u32_def put_u32_def
  by (rule parses_bind_end [OF parses_array]) (simp_all add: parses_ok from_be_be_bytes u32_typed_def u32_max_def)

lemma parses_u64 [parse_intros]: "u64_typed x \<Longrightarrow> parses cursor_u64 (put_u64 x) x"
  unfolding cursor_u64_def put_u64_def
  by (rule parses_bind_end [OF parses_array]) (simp_all add: parses_ok from_be_be_bytes u64_typed_def u64_max_def)

lemma parses_str [parse_intros]: "length bs = n \<Longrightarrow> utf8 bs \<Longrightarrow> parses (cursor_str n) bs bs"
  unfolding cursor_str_def by (rule parses_bind_end [OF parses_take]) (simp_all add: parses_ok)

lemma parses_reject_control [parse_intros]: "\<not> has_control t \<Longrightarrow> parses (reject_control t) [] ()"
  by (simp add: reject_control_def parses_ok)

lemma parses_bool [parse_intros]: "parses decode_bool (put_bool b) b"
  unfolding decode_bool_def put_bool_def
  by (rule parses_bind_end [OF parses_u8]) (simp_all add: parses_ok)

text \<open>One step of a decoder at a time, so that a whole decoder is read off by \<open>intro\<close>.\<close>

named_theorems parse_binds

lemma parse_bind_prims [parse_binds]:
  "parses (g b) ys w \<Longrightarrow> parses (decode_bind cursor_u8 g) (b # ys) w"
  "parses (g b) [] w \<Longrightarrow> parses (decode_bind cursor_u8 g) [b] w"
  "parses (f x) ys w \<Longrightarrow> u16_typed x \<Longrightarrow> parses (decode_bind cursor_u16 f) (put_u16 x @ ys) w"
  "parses (f x) [] w \<Longrightarrow> u16_typed x \<Longrightarrow> parses (decode_bind cursor_u16 f) (put_u16 x) w"
  "parses (f x) ys w \<Longrightarrow> u32_typed x \<Longrightarrow> parses (decode_bind cursor_u32 f) (put_u32 x @ ys) w"
  "parses (f x) [] w \<Longrightarrow> u32_typed x \<Longrightarrow> parses (decode_bind cursor_u32 f) (put_u32 x) w"
  "parses (f x) ys w \<Longrightarrow> u64_typed x \<Longrightarrow> parses (decode_bind cursor_u64 f) (put_u64 x @ ys) w"
  "parses (f x) [] w \<Longrightarrow> u64_typed x \<Longrightarrow> parses (decode_bind cursor_u64 f) (put_u64 x) w"
  "parses (k z) ys w \<Longrightarrow> parses (decode_bind decode_bool k) (put_bool z @ ys) w"
  "parses (k z) [] w \<Longrightarrow> parses (decode_bind decode_bool k) (put_bool z) w"
  "parses (j ()) ys w \<Longrightarrow> \<not> has_control t \<Longrightarrow> parses (decode_bind (reject_control t) j) ys w"
  by (rule parses_bind parses_bind_Cons parses_bind_end parses_bind_start; simp add: parse_intros)+

lemma parse_bind_taken [parse_binds]:
  "parses (h (take n bs)) (drop n bs) w \<Longrightarrow> n \<le> length bs \<Longrightarrow> parses (decode_bind (cursor_array n) h) bs w"
  "parses (h (take n bs)) (drop n bs) w \<Longrightarrow> n \<le> length bs \<Longrightarrow> parses (decode_bind (cursor_take n) h) bs w"
  "parses (h (take n bs)) (drop n bs) w \<Longrightarrow> n \<le> length bs \<Longrightarrow> utf8 (take n bs) \<Longrightarrow>
     parses (decode_bind (cursor_str n) h) bs w"
  using parses_bind [of "cursor_array n" "take n bs" "take n bs" h "drop n bs" w]
    parses_bind [of "cursor_take n" "take n bs" "take n bs" h "drop n bs" w]
    parses_bind [of "cursor_str n" "take n bs" "take n bs" h "drop n bs" w]
  by (simp_all add: parse_intros)

lemma decode_pure [simp]: "decode_bind (decode_ok v) f = f v" "decode_some (Some v) = decode_ok v"
  by (auto simp: decode_bind_def decode_ok_def decode_some_def)

lemma parse_bind_some [parse_binds]:
  "parses (f (the r)) ys w \<Longrightarrow> r \<noteq> None \<Longrightarrow> parses (decode_bind (decode_some r) f) ys w"
  by auto

lemma parse_guard: "parses q bs w \<Longrightarrow> \<not> b \<Longrightarrow> parses (if b then p else q) bs w"
  by simp

lemma parse_ok [parse_binds]: "w = v \<Longrightarrow> parses (decode_ok v) [] w"
  by (rule parses_ok) simp_all

section \<open>What a decoder gives\<close>

text \<open>\<open>gives p Q\<close>: whatever \<open>p\<close> returns satisfies \<open>Q\<close> together with the number of bytes it read,
  which it read forwards.\<close>

definition gives :: "'a decoder \<Rightarrow> ('a \<Rightarrow> nat \<Rightarrow> bool) \<Rightarrow> bool" where
  "gives p Q \<longleftrightarrow> (\<forall>c v c'. p c = Inr (v, c') \<longrightarrow>
     cu_bytes c' = cu_bytes c \<and> cu_pos c \<le> cu_pos c' \<and> cu_pos c' \<le> max (cu_pos c) (length (cu_bytes c)) \<and>
     Q v (cu_pos c' - cu_pos c))"

named_theorems gives_intros

lemma gives_ok [gives_intros]: "Q v 0 \<Longrightarrow> gives (decode_ok v) Q"
  by (simp add: gives_def decode_ok_def)

lemma gives_err [gives_intros]: "gives (decode_err e) Q"
  by (simp add: gives_def decode_err_def)

lemma gives_bind:
  assumes "gives p P" "\<And>v n. P v n \<Longrightarrow> gives (f v) (\<lambda>w m. Q w (n + m))"
  shows "gives (decode_bind p f) Q"
  unfolding gives_def
proof (intro allI impI)
  fix c w c' assume "decode_bind p f c = Inr (w, c')"
  then obtain v d where p: "p c = Inr (v, d)" and f: "f v d = Inr (w, c')"
    by (auto simp: decode_bind_def split: sum.splits)
  from assms(1) p have d: "cu_bytes d = cu_bytes c" "cu_pos c \<le> cu_pos d" "P v (cu_pos d - cu_pos c)"
      "cu_pos d \<le> max (cu_pos c) (length (cu_bytes c))"
    unfolding gives_def by blast+
  from assms(2) [OF d(3)] f
  have "cu_bytes c' = cu_bytes d" "cu_pos d \<le> cu_pos c'" "Q w (cu_pos d - cu_pos c + (cu_pos c' - cu_pos d))"
      "cu_pos c' \<le> max (cu_pos d) (length (cu_bytes d))"
    unfolding gives_def by blast+
  moreover have "cu_pos d - cu_pos c + (cu_pos c' - cu_pos d) = cu_pos c' - cu_pos c"
    using d(2) calculation(2) by simp
  ultimately show "cu_bytes c' = cu_bytes c \<and> cu_pos c \<le> cu_pos c' \<and>
      cu_pos c' \<le> max (cu_pos c) (length (cu_bytes c)) \<and> Q w (cu_pos c' - cu_pos c)"
    using d by auto
qed

lemma gives_mono: "gives p P \<Longrightarrow> (\<And>v n. P v n \<Longrightarrow> Q v n) \<Longrightarrow> gives p Q"
  by (auto simp: gives_def)

lemma gives_if [gives_intros]:
  "(b \<Longrightarrow> gives p Q) \<Longrightarrow> (\<not> b \<Longrightarrow> gives q Q) \<Longrightarrow> gives (if b then p else q) Q"
  by simp

lemma gives_take: "gives (cursor_take n) (\<lambda>bs m. length bs = n \<and> m = n)"
  by (auto simp: gives_def cursor_take_def split: if_splits)

lemma gives_array: "gives (cursor_array n) (\<lambda>bs m. length bs = n \<and> m = n)"
  by (simp add: cursor_array_def gives_take)

lemma gives_u8: "gives cursor_u8 (\<lambda>b m. m = 1)"
  unfolding cursor_u8_def by (rule gives_bind [OF gives_take]) (simp add: gives_ok)

lemma from_be_typed: "length bs = 2 \<Longrightarrow> u16_typed (from_be bs)" "length bs = 4 \<Longrightarrow> u32_typed (from_be bs)"
  "length bs = 8 \<Longrightarrow> u64_typed (from_be bs)"
  using from_be_bound [of bs] by (simp_all add: u16_typed_def u32_typed_def u64_typed_def u32_max_def u64_max_def)

lemma gives_u16: "gives cursor_u16 (\<lambda>x m. u16_typed x \<and> m = 2)"
  unfolding cursor_u16_def by (rule gives_bind [OF gives_array]) (simp add: gives_ok from_be_typed)

lemma gives_u32: "gives cursor_u32 (\<lambda>x m. u32_typed x \<and> m = 4)"
  unfolding cursor_u32_def by (rule gives_bind [OF gives_array]) (simp add: gives_ok from_be_typed)

lemma gives_u64: "gives cursor_u64 (\<lambda>x m. u64_typed x \<and> m = 8)"
  unfolding cursor_u64_def by (rule gives_bind [OF gives_array]) (simp add: gives_ok from_be_typed)

lemma gives_str: "gives (cursor_str n) (\<lambda>bs m. length bs = n \<and> m = n \<and> utf8 bs)"
  unfolding cursor_str_def by (rule gives_bind [OF gives_take]) (simp add: gives_ok gives_err)

lemma gives_bool: "gives decode_bool (\<lambda>b m. m = 1)"
  unfolding decode_bool_def by (rule gives_bind [OF gives_u8]) (simp add: gives_ok gives_err)

lemma gives_bind_prims [gives_intros]:
  "(\<And>b. gives (k b) (\<lambda>w m. Q w (1 + m))) \<Longrightarrow> gives (decode_bind cursor_u8 k) Q"
  "(\<And>x. u16_typed x \<Longrightarrow> gives (f x) (\<lambda>w m. Q w (2 + m))) \<Longrightarrow> gives (decode_bind cursor_u16 f) Q"
  "(\<And>x. u32_typed x \<Longrightarrow> gives (f x) (\<lambda>w m. Q w (4 + m))) \<Longrightarrow> gives (decode_bind cursor_u32 f) Q"
  "(\<And>x. u64_typed x \<Longrightarrow> gives (f x) (\<lambda>w m. Q w (8 + m))) \<Longrightarrow> gives (decode_bind cursor_u64 f) Q"
  "(\<And>b. gives (g b) (\<lambda>w m. Q w (1 + m))) \<Longrightarrow> gives (decode_bind decode_bool g) Q"
  "(\<And>bs. length bs = n \<Longrightarrow> gives (h bs) (\<lambda>w m. Q w (n + m))) \<Longrightarrow> gives (decode_bind (cursor_array n) h) Q"
  "(\<And>bs. length bs = n \<Longrightarrow> gives (h bs) (\<lambda>w m. Q w (n + m))) \<Longrightarrow> gives (decode_bind (cursor_take n) h) Q"
  "(\<And>bs. length bs = n \<Longrightarrow> utf8 bs \<Longrightarrow> gives (h bs) (\<lambda>w m. Q w (n + m))) \<Longrightarrow>
     gives (decode_bind (cursor_str n) h) Q"
  by (rule gives_bind, rule gives_u8 gives_u16 gives_u32 gives_u64 gives_bool gives_array gives_take gives_str, simp)+

lemma gives_bind_pure [gives_intros]:
  "(\<not> has_control t \<Longrightarrow> gives (g ()) Q) \<Longrightarrow> gives (decode_bind (reject_control t) g) Q"
  "(\<And>v. r = Some v \<Longrightarrow> gives (f v) Q) \<Longrightarrow> gives (decode_bind (decode_some r) f) Q"
  by (auto simp: gives_def decode_bind_def reject_control_def decode_some_def decode_ok_def decode_err_def
      split: option.splits)

lemma gives_some [gives_intros]: "(\<And>v. r = Some v \<Longrightarrow> Q v 0) \<Longrightarrow> gives (decode_some r) Q"
  by (cases r) (auto simp: decode_some_def intro: gives_intros)

section \<open>Writers\<close>

lemma put_lengths [simp]: "length (put_u16 x) = 2" "length (put_u32 x) = 4" "length (put_u64 x) = 8"
  "length (put_bool b) = 1"
  by (simp_all add: put_u16_def put_u32_def put_u64_def put_bool_def)

lemma enc_seq_Inr [simp]:
  "enc_seq (x # xs) = Inr bs \<longleftrightarrow> (\<exists>a b. x = Inr a \<and> enc_seq xs = Inr b \<and> bs = a @ b)"
  by (auto split: sum.splits)

declare enc_seq.simps(2) [simp del]

text \<open>The same with the bytes named by what wrote them.\<close>

lemma enc_seq_written:
  "enc_seq (x # xs) = Inr bs \<longleftrightarrow> \<not> isl x \<and> (\<exists>cs. enc_seq xs = Inr cs \<and> bs = projr x @ cs)"
  by (cases x) auto

lemma enc_check_Inr [simp]: "enc_check ok e = Inr bs \<longleftrightarrow> ok \<and> bs = []"
  by (auto simp: enc_check_def)

lemma try_Inr [simp]:
  "try_u8 e n = Inr bs \<longleftrightarrow> n \<le> 255 \<and> bs = [of_nat n]"
  "try_u16 e n = Inr bs \<longleftrightarrow> n \<le> 65535 \<and> bs = put_u16 n"
  "try_u32 e n = Inr bs \<longleftrightarrow> n \<le> u32_max \<and> bs = put_u32 n"
  by (auto simp: try_u8_def try_u16_def try_u32_def)

lemma unat_of_nat_byte [simp]: "n \<le> 255 \<Longrightarrow> unat (of_nat n :: u8) = n"
  by (simp add: unat_of_nat)

lemma unat_u8_le: "unat (b :: u8) \<le> 255"
  using unat_byte_less [of b] by simp

section \<open>A field of a message\<close>

locale wire_field =
  fixes put :: "'a \<Rightarrow> encoded"
    and get :: "'a decoder"
    and hint :: "'a \<Rightarrow> nat"
    and typed :: "'a \<Rightarrow> bool"
    and view :: "'a \<Rightarrow> 'a"
  assumes roundtrip: "typed v \<Longrightarrow> put v = Inr bs \<Longrightarrow> parses get bs (view v)"
    and hint_covers: "typed v \<Longrightarrow> put v = Inr bs \<Longrightarrow> length bs \<le> hint v"
    and stable: "gives get (\<lambda>v n. typed v \<and> (\<exists>bs. put v = Inr bs \<and> length bs \<le> n))"
begin

lemma bind_back:
  "put v = Inr bs \<Longrightarrow> typed v \<Longrightarrow> parses (f (view v)) ys w \<Longrightarrow> parses (decode_bind get f) (bs @ ys) w"
  by (rule parses_bind [OF roundtrip])

lemma bind_back_end:
  "put v = Inr bs \<Longrightarrow> typed v \<Longrightarrow> parses (f (view v)) [] w \<Longrightarrow> parses (decode_bind get f) bs w"
  by (rule parses_bind_end [OF roundtrip])

lemma put_back:
  "\<not> isl (put v) \<Longrightarrow> typed v \<Longrightarrow> parses (f (view v)) ys w \<Longrightarrow> parses (decode_bind get f) (projr (put v) @ ys) w"
  by (rule bind_back) simp_all

lemma put_back_end:
  "\<not> isl (put v) \<Longrightarrow> typed v \<Longrightarrow> parses (f (view v)) [] w \<Longrightarrow> parses (decode_bind get f) (projr (put v)) w"
  by (rule bind_back_end) simp_all

lemma written_length: "\<not> isl (put v) \<Longrightarrow> typed v \<Longrightarrow> length (projr (put v)) \<le> hint v"
  by (rule hint_covers) simp_all

lemma bind_gives:
  assumes "\<And>v bs n. typed v \<Longrightarrow> put v = Inr bs \<Longrightarrow> length bs \<le> n \<Longrightarrow> gives (f v) (\<lambda>w m. Q w (n + m))"
  shows "gives (decode_bind get f) Q"
  using assms by (intro gives_bind [OF stable]) blast

text \<open>Many of them in a row, as every counted list is written.\<close>

lemma many_roundtrip:
  "list_all typed vs \<Longrightarrow> enc_seq (map put vs) = Inr bs \<Longrightarrow>
   parses (decode_many (length vs) get) bs (map view vs)"
proof (induction vs arbitrary: bs)
  case Nil
  then show ?case by (simp add: parses_ok)
next
  case (Cons v vs)
  from Cons.prems obtain a b where ab: "put v = Inr a" "enc_seq (map put vs) = Inr b" "bs = a @ b"
    by auto
  have "parses (decode_many (length vs) get) b (map view vs)" using Cons ab by simp
  then show ?case using Cons.prems ab
    by (auto intro!: bind_back parses_bind_end [of "decode_many (length vs) get"] parses_ok)
qed

lemma many_hint:
  "list_all typed vs \<Longrightarrow> enc_seq (map put vs) = Inr bs \<Longrightarrow> length bs \<le> sum_list (map hint vs)"
proof (induction vs arbitrary: bs)
  case (Cons v vs)
  from Cons.prems obtain a b where ab: "put v = Inr a" "enc_seq (map put vs) = Inr b" "bs = a @ b"
    by auto
  then show ?case using Cons hint_covers [OF _ ab(1)] by (fastforce intro: add_mono)
qed simp

lemma many_gives:
  "gives (decode_many n get) (\<lambda>vs m. length vs = n \<and> list_all typed vs \<and>
     (\<exists>bs. enc_seq (map put vs) = Inr bs \<and> length bs \<le> m))"
proof (induction n)
  case 0
  then show ?case by (simp add: gives_ok)
next
  case (Suc n)
  show ?case
    unfolding decode_many.simps
    by (rule bind_gives, rule gives_bind [OF Suc.IH], rule gives_ok)
      (auto intro: add_mono)
qed

end

section \<open>A counted list whose elements are checked against a running state\<close>

fun running :: "('s \<Rightarrow> 'a \<Rightarrow> bool) \<Rightarrow> ('s \<Rightarrow> 'a \<Rightarrow> 's) \<Rightarrow> 's \<Rightarrow> 'a list \<Rightarrow> bool" where
  "running ok upd s [] \<longleftrightarrow> True"
| "running ok upd s (v # vs) \<longleftrightarrow> ok s v \<and> running ok upd (upd s v) vs"

lemma running_total:
  "running (\<lambda>t v. t + cost v \<le> limit \<and> P v) (\<lambda>t v. t + cost v) t vs \<longleftrightarrow>
   (vs \<noteq> [] \<longrightarrow> t + sum_list (map cost vs) \<le> limit) \<and> list_all P vs"
  for cost :: "'a \<Rightarrow> nat"
  by (induction vs arbitrary: t) (auto simp: add.assoc)

lemma decode_loop_reads:
  assumes step: "\<And>s v bs. ok s v \<Longrightarrow> put v = Inr bs \<Longrightarrow> parses (step s) bs (view v, upd s v)"
  shows "running ok upd s vs \<Longrightarrow> enc_seq (map put vs) = Inr bs \<Longrightarrow>
    parses (decode_loop (length vs) step s) bs (map view vs)"
proof (induction vs arbitrary: s bs)
  case Nil
  then show ?case by (simp add: parses_ok)
next
  case (Cons v vs)
  from Cons.prems obtain a b where ab: "put v = Inr a" "enc_seq (map put vs) = Inr b" "bs = a @ b"
    by auto
  have "parses (decode_loop (length vs) step (upd s v)) b (map view vs)" using Cons ab by simp
  then show ?case using Cons.prems ab
    by (auto intro!: parses_bind [OF step] parses_bind_end [of "decode_loop (length vs) step (upd s v)"] parses_ok)
qed

locale wire_loop =
  fixes put :: "'a \<Rightarrow> encoded"
    and step :: "'s \<Rightarrow> ('a \<times> 's) decoder"
    and ok :: "'s \<Rightarrow> 'a \<Rightarrow> bool"
    and upd :: "'s \<Rightarrow> 'a \<Rightarrow> 's"
    and view :: "'a \<Rightarrow> 'a"
  assumes step_roundtrip: "ok s v \<Longrightarrow> put v = Inr bs \<Longrightarrow> parses (step s) bs (view v, upd s v)"
    and step_stable: "gives (step s) (\<lambda>(v, s') n. s' = upd s v \<and> ok s v \<and> (\<exists>bs. put v = Inr bs \<and> length bs \<le> n))"
begin

lemma loop_roundtrip:
  "running ok upd s vs \<Longrightarrow> enc_seq (map put vs) = Inr bs \<Longrightarrow>
   parses (decode_loop (length vs) step s) bs (map view vs)"
  by (rule decode_loop_reads [OF step_roundtrip])

lemma loop_gives:
  "gives (decode_loop n step s) (\<lambda>vs m. length vs = n \<and> running ok upd s vs \<and>
     (\<exists>bs. enc_seq (map put vs) = Inr bs \<and> length bs \<le> m))"
proof (induction n arbitrary: s)
  case 0
  then show ?case by (simp add: gives_ok)
next
  case (Suc n)
  show ?case
    unfolding decode_loop.simps
  proof (rule gives_bind [OF step_stable], clarsimp)
    fix v n' bs assume v: "ok s v" "put v = Inr bs" "length bs \<le> n'"
    show "gives (decode_bind (decode_loop n step (upd s v)) (\<lambda>vs. decode_ok (v # vs)))
      (\<lambda>w m. length w = Suc n \<and> running ok upd s w \<and> (\<exists>bs. enc_seq (map put w) = Inr bs \<and> length bs \<le> n' + m))"
      by (rule gives_bind [OF Suc.IH], rule gives_ok)
        (use v in \<open>auto intro: add_mono\<close>)
  qed
qed

end

end
