(* ===== verification/Proto_Fields.thy ===== *)
theory Proto_Fields
  imports Proto_Cursor Sack
begin

text \<open>
  The values messages are made of and the codec of each field, from
  \<^verbatim>\<open>src/crates/proto/src/lib.rs\<close>: the numbered newtypes, the grid, versions and their negotiation,
  identities, reasons, and every \<^verbatim>\<open>copy_field!\<close> and \<^verbatim>\<open>ref_field!\<close> other than the screen piece. Each
  codec is \<open>f_put\<close>, \<open>f_get\<close> and \<open>f_hint\<close>, with \<open>f_typed\<close> for what the Rust type of the value already
  guarantees (a width, a non-zero number, an array's length, well-formed UTF-8), and each is an
  interpretation of \<open>wire_field\<close>.
\<close>

section \<open>Constants\<close>

definition PROTOCOL_VERSION :: nat where "PROTOCOL_VERSION = 17"
definition MIN_PROTOCOL_VERSION :: nat where "MIN_PROTOCOL_VERSION = 16"
definition MANAGEMENT_VERSION :: nat where "MANAGEMENT_VERSION = 14"
definition MAX_FRAME :: nat where "MAX_FRAME = 1024 * 1024"
definition MAX_OUTPUT_CHUNK :: nat where "MAX_OUTPUT_CHUNK = 64 * 1024"
definition MAX_INPUT_CHUNK :: nat where "MAX_INPUT_CHUNK = 64 * 1024"
definition CAPABILITY_BYTES :: nat where "CAPABILITY_BYTES = 32"
definition MAX_CLIENT_FRAME :: nat where "MAX_CLIENT_FRAME = 68 * 1024"
definition MAX_TERM :: nat where "MAX_TERM = 64"
definition MAX_ENV :: nat where "MAX_ENV = 4096"
definition MAX_ENV_VARS :: nat where "MAX_ENV_VARS = 16"
definition MAX_SESSIONS :: nat where "MAX_SESSIONS = 256"
definition MAX_COMMAND :: nat where "MAX_COMMAND = 128"
definition MAX_COMMAND_WORDS :: nat where "MAX_COMMAND_WORDS = 16"
definition MAX_SESSION_NAME :: nat where "MAX_SESSION_NAME = 64"
definition MAX_PATTERN :: nat where "MAX_PATTERN = 256"
definition MAX_MATCHES :: nat where "MAX_MATCHES = 256"
definition MAX_MATCH_LINE :: nat where "MAX_MATCH_LINE = 512"
definition MAX_FORWARD_HOST :: nat where "MAX_FORWARD_HOST = 255"
definition LENGTH_PREFIX :: nat where "LENGTH_PREFIX = 4"
definition OFFER_BYTES :: nat where "OFFER_BYTES = 16 + 2 + 8 + 32"
definition FORWARD_FIN :: u8 where "FORWARD_FIN = 1"

lemmas proto_consts = PROTOCOL_VERSION_def MIN_PROTOCOL_VERSION_def MANAGEMENT_VERSION_def MAX_FRAME_def
  MAX_OUTPUT_CHUNK_def MAX_INPUT_CHUNK_def CAPABILITY_BYTES_def MAX_CLIENT_FRAME_def MAX_TERM_def
  MAX_ENV_def MAX_ENV_VARS_def MAX_SESSIONS_def MAX_COMMAND_def MAX_COMMAND_WORDS_def
  MAX_SESSION_NAME_def MAX_PATTERN_def MAX_MATCHES_def MAX_MATCH_LINE_def MAX_FORWARD_HOST_def
  LENGTH_PREFIX_def OFFER_BYTES_def FORWARD_FIN_def MAX_FORWARD_CHUNK_def MAX_ACK_RUNS_def

section \<open>Values\<close>

subsection \<open>Numbers that are never zero\<close>

type_synonym cmd_seq = nat

definition cmd_seq_first :: cmd_seq where "cmd_seq_first = 1"
definition cmd_seq_next :: "cmd_seq \<Rightarrow> cmd_seq" where "cmd_seq_next s = u64_saturating_add s 1"
definition cmd_seq_from_u64 :: "nat \<Rightarrow> cmd_seq option" where
  "cmd_seq_from_u64 value = (if value = 0 then None else Some value)"
definition cmd_seq_decode :: "nat \<Rightarrow> cmd_seq decoder" where
  "cmd_seq_decode value = decode_some (cmd_seq_from_u64 value)"

type_synonym stream_id = nat

definition stream_id_first :: stream_id where "stream_id_first = 1"
definition stream_id_next :: "stream_id \<Rightarrow> stream_id" where "stream_id_next s = min (s + 1) u32_max"
definition stream_id_from_u32 :: "nat \<Rightarrow> stream_id option" where
  "stream_id_from_u32 value = (if value = 0 then None else Some value)"
definition stream_id_decode :: "nat \<Rightarrow> stream_id decoder" where
  "stream_id_decode value = decode_some (stream_id_from_u32 value)"

type_synonym generation = nat

definition generation_initial :: generation where "generation_initial = 1"
definition generation_next :: "generation \<Rightarrow> generation" where "generation_next g = u64_saturating_add g 1"
definition generation_from_u64 :: "nat \<Rightarrow> generation option" where
  "generation_from_u64 value = (if value = 0 then None else Some value)"
definition generation_decode :: "nat \<Rightarrow> generation decoder" where
  "generation_decode value = decode_some (generation_from_u64 value)"

type_synonym screen_version = nat

definition screen_version_initial :: screen_version where "screen_version_initial = 1"
definition screen_version_next :: "screen_version \<Rightarrow> screen_version" where
  "screen_version_next v = u64_saturating_add v 1"
definition screen_version_from_u64 :: "nat \<Rightarrow> screen_version option" where
  "screen_version_from_u64 value = (if value = 0 then None else Some value)"
definition screen_version_decode :: "nat \<Rightarrow> screen_version decoder" where
  "screen_version_decode value = decode_some (screen_version_from_u64 value)"

type_synonym byte_off = nat

definition byte_off_checked_add :: "byte_off \<Rightarrow> nat \<Rightarrow> byte_off option" where
  "byte_off_checked_add off amount = (if off + amount \<le> u64_max then Some (off + amount) else None)"

subsection \<open>Grid and versions\<close>

record grid_size =
  gs_cols :: nat
  gs_rows :: nat

definition GRID_MAX_COLS :: nat where "GRID_MAX_COLS = 1024"
definition GRID_MAX_ROWS :: nat where "GRID_MAX_ROWS = 512"

definition grid_new :: "nat \<Rightarrow> nat \<Rightarrow> grid_size option" where
  "grid_new cols rows =
     (if \<not> (1 \<le> cols \<and> cols \<le> GRID_MAX_COLS) \<or> \<not> (1 \<le> rows \<and> rows \<le> GRID_MAX_ROWS) then None
      else Some \<lparr>gs_cols = cols, gs_rows = rows\<rparr>)"

record version_range =
  vr_oldest :: nat
  vr_newest :: nat

type_synonym version = nat

definition version_range_local :: version_range where
  "version_range_local = \<lparr>vr_oldest = MIN_PROTOCOL_VERSION, vr_newest = PROTOCOL_VERSION\<rparr>"

definition version_range_new :: "nat \<Rightarrow> nat \<Rightarrow> version_range option" where
  "version_range_new oldest newest =
     (if oldest = 0 \<or> newest < oldest then None else Some \<lparr>vr_oldest = oldest, vr_newest = newest\<rparr>)"

datatype reject_reason =
    RejectVersion version_range version_range
  | UnknownSession
  | SequenceGap
  | InputBacklog
  | Internal
  | TooManySessions
  | TooManyAttachments

definition version_negotiate :: "version_range \<Rightarrow> version_range \<Rightarrow> reject_reason + version" where
  "version_negotiate server client =
     (let newest = if vr_newest server < vr_newest client then vr_newest server else vr_newest client;
          oldest = if vr_oldest client < vr_oldest server then vr_oldest server else vr_oldest client
      in if newest < oldest then Inl (RejectVersion server client) else Inr newest)"

definition reject_is_terminal :: "reject_reason \<Rightarrow> bool" where
  "reject_is_terminal r \<longleftrightarrow>
     (case r of RejectVersion _ _ \<Rightarrow> True | UnknownSession \<Rightarrow> True | TooManySessions \<Rightarrow> True
      | TooManyAttachments \<Rightarrow> True | _ \<Rightarrow> False)"

fun reject_to_wire :: "reject_reason \<Rightarrow> u8" where
  "reject_to_wire (RejectVersion _ _) = 0"
| "reject_to_wire UnknownSession = 1"
| "reject_to_wire SequenceGap = 2"
| "reject_to_wire InputBacklog = 3"
| "reject_to_wire Internal = 4"
| "reject_to_wire TooManySessions = 5"
| "reject_to_wire TooManyAttachments = 6"

subsection \<open>Identities, requests and reasons\<close>

type_synonym session_id = bytes
type_synonym client_id = bytes
type_synonym capability = bytes

record datagram_offer =
  do_ip :: bytes
  do_port :: nat
  do_cid :: bytes
  do_secret :: bytes

record confirmed_output =
  co_generation :: generation
  co_next_off :: byte_off

record resume_request =
  rr_session_id :: session_id
  rr_capability :: capability
  rr_confirmed_output :: confirmed_output
  rr_client :: client_id

datatype input_cue = Opaque | Echoing nat

datatype detach_reason = Requested | Replaced

fun detach_to_wire :: "detach_reason \<Rightarrow> u8" where
  "detach_to_wire Requested = 0"
| "detach_to_wire Replaced = 1"

definition detach_from_wire :: "u8 \<Rightarrow> detach_reason option" where
  "detach_from_wire value = (if value = 0 then Some Requested else if value = 1 then Some Replaced else None)"

datatype forward_reset_reason = Refused | Unreachable | Closed | Limit | ResetInternal

fun reset_to_wire :: "forward_reset_reason \<Rightarrow> u8" where
  "reset_to_wire Refused = 0"
| "reset_to_wire Unreachable = 1"
| "reset_to_wire Closed = 2"
| "reset_to_wire Limit = 3"
| "reset_to_wire ResetInternal = 4"

definition reset_from_wire :: "u8 \<Rightarrow> forward_reset_reason option" where
  "reset_from_wire value =
     (if value = 0 then Some Refused else if value = 1 then Some Unreachable
      else if value = 2 then Some Closed else if value = 3 then Some Limit
      else if value = 4 then Some ResetInternal else None)"

record forward_target =
  ft_host :: bytes
  ft_port :: nat

type_synonym session_env = "(bytes \<times> bytes) list"

record session_summary =
  ss_session_id :: session_id
  ss_size :: grid_size
  ss_attachments :: nat
  ss_active_unix :: nat
  ss_command :: bytes

record session_name =
  sn_session_id :: session_id
  sn_name :: bytes

record search_match =
  sm_session_id :: session_id
  sm_distance :: nat
  sm_line :: bytes

section \<open>Codecs\<close>

subsection \<open>Helpers\<close>

definition encode_cue :: "input_cue \<Rightarrow> bytes" where
  "encode_cue cue = (case cue of Opaque \<Rightarrow> [0] | Echoing room \<Rightarrow> 1 # put_u16 room)"

definition decode_cue :: "input_cue decoder" where
  "decode_cue = decode_bind cursor_u8 (\<lambda>t.
     if t = 0 then decode_ok Opaque
     else if t = 1 then decode_bind cursor_u16 (\<lambda>room. decode_ok (Echoing room))
     else decode_err InvalidField)"

definition encode_cursor :: "(nat \<times> nat) option \<Rightarrow> bytes" where
  "encode_cursor at = (case at of Some (x, y) \<Rightarrow> 1 # put_u16 x @ put_u16 y | None \<Rightarrow> [0])"

definition decode_cursor :: "(nat \<times> nat) option decoder" where
  "decode_cursor = decode_bind cursor_u8 (\<lambda>t.
     if t = 0 then decode_ok None
     else if t = 1 then
       decode_bind cursor_u16 (\<lambda>x. decode_bind cursor_u16 (\<lambda>y. decode_ok (Some (x, y))))
     else decode_err InvalidField)"

definition encode_offer :: "datagram_offer option \<Rightarrow> bytes" where
  "encode_offer offer =
     (case offer of None \<Rightarrow> [0]
      | Some offer \<Rightarrow> 1 # do_ip offer @ put_u16 (do_port offer) @ do_cid offer @ do_secret offer)"

definition decode_offer :: "datagram_offer option decoder" where
  "decode_offer = decode_bind cursor_u8 (\<lambda>t.
     if t = 0 then decode_ok None
     else if t = 1 then
       decode_bind (cursor_array 16) (\<lambda>ip. decode_bind cursor_u16 (\<lambda>port.
       decode_bind (cursor_array 8) (\<lambda>cid. decode_bind (cursor_array 32) (\<lambda>secret.
       decode_ok (Some \<lparr>do_ip = ip, do_port = port, do_cid = cid, do_secret = secret\<rparr>)))))
     else decode_err InvalidField)"

definition encode_forward_target :: "forward_target \<Rightarrow> encoded" where
  "encode_forward_target target =
     (let host = ft_host target in enc_seq [
       enc_check (\<not> (host = [] \<or> MAX_FORWARD_HOST < length host \<or> has_control host \<or> ft_port target = 0))
         BadForwardTarget,
       try_u8 BadForwardTarget (length host),
       Inr host,
       Inr (put_u16 (ft_port target))])"

definition decode_forward_target :: "forward_target decoder" where
  "decode_forward_target =
     decode_bind cursor_u8 (\<lambda>len. decode_bind (cursor_str (unat len)) (\<lambda>host.
     decode_bind (reject_control host) (\<lambda>_. decode_bind cursor_u16 (\<lambda>port.
     if host = [] \<or> port = 0 then decode_err InvalidField
     else decode_ok \<lparr>ft_host = host, ft_port = port\<rparr>))))"

definition is_ascii_alphabetic :: "u8 \<Rightarrow> bool" where
  "is_ascii_alphabetic b \<longleftrightarrow> 0x41 \<le> b \<and> b \<le> 0x5A \<or> 0x61 \<le> b \<and> b \<le> 0x7A"

definition is_ascii_alphanumeric :: "u8 \<Rightarrow> bool" where
  "is_ascii_alphanumeric b \<longleftrightarrow> is_ascii_alphabetic b \<or> 0x30 \<le> b \<and> b \<le> 0x39"

definition valid_term :: "bytes \<Rightarrow> bool" where
  "valid_term term \<longleftrightarrow> term \<noteq> [] \<and> length term \<le> MAX_TERM \<and>
     list_all (\<lambda>b. is_ascii_alphanumeric b \<or> b = 0x2D \<or> b = 0x2B \<or> b = 0x2E \<or> b = 0x5F) term"

definition valid_env_name :: "bytes \<Rightarrow> bool" where
  "valid_env_name name \<longleftrightarrow>
     (case name of [] \<Rightarrow> False
      | b # rest \<Rightarrow> (is_ascii_alphabetic b \<or> b = 0x5F) \<and>
          list_all (\<lambda>b. is_ascii_alphanumeric b \<or> b = 0x5F) rest)"

definition env_cost :: "bytes \<times> bytes \<Rightarrow> nat" where
  "env_cost entry = length (fst entry) + length (snd entry) + 3"

definition encode_env_entry :: "bytes \<times> bytes \<Rightarrow> encoded" where
  "encode_env_entry entry = (case entry of (name, value) \<Rightarrow> enc_seq [
     enc_check (\<not> (\<not> valid_env_name name \<or> has_control value)) BadEnv,
     try_u8 EncOversize (length name),
     Inr name,
     try_u16 EncOversize (length value),
     Inr value])"

definition encode_env :: "session_env \<Rightarrow> encoded" where
  "encode_env env = enc_seq [
     enc_check (length env \<le> MAX_ENV_VARS) BadEnv,
     enc_check (sum_list (map env_cost env) \<le> MAX_ENV) BadEnv,
     try_u8 BadEnv (length env),
     enc_seq (map encode_env_entry env)]"

definition decode_env_entry :: "nat \<Rightarrow> ((bytes \<times> bytes) \<times> nat) decoder" where
  "decode_env_entry tot =
     decode_bind cursor_u8 (\<lambda>name_len. decode_bind (cursor_str (unat name_len)) (\<lambda>name.
     decode_bind cursor_u16 (\<lambda>value_len. decode_bind (cursor_str value_len) (\<lambda>value.
     if MAX_ENV < tot + (unat name_len + value_len + 3) \<or> \<not> valid_env_name name
     then decode_err InvalidField
     else decode_bind (reject_control value) (\<lambda>_.
       decode_ok ((name, value), tot + (unat name_len + value_len + 3)))))))"

definition decode_env :: "session_env decoder" where
  "decode_env = decode_bind cursor_u8 (\<lambda>count.
     if MAX_ENV_VARS < unat count then decode_err InvalidField
     else decode_loop (unat count) decode_env_entry 0)"

definition word_cost :: "bytes \<Rightarrow> nat" where
  "word_cost w = length w + 2"

definition encode_command_word :: "bytes \<Rightarrow> encoded" where
  "encode_command_word w = enc_seq [try_u16 BadCommand (length w), Inr w]"

definition encode_command :: "bytes list \<Rightarrow> encoded" where
  "encode_command command = enc_seq [
     enc_check (length command \<le> MAX_COMMAND_WORDS) BadCommand,
     enc_check (sum_list (map word_cost command) \<le> MAX_COMMAND) BadCommand,
     enc_check (\<not> list_ex (\<lambda>w. w = []) command) BadCommand,
     try_u8 BadCommand (length command),
     enc_seq (map encode_command_word command)]"

definition decode_command_word :: "nat \<Rightarrow> (bytes \<times> nat) decoder" where
  "decode_command_word tot =
     decode_bind cursor_u16 (\<lambda>len. decode_bind (cursor_str len) (\<lambda>w.
     if MAX_COMMAND < tot + (len + 2) \<or> w = [] then decode_err InvalidField
     else decode_ok (w, tot + (len + 2))))"

definition decode_command :: "bytes list decoder" where
  "decode_command = decode_bind cursor_u8 (\<lambda>count.
     if MAX_COMMAND_WORDS < unat count then decode_err InvalidField
     else decode_loop (unat count) decode_command_word 0)"

subsection \<open>Fields of a fixed size\<close>

definition u16_put :: "nat \<Rightarrow> encoded" where "u16_put value = Inr (put_u16 value)"
definition u16_get :: "nat decoder" where "u16_get = cursor_u16"
definition u32_put :: "nat \<Rightarrow> encoded" where "u32_put value = Inr (put_u32 value)"
definition u32_get :: "nat decoder" where "u32_get = cursor_u32"
definition u64_put :: "nat \<Rightarrow> encoded" where "u64_put value = Inr (put_u64 value)"
definition u64_get :: "nat decoder" where "u64_get = cursor_u64"

text \<open>A signed 32-bit number is its 32 bits.\<close>

type_synonym i32 = "32 word"

definition i32_put :: "i32 \<Rightarrow> encoded" where "i32_put value = Inr (be_bytes 4 (unat value))"
definition i32_get :: "i32 decoder" where
  "i32_get = decode_bind (cursor_array 4) (\<lambda>bs. decode_ok (of_nat (from_be bs)))"

definition grid_put :: "grid_size \<Rightarrow> encoded" where
  "grid_put grid = Inr (put_u16 (gs_cols grid) @ put_u16 (gs_rows grid))"
definition grid_get :: "grid_size decoder" where
  "grid_get = decode_bind cursor_u16 (\<lambda>cols. decode_bind cursor_u16 (\<lambda>rows. decode_some (grid_new cols rows)))"

definition seq_put :: "cmd_seq \<Rightarrow> encoded" where "seq_put seq = Inr (put_u64 seq)"
definition seq_get :: "cmd_seq decoder" where "seq_get = decode_bind cursor_u64 cmd_seq_decode"

definition opt_seq_put :: "cmd_seq option \<Rightarrow> encoded" where
  "opt_seq_put seq = Inr (put_u64 (case seq of None \<Rightarrow> 0 | Some s \<Rightarrow> s))"
definition opt_seq_get :: "cmd_seq option decoder" where
  "opt_seq_get = decode_bind cursor_u64 (\<lambda>x. decode_ok (cmd_seq_from_u64 x))"

definition off_put :: "byte_off \<Rightarrow> encoded" where "off_put off = Inr (put_u64 off)"
definition off_get :: "byte_off decoder" where "off_get = cursor_u64"

definition gen_put :: "generation \<Rightarrow> encoded" where "gen_put g = Inr (put_u64 g)"
definition gen_get :: "generation decoder" where "gen_get = decode_bind cursor_u64 generation_decode"

definition screen_ver_put :: "screen_version \<Rightarrow> encoded" where "screen_ver_put v = Inr (put_u64 v)"
definition screen_ver_get :: "screen_version decoder" where
  "screen_ver_get = decode_bind cursor_u64 screen_version_decode"

definition stream_put :: "stream_id \<Rightarrow> encoded" where "stream_put s = Inr (put_u32 s)"
definition stream_get :: "stream_id decoder" where "stream_get = decode_bind cursor_u32 stream_id_decode"

definition client_put :: "client_id \<Rightarrow> encoded" where "client_put client = Inr client"
definition client_get :: "client_id decoder" where "client_get = cursor_array 16"

definition session_put :: "session_id \<Rightarrow> encoded" where "session_put i = Inr i"
definition session_get :: "session_id decoder" where "session_get = cursor_array 16"

definition cap_put :: "capability \<Rightarrow> encoded" where "cap_put c = Inr c"
definition cap_get :: "capability decoder" where "cap_get = cursor_array CAPABILITY_BYTES"

definition offer_put :: "datagram_offer option \<Rightarrow> encoded" where "offer_put offer = Inr (encode_offer offer)"
definition offer_get :: "datagram_offer option decoder" where "offer_get = decode_offer"

definition cue_put :: "input_cue \<Rightarrow> encoded" where "cue_put cue = Inr (encode_cue cue)"
definition cue_get :: "input_cue decoder" where "cue_get = decode_cue"

definition detach_put :: "detach_reason \<Rightarrow> encoded" where "detach_put r = Inr [detach_to_wire r]"
definition detach_get :: "detach_reason decoder" where
  "detach_get = decode_bind cursor_u8 (\<lambda>b. decode_some (detach_from_wire b))"

definition reset_put :: "forward_reset_reason \<Rightarrow> encoded" where "reset_put r = Inr [reset_to_wire r]"
definition reset_get :: "forward_reset_reason decoder" where
  "reset_get = decode_bind cursor_u8 (\<lambda>b. decode_some (reset_from_wire b))"

definition fin_put :: "bool \<Rightarrow> encoded" where
  "fin_put fin = Inr [if fin then FORWARD_FIN else 0]"
definition fin_get :: "bool decoder" where
  "fin_get = decode_bind cursor_u8 (\<lambda>flags.
     if flags AND NOT FORWARD_FIN \<noteq> 0 then decode_err InvalidField
     else decode_ok (flags AND FORWARD_FIN \<noteq> 0))"

definition request_put :: "resume_request \<Rightarrow> encoded" where
  "request_put request = Inr (
     rr_session_id request @ rr_capability request @
     put_u64 (co_generation (rr_confirmed_output request)) @
     put_u64 (co_next_off (rr_confirmed_output request)) @ rr_client request)"
definition request_get :: "resume_request decoder" where
  "request_get =
     decode_bind (cursor_array 16) (\<lambda>session_id. decode_bind (cursor_array CAPABILITY_BYTES) (\<lambda>capability.
     decode_bind cursor_u64 (\<lambda>g. decode_bind (generation_decode g) (\<lambda>generation.
     decode_bind cursor_u64 (\<lambda>next_off. decode_bind (cursor_array 16) (\<lambda>client.
     decode_ok \<lparr>rr_session_id = session_id, rr_capability = capability,
       rr_confirmed_output = \<lparr>co_generation = generation, co_next_off = next_off\<rparr>,
       rr_client = client\<rparr>))))))"

definition range_put :: "version_range \<Rightarrow> encoded" where
  "range_put versions = Inr (put_u16 (vr_oldest versions) @ put_u16 (vr_newest versions))"
definition range_get :: "version_range decoder" where
  "range_get = decode_bind cursor_u16 (\<lambda>oldest. decode_bind cursor_u16 (\<lambda>newest.
     decode_some (version_range_new oldest newest)))"

definition ver_put :: "version \<Rightarrow> encoded" where "ver_put version = Inr (put_u16 version)"
definition ver_get :: "version decoder" where
  "ver_get = decode_bind cursor_u16 (\<lambda>stated.
     if stated < vr_oldest version_range_local \<or> vr_newest version_range_local < stated
     then decode_err (DecVersion stated) else decode_ok stated)"

definition refusal_put :: "reject_reason \<Rightarrow> encoded" where
  "refusal_put reason = Inr (reject_to_wire reason #
     (case reason of
        RejectVersion server client \<Rightarrow>
          put_u16 (vr_oldest server) @ put_u16 (vr_newest server) @
          put_u16 (vr_oldest client) @ put_u16 (vr_newest client)
      | _ \<Rightarrow> []))"
definition refusal_get :: "reject_reason decoder" where
  "refusal_get = decode_bind cursor_u8 (\<lambda>t.
     if t = 0 then
       decode_bind cursor_u16 (\<lambda>a. decode_bind cursor_u16 (\<lambda>b.
       decode_bind (decode_some (version_range_new a b)) (\<lambda>server.
       decode_bind cursor_u16 (\<lambda>c. decode_bind cursor_u16 (\<lambda>d.
       decode_bind (decode_some (version_range_new c d)) (\<lambda>client.
       decode_ok (RejectVersion server client)))))))
     else if t = 1 then decode_ok UnknownSession
     else if t = 2 then decode_ok SequenceGap
     else if t = 3 then decode_ok InputBacklog
     else if t = 4 then decode_ok Internal
     else if t = 5 then decode_ok TooManySessions
     else if t = 6 then decode_ok TooManyAttachments
     else decode_err InvalidField)"

subsection \<open>Fields the encoder borrows\<close>

definition chunk_put :: "nat \<Rightarrow> bytes \<Rightarrow> encoded" where
  "chunk_put limit value = enc_seq [
     enc_check (length value \<le> limit) EncOversize,
     try_u32 EncOversize (length value),
     Inr value]"
definition chunk_get :: "nat \<Rightarrow> bytes decoder" where
  "chunk_get most = decode_bind cursor_u32 (\<lambda>len.
     let limit = min most u32_max in
     if limit < len then decode_err (DecOversize len limit) else cursor_take len)"
definition chunk_hint :: "bytes \<Rightarrow> nat" where "chunk_hint value = 4 + length value"

definition term_put :: "bytes \<Rightarrow> encoded" where
  "term_put value = enc_seq [
     enc_check (valid_term value) BadTerm, try_u16 BadTerm (length value), Inr value]"
definition term_get :: "bytes decoder" where
  "term_get = decode_bind cursor_u16 (\<lambda>len.
     if MAX_TERM < len then decode_err InvalidField
     else decode_bind (cursor_str len) (\<lambda>term.
       if \<not> valid_term term then decode_err InvalidField else decode_ok term))"
definition term_hint :: "bytes \<Rightarrow> nat" where "term_hint value = 2 + length value"

definition pattern_put :: "bytes \<Rightarrow> encoded" where
  "pattern_put value = enc_seq [
     enc_check (\<not> (value = [] \<or> MAX_PATTERN < length value \<or> has_control value)) BadPattern,
     try_u16 BadPattern (length value), Inr value]"
definition pattern_get :: "bytes decoder" where
  "pattern_get = decode_bind cursor_u16 (\<lambda>len.
     if MAX_PATTERN < len then decode_err InvalidField
     else decode_bind (cursor_str len) (\<lambda>pattern. decode_bind (reject_control pattern) (\<lambda>_.
       if pattern = [] then decode_err InvalidField else decode_ok pattern)))"
definition pattern_hint :: "bytes \<Rightarrow> nat" where "pattern_hint value = 2 + length value"

definition env_hint :: "session_env \<Rightarrow> nat" where
  "env_hint env = 1 + sum_list (map (\<lambda>(name, value). 3 + length name + length value) env)"

definition command_hint :: "bytes list \<Rightarrow> nat" where
  "command_hint value = 1 + sum_list (map (\<lambda>w. 2 + length w) value)"

definition target_hint :: "forward_target \<Rightarrow> nat" where
  "target_hint value = 3 + length (ft_host value)"

definition summary_put :: "session_summary \<Rightarrow> encoded" where
  "summary_put session = enc_seq [
     enc_check (\<not> (MAX_COMMAND < length (ss_command session) \<or> has_control (ss_command session))) BadSessionName,
     Inr (ss_session_id session),
     Inr (put_u16 (gs_cols (ss_size session)) @ put_u16 (gs_rows (ss_size session))),
     Inr (put_u16 (ss_attachments session) @ put_u64 (ss_active_unix session)),
     try_u8 BadSessionName (length (ss_command session)),
     Inr (ss_command session)]"
definition summary_get :: "session_summary decoder" where
  "summary_get =
     decode_bind (cursor_array 16) (\<lambda>session_id.
     decode_bind cursor_u16 (\<lambda>cols. decode_bind cursor_u16 (\<lambda>rows.
     decode_bind (decode_some (grid_new cols rows)) (\<lambda>size.
     decode_bind cursor_u16 (\<lambda>attachments. decode_bind cursor_u64 (\<lambda>active_unix.
     decode_bind cursor_u8 (\<lambda>len.
     if MAX_COMMAND < unat len then decode_err InvalidField
     else decode_bind (cursor_str (unat len)) (\<lambda>command. decode_bind (reject_control command) (\<lambda>_.
       decode_ok \<lparr>ss_session_id = session_id, ss_size = size, ss_attachments = attachments,
         ss_active_unix = active_unix, ss_command = command\<rparr>)))))))))"
definition sessions_put :: "session_summary list \<Rightarrow> encoded" where
  "sessions_put value = enc_seq [
     enc_check (length value \<le> MAX_SESSIONS) EncOversize,
     try_u16 EncOversize (length value),
     enc_seq (map summary_put value)]"
definition sessions_get :: "session_summary list decoder" where
  "sessions_get = decode_bind cursor_u16 (\<lambda>count.
     if MAX_SESSIONS < count then decode_err InvalidField else decode_many count summary_get)"
definition sessions_hint :: "session_summary list \<Rightarrow> nat" where
  "sessions_hint value = 2 + sum_list (map (\<lambda>session. 31 + length (ss_command session)) value)"

definition name_put :: "bytes \<Rightarrow> encoded" where
  "name_put value =
     (if 255 < length value then Inl BadSessionName
      else enc_seq [
        enc_check (\<not> (MAX_SESSION_NAME < length value \<or> has_control value)) BadSessionName,
        Inr [of_nat (length value)],
        Inr value])"
definition name_get :: "bytes decoder" where
  "name_get = decode_bind cursor_u8 (\<lambda>len.
     if MAX_SESSION_NAME < unat len then decode_err InvalidField
     else decode_bind (cursor_str (unat len)) (\<lambda>name. decode_bind (reject_control name) (\<lambda>_. decode_ok name)))"
definition name_hint :: "bytes \<Rightarrow> nat" where "name_hint value = 1 + length value"

definition named_put :: "session_name \<Rightarrow> encoded" where
  "named_put named = enc_seq [
     enc_check (sn_name named \<noteq> []) BadSessionName,
     Inr (sn_session_id named),
     name_put (sn_name named)]"
definition named_get :: "session_name decoder" where
  "named_get = decode_bind (cursor_array 16) (\<lambda>session_id. decode_bind name_get (\<lambda>name.
     if name = [] then decode_err InvalidField
     else decode_ok \<lparr>sn_session_id = session_id, sn_name = name\<rparr>))"
definition names_put :: "session_name list \<Rightarrow> encoded" where
  "names_put value = enc_seq [
     enc_check (length value \<le> MAX_SESSIONS) EncOversize,
     try_u16 EncOversize (length value),
     enc_seq (map named_put value)]"
definition names_get :: "session_name list decoder" where
  "names_get = decode_bind cursor_u16 (\<lambda>count.
     if MAX_SESSIONS < count then decode_err InvalidField else decode_many count named_get)"
definition names_hint :: "session_name list \<Rightarrow> nat" where
  "names_hint value = 2 + sum_list (map (\<lambda>named. 17 + length (sn_name named)) value)"

definition match_put :: "search_match \<Rightarrow> encoded" where
  "match_put found = enc_seq [
     enc_check (\<not> (MAX_MATCH_LINE < length (sm_line found) \<or> has_control (sm_line found))) BadMatch,
     Inr (sm_session_id found),
     Inr (put_u32 (sm_distance found)),
     try_u16 BadMatch (length (sm_line found)),
     Inr (sm_line found)]"
definition match_get :: "search_match decoder" where
  "match_get = decode_bind (cursor_array 16) (\<lambda>session_id. decode_bind cursor_u32 (\<lambda>distance.
     decode_bind cursor_u16 (\<lambda>len.
     if MAX_MATCH_LINE < len then decode_err InvalidField
     else decode_bind (cursor_str len) (\<lambda>line. decode_bind (reject_control line) (\<lambda>_.
       decode_ok \<lparr>sm_session_id = session_id, sm_distance = distance, sm_line = line\<rparr>)))))"
definition matches_put :: "search_match list \<Rightarrow> encoded" where
  "matches_put value = enc_seq [
     enc_check (length value \<le> MAX_MATCHES) EncOversize,
     try_u16 EncOversize (length value),
     enc_seq (map match_put value)]"
definition matches_get :: "search_match list decoder" where
  "matches_get = decode_bind cursor_u16 (\<lambda>count.
     if MAX_MATCHES < count then decode_err InvalidField else decode_many count match_get)"
definition matches_hint :: "search_match list \<Rightarrow> nat" where
  "matches_hint value = 2 + sum_list (map (\<lambda>found. 24 + length (sm_line found)) value)"

definition sack_run_put :: "sack_run \<Rightarrow> encoded" where
  "sack_run_put run = Inr (put_u32 (sr_gap run) @ put_u32 (sr_len run))"
definition non_zero_u32 :: "nat \<Rightarrow> nat option" where
  "non_zero_u32 x = (if x = 0 then None else Some x)"
definition sack_run_get :: "sack_run decoder" where
  "sack_run_get = decode_bind cursor_u32 (\<lambda>g. decode_bind (decode_some (non_zero_u32 g)) (\<lambda>gap.
     decode_bind cursor_u32 (\<lambda>l. decode_bind (decode_some (non_zero_u32 l)) (\<lambda>len.
     decode_ok \<lparr>sr_gap = gap, sr_len = len\<rparr>))))"
definition sack_put :: "sack_runs \<Rightarrow> encoded" where
  "sack_put runs =
     (if 255 < length runs then Inl EncOversize
      else enc_seq [
        enc_check (length runs \<le> MAX_ACK_RUNS) EncOversize,
        Inr [of_nat (length runs)],
        enc_seq (map sack_run_put runs)])"
definition sack_get :: "sack_runs decoder" where
  "sack_get = decode_bind cursor_u8 (\<lambda>count.
     if MAX_ACK_RUNS < unat count then decode_err InvalidField
     else decode_bind (decode_many (unat count) sack_run_get) (\<lambda>runs. decode_some (sack_runs_new runs)))"
definition sack_hint :: "sack_runs \<Rightarrow> nat" where "sack_hint value = 1 + 8 * length value"

section \<open>The fields keep the field's contract\<close>

definition always :: "'a \<Rightarrow> bool" where "always v \<longleftrightarrow> True"

definition non_zero_typed :: "nat \<Rightarrow> bool" where "non_zero_typed x \<longleftrightarrow> 0 < x \<and> x \<le> u64_max"
definition opt_seq_typed :: "cmd_seq option \<Rightarrow> bool" where
  "opt_seq_typed seq \<longleftrightarrow> (\<forall>s. seq = Some s \<longrightarrow> non_zero_typed s)"
definition stream_typed :: "stream_id \<Rightarrow> bool" where "stream_typed s \<longleftrightarrow> 0 < s \<and> s \<le> u32_max"
definition array_typed :: "nat \<Rightarrow> bytes \<Rightarrow> bool" where "array_typed n bs \<longleftrightarrow> length bs = n"

text \<open>Grids and ranges are public structs with checked constructors; the wire only reads what a
  constructor would build.\<close>

definition grid_typed :: "grid_size \<Rightarrow> bool" where
  "grid_typed g \<longleftrightarrow> grid_new (gs_cols g) (gs_rows g) = Some g"
definition range_typed :: "version_range \<Rightarrow> bool" where
  "range_typed r \<longleftrightarrow> version_range_new (vr_oldest r) (vr_newest r) = Some r \<and> vr_newest r \<le> 65535"
definition ver_typed :: "version \<Rightarrow> bool" where
  "ver_typed v \<longleftrightarrow> MIN_PROTOCOL_VERSION \<le> v \<and> v \<le> PROTOCOL_VERSION"
definition offer_typed :: "datagram_offer option \<Rightarrow> bool" where
  "offer_typed offer \<longleftrightarrow> (\<forall>o'. offer = Some o' \<longrightarrow> length (do_ip o') = 16 \<and> u16_typed (do_port o') \<and>
     length (do_cid o') = 8 \<and> length (do_secret o') = 32)"
definition cue_typed :: "input_cue \<Rightarrow> bool" where
  "cue_typed cue \<longleftrightarrow> (case cue of Opaque \<Rightarrow> True | Echoing room \<Rightarrow> u16_typed room)"
definition request_typed :: "resume_request \<Rightarrow> bool" where
  "request_typed r \<longleftrightarrow> length (rr_session_id r) = 16 \<and> length (rr_capability r) = CAPABILITY_BYTES \<and>
     non_zero_typed (co_generation (rr_confirmed_output r)) \<and> u64_typed (co_next_off (rr_confirmed_output r)) \<and>
     length (rr_client r) = 16"
definition refusal_typed :: "reject_reason \<Rightarrow> bool" where
  "refusal_typed reason \<longleftrightarrow>
     (case reason of RejectVersion server client \<Rightarrow> range_typed server \<and> range_typed client | _ \<Rightarrow> True)"
definition env_typed :: "session_env \<Rightarrow> bool" where
  "env_typed env \<longleftrightarrow> list_all (\<lambda>(name, value). utf8 name \<and> utf8 value) env"
definition target_typed :: "forward_target \<Rightarrow> bool" where
  "target_typed t \<longleftrightarrow> utf8 (ft_host t) \<and> u16_typed (ft_port t)"
definition summary_typed :: "session_summary \<Rightarrow> bool" where
  "summary_typed s \<longleftrightarrow> length (ss_session_id s) = 16 \<and> grid_typed (ss_size s) \<and> u16_typed (ss_attachments s) \<and>
     u64_typed (ss_active_unix s) \<and> utf8 (ss_command s)"
definition named_typed :: "session_name \<Rightarrow> bool" where
  "named_typed n \<longleftrightarrow> length (sn_session_id n) = 16 \<and> utf8 (sn_name n)"
definition match_typed :: "search_match \<Rightarrow> bool" where
  "match_typed m \<longleftrightarrow> length (sm_session_id m) = 16 \<and> u32_typed (sm_distance m) \<and> utf8 (sm_line m)"

lemmas widths = u16_typed_def u32_typed_def u64_typed_def non_zero_typed_def stream_typed_def array_typed_def
  always_def

lemma grid_typed_u16: "grid_typed g \<Longrightarrow> u16_typed (gs_cols g) \<and> u16_typed (gs_rows g)"
  by (auto simp: grid_typed_def grid_new_def GRID_MAX_COLS_def GRID_MAX_ROWS_def u16_typed_def split: if_splits)

lemma grid_new_typed: "grid_new c r = Some g \<Longrightarrow> grid_typed g \<and> gs_cols g = c \<and> gs_rows g = r"
  by (auto simp: grid_typed_def grid_new_def split: if_splits)

lemma range_typed_u16: "range_typed r \<Longrightarrow> u16_typed (vr_oldest r) \<and> u16_typed (vr_newest r)"
  by (auto simp: range_typed_def version_range_new_def u16_typed_def split: if_splits)

lemma range_new_typed:
  "version_range_new a b = Some r \<Longrightarrow> u16_typed b \<Longrightarrow> range_typed r \<and> vr_oldest r = a \<and> vr_newest r = b"
  by (auto simp: range_typed_def version_range_new_def u16_typed_def split: if_splits)

interpretation fld_u16: wire_field u16_put u16_get "\<lambda>_. 2" u16_typed "\<lambda>v. v"
  by unfold_locales
    (auto simp: u16_put_def u16_get_def intro: parse_intros gives_mono [OF gives_u16])

interpretation fld_u32: wire_field u32_put u32_get "\<lambda>_. 4" u32_typed "\<lambda>v. v"
  by unfold_locales
    (auto simp: u32_put_def u32_get_def intro: parse_intros gives_mono [OF gives_u32])

interpretation fld_u64: wire_field u64_put u64_get "\<lambda>_. 8" u64_typed "\<lambda>v. v"
  by unfold_locales
    (auto simp: u64_put_def u64_get_def intro: parse_intros gives_mono [OF gives_u64])

interpretation fld_off: wire_field off_put off_get "\<lambda>_. 8" u64_typed "\<lambda>v. v"
  by unfold_locales
    (auto simp: off_put_def off_get_def intro: parse_intros gives_mono [OF gives_u64])

interpretation fld_i32: wire_field i32_put i32_get "\<lambda>_. 4" always "\<lambda>v. v"
proof unfold_locales
  fix v bs assume "i32_put v = Inr bs"
  then have bs: "bs = be_bytes 4 (unat v)" by (simp add: i32_put_def)
  have "unat v < 256 ^ 4" using unsigned_less [of v] by simp
  then show "parses i32_get bs v"
    unfolding i32_get_def bs by (intro parse_binds) (simp_all add: from_be_be_bytes parse_intros)
  show "length bs \<le> 4" by (simp add: bs)
next
  show "gives i32_get (\<lambda>v n. always v \<and> (\<exists>bs. i32_put v = Inr bs \<and> length bs \<le> n))"
    unfolding i32_get_def by (intro gives_intros) (simp add: always_def i32_put_def)
qed

interpretation fld_grid: wire_field grid_put grid_get "\<lambda>_. 4" grid_typed "\<lambda>v. v"
proof unfold_locales
  fix v bs assume v: "grid_typed v" "grid_put v = Inr bs"
  then show "parses grid_get bs v"
    by (auto simp: grid_get_def grid_put_def grid_typed_u16 grid_typed_def intro!: parse_binds parse_intros)
  show "length bs \<le> 4" using v by (auto simp: grid_put_def)
next
  show "gives grid_get (\<lambda>v n. grid_typed v \<and> (\<exists>bs. grid_put v = Inr bs \<and> length bs \<le> n))"
    unfolding grid_get_def by (intro gives_intros) (auto simp: grid_put_def dest: grid_new_typed)
qed

lemma non_zero_decoders:
  "cmd_seq_decode = decode_some \<circ> cmd_seq_from_u64" "generation_decode = decode_some \<circ> cmd_seq_from_u64"
  "screen_version_decode = decode_some \<circ> cmd_seq_from_u64" "stream_id_decode = decode_some \<circ> cmd_seq_from_u64"
  by (auto simp: fun_eq_iff cmd_seq_decode_def generation_decode_def screen_version_decode_def
      stream_id_decode_def cmd_seq_from_u64_def generation_from_u64_def screen_version_from_u64_def
      stream_id_from_u32_def)

lemma non_zero_field:
  assumes "\<And>v. put v = Inr (put_u64 v)" "get = decode_bind cursor_u64 (decode_some \<circ> cmd_seq_from_u64)"
  shows "wire_field put get (\<lambda>_. 8) non_zero_typed (\<lambda>v. v)"
proof
  fix v bs assume "non_zero_typed v" "put v = Inr bs"
  then show "parses get bs v"
    by (auto simp: assms cmd_seq_from_u64_def widths intro!: parse_binds parse_intros)
next
  fix v bs assume "put v = Inr bs"
  then show "length bs \<le> 8" by (auto simp: assms)
next
  show "gives get (\<lambda>v n. non_zero_typed v \<and> (\<exists>bs. put v = Inr bs \<and> length bs \<le> n))"
    unfolding assms comp_def
    by (intro gives_intros) (auto simp: cmd_seq_from_u64_def widths split: if_splits)
qed

interpretation fld_seq: wire_field seq_put seq_get "\<lambda>_. 8" non_zero_typed "\<lambda>v. v"
  by (rule non_zero_field) (simp_all add: seq_put_def seq_get_def non_zero_decoders)

interpretation fld_gen: wire_field gen_put gen_get "\<lambda>_. 8" non_zero_typed "\<lambda>v. v"
  by (rule non_zero_field) (simp_all add: gen_put_def gen_get_def non_zero_decoders)

interpretation fld_screen_ver: wire_field screen_ver_put screen_ver_get "\<lambda>_. 8" non_zero_typed "\<lambda>v. v"
  by (rule non_zero_field) (simp_all add: screen_ver_put_def screen_ver_get_def non_zero_decoders)

interpretation fld_opt_seq: wire_field opt_seq_put opt_seq_get "\<lambda>_. 8" opt_seq_typed "\<lambda>v. v"
proof unfold_locales
  fix v bs assume v: "opt_seq_typed v" "opt_seq_put v = Inr bs"
  then show "parses opt_seq_get bs v"
    by (cases v)
      (auto simp: opt_seq_get_def opt_seq_put_def opt_seq_typed_def cmd_seq_from_u64_def widths intro!: parse_binds)
  show "length bs \<le> 8" using v by (auto simp: opt_seq_put_def)
next
  show "gives opt_seq_get (\<lambda>v n. opt_seq_typed v \<and> (\<exists>bs. opt_seq_put v = Inr bs \<and> length bs \<le> n))"
    unfolding opt_seq_get_def
    by (intro gives_intros) (auto simp: opt_seq_put_def opt_seq_typed_def cmd_seq_from_u64_def widths)
qed

interpretation fld_stream: wire_field stream_put stream_get "\<lambda>_. 4" stream_typed "\<lambda>v. v"
proof unfold_locales
  fix v bs assume v: "stream_typed v" "stream_put v = Inr bs"
  then show "parses stream_get bs v"
    by (auto simp: stream_get_def stream_put_def stream_id_decode_def stream_id_from_u32_def widths
        intro!: parse_binds parse_intros)
  show "length bs \<le> 4" using v by (auto simp: stream_put_def)
next
  show "gives stream_get (\<lambda>v n. stream_typed v \<and> (\<exists>bs. stream_put v = Inr bs \<and> length bs \<le> n))"
    unfolding stream_get_def stream_id_decode_def
    by (intro gives_intros) (auto simp: stream_put_def stream_id_from_u32_def widths split: if_splits)
qed

lemma array_field:
  assumes "\<And>v. put v = Inr v" "get = cursor_array n"
  shows "wire_field put get (\<lambda>_. n) (array_typed n) (\<lambda>v. v)"
  by unfold_locales (auto simp: assms array_typed_def intro: parse_intros gives_mono [OF gives_array])

interpretation fld_client: wire_field client_put client_get "\<lambda>_. 16" "array_typed 16" "\<lambda>v. v"
  by (rule array_field) (simp_all add: client_put_def client_get_def)

interpretation fld_session: wire_field session_put session_get "\<lambda>_. 16" "array_typed 16" "\<lambda>v. v"
  by (rule array_field) (simp_all add: session_put_def session_get_def)

interpretation fld_cap: wire_field cap_put cap_get "\<lambda>_. CAPABILITY_BYTES" "array_typed CAPABILITY_BYTES" "\<lambda>v. v"
  by (rule array_field) (simp_all add: cap_put_def cap_get_def)

interpretation fld_offer: wire_field offer_put offer_get "\<lambda>_. 1 + OFFER_BYTES" offer_typed "\<lambda>v. v"
proof unfold_locales
  fix v bs assume v: "offer_typed v" "offer_put v = Inr bs"
  then show "parses offer_get bs v"
    by (cases v) (auto simp: offer_get_def offer_put_def encode_offer_def decode_offer_def offer_typed_def
        intro!: parse_binds)
  show "length bs \<le> 1 + OFFER_BYTES" using v
    by (cases v) (auto simp: offer_put_def encode_offer_def offer_typed_def OFFER_BYTES_def)
next
  show "gives offer_get (\<lambda>v n. offer_typed v \<and> (\<exists>bs. offer_put v = Inr bs \<and> length bs \<le> n))"
    unfolding offer_get_def decode_offer_def
    by (intro gives_intros) (auto simp: offer_put_def offer_typed_def encode_offer_def)
qed

interpretation fld_cue: wire_field cue_put cue_get "\<lambda>_. 3" cue_typed "\<lambda>v. v"
proof unfold_locales
  fix v bs assume v: "cue_typed v" "cue_put v = Inr bs"
  then show "parses cue_get bs v"
    by (cases v) (auto simp: cue_get_def cue_put_def encode_cue_def decode_cue_def cue_typed_def intro!: parse_binds)
  show "length bs \<le> 3" using v by (cases v) (auto simp: cue_put_def encode_cue_def)
next
  show "gives cue_get (\<lambda>v n. cue_typed v \<and> (\<exists>bs. cue_put v = Inr bs \<and> length bs \<le> n))"
    unfolding cue_get_def decode_cue_def
    by (intro gives_intros) (auto simp: cue_put_def cue_typed_def encode_cue_def)
qed

interpretation fld_detach: wire_field detach_put detach_get "\<lambda>_. 1" always "\<lambda>v. v"
proof unfold_locales
  fix v bs assume v: "detach_put v = Inr bs"
  then show "parses detach_get bs v"
    by (cases v) (auto simp: detach_get_def detach_put_def detach_from_wire_def intro!: parse_binds parse_intros)
  show "length bs \<le> 1" using v by (auto simp: detach_put_def)
next
  show "gives detach_get (\<lambda>v n. always v \<and> (\<exists>bs. detach_put v = Inr bs \<and> length bs \<le> n))"
    unfolding detach_get_def by (intro gives_intros) (auto simp: detach_put_def always_def)
qed

interpretation fld_reset: wire_field reset_put reset_get "\<lambda>_. 1" always "\<lambda>v. v"
proof unfold_locales
  fix v bs assume v: "reset_put v = Inr bs"
  then show "parses reset_get bs v"
    by (cases v) (auto simp: reset_get_def reset_put_def reset_from_wire_def intro!: parse_binds parse_intros)
  show "length bs \<le> 1" using v by (auto simp: reset_put_def)
next
  show "gives reset_get (\<lambda>v n. always v \<and> (\<exists>bs. reset_put v = Inr bs \<and> length bs \<le> n))"
    unfolding reset_get_def by (intro gives_intros) (auto simp: reset_put_def always_def)
qed

interpretation fld_fin: wire_field fin_put fin_get "\<lambda>_. 1" always "\<lambda>v. v"
proof unfold_locales
  fix v bs assume v: "fin_put v = Inr bs"
  then show "parses fin_get bs v"
    by (cases v) (auto simp: fin_get_def fin_put_def FORWARD_FIN_def intro!: parse_binds)
  show "length bs \<le> 1" using v by (auto simp: fin_put_def)
next
  show "gives fin_get (\<lambda>v n. always v \<and> (\<exists>bs. fin_put v = Inr bs \<and> length bs \<le> n))"
    unfolding fin_get_def by (intro gives_intros) (auto simp: fin_put_def always_def)
qed

interpretation fld_request: wire_field request_put request_get "\<lambda>_. 80" request_typed "\<lambda>v. v"
proof unfold_locales
  fix v bs assume v: "request_typed v" "request_put v = Inr bs"
  then show "parses request_get bs v"
    by (auto simp: request_get_def request_put_def request_typed_def generation_decode_def generation_from_u64_def
        widths intro!: parse_binds)
  show "length bs \<le> 80" using v by (auto simp: request_put_def request_typed_def CAPABILITY_BYTES_def)
next
  show "gives request_get (\<lambda>v n. request_typed v \<and> (\<exists>bs. request_put v = Inr bs \<and> length bs \<le> n))"
    unfolding request_get_def generation_decode_def
    by (intro gives_intros)
      (auto simp: request_put_def request_typed_def generation_from_u64_def widths split: if_splits)
qed

interpretation fld_range: wire_field range_put range_get "\<lambda>_. 4" range_typed "\<lambda>v. v"
proof unfold_locales
  fix v bs assume v: "range_typed v" "range_put v = Inr bs"
  then show "parses range_get bs v"
    by (auto simp: range_get_def range_put_def range_typed_u16 range_typed_def intro!: parse_binds parse_intros)
  show "length bs \<le> 4" using v by (auto simp: range_put_def)
next
  show "gives range_get (\<lambda>v n. range_typed v \<and> (\<exists>bs. range_put v = Inr bs \<and> length bs \<le> n))"
    unfolding range_get_def by (intro gives_intros) (auto simp: range_put_def dest: range_new_typed)
qed

interpretation fld_ver: wire_field ver_put ver_get "\<lambda>_. 2" ver_typed "\<lambda>v. v"
proof unfold_locales
  fix v bs assume v: "ver_typed v" "ver_put v = Inr bs"
  then show "parses ver_get bs v"
    by (auto simp: ver_get_def ver_put_def ver_typed_def version_range_local_def proto_consts widths intro!: parse_binds)
  show "length bs \<le> 2" using v by (auto simp: ver_put_def)
next
  show "gives ver_get (\<lambda>v n. ver_typed v \<and> (\<exists>bs. ver_put v = Inr bs \<and> length bs \<le> n))"
    unfolding ver_get_def
    by (intro gives_intros) (auto simp: ver_put_def ver_typed_def version_range_local_def)
qed

interpretation fld_refusal: wire_field refusal_put refusal_get "\<lambda>_. 9" refusal_typed "\<lambda>v. v"
proof unfold_locales
  fix v bs assume v: "refusal_typed v" "refusal_put v = Inr bs"
  then show "parses refusal_get bs v"
  proof (cases v)
    case (RejectVersion server client)
    then have t: "range_typed server" "range_typed client" using v by (simp_all add: refusal_typed_def)
    show ?thesis using v(2) RejectVersion t [THEN range_typed_u16] t
      by (auto simp: refusal_get_def refusal_put_def range_typed_def intro!: parse_binds)
  qed (auto simp: refusal_get_def refusal_put_def intro!: parse_binds)
  show "length bs \<le> 9" using v by (cases v) (auto simp: refusal_put_def)
next
  show "gives refusal_get (\<lambda>v n. refusal_typed v \<and> (\<exists>bs. refusal_put v = Inr bs \<and> length bs \<le> n))"
    unfolding refusal_get_def
    by (intro gives_intros) (auto simp: refusal_put_def refusal_typed_def dest: range_new_typed)
qed

lemma chunk_field:
  assumes "limit \<le> u32_max"
  shows "wire_field (chunk_put limit) (chunk_get limit) chunk_hint always (\<lambda>v. v)"
proof
  fix v bs assume v: "chunk_put limit v = Inr bs"
  then show "parses (chunk_get limit) bs v"
    using assms by (auto simp: chunk_get_def chunk_put_def Let_def u32_typed_def intro!: parse_binds parse_intros)
  show "length bs \<le> chunk_hint v" using v by (auto simp: chunk_put_def chunk_hint_def)
next
  have "gives (chunk_get limit) (\<lambda>v n. length v \<le> limit \<and> n = 4 + length v)"
    unfolding chunk_get_def Let_def
    by (intro gives_intros gives_mono [OF gives_take]) auto
  then show "gives (chunk_get limit) (\<lambda>v n. always v \<and> (\<exists>bs. chunk_put limit v = Inr bs \<and> length bs \<le> n))"
    by (rule gives_mono) (use assms in \<open>auto simp: chunk_put_def always_def\<close>)
qed

interpretation fld_input: wire_field "chunk_put MAX_INPUT_CHUNK" "chunk_get MAX_INPUT_CHUNK" chunk_hint always "\<lambda>v. v"
  by (rule chunk_field) (simp add: MAX_INPUT_CHUNK_def u32_max_def)

interpretation fld_output: wire_field "chunk_put MAX_OUTPUT_CHUNK" "chunk_get MAX_OUTPUT_CHUNK" chunk_hint always "\<lambda>v. v"
  by (rule chunk_field) (simp add: MAX_OUTPUT_CHUNK_def u32_max_def)

interpretation fld_forward: wire_field "chunk_put MAX_FORWARD_CHUNK" "chunk_get MAX_FORWARD_CHUNK" chunk_hint always "\<lambda>v. v"
  by (rule chunk_field) (simp add: MAX_FORWARD_CHUNK_def u32_max_def)

interpretation fld_term: wire_field term_put term_get term_hint utf8 "\<lambda>v. v"
proof unfold_locales
  fix v bs assume v: "utf8 v" "term_put v = Inr bs"
  then show "parses term_get bs v"
    by (auto simp: term_get_def term_put_def valid_term_def MAX_TERM_def widths intro!: parse_binds)
  show "length bs \<le> term_hint v" using v by (auto simp: term_put_def term_hint_def)
next
  show "gives term_get (\<lambda>v n. utf8 v \<and> (\<exists>bs. term_put v = Inr bs \<and> length bs \<le> n))"
    unfolding term_get_def by (intro gives_intros) (auto simp: term_put_def MAX_TERM_def)
qed

interpretation fld_pattern: wire_field pattern_put pattern_get pattern_hint utf8 "\<lambda>v. v"
proof unfold_locales
  fix v bs assume v: "utf8 v" "pattern_put v = Inr bs"
  then show "parses pattern_get bs v"
    by (auto simp: pattern_get_def pattern_put_def MAX_PATTERN_def widths intro!: parse_binds)
  show "length bs \<le> pattern_hint v" using v by (auto simp: pattern_put_def pattern_hint_def)
next
  show "gives pattern_get (\<lambda>v n. utf8 v \<and> (\<exists>bs. pattern_put v = Inr bs \<and> length bs \<le> n))"
    unfolding pattern_get_def by (intro gives_intros) (auto simp: pattern_put_def MAX_PATTERN_def)
qed

interpretation fld_target: wire_field encode_forward_target decode_forward_target target_hint target_typed "\<lambda>v. v"
proof unfold_locales
  fix v bs assume v: "target_typed v" "encode_forward_target v = Inr bs"
  then show "parses decode_forward_target bs v"
    by (auto simp: decode_forward_target_def encode_forward_target_def Let_def target_typed_def intro!: parse_binds)
  show "length bs \<le> target_hint v" using v by (auto simp: encode_forward_target_def target_hint_def Let_def)
next
  show "gives decode_forward_target (\<lambda>v n. target_typed v \<and> (\<exists>bs. encode_forward_target v = Inr bs \<and> length bs \<le> n))"
    unfolding decode_forward_target_def
    by (intro gives_intros)
      (auto simp: encode_forward_target_def target_typed_def MAX_FORWARD_HOST_def not_less unat_u8_le)
qed

subsection \<open>Lists\<close>

definition env_entry_ok :: "nat \<Rightarrow> bytes \<times> bytes \<Rightarrow> bool" where
  "env_entry_ok tot entry \<longleftrightarrow> tot + env_cost entry \<le> MAX_ENV \<and> (case entry of (name, value) \<Rightarrow>
     utf8 name \<and> utf8 value \<and> valid_env_name name \<and> \<not> has_control value \<and> length name \<le> 255)"

interpretation loop_env: wire_loop encode_env_entry decode_env_entry env_entry_ok "\<lambda>tot e. tot + env_cost e" "\<lambda>e. e"
proof unfold_locales
  fix tot e bs assume e: "env_entry_ok tot e" "encode_env_entry e = Inr bs"
  then show "parses (decode_env_entry tot) bs (e, tot + env_cost e)"
    by (cases e) (auto simp: decode_env_entry_def encode_env_entry_def env_entry_ok_def env_cost_def u16_typed_def
        intro!: parse_binds)
next
  fix tot
  show "gives (decode_env_entry tot)
    (\<lambda>(e, s') n. s' = tot + env_cost e \<and> env_entry_ok tot e \<and> (\<exists>bs. encode_env_entry e = Inr bs \<and> length bs \<le> n))"
    unfolding decode_env_entry_def
    by (intro gives_intros)
      (auto simp: encode_env_entry_def env_entry_ok_def env_cost_def u16_typed_def unat_u8_le)
qed

lemma running_env:
  "running env_entry_ok (\<lambda>tot e. tot + env_cost e) tot env \<longleftrightarrow>
   (env \<noteq> [] \<longrightarrow> tot + sum_list (map env_cost env) \<le> MAX_ENV) \<and>
   list_all (\<lambda>(name, value). utf8 name \<and> utf8 value \<and> valid_env_name name \<and> \<not> has_control value \<and> length name \<le> 255) env"
  unfolding env_entry_ok_def by (rule running_total)

lemma encode_env_entries:
  "enc_seq (map encode_env_entry env) = Inr bs \<Longrightarrow>
   list_all (\<lambda>(name, value). valid_env_name name \<and> \<not> has_control value \<and> length name \<le> 255) env \<and>
   length bs = sum_list (map env_cost env)"
  by (induction env arbitrary: bs) (fastforce simp: encode_env_entry_def env_cost_def)+

lemma env_cost_hint: "sum_list (map env_cost env) = sum_list (map (\<lambda>(name, value). 3 + length name + length value) env)"
  by (rule arg_cong [where f = sum_list]) (auto simp: env_cost_def)

lemma list_all_prod_and:
  "list_all (\<lambda>(a, b). P a b \<and> Q a b) xs \<longleftrightarrow> list_all (\<lambda>(a, b). P a b) xs \<and> list_all (\<lambda>(a, b). Q a b) xs"
  by (auto simp: list_all_iff)

interpretation fld_env: wire_field encode_env decode_env env_hint env_typed "\<lambda>v. v"
proof unfold_locales
  fix v bs assume v: "env_typed v" "encode_env v = Inr bs"
  then obtain b where b: "enc_seq (map encode_env_entry v) = Inr b" "bs = of_nat (length v) # b"
    and small: "length v \<le> MAX_ENV_VARS" "sum_list (map env_cost v) \<le> MAX_ENV"
    by (auto simp: encode_env_def)
  have "running env_entry_ok (\<lambda>tot e. tot + env_cost e) 0 v"
    using encode_env_entries [OF b(1)] v(1) small(2) by (simp add: running_env env_typed_def list_all_prod_and)
  from loop_env.loop_roundtrip [OF this b(1)] small(1) show "parses decode_env bs v"
    unfolding decode_env_def b(2) by (auto intro!: parse_binds simp: MAX_ENV_VARS_def)
  show "length bs \<le> env_hint v"
    using encode_env_entries [OF b(1)] by (simp add: b(2) env_hint_def env_cost_hint)
next
  show "gives decode_env (\<lambda>v n. env_typed v \<and> (\<exists>bs. encode_env v = Inr bs \<and> length bs \<le> n))"
    unfolding decode_env_def
  proof (intro gives_intros, rule gives_mono [OF loop_env.loop_gives])
    fix count :: u8 and v m
    assume c: "\<not> MAX_ENV_VARS < unat count"
      and v: "length v = unat count \<and> running env_entry_ok (\<lambda>tot e. tot + env_cost e) 0 v \<and>
        (\<exists>bs. enc_seq (map encode_env_entry v) = Inr bs \<and> length bs \<le> m)"
    then have "sum_list (map env_cost v) \<le> MAX_ENV" "env_typed v"
      by (auto simp: running_env env_typed_def list_all_prod_and)
    then show "env_typed v \<and> (\<exists>bs. encode_env v = Inr bs \<and> length bs \<le> 1 + m)"
      using c v by (auto simp: encode_env_def unat_u8_le)
  qed
qed

definition command_word_ok :: "nat \<Rightarrow> bytes \<Rightarrow> bool" where
  "command_word_ok tot w \<longleftrightarrow> tot + word_cost w \<le> MAX_COMMAND \<and> (utf8 w \<and> w \<noteq> [])"

interpretation loop_command: wire_loop encode_command_word decode_command_word command_word_ok "\<lambda>tot w. tot + word_cost w" "\<lambda>w. w"
proof unfold_locales
  fix tot w bs assume "command_word_ok tot w" "encode_command_word w = Inr bs"
  then show "parses (decode_command_word tot) bs (w, tot + word_cost w)"
    by (auto simp: decode_command_word_def encode_command_word_def command_word_ok_def word_cost_def u16_typed_def
        intro!: parse_binds)
next
  fix tot
  show "gives (decode_command_word tot)
    (\<lambda>(w, s') n. s' = tot + word_cost w \<and> command_word_ok tot w \<and> (\<exists>bs. encode_command_word w = Inr bs \<and> length bs \<le> n))"
    unfolding decode_command_word_def
    by (intro gives_intros)
      (auto simp: encode_command_word_def command_word_ok_def word_cost_def u16_typed_def)
qed

lemma running_command:
  "running command_word_ok (\<lambda>tot w. tot + word_cost w) tot ws \<longleftrightarrow>
   (ws \<noteq> [] \<longrightarrow> tot + sum_list (map word_cost ws) \<le> MAX_COMMAND) \<and> list_all (\<lambda>w. utf8 w \<and> w \<noteq> []) ws"
  unfolding command_word_ok_def by (rule running_total)

lemma encode_command_length:
  "enc_seq (map encode_command_word ws) = Inr bs \<Longrightarrow> length bs = sum_list (map word_cost ws)"
  by (induction ws arbitrary: bs) (fastforce simp: encode_command_word_def word_cost_def)+

interpretation fld_command: wire_field encode_command decode_command command_hint "list_all utf8" "\<lambda>v. v"
proof unfold_locales
  fix v bs assume v: "list_all utf8 v" "encode_command v = Inr bs"
  then obtain b where b: "enc_seq (map encode_command_word v) = Inr b" "bs = of_nat (length v) # b"
    and small: "length v \<le> MAX_COMMAND_WORDS" "sum_list (map word_cost v) \<le> MAX_COMMAND" "\<not> list_ex (\<lambda>w. w = []) v"
    by (auto simp: encode_command_def)
  have "running command_word_ok (\<lambda>tot w. tot + word_cost w) 0 v"
    using v(1) small by (auto simp: running_command list_all_iff list_ex_iff)
  from loop_command.loop_roundtrip [OF this b(1)] small(1) show "parses decode_command bs v"
    unfolding decode_command_def b(2) by (auto intro!: parse_binds simp: MAX_COMMAND_WORDS_def)
  show "length bs \<le> command_hint v"
    using encode_command_length [OF b(1)] by (simp add: b(2) command_hint_def word_cost_def [abs_def])
next
  show "gives decode_command (\<lambda>v n. list_all utf8 v \<and> (\<exists>bs. encode_command v = Inr bs \<and> length bs \<le> n))"
    unfolding decode_command_def
  proof (intro gives_intros, rule gives_mono [OF loop_command.loop_gives])
    fix count :: u8 and v m
    assume c: "\<not> MAX_COMMAND_WORDS < unat count"
      and v: "length v = unat count \<and> running command_word_ok (\<lambda>tot w. tot + word_cost w) 0 v \<and>
        (\<exists>bs. enc_seq (map encode_command_word v) = Inr bs \<and> length bs \<le> m)"
    then have "sum_list (map word_cost v) \<le> MAX_COMMAND" "list_all utf8 v" "\<not> list_ex (\<lambda>w. w = []) v"
      by (auto simp: running_command list_all_iff list_ex_iff)
    then show "list_all utf8 v \<and> (\<exists>bs. encode_command v = Inr bs \<and> length bs \<le> 1 + m)"
      using c v by (auto simp: encode_command_def unat_u8_le)
  qed
qed

interpretation el_summary: wire_field summary_put summary_get "\<lambda>s. 31 + length (ss_command s)" summary_typed "\<lambda>v. v"
proof unfold_locales
  fix v bs assume v: "summary_typed v" "summary_put v = Inr bs"
  have g: "grid_new (gs_cols (ss_size v)) (gs_rows (ss_size v)) = Some (ss_size v)"
    "u16_typed (gs_cols (ss_size v))" "u16_typed (gs_rows (ss_size v))"
    using v(1) grid_typed_u16 by (auto simp: summary_typed_def grid_typed_def)
  then show "parses summary_get bs v"
    using v by (auto simp: summary_get_def summary_put_def summary_typed_def intro!: parse_binds)
  show "length bs \<le> 31 + length (ss_command v)" using v by (auto simp: summary_put_def summary_typed_def)
next
  show "gives summary_get (\<lambda>v n. summary_typed v \<and> (\<exists>bs. summary_put v = Inr bs \<and> length bs \<le> n))"
    unfolding summary_get_def
    by (intro gives_intros) (auto simp: summary_put_def summary_typed_def unat_u8_le dest: grid_new_typed)
qed

interpretation fld_name: wire_field name_put name_get name_hint utf8 "\<lambda>v. v"
proof unfold_locales
  fix v bs assume v: "utf8 v" "name_put v = Inr bs"
  then show "parses name_get bs v"
    by (auto simp: name_get_def name_put_def split: if_splits intro!: parse_binds)
  show "length bs \<le> name_hint v" using v by (auto simp: name_put_def name_hint_def split: if_splits)
next
  show "gives name_get (\<lambda>v n. utf8 v \<and> (\<exists>bs. name_put v = Inr bs \<and> length bs \<le> n))"
    unfolding name_get_def by (intro gives_intros) (auto simp: name_put_def MAX_SESSION_NAME_def)
qed

interpretation el_named: wire_field named_put named_get "\<lambda>n. 17 + length (sn_name n)" named_typed "\<lambda>v. v"
proof unfold_locales
  fix v bs assume v: "named_typed v" "named_put v = Inr bs"
  then obtain b where b: "name_put (sn_name v) = Inr b" "bs = sn_session_id v @ b" "sn_name v \<noteq> []"
    by (auto simp: named_put_def)
  then show "parses named_get bs v"
    using v(1) by (auto simp: named_get_def named_typed_def intro!: parse_binds fld_name.bind_back_end)
  show "length bs \<le> 17 + length (sn_name v)"
    using v(1) b fld_name.hint_covers [OF _ b(1)] by (simp add: named_typed_def name_hint_def)
next
  show "gives named_get (\<lambda>v n. named_typed v \<and> (\<exists>bs. named_put v = Inr bs \<and> length bs \<le> n))"
    unfolding named_get_def
    by (intro gives_intros fld_name.bind_gives) (auto simp: named_put_def named_typed_def)
qed

interpretation el_match: wire_field match_put match_get "\<lambda>m. 24 + length (sm_line m)" match_typed "\<lambda>v. v"
proof unfold_locales
  fix v bs assume v: "match_typed v" "match_put v = Inr bs"
  then show "parses match_get bs v"
    by (auto simp: match_get_def match_put_def match_typed_def u16_typed_def intro!: parse_binds)
  show "length bs \<le> 24 + length (sm_line v)" using v by (auto simp: match_put_def match_typed_def)
next
  show "gives match_get (\<lambda>v n. match_typed v \<and> (\<exists>bs. match_put v = Inr bs \<and> length bs \<le> n))"
    unfolding match_get_def
    by (intro gives_intros) (auto simp: match_put_def match_typed_def u16_typed_def)
qed

interpretation el_run: wire_field sack_run_put sack_run_get "\<lambda>r. 8" sack_run_typed "\<lambda>v. v"
proof unfold_locales
  fix v bs assume v: "sack_run_typed v" "sack_run_put v = Inr bs"
  then show "parses sack_run_get bs v"
    by (auto simp: sack_run_get_def sack_run_put_def sack_run_typed_def non_zero_u32_def u32_typed_def
        intro!: parse_binds)
  show "length bs \<le> 8" using v by (auto simp: sack_run_put_def)
next
  show "gives sack_run_get (\<lambda>v n. sack_run_typed v \<and> (\<exists>bs. sack_run_put v = Inr bs \<and> length bs \<le> n))"
    unfolding sack_run_get_def
    by (intro gives_intros)
      (auto simp: sack_run_put_def sack_run_typed_def non_zero_u32_def u32_typed_def split: if_splits)
qed

lemma counted_field:
  assumes el: "wire_field eput eget ehint etyped (\<lambda>v. v)" and limit: "limit \<le> 65535"
    and put: "\<And>vs. put vs = enc_seq [enc_check (length vs \<le> limit) EncOversize, try_u16 EncOversize (length vs),
      enc_seq (map eput vs)]"
    and get: "get = decode_bind cursor_u16 (\<lambda>count.
      if limit < count then decode_err InvalidField else decode_many count eget)"
  shows "wire_field put get (\<lambda>vs. 2 + sum_list (map ehint vs)) (list_all etyped) (\<lambda>v. v)"
proof
  fix v bs assume v: "list_all etyped v" "put v = Inr bs"
  then obtain b where b: "enc_seq (map eput v) = Inr b" "bs = put_u16 (length v) @ b" "length v \<le> limit"
    by (auto simp: put)
  from wire_field.many_roundtrip [OF el v(1) b(1)] show "parses get bs v"
    using b(2,3) limit by (auto simp: get u16_typed_def intro!: parse_binds)
  show "length bs \<le> 2 + sum_list (map ehint v)"
    using wire_field.many_hint [OF el v(1) b(1)] by (simp add: b(2))
next
  show "gives get (\<lambda>v n. list_all etyped v \<and> (\<exists>bs. put v = Inr bs \<and> length bs \<le> n))"
    unfolding get put
    by (intro gives_intros gives_mono [OF wire_field.many_gives [OF el]]) (use limit in auto)
qed

interpretation fld_sessions: wire_field sessions_put sessions_get sessions_hint "list_all summary_typed" "\<lambda>v. v"
  unfolding sessions_hint_def [abs_def]
  by (rule counted_field [OF el_summary.wire_field_axioms, where limit = MAX_SESSIONS])
    (simp_all add: sessions_put_def sessions_get_def MAX_SESSIONS_def)

interpretation fld_names: wire_field names_put names_get names_hint "list_all named_typed" "\<lambda>v. v"
  unfolding names_hint_def [abs_def]
  by (rule counted_field [OF el_named.wire_field_axioms, where limit = MAX_SESSIONS])
    (simp_all add: names_put_def names_get_def MAX_SESSIONS_def)

interpretation fld_matches: wire_field matches_put matches_get matches_hint "list_all match_typed" "\<lambda>v. v"
  unfolding matches_hint_def [abs_def]
  by (rule counted_field [OF el_match.wire_field_axioms, where limit = MAX_MATCHES])
    (simp_all add: matches_put_def matches_get_def MAX_MATCHES_def)

interpretation fld_sack: wire_field sack_put sack_get sack_hint "list_all sack_run_typed" "\<lambda>v. v"
proof unfold_locales
  fix v bs assume v: "list_all sack_run_typed v" "sack_put v = Inr bs"
  then obtain b where b: "enc_seq (map sack_run_put v) = Inr b" "bs = of_nat (length v) # b" "length v \<le> MAX_ACK_RUNS"
    by (auto simp: sack_put_def split: if_splits)
  from el_run.many_roundtrip [OF v(1) b(1)] show "parses sack_get bs v"
    using b(2,3) by (auto simp: sack_get_def sack_runs_new_def MAX_ACK_RUNS_def
        intro!: parse_binds parses_bind_end [of "decode_many _ _"] parse_intros)
  show "length bs \<le> sack_hint v"
    using el_run.many_hint [OF v(1) b(1)] by (simp add: b(2) sack_hint_def sum_list_triv)
next
  show "gives sack_get (\<lambda>v n. list_all sack_run_typed v \<and> (\<exists>bs. sack_put v = Inr bs \<and> length bs \<le> n))"
    unfolding sack_get_def
    by (intro gives_intros gives_bind [OF el_run.many_gives])
      (auto simp: sack_put_def sack_runs_new_def MAX_ACK_RUNS_def split: if_splits)
qed

end
