(* ===== verification/Proto_Screen.thy ===== *)
theory Proto_Screen
  imports Proto_Fields
begin

text \<open>
  The screen vocabulary of \<^verbatim>\<open>src/crates/proto/src/screen.rs\<close>: colours, attributes, style runs and rows,
  the cutting of a row into chunks, scroll bands, cursor shapes, the repaint modes with their
  exclusive groups, sticky state, and the codecs of a row and of the sticky state.

  A row's runs tile a prefix of it; \<open>row_tiles\<close> says so, and it is what a decoded row satisfies and
  what an encoded one must. \<^verbatim>\<open>whole\<close> slices the text at \<^verbatim>\<open>painted_bytes\<close>, which is a character boundary
  of every such row (\<open>painted_boundary\<close>).
\<close>

section \<open>Model\<close>

definition MAX_TITLE :: nat where "MAX_TITLE = 512"
definition MAX_DEFERRED :: nat where "MAX_DEFERRED = 16"
definition MAX_DEFERRED_BYTES :: nat where "MAX_DEFERRED_BYTES = 4096"
definition MAX_CLUSTER_BYTES :: nat where "MAX_CLUSTER_BYTES = 64"
definition MAX_RUN_BYTES :: nat where "MAX_RUN_BYTES = 512"
definition CHUNK_FIXED :: nat where "CHUNK_FIXED = 8"
definition RUN_FIXED :: nat where "RUN_FIXED = 6"

lemmas screen_consts = MAX_TITLE_def MAX_DEFERRED_def MAX_DEFERRED_BYTES_def MAX_CLUSTER_BYTES_def
  MAX_RUN_BYTES_def CHUNK_FIXED_def RUN_FIXED_def

subsection \<open>Style\<close>

datatype style_color = DefaultColor | Palette u8 | Rgb u8 u8 u8

fun color_encoded_len :: "style_color \<Rightarrow> nat" where
  "color_encoded_len DefaultColor = 1"
| "color_encoded_len (Palette _) = 2"
| "color_encoded_len (Rgb _ _ _) = 4"

type_synonym style_attrs = u8

definition attrs_contains :: "style_attrs \<Rightarrow> style_attrs \<Rightarrow> bool" where
  "attrs_contains a flag \<longleftrightarrow> a AND flag = flag"

definition attrs_with :: "style_attrs \<Rightarrow> style_attrs \<Rightarrow> bool \<Rightarrow> style_attrs" where
  "attrs_with a flag on = (if on then a OR flag else a AND NOT flag)"

datatype underline_style = UnderlineNone | Single | Double | Curly | Dotted | Dashed

fun underline_to_wire :: "underline_style \<Rightarrow> u8" where
  "underline_to_wire UnderlineNone = 0"
| "underline_to_wire Single = 1"
| "underline_to_wire Double = 2"
| "underline_to_wire Curly = 3"
| "underline_to_wire Dotted = 4"
| "underline_to_wire Dashed = 5"

definition underline_from_wire :: "u8 \<Rightarrow> underline_style option" where
  "underline_from_wire value =
     (if value = 0 then Some UnderlineNone else if value = 1 then Some Single
      else if value = 2 then Some Double else if value = 3 then Some Curly
      else if value = 4 then Some Dotted else if value = 5 then Some Dashed else None)"

record cell_style =
  cs_fg :: style_color
  cs_bg :: style_color
  cs_underline_color :: style_color
  cs_attrs :: style_attrs
  cs_underline :: underline_style

definition style_is_default :: "cell_style \<Rightarrow> bool" where
  "style_is_default s \<longleftrightarrow> s = \<lparr>cs_fg = DefaultColor, cs_bg = DefaultColor,
     cs_underline_color = DefaultColor, cs_attrs = 0, cs_underline = UnderlineNone\<rparr>"

record style_run =
  ru_cells :: nat
  ru_bytes :: nat
  ru_style :: cell_style

definition run_style_len :: "style_run \<Rightarrow> nat" where
  "run_style_len run = RUN_FIXED + color_encoded_len (cs_fg (ru_style run)) +
     color_encoded_len (cs_bg (ru_style run)) + color_encoded_len (cs_underline_color (ru_style run))"

definition style_len :: "style_run list \<Rightarrow> nat" where
  "style_len runs = sum_list (map run_style_len runs)"

subsection \<open>Rows\<close>

record row_frame =
  rf_text :: bytes
  rf_runs :: "style_run list"
  rf_cells :: nat

record row_chunk =
  rk_text :: bytes
  rk_runs :: "style_run list"
  rk_cells :: nat
  rk_col :: nat
  rk_byte :: nat

definition chunk_encoded_len :: "row_chunk \<Rightarrow> nat" where
  "chunk_encoded_len chunk = CHUNK_FIXED + length (rk_text chunk) + style_len (rk_runs chunk)"

definition chunk_is_empty :: "row_chunk \<Rightarrow> bool" where
  "chunk_is_empty chunk \<longleftrightarrow> rk_text chunk = [] \<and> rk_runs chunk = [] \<and> rk_cells chunk = 0"

definition row_styled_cells :: "row_frame \<Rightarrow> nat" where
  "row_styled_cells row = sum_list (map ru_cells (rf_runs row))"

definition row_styled_bytes :: "row_frame \<Rightarrow> nat" where
  "row_styled_bytes row = min (sum_list (map ru_bytes (rf_runs row))) (length (rf_text row))"

definition row_painted_bytes :: "row_frame \<Rightarrow> nat" where
  "row_painted_bytes row =
     min (max (row_styled_bytes row) (length (trim_end_spaces (rf_text row)))) (length (rf_text row))"

definition row_whole :: "row_frame \<Rightarrow> row_chunk" where
  "row_whole row =
     \<lparr>rk_text = take (row_painted_bytes row) (rf_text row), rk_runs = rf_runs row,
      rk_cells = rf_cells row, rk_col = 0, rk_byte = 0\<rparr>"

definition row_encoded_len :: "row_frame \<Rightarrow> nat" where
  "row_encoded_len row = chunk_encoded_len (row_whole row)"

definition row_clamp_runs :: "row_frame \<Rightarrow> nat \<times> nat \<Rightarrow> nat \<times> nat" where
  "row_clamp_runs row runs =
     (let first = min (fst runs) (length (rf_runs row))
      in (first, min (max (snd runs) first) (length (rf_runs row))))"

definition u16_saturating_add :: "nat \<Rightarrow> nat \<Rightarrow> nat" where
  "u16_saturating_add a b = min (a + b) 65535"

definition row_run_start :: "row_frame \<Rightarrow> nat \<Rightarrow> nat \<times> nat" where
  "row_run_start row first =
     foldl (\<lambda>(col, byte) run. (u16_saturating_add col (ru_cells run), byte + ru_bytes run)) (0, 0)
       (take first (rf_runs row))"

definition row_span_len :: "row_frame \<Rightarrow> nat \<times> nat \<Rightarrow> nat" where
  "row_span_len row runs =
     (let (first, stop) = row_clamp_runs row runs;
          (_, start) = row_run_start row first;
          mine = take (stop - first) (drop first (rf_runs row));
          bytes = if stop = length (rf_runs row) then row_painted_bytes row - start
                  else sum_list (map ru_bytes mine)
      in CHUNK_FIXED + bytes + style_len mine)"

text \<open>\<^verbatim>\<open>narrow\<close>: an offset held in 32 bits.\<close>

definition narrow :: "nat \<Rightarrow> nat" where
  "narrow byte = min byte u32_max"

record row_chunks =
  ch_row :: row_frame
  ch_painted :: nat
  ch_budget :: nat
  ch_run :: nat
  ch_end :: nat
  ch_byte :: nat
  ch_cell :: nat
  ch_done :: bool

definition row_span :: "row_frame \<Rightarrow> nat \<times> nat \<Rightarrow> nat \<Rightarrow> row_chunks" where
  "row_span row runs budget =
     (let (first, stop) = row_clamp_runs row runs; (cell, byte) = row_run_start row first
      in \<lparr>ch_row = row, ch_painted = row_painted_bytes row, ch_budget = budget, ch_run = first,
          ch_end = stop, ch_byte = byte, ch_cell = cell, ch_done = False\<rparr>)"

definition row_chunks_of :: "row_frame \<Rightarrow> nat \<Rightarrow> row_chunks" where
  "row_chunks_of row budget = row_span row (0, length (rf_runs row)) budget"

definition row_chunks_start :: "row_chunks \<Rightarrow> nat \<times> nat" where
  "row_chunks_start c = (ch_cell c, narrow (ch_byte c))"

text \<open>The inner loop of \<^verbatim>\<open>RowChunks::next\<close> over the runs still ahead: cost, cells, byte and run.\<close>

fun chunk_fill :: "nat \<Rightarrow> nat \<Rightarrow> style_run list \<Rightarrow> nat \<times> nat \<times> nat \<times> nat \<Rightarrow> nat \<times> nat \<times> nat \<times> nat" where
  "chunk_fill budget first [] s = s"
| "chunk_fill budget first (r # rs) (cost, cells, byte, run) =
     (let one = ru_bytes r + run_style_len r in
      if budget < cost + one \<and> first < run then (cost, cells, byte, run)
      else chunk_fill budget first rs
        (cost + one, u16_saturating_add cells (ru_cells r), byte + ru_bytes r, Suc run))"

text \<open>\<open>None\<close> is the overflow of \<^verbatim>\<open>self.cell + cells\<close>, a panic.\<close>

definition row_chunks_next :: "row_chunks \<Rightarrow> (row_chunk option \<times> row_chunks) option" where
  "row_chunks_next c =
     (if ch_done c then Some (None, c)
      else
        let row = ch_row c; runs = rf_runs row;
            first_run = ch_run c; first_byte = ch_byte c; first_cell = ch_cell c;
            (cost, cells, byte, run) =
              chunk_fill (ch_budget c) first_run (drop first_run (take (ch_end c) runs))
                (CHUNK_FIXED, 0, first_byte, first_run);
            at_end = (run = ch_end c \<and> ch_end c = length runs)
        in if at_end \<and> 65535 < first_cell + cells then None
        else
          let tail_bytes = ch_painted c - byte;
              tail_cells = rf_cells row - (first_cell + cells);
              tail = (at_end \<and> (cost + tail_bytes \<le> ch_budget c \<or> first_run = run \<and> cells = 0));
              byte' = (if tail then max (ch_painted c) byte else byte);
              cells' = (if tail then u16_saturating_add cells tail_cells else cells);
              done = (tail \<or> \<not> at_end \<and> run = ch_end c);
              chunk = \<lparr>rk_text = (case str_get (rf_text row) first_byte (min byte' (ch_painted c)) of
                                   None \<Rightarrow> [] | Some t \<Rightarrow> t),
                       rk_runs = take (run - first_run) (drop first_run runs),
                       rk_cells = cells', rk_col = first_cell, rk_byte = narrow first_byte\<rparr>;
              c' = c\<lparr>ch_run := run, ch_byte := byte', ch_cell := u16_saturating_add first_cell cells'\<rparr>
          in if chunk_is_empty chunk \<and> 0 < first_run then Some (None, c'\<lparr>ch_done := True\<rparr>)
             else Some (Some chunk, c'\<lparr>ch_done := done \<or> first_run = run\<rparr>))"

text \<open>Which runs of a row a delta repaints; the loop carries the answer so far, the byte it is at
  and whether the two rows still line up.\<close>

fun changed_scan :: "bytes \<Rightarrow> bytes \<Rightarrow> nat \<Rightarrow> (style_run \<times> style_run) list \<Rightarrow>
    nat option \<times> nat \<times> nat \<times> bool \<Rightarrow> nat option \<times> nat \<times> nat \<times> bool" where
  "changed_scan mine_text theirs_text index [] s = s"
| "changed_scan mine_text theirs_text index ((mine, theirs) # rest) (first, upto_run, byte, aligned) =
     (let placed = (ru_cells mine = ru_cells theirs \<and> ru_bytes mine = ru_bytes theirs);
          stop = byte + ru_bytes mine;
          differs = (\<not> placed \<or> ru_style mine \<noteq> ru_style theirs \<or>
            str_get mine_text byte stop \<noteq> str_get theirs_text byte stop);
          first' = (if differs \<and> first = None then Some index else first);
          upto_run' = (if differs then index + 1 else upto_run)
      in if \<not> placed then (first', upto_run', byte, False)
         else changed_scan mine_text theirs_text (Suc index) rest (first', upto_run', stop, aligned))"

definition row_changed_span :: "row_frame \<Rightarrow> row_frame \<Rightarrow> (nat \<times> nat) option" where
  "row_changed_span row previous =
     (let common = min (length (rf_runs row)) (length (rf_runs previous));
          (first, upto_run, byte, aligned) =
            changed_scan (rf_text row) (rf_text previous) 0 (zip (rf_runs row) (rf_runs previous))
              (None, 0, 0, length (rf_runs row) = length (rf_runs previous));
          tail = (rf_cells row \<noteq> rf_cells previous \<or>
            str_get (rf_text row) byte (row_painted_bytes row) \<noteq>
            str_get (rf_text previous) byte (row_painted_bytes previous));
          (first, upto_run) = (if \<not> aligned \<or> tail
            then (if first = None then Some common else first, length (rf_runs row)) else (first, upto_run))
      in case first of None \<Rightarrow> None | Some f \<Rightarrow> Some (f, max upto_run f))"

subsection \<open>Scroll bands and cursor shapes\<close>

definition scroll_applicable :: "scroll_band \<Rightarrow> nat \<Rightarrow> bool" where
  "scroll_applicable band rows \<longleftrightarrow> sb_top band < sb_bottom band \<and> sb_bottom band \<le> rows \<and>
     0 < sb_lines band \<and> sb_lines band \<le> sb_bottom band - sb_top band"

datatype cursor_shape = Unset | Block | Underline | Bar

fun shape_to_wire :: "cursor_shape \<Rightarrow> u8" where
  "shape_to_wire Unset = 0"
| "shape_to_wire Block = 1"
| "shape_to_wire Underline = 2"
| "shape_to_wire Bar = 3"

definition shape_from_wire :: "u8 \<Rightarrow> cursor_shape option" where
  "shape_from_wire value =
     (if value = 0 then Some Unset else if value = 1 then Some Block
      else if value = 2 then Some Underline else if value = 3 then Some Bar else None)"

fun decscusr :: "cursor_shape \<Rightarrow> bool \<Rightarrow> nat" where
  "decscusr Unset blinking = 0"
| "decscusr Block blinking = (if blinking then 1 else 2)"
| "decscusr Underline blinking = (if blinking then 3 else 4)"
| "decscusr Bar blinking = (if blinking then 5 else 6)"

subsection \<open>Modes\<close>

definition REPAINT_MODES :: "nat list" where
  "REPAINT_MODES = [1, 7, 66, 1000, 1002, 1003, 1004, 1005, 1006, 1007, 1015, 1016, 1036, 1049, 2004,
     2027, 5, 9, 45, 67]"

definition EXCLUSIVE_MODES :: "nat list list" where
  "EXCLUSIVE_MODES = [[9, 1000, 1002, 1003], [1005, 1015, 1006, 1016]]"

type_synonym mode_set = "32 word"

definition mode_set_set :: "mode_set \<Rightarrow> nat \<Rightarrow> bool \<Rightarrow> mode_set" where
  "mode_set_set s index on =
     (if on then s OR push_bit index 1 else s AND NOT (push_bit index 1))"

definition mode_set_get :: "mode_set \<Rightarrow> nat \<Rightarrow> bool" where
  "mode_set_get s index \<longleftrightarrow> s AND push_bit index 1 \<noteq> 0"

text \<open>A mode outside the table stops the build; the position past the end stands for it.\<close>

definition mode_index :: "nat \<Rightarrow> nat" where
  "mode_index mode = length (takeWhile (\<lambda>m. m \<noteq> mode) REPAINT_MODES)"

definition EXCLUSIVE :: "nat list list" where
  "EXCLUSIVE = map (map mode_index) EXCLUSIVE_MODES"

definition EXCLUSIVE_MASK :: mode_set where
  "EXCLUSIVE_MASK = fold (\<lambda>index s. mode_set_set s index True) (concat EXCLUSIVE) 0"

definition RESET_ON_EXIT :: mode_set where
  "RESET_ON_EXIT = fold (\<lambda>index s.
     if REPAINT_MODES ! index \<in> {7, 1007, 1036, 2027} then s else mode_set_set s index True)
     [0..<length REPAINT_MODES] 0"

definition MODE_MASK :: mode_set where
  "MODE_MASK = (if length REPAINT_MODES = 32 then - 1 else push_bit (length REPAINT_MODES) 1 - 1)"

definition mode_set_from_bits :: "32 word \<Rightarrow> mode_set" where
  "mode_set_from_bits bits = bits AND MODE_MASK"

definition mode_set_decode :: "32 word \<Rightarrow> mode_set option" where
  "mode_set_decode bits = (if bits AND NOT MODE_MASK \<noteq> 0 then None else Some bits)"

definition mode_set_iter :: "mode_set \<Rightarrow> (nat \<times> bool) list" where
  "mode_set_iter s = map (\<lambda>index. (REPAINT_MODES ! index, mode_set_get s index)) [0..<length REPAINT_MODES]"

definition mode_selections :: "mode_set \<Rightarrow> nat option list" where
  "mode_selections s = map (\<lambda>grp.
     map_option (\<lambda>index. REPAINT_MODES ! index) (find (mode_set_get s) (rev grp))) EXCLUSIVE"

text \<open>\<open>None\<close> is the panic on a group there is not, or a mode its group does not name.\<close>

definition mode_select :: "mode_set \<Rightarrow> nat \<Rightarrow> nat option \<Rightarrow> mode_set option" where
  "mode_select s grp mode =
     (if length EXCLUSIVE \<le> grp then None
      else let members = EXCLUSIVE ! grp in
      case mode of
        None \<Rightarrow> Some (fold (\<lambda>index s. mode_set_set s index False) members s)
      | Some m \<Rightarrow>
          (case find (\<lambda>index. REPAINT_MODES ! index = m) members of
             None \<Rightarrow> None
           | Some chosen \<Rightarrow> Some (fold (\<lambda>index s. mode_set_set s index (index = chosen)) members s)))"

subsection \<open>Sticky state\<close>

record sticky_state =
  sk_title :: "bytes option"
  sk_kitty_keyboard :: u8
  sk_bell :: bool
  sk_saved_cursor :: "(nat \<times> nat) option"
  sk_pending_wrap :: bool
  sk_deferred :: "bytes list"

text \<open>The loop runs backwards over the entries with their positions.\<close>

fun deferred_scan :: "nat \<Rightarrow> (nat \<times> bytes) list \<Rightarrow> nat \<Rightarrow> nat \<Rightarrow> nat" where
  "deferred_scan len [] tot start = start"
| "deferred_scan len ((index, entry) # rest) tot start =
     (let tot' = tot + (length entry + 2) in
      if MAX_DEFERRED_BYTES < tot' \<or> MAX_DEFERRED < len - index then start
      else deferred_scan len rest tot' index)"

definition deferred_start :: "bytes list \<Rightarrow> nat" where
  "deferred_start deferred =
     deferred_scan (length deferred) (rev (List.enumerate 0 deferred)) 0 (length deferred)"

definition wire_title :: "sticky_state \<Rightarrow> bytes option" where
  "wire_title sticky =
     (case sk_title sticky of None \<Rightarrow> None
      | Some title \<Rightarrow> if length title \<le> MAX_TITLE \<and> \<not> has_control title then Some title else None)"

definition sticky_bytes :: "sticky_state \<Rightarrow> nat" where
  "sticky_bytes sticky =
     (case wire_title sticky of None \<Rightarrow> 1 | Some title \<Rightarrow> 3 + length title) + 1 + 1 +
     (if sk_saved_cursor sticky \<noteq> None then 5 else 1) + 1 + 1 +
     sum_list (map (\<lambda>entry. length entry + 2) (drop (deferred_start (sk_deferred sticky)) (sk_deferred sticky)))"

definition encode_deferred :: "bytes \<Rightarrow> encoded" where
  "encode_deferred entry = enc_seq [
     enc_check (\<not> has_control entry) BadDeferred,
     try_u16 BadDeferred (length entry),
     Inr entry]"

definition encode_sticky :: "sticky_state \<Rightarrow> encoded" where
  "encode_sticky sticky =
     (let kept = drop (deferred_start (sk_deferred sticky)) (sk_deferred sticky) in enc_seq [
       (case wire_title sticky of
          Some title \<Rightarrow> enc_seq [Inr [1], try_u16 EncOversize (length title), Inr title]
        | None \<Rightarrow> Inr [0]),
       Inr [sk_kitty_keyboard sticky],
       Inr (put_bool (sk_bell sticky)),
       Inr (encode_cursor (sk_saved_cursor sticky)),
       Inr (put_bool (sk_pending_wrap sticky)),
       try_u8 BadDeferred (length kept),
       enc_seq (map encode_deferred kept)])"

definition decode_title :: "bytes option decoder" where
  "decode_title = decode_bind cursor_u8 (\<lambda>t.
     if t = 0 then decode_ok None
     else if t = 1 then decode_bind cursor_u16 (\<lambda>len.
       if MAX_TITLE < len then decode_err InvalidField
       else decode_bind (cursor_str len) (\<lambda>title. decode_bind (reject_control title) (\<lambda>_.
         decode_ok (Some title))))
     else decode_err InvalidField)"

definition decode_deferred :: "nat \<Rightarrow> (bytes \<times> nat) decoder" where
  "decode_deferred tot = decode_bind cursor_u16 (\<lambda>len.
     if MAX_DEFERRED_BYTES < tot + (len + 2) then decode_err InvalidField
     else decode_bind (cursor_str len) (\<lambda>entry. decode_bind (reject_control entry) (\<lambda>_.
       decode_ok (entry, tot + (len + 2)))))"

definition decode_sticky :: "sticky_state decoder" where
  "decode_sticky =
     decode_bind decode_title (\<lambda>title. decode_bind cursor_u8 (\<lambda>kitty_keyboard.
     decode_bind decode_bool (\<lambda>bell. decode_bind decode_cursor (\<lambda>saved_cursor.
     decode_bind decode_bool (\<lambda>pending_wrap. decode_bind cursor_u8 (\<lambda>count.
     if MAX_DEFERRED < unat count then decode_err InvalidField
     else decode_bind (decode_loop (unat count) decode_deferred 0) (\<lambda>deferred.
       decode_ok \<lparr>sk_title = title, sk_kitty_keyboard = kitty_keyboard, sk_bell = bell,
         sk_saved_cursor = saved_cursor, sk_pending_wrap = pending_wrap, sk_deferred = deferred\<rparr>)))))))"

subsection \<open>Row codecs\<close>

definition encode_style_color :: "style_color \<Rightarrow> bytes" where
  "encode_style_color color =
     (case color of DefaultColor \<Rightarrow> [0] | Palette index \<Rightarrow> [1, index] | Rgb r g b \<Rightarrow> [2, r, g, b])"

definition decode_style_color :: "style_color decoder" where
  "decode_style_color = decode_bind cursor_u8 (\<lambda>t.
     if t = 0 then decode_ok DefaultColor
     else if t = 1 then decode_bind cursor_u8 (\<lambda>index. decode_ok (Palette index))
     else if t = 2 then decode_bind (cursor_take 3) (\<lambda>rgb. decode_ok (Rgb (rgb ! 0) (rgb ! 1) (rgb ! 2)))
     else decode_err InvalidField)"

definition encode_style_run :: "style_run \<Rightarrow> encoded" where
  "encode_style_run run = enc_seq [
     Inr (put_u16 (ru_cells run)),
     enc_check (ru_bytes run \<le> 65535 \<and> ru_bytes run \<le> MAX_RUN_BYTES) EncOversize,
     Inr (put_u16 (ru_bytes run)),
     Inr [cs_attrs (ru_style run), underline_to_wire (cs_underline (ru_style run))],
     Inr (encode_style_color (cs_fg (ru_style run))),
     Inr (encode_style_color (cs_bg (ru_style run))),
     Inr (encode_style_color (cs_underline_color (ru_style run)))]"

definition encode_row_chunk :: "row_chunk \<Rightarrow> encoded" where
  "encode_row_chunk chunk = enc_seq [
     enc_check (length (rk_text chunk) \<le> rk_cells chunk * MAX_CLUSTER_BYTES) EncOversize,
     try_u32 EncOversize (length (rk_text chunk)),
     Inr (push_row_text (rk_text chunk)),
     Inr (put_u16 (rk_cells chunk)),
     try_u16 EncOversize (length (rk_runs chunk)),
     enc_seq (map encode_style_run (rk_runs chunk))]"

definition decode_style_run :: "bytes \<Rightarrow> nat \<Rightarrow> nat \<times> nat \<Rightarrow> (style_run \<times> (nat \<times> nat)) decoder" where
  "decode_style_run text cells covered =
     decode_bind cursor_u16 (\<lambda>run_cells. decode_bind cursor_u16 (\<lambda>run_bytes.
     if MAX_RUN_BYTES < run_bytes then decode_err InvalidField
     else decode_bind cursor_u8 (\<lambda>attrs. decode_bind cursor_u8 (\<lambda>u.
     decode_bind (decode_some (underline_from_wire u)) (\<lambda>underline.
     decode_bind decode_style_color (\<lambda>fg. decode_bind decode_style_color (\<lambda>bg.
     decode_bind decode_style_color (\<lambda>underline_color.
     let covered_cells = fst covered + run_cells; covered_bytes = snd covered + run_bytes in
     if usize_max < covered_bytes then decode_err InvalidField
     else if cells < covered_cells \<or> \<not> is_char_boundary text covered_bytes then decode_err InvalidField
     else decode_ok
       (\<lparr>ru_cells = run_cells, ru_bytes = run_bytes,
         ru_style = \<lparr>cs_fg = fg, cs_bg = bg, cs_underline_color = underline_color, cs_attrs = attrs,
           cs_underline = underline\<rparr>\<rparr>,
        (covered_cells, covered_bytes))))))))))"

definition decode_row_frame :: "nat \<Rightarrow> row_frame decoder" where
  "decode_row_frame cols = decode_bind cursor_u32 (\<lambda>len.
     if cols * MAX_CLUSTER_BYTES < len then decode_err InvalidField
     else decode_bind (cursor_str len) (\<lambda>text. decode_bind (reject_control text) (\<lambda>_.
     decode_bind cursor_u16 (\<lambda>cells.
     if cols < cells then decode_err InvalidField
     else if cells * MAX_CLUSTER_BYTES < len then decode_err InvalidField
     else decode_bind cursor_u16 (\<lambda>count.
       if cols < count then decode_err InvalidField
       else decode_bind (decode_loop count (decode_style_run text cells) (0, 0)) (\<lambda>runs.
         decode_ok \<lparr>rf_text = text, rf_runs = runs, rf_cells = cells\<rparr>))))))"

section \<open>Codecs of the parts\<close>

definition cursor_typed :: "(nat \<times> nat) option \<Rightarrow> bool" where
  "cursor_typed at \<longleftrightarrow> (\<forall>x y. at = Some (x, y) \<longrightarrow> u16_typed x \<and> u16_typed y)"

interpretation el_cursor: wire_field "\<lambda>v. Inr (encode_cursor v)" decode_cursor "\<lambda>v. if v \<noteq> None then 5 else 1" cursor_typed "\<lambda>v. v"
proof unfold_locales
  fix v bs assume v: "cursor_typed v" "Inr (encode_cursor v) = Inr bs"
  then show "parses decode_cursor bs v"
    by (cases v) (auto simp: decode_cursor_def encode_cursor_def cursor_typed_def intro!: parse_binds)
  show "length bs \<le> (if v \<noteq> None then 5 else 1)" using v by (cases v) (auto simp: encode_cursor_def)
next
  show "gives decode_cursor (\<lambda>v n. cursor_typed v \<and> (\<exists>bs. Inr (encode_cursor v) = Inr bs \<and> length bs \<le> n))"
    unfolding decode_cursor_def
    by (intro gives_intros) (auto simp: encode_cursor_def cursor_typed_def)
qed

interpretation el_color: wire_field "\<lambda>v. Inr (encode_style_color v)" decode_style_color color_encoded_len always "\<lambda>v. v"
proof unfold_locales
  fix v bs assume v: "always v" "Inr (encode_style_color v) = Inr bs"
  then show "parses decode_style_color bs v"
    by (cases v) (auto simp: decode_style_color_def encode_style_color_def intro!: parse_binds)
  show "length bs \<le> color_encoded_len v" using v by (cases v) (auto simp: encode_style_color_def)
next
  show "gives decode_style_color (\<lambda>v n. always v \<and> (\<exists>bs. Inr (encode_style_color v) = Inr bs \<and> length bs \<le> n))"
    unfolding decode_style_color_def
    by (intro gives_intros) (auto simp: encode_style_color_def always_def)
qed

lemma color_length [simp]: "length (encode_style_color c) = color_encoded_len c"
  by (cases c) (simp_all add: encode_style_color_def)

lemma cursor_length: "length (encode_cursor v) = (if v \<noteq> None then 5 else 1)"
  by (cases v) (auto simp: encode_cursor_def)

lemma underline_roundtrip [simp]: "underline_from_wire (underline_to_wire u) = Some u"
  by (cases u) (simp_all add: underline_from_wire_def)

lemma shape_roundtrip [simp]: "shape_from_wire (shape_to_wire u) = Some u"
  by (cases u) (simp_all add: shape_from_wire_def)

section \<open>Sticky state\<close>

definition deferred_cost :: "bytes \<Rightarrow> nat" where
  "deferred_cost entry = length entry + 2"

definition deferred_ok :: "nat \<Rightarrow> bytes \<Rightarrow> bool" where
  "deferred_ok tot entry \<longleftrightarrow> tot + deferred_cost entry \<le> MAX_DEFERRED_BYTES \<and> (utf8 entry \<and> \<not> has_control entry)"

interpretation loop_deferred: wire_loop encode_deferred decode_deferred deferred_ok "\<lambda>tot e. tot + deferred_cost e" "\<lambda>e. e"
proof unfold_locales
  fix tot e bs assume "deferred_ok tot e" "encode_deferred e = Inr bs"
  then show "parses (decode_deferred tot) bs (e, tot + deferred_cost e)"
    by (auto simp: decode_deferred_def encode_deferred_def deferred_ok_def deferred_cost_def u16_typed_def
        intro!: parse_binds)
next
  fix tot
  show "gives (decode_deferred tot)
    (\<lambda>(e, s') n. s' = tot + deferred_cost e \<and> deferred_ok tot e \<and> (\<exists>bs. encode_deferred e = Inr bs \<and> length bs \<le> n))"
    unfolding decode_deferred_def
    by (intro gives_intros)
      (auto simp: encode_deferred_def deferred_ok_def deferred_cost_def u16_typed_def MAX_DEFERRED_BYTES_def)
qed

lemma running_deferred:
  "running deferred_ok (\<lambda>tot e. tot + deferred_cost e) tot es \<longleftrightarrow>
   (es \<noteq> [] \<longrightarrow> tot + sum_list (map deferred_cost es) \<le> MAX_DEFERRED_BYTES) \<and>
   list_all (\<lambda>e. utf8 e \<and> \<not> has_control e) es"
  unfolding deferred_ok_def by (rule running_total)

lemma encode_deferred_all:
  "enc_seq (map encode_deferred es) = Inr bs \<Longrightarrow>
   list_all (\<lambda>e. \<not> has_control e) es \<and> length bs = sum_list (map deferred_cost es)"
  by (induction es arbitrary: bs) (fastforce simp: encode_deferred_def deferred_cost_def)+

text \<open>The entries kept are the longest suffix within both limits.\<close>

lemma enumerate_snoc: "rev (List.enumerate 0 (ys @ [y])) = (length ys, y) # rev (List.enumerate 0 ys)"
  by (simp add: enumerate_append_eq)

lemma deferred_scan_spec:
  assumes "deferred_scan (length ys + k) (rev (List.enumerate 0 ys)) tot (length ys) = r"
  shows "r \<le> length ys \<and>
    (tot \<le> MAX_DEFERRED_BYTES \<longrightarrow> tot + sum_list (map deferred_cost (drop r ys)) \<le> MAX_DEFERRED_BYTES) \<and>
    (k \<le> MAX_DEFERRED \<longrightarrow> length ys - r + k \<le> MAX_DEFERRED) \<and>
    (0 < r \<longrightarrow> MAX_DEFERRED_BYTES < tot + sum_list (map deferred_cost (drop (r - 1) ys)) \<or>
       MAX_DEFERRED < length ys - (r - 1) + k)"
  using assms
proof (induction ys arbitrary: k tot rule: rev_induct)
  case Nil
  then show ?case by simp
next
  case (snoc y ys)
  show ?case
  proof (cases "MAX_DEFERRED_BYTES < tot + deferred_cost y \<or> MAX_DEFERRED < Suc k")
    case True
    then have "r = Suc (length ys)" using snoc.prems
      by (auto simp: enumerate_snoc deferred_cost_def Let_def)
    then show ?thesis using True by auto
  next
    case False
    then have "deferred_scan (length ys + Suc k) (rev (List.enumerate 0 ys)) (tot + deferred_cost y) (length ys) = r"
      using snoc.prems by (auto simp: enumerate_snoc deferred_cost_def Let_def)
    from snoc.IH [OF this] False show ?thesis by (auto simp: Suc_diff_le)
  qed
qed

lemma deferred_start_spec:
  "deferred_start ds \<le> length ds"
  "sum_list (map deferred_cost (drop (deferred_start ds) ds)) \<le> MAX_DEFERRED_BYTES"
  "length (drop (deferred_start ds) ds) \<le> MAX_DEFERRED"
  "0 < deferred_start ds \<Longrightarrow> MAX_DEFERRED_BYTES < sum_list (map deferred_cost (drop (deferred_start ds - 1) ds)) \<or>
     MAX_DEFERRED < length (drop (deferred_start ds - 1) ds)"
  using deferred_scan_spec [of ds 0 0 "deferred_start ds"] by (auto simp: deferred_start_def)

lemma deferred_start_zero:
  assumes "sum_list (map deferred_cost ds) \<le> MAX_DEFERRED_BYTES" "length ds \<le> MAX_DEFERRED"
  shows "deferred_start ds = 0"
proof (rule ccontr)
  assume "deferred_start ds \<noteq> 0"
  moreover have "sum_list (map deferred_cost (drop n ds)) \<le> sum_list (map deferred_cost ds)" for n
    by (metis append_take_drop_id le_add2 map_append sum_list_append)
  ultimately show False using deferred_start_spec(4) [of ds] assms
    by (metis diff_le_self le_trans length_drop not_gr_zero not_less)
qed

definition sticky_typed :: "sticky_state \<Rightarrow> bool" where
  "sticky_typed s \<longleftrightarrow> (\<forall>t. sk_title s = Some t \<longrightarrow> utf8 t) \<and> cursor_typed (sk_saved_cursor s) \<and> list_all utf8 (sk_deferred s)"

definition sticky_view :: "sticky_state \<Rightarrow> sticky_state" where
  "sticky_view s = s\<lparr>sk_title := wire_title s, sk_deferred := drop (deferred_start (sk_deferred s)) (sk_deferred s)\<rparr>"

lemma sticky_length:
  assumes "encode_sticky s = Inr bs"
  shows "length bs = sticky_bytes s"
  using assms encode_deferred_all
  by (auto simp: encode_sticky_def sticky_bytes_def Let_def cursor_length deferred_cost_def [abs_def]
      split: option.splits)

lemma parses_title:
  assumes "enc_seq [Inr [1], try_u16 EncOversize (length t), Inr t] = Inr bs" "utf8 t" "\<not> has_control t" "length t \<le> MAX_TITLE"
  shows "parses decode_title bs (Some t)"
  using assms by (auto simp: decode_title_def u16_typed_def intro!: parse_binds)

interpretation fld_sticky: wire_field encode_sticky decode_sticky sticky_bytes sticky_typed sticky_view
proof unfold_locales
  fix s bs assume s: "sticky_typed s" "encode_sticky s = Inr bs"
  let ?kept = "drop (deferred_start (sk_deferred s)) (sk_deferred s)"
  from s(2) obtain b d where bs: "bs = b @ [sk_kitty_keyboard s] @ put_bool (sk_bell s) @ encode_cursor (sk_saved_cursor s) @
      put_bool (sk_pending_wrap s) @ [of_nat (length ?kept)] @ d"
    and b: "(case wire_title s of Some t \<Rightarrow> enc_seq [Inr [1], try_u16 EncOversize (length t), Inr t] | None \<Rightarrow> Inr [0]) = Inr b"
    and d: "enc_seq (map encode_deferred ?kept) = Inr d" and n: "length ?kept \<le> 255"
    by (auto simp: encode_sticky_def Let_def simp del: length_drop)
  have title: "parses decode_title b (wire_title s)"
  proof (cases "wire_title s")
    case None
    then show ?thesis using b by (auto simp: decode_title_def intro!: parse_binds)
  next
    case (Some t)
    then have "utf8 t" "\<not> has_control t" "length t \<le> MAX_TITLE"
      using s(1) by (auto simp: wire_title_def sticky_typed_def split: option.splits if_splits)
    then show ?thesis using parses_title b Some by simp
  qed
  have "list_all utf8 ?kept" using s(1) by (auto simp: sticky_typed_def list_all_iff dest: in_set_dropD)
  then have "running deferred_ok (\<lambda>tot e. tot + deferred_cost e) 0 ?kept"
    using deferred_start_spec(2) [of "sk_deferred s"] encode_deferred_all [OF d]
    by (simp add: running_deferred list_all_iff)
  from loop_deferred.loop_roundtrip [OF this d]
  have "parses (decode_loop (length ?kept) decode_deferred 0) d ?kept" by simp
  moreover have "length ?kept \<le> MAX_DEFERRED" by (rule deferred_start_spec)
  ultimately show "parses decode_sticky bs (sticky_view s)"
    unfolding decode_sticky_def bs using s(1) n
    by (auto simp: sticky_view_def sticky_typed_def simp del: length_drop
        intro!: parses_bind [OF title] parse_binds el_cursor.bind_back [OF refl] parses_bind_end [of "decode_loop _ _ _"])
  show "length bs \<le> sticky_bytes s" using sticky_length [OF s(2)] by simp
next
  have title: "gives decode_title (\<lambda>t n. (\<forall>x. t = Some x \<longrightarrow> utf8 x \<and> \<not> has_control x \<and> length x \<le> MAX_TITLE) \<and>
      n = (case t of None \<Rightarrow> 1 | Some x \<Rightarrow> 3 + length x))"
    unfolding decode_title_def by (intro gives_intros) auto
  show "gives decode_sticky (\<lambda>s n. sticky_typed s \<and> (\<exists>bs. encode_sticky s = Inr bs \<and> length bs \<le> n))"
    unfolding decode_sticky_def
  proof (intro gives_bind [OF title] gives_intros el_cursor.bind_gives gives_bind [OF loop_deferred.loop_gives])
    fix title :: "bytes option" and n kb bell at bs m wrap and count :: u8 and ds k
    assume t: "(\<forall>x. title = Some x \<longrightarrow> utf8 x \<and> \<not> has_control x \<and> length x \<le> MAX_TITLE) \<and>
        n = (case title of None \<Rightarrow> 1 | Some x \<Rightarrow> 3 + length x)"
      and at: "cursor_typed at" "Inr (encode_cursor at) = Inr bs" "length bs \<le> m"
      and c: "\<not> MAX_DEFERRED < unat count"
      and ds: "length ds = unat count \<and> running deferred_ok (\<lambda>tot e. tot + deferred_cost e) 0 ds \<and>
        (\<exists>bs. enc_seq (map encode_deferred ds) = Inr bs \<and> length bs \<le> k)"
    let ?s = "\<lparr>sk_title = title, sk_kitty_keyboard = kb, sk_bell = bell, sk_saved_cursor = at,
      sk_pending_wrap = wrap, sk_deferred = ds\<rparr>"
    have zero: "deferred_start ds = 0"
      using ds c by (intro deferred_start_zero) (auto simp: running_deferred)
    have wt: "wire_title ?s = title" using t by (auto simp: wire_title_def split: option.splits)
    have "list_all utf8 ds" using ds by (auto simp: running_deferred list_all_iff)
    then show "sticky_typed ?s \<and> (\<exists>bs. encode_sticky ?s = Inr bs \<and> length bs \<le> n + (1 + (1 + (m + (1 + (1 + (k + 0)))))))"
      using t at ds c zero wt
      by (auto simp: sticky_typed_def encode_sticky_def Let_def MAX_DEFERRED_def MAX_TITLE_def split: option.splits)
  qed
qed

section \<open>Rows on the wire\<close>

definition run_ok :: "bytes \<Rightarrow> nat \<Rightarrow> nat \<times> nat \<Rightarrow> style_run \<Rightarrow> bool" where
  "run_ok text cells covered run \<longleftrightarrow> u16_typed (ru_cells run) \<and> ru_bytes run \<le> MAX_RUN_BYTES \<and>
     snd covered + ru_bytes run \<le> usize_max \<and>
     fst covered + ru_cells run \<le> cells \<and> is_char_boundary text (snd covered + ru_bytes run)"

definition run_cover :: "nat \<times> nat \<Rightarrow> style_run \<Rightarrow> nat \<times> nat" where
  "run_cover covered run = (fst covered + ru_cells run, snd covered + ru_bytes run)"

interpretation loop_runs: wire_loop encode_style_run "decode_style_run t cells" "run_ok t cells" run_cover "\<lambda>r. r" for t cells
proof unfold_locales
  fix s r bs assume "run_ok t cells s r" "encode_style_run r = Inr bs"
  then show "parses (decode_style_run t cells s) bs (r, run_cover s r)"
    by (auto simp: decode_style_run_def encode_style_run_def run_ok_def run_cover_def Let_def always_def
        MAX_RUN_BYTES_def u16_typed_def
        intro!: parse_binds el_color.bind_back [OF refl] el_color.bind_back_end [OF refl])
next
  fix s
  have u: "underline_from_wire b = Some u \<Longrightarrow> underline_to_wire u = b" for b u
    by (auto simp: underline_from_wire_def split: if_splits)
  show "gives (decode_style_run t cells s)
    (\<lambda>(r, s') n. s' = run_cover s r \<and> run_ok t cells s r \<and> (\<exists>bs. encode_style_run r = Inr bs \<and> length bs \<le> n))"
    unfolding decode_style_run_def Let_def
    by (intro gives_intros el_color.bind_gives)
      (auto simp: encode_style_run_def run_ok_def run_cover_def MAX_RUN_BYTES_def)
qed

text \<open>Runs that tile a prefix of a text, and so land on character boundaries of it.\<close>

definition row_tiles :: "bytes \<Rightarrow> nat \<Rightarrow> style_run list \<Rightarrow> bool" where
  "row_tiles text cells runs \<longleftrightarrow> running (run_ok text cells) run_cover (0, 0) runs"

lemma running_runs_last:
  "running (run_ok t cells) run_cover s runs \<Longrightarrow> runs \<noteq> [] \<Longrightarrow>
   fst s + sum_list (map ru_cells runs) \<le> cells \<and> is_char_boundary t (snd s + sum_list (map ru_bytes runs))"
proof (induction runs arbitrary: s)
  case (Cons r runs)
  show ?case
  proof (cases "runs = []")
    case False
    then show ?thesis using Cons.IH [of "run_cover s r"] Cons.prems by (simp add: run_cover_def add.assoc)
  qed (use Cons.prems in \<open>simp add: run_ok_def\<close>)
qed simp

lemma char_boundary_le: "is_char_boundary t i \<Longrightarrow> i \<le> length t"
  by (auto simp: is_char_boundary_def split: if_splits)

lemma row_tiles_cover:
  assumes "row_tiles t cells runs"
  shows "sum_list (map ru_cells runs) \<le> cells" "is_char_boundary t (sum_list (map ru_bytes runs))"
    "sum_list (map ru_bytes runs) \<le> length t"
proof -
  show c: "sum_list (map ru_cells runs) \<le> cells" "is_char_boundary t (sum_list (map ru_bytes runs))"
    using running_runs_last [of t cells "(0, 0)" runs] assms
    by (cases "runs = []"; simp add: row_tiles_def is_char_boundary_def)+
  show "sum_list (map ru_bytes runs) \<le> length t" by (rule char_boundary_le [OF c(2)])
qed

lemma char_boundary_take:
  assumes "is_char_boundary t i" "i \<le> p" "is_char_boundary t p"
  shows "is_char_boundary (take p t) i"
  using assms char_boundary_le [OF assms(3)] by (auto simp: is_char_boundary_def split: if_splits)

lemma running_runs_take:
  assumes "running (run_ok t cells) run_cover s runs" "snd s + sum_list (map ru_bytes runs) \<le> p" "is_char_boundary t p"
  shows "running (run_ok (take p t) cells) run_cover s runs"
  using assms
proof (induction runs arbitrary: s)
  case (Cons r runs)
  then show ?case by (auto simp: run_ok_def run_cover_def intro: char_boundary_take)
qed simp

lemma row_tiles_blank: "utf8 t \<Longrightarrow> row_tiles (blank_controls t) cells runs = row_tiles t cells runs"
  by (simp add: row_tiles_def run_ok_def [abs_def] blank_controls_boundary)

lemma painted_boundary:
  assumes "utf8 (rf_text row)" "row_tiles (rf_text row) (rf_cells row) (rf_runs row)"
  shows "is_char_boundary (rf_text row) (row_painted_bytes row)"
    "sum_list (map ru_bytes (rf_runs row)) \<le> row_painted_bytes row" "row_painted_bytes row \<le> length (rf_text row)"
proof -
  note c = row_tiles_cover [OF assms(2)]
  have "row_painted_bytes row \<in> {sum_list (map ru_bytes (rf_runs row)), length (trim_end_spaces (rf_text row)), length (rf_text row)}"
    using c(3) by (auto simp: row_painted_bytes_def row_styled_bytes_def min_def max_def)
  moreover have "is_char_boundary (rf_text row) (length (rf_text row))" by (simp add: is_char_boundary_def)
  ultimately show "is_char_boundary (rf_text row) (row_painted_bytes row)"
    using c(2) trim_end_spaces_boundary [OF assms(1)] by auto
  show "sum_list (map ru_bytes (rf_runs row)) \<le> row_painted_bytes row" "row_painted_bytes row \<le> length (rf_text row)"
    using c(3) by (auto simp: row_painted_bytes_def row_styled_bytes_def)
qed

lemma encode_runs_length: "enc_seq (map encode_style_run runs) = Inr bs \<Longrightarrow> length bs = style_len runs"
  by (induction runs arbitrary: bs)
    (fastforce simp: encode_style_run_def style_len_def run_style_len_def RUN_FIXED_def)+

lemma encode_row_chunk_length:
  assumes "utf8 (rk_text ck)" "encode_row_chunk ck = Inr bs"
  shows "length bs = chunk_encoded_len ck"
  using assms blank_controls_utf8 [OF assms(1)] encode_runs_length
  by (auto simp: encode_row_chunk_def chunk_encoded_len_def push_row_text_blank CHUNK_FIXED_def)

text \<open>What a chunk must be for a grid of \<open>cols\<close> columns to take it.\<close>

definition chunk_fits :: "nat \<Rightarrow> row_chunk \<Rightarrow> bool" where
  "chunk_fits cols ck \<longleftrightarrow> utf8 (rk_text ck) \<and> rk_cells ck \<le> cols \<and> length (rk_runs ck) \<le> cols \<and>
     u16_typed (rk_cells ck) \<and> row_tiles (rk_text ck) (rk_cells ck) (rk_runs ck)"

definition row_received :: "row_chunk \<Rightarrow> row_frame" where
  "row_received ck = \<lparr>rf_text = blank_controls (rk_text ck), rf_runs = rk_runs ck, rf_cells = rk_cells ck\<rparr>"

lemma row_frame_roundtrip:
  assumes "chunk_fits cols ck" "encode_row_chunk ck = Inr bs"
  shows "parses (decode_row_frame cols) bs (row_received ck)"
proof -
  let ?t = "blank_controls (rk_text ck)"
  from assms(2) obtain d where bs: "bs = put_u32 (length (rk_text ck)) @ ?t @ put_u16 (rk_cells ck) @
      put_u16 (length (rk_runs ck)) @ d" and d: "enc_seq (map encode_style_run (rk_runs ck)) = Inr d"
    and bound: "length (rk_text ck) \<le> rk_cells ck * MAX_CLUSTER_BYTES" "length (rk_text ck) \<le> u32_max"
      "length (rk_runs ck) \<le> 65535"
    by (auto simp: encode_row_chunk_def push_row_text_blank)
  have fits: "utf8 (rk_text ck)" "rk_cells ck \<le> cols" "length (rk_runs ck) \<le> cols" "u16_typed (rk_cells ck)"
    "row_tiles (rk_text ck) (rk_cells ck) (rk_runs ck)"
    using assms(1) by (simp_all add: chunk_fits_def)
  have t: "utf8 ?t" "\<not> has_control ?t" "length ?t = length (rk_text ck)"
    using blank_controls_utf8 [OF fits(1)] by simp_all
  have "running (run_ok ?t (rk_cells ck)) run_cover (0, 0) (rk_runs ck)"
    using fits(5) row_tiles_blank [OF fits(1)] by (simp add: row_tiles_def)
  from loop_runs.loop_roundtrip [OF this d]
  have loop: "parses (decode_loop (length (rk_runs ck)) (decode_style_run ?t (rk_cells ck)) (0, 0)) d (rk_runs ck)" by simp
  have "length (rk_text ck) \<le> cols * MAX_CLUSTER_BYTES"
    using bound(1) fits(2) by (meson le_trans mult_le_mono1)
  then show ?thesis
    unfolding decode_row_frame_def bs row_received_def using t fits bound
    by (auto simp: u32_typed_def u16_typed_def intro!: parse_binds parses_bind_end [OF loop])
qed

definition row_fits :: "nat \<Rightarrow> row_frame \<Rightarrow> bool" where
  "row_fits cols row \<longleftrightarrow> utf8 (rf_text row) \<and> rf_cells row \<le> cols \<and> length (rf_runs row) \<le> cols \<and>
     u16_typed (rf_cells row) \<and> row_tiles (rf_text row) (rf_cells row) (rf_runs row)"

lemma row_whole_fits:
  assumes "row_fits cols row"
  shows "chunk_fits cols (row_whole row)"
proof -
  have r: "utf8 (rf_text row)" "row_tiles (rf_text row) (rf_cells row) (rf_runs row)"
    using assms by (simp_all add: row_fits_def)
  note p = painted_boundary [OF r]
  have "utf8 (take (row_painted_bytes row) (rf_text row))"
    using char_boundary_utf8 [OF r(1) p(1)] by simp
  moreover have "row_tiles (take (row_painted_bytes row) (rf_text row)) (rf_cells row) (rf_runs row)"
    using running_runs_take [OF r(2) [unfolded row_tiles_def], of "row_painted_bytes row"] p
    by (simp add: row_tiles_def)
  ultimately show ?thesis using assms by (simp add: chunk_fits_def row_fits_def row_whole_def)
qed

lemma encode_runs_total:
  "list_all (\<lambda>r. ru_bytes r \<le> MAX_RUN_BYTES) runs \<Longrightarrow> \<exists>bs. enc_seq (map encode_style_run runs) = Inr bs"
  by (induction runs) (auto simp: encode_style_run_def MAX_RUN_BYTES_def)

lemma running_runs_small: "running (run_ok t cells) run_cover s runs \<Longrightarrow> list_all (\<lambda>r. ru_bytes r \<le> MAX_RUN_BYTES) runs"
  by (induction runs arbitrary: s) (auto simp: run_ok_def run_cover_def)

lemma row_frame_gives:
  assumes "cols \<le> 65535"
  shows "gives (decode_row_frame cols) (\<lambda>row n. row_fits cols row \<and> \<not> has_control (rf_text row) \<and>
    length (rf_text row) \<le> rf_cells row * MAX_CLUSTER_BYTES \<and>
    (\<exists>bs. encode_row_chunk (row_whole row) = Inr bs \<and> length bs \<le> n))"
  unfolding decode_row_frame_def
proof (intro gives_intros gives_bind [OF loop_runs.loop_gives])
  fix len t cells count runs m
  assume len: "u32_typed len" "\<not> cols * MAX_CLUSTER_BYTES < len" "length t = len" "utf8 t" "\<not> has_control t"
    and cells: "u16_typed cells" "\<not> cols < cells" "\<not> cells * MAX_CLUSTER_BYTES < len"
    and count: "u16_typed count" "\<not> cols < count"
    and runs: "length runs = count \<and> running (run_ok t cells) run_cover (0, 0) runs \<and>
      (\<exists>bs. enc_seq (map encode_style_run runs) = Inr bs \<and> length bs \<le> m)"
  let ?row = "\<lparr>rf_text = t, rf_runs = runs, rf_cells = cells\<rparr>"
  have fits: "row_fits cols ?row" using len cells count runs by (simp add: row_fits_def row_tiles_def)
  have "row_painted_bytes ?row \<le> len" using len by (simp add: row_painted_bytes_def)
  then have "\<exists>bs. encode_row_chunk (row_whole ?row) = Inr bs"
    using len cells runs count assms by (auto simp: encode_row_chunk_def row_whole_def u32_typed_def)
  then obtain bs where bs: "encode_row_chunk (row_whole ?row) = Inr bs" by blast
  have "length bs = chunk_encoded_len (row_whole ?row)"
    using encode_row_chunk_length [OF _ bs] row_whole_fits [OF fits] by (simp add: chunk_fits_def)
  also have "\<dots> \<le> 8 + len + m"
    using encode_runs_length runs len by (fastforce simp: chunk_encoded_len_def row_whole_def CHUNK_FIXED_def)
  finally show "row_fits cols ?row \<and> \<not> has_control (rf_text ?row) \<and>
      length (rf_text ?row) \<le> rf_cells ?row * MAX_CLUSTER_BYTES \<and>
      (\<exists>bs. encode_row_chunk (row_whole ?row) = Inr bs \<and> length bs \<le> 4 + (len + (2 + (2 + (m + 0)))))"
    using fits len cells bs by auto
qed

end
