(* ===== verification/Proto_Parts.thy ===== *)
theory Proto_Parts
  imports Proto_Screen
begin

text \<open>
  Screens on the wire, from \<^verbatim>\<open>src/crates/proto/src/lib.rs\<close>: the header of a screen, the spans of rows a
  piece carries, and the \<^verbatim>\<open>Piece\<close> field that writes and reads one \<^verbatim>\<open>ScreenPart\<close>. What the writer
  leaves unchecked and the reader refuses is collected in \<open>header_valid\<close>, \<open>span_ok\<close> and \<open>part_valid\<close>;
  every decoded part satisfies them.
\<close>

section \<open>Model\<close>

record screen_header =
  sh_generation :: generation
  sh_version :: screen_version
  sh_next_off :: byte_off
  sh_size :: grid_size
  sh_cursor :: "(nat \<times> nat) option"
  sh_cursor_visible :: bool
  sh_cursor_shape :: cursor_shape
  sh_cursor_blinking :: bool
  sh_modes :: mode_set
  sh_sticky :: sticky_state

text \<open>\<^verbatim>\<open>RowSpan\<close>, owned, and \<^verbatim>\<open>RowEntry\<close>, what the writer borrows.\<close>

record rowspan =
  sp_row :: nat
  sp_chunk :: bool
  sp_col :: nat
  sp_byte :: nat
  sp_clear_tail :: bool
  sp_frame :: row_frame

record row_entry =
  en_row :: nat
  en_chunk :: bool
  en_clear_tail :: bool
  en_frame :: row_chunk

datatype screen_part =
    Head screen_header "screen_version option" "scroll_band option" nat "rowspan list"
  | Tail generation screen_version nat nat "rowspan list"

definition PART_TAG :: nat where "PART_TAG = 1"
definition PART_KIND :: nat where "PART_KIND = 1"
definition PART_BASE :: nat where "PART_BASE = 8"
definition PART_SCROLL :: nat where "PART_SCROLL = 7"
definition PART_PIECES :: nat where "PART_PIECES = 2"
definition PART_INDEX :: nat where "PART_INDEX = 2"
definition PART_GENERATION :: nat where "PART_GENERATION = 8"
definition PART_VERSION :: nat where "PART_VERSION = 8"
definition PART_ROW_COUNT :: nat where "PART_ROW_COUNT = 2"
definition PART_ROW_HEAD :: nat where "PART_ROW_HEAD = 8"
definition HEAD_FIXED :: nat where
  "HEAD_FIXED = LENGTH_PREFIX + PART_TAG + PART_KIND + PART_BASE + PART_SCROLL + PART_PIECES + PART_ROW_COUNT"
definition TAIL_FIXED :: nat where
  "TAIL_FIXED = LENGTH_PREFIX + PART_TAG + PART_KIND + PART_GENERATION + PART_VERSION + PART_PIECES +
     PART_INDEX + PART_ROW_COUNT"

lemmas part_consts = PART_TAG_def PART_KIND_def PART_BASE_def PART_SCROLL_def PART_PIECES_def PART_INDEX_def
  PART_GENERATION_def PART_VERSION_def PART_ROW_COUNT_def PART_ROW_HEAD_def HEAD_FIXED_def TAIL_FIXED_def

definition ROW_CHUNK_FLAG :: "16 word" where "ROW_CHUNK_FLAG = 0x8000"
definition ROW_CLEAR_TAIL_FLAG :: "16 word" where "ROW_CLEAR_TAIL_FLAG = 0x4000"
definition ROW_INDEX_MASK :: "16 word" where "ROW_INDEX_MASK = NOT (ROW_CHUNK_FLAG OR ROW_CLEAR_TAIL_FLAG)"

definition span_encoded_len :: "rowspan \<Rightarrow> nat" where
  "span_encoded_len sp = PART_ROW_HEAD + row_encoded_len (sp_frame sp)"

definition span_borrow :: "rowspan \<Rightarrow> row_entry" where
  "span_borrow sp = \<lparr>en_row = sp_row sp, en_chunk = sp_chunk sp, en_clear_tail = sp_clear_tail sp,
     en_frame = (row_whole (sp_frame sp))\<lparr>rk_col := sp_col sp, rk_byte := sp_byte sp\<rparr>\<rparr>"

definition encode_scroll :: "scroll_band option \<Rightarrow> bytes" where
  "encode_scroll scroll =
     (case scroll of None \<Rightarrow> [0]
      | Some band \<Rightarrow> 1 # put_u16 (sb_top band) @ put_u16 (sb_bottom band) @ put_u16 (sb_lines band))"

definition decode_scroll :: "nat \<Rightarrow> scroll_band option decoder" where
  "decode_scroll rows = decode_bind cursor_u8 (\<lambda>t.
     if t = 0 then decode_ok None
     else if t = 1 then
       decode_bind cursor_u16 (\<lambda>top. decode_bind cursor_u16 (\<lambda>bottom. decode_bind cursor_u16 (\<lambda>lines.
       let band = \<lparr>sb_top = top, sb_bottom = bottom, sb_lines = lines\<rparr> in
       if \<not> scroll_applicable band rows then decode_err InvalidField else decode_ok (Some band))))
     else decode_err InvalidField)"

definition encode_header :: "screen_header \<Rightarrow> encoded" where
  "encode_header header = enc_seq [
     Inr (put_u64 (sh_generation header)),
     Inr (put_u64 (sh_version header)),
     Inr (put_u64 (sh_next_off header)),
     Inr (put_u16 (gs_cols (sh_size header))),
     Inr (put_u16 (gs_rows (sh_size header))),
     Inr (encode_cursor (sh_cursor header)),
     Inr (put_bool (sh_cursor_visible header)),
     Inr [shape_to_wire (sh_cursor_shape header)],
     Inr (put_bool (sh_cursor_blinking header)),
     Inr (put_u32 (unat (sh_modes header))),
     encode_sticky (sh_sticky header)]"

text \<open>Whether a position a header names lies outside its grid.\<close>

definition outside_grid :: "(nat \<times> nat) option \<Rightarrow> grid_size \<Rightarrow> bool" where
  "outside_grid at grid \<longleftrightarrow>
     (case at of None \<Rightarrow> False | Some (x, y) \<Rightarrow> gs_cols grid \<le> x \<or> gs_rows grid \<le> y)"

definition decode_header :: "screen_header decoder" where
  "decode_header =
     decode_bind cursor_u64 (\<lambda>g. decode_bind (generation_decode g) (\<lambda>generation.
     decode_bind cursor_u64 (\<lambda>v. decode_bind (screen_version_decode v) (\<lambda>version.
     decode_bind cursor_u64 (\<lambda>next_off.
     decode_bind cursor_u16 (\<lambda>cols. decode_bind cursor_u16 (\<lambda>rows.
     decode_bind (decode_some (grid_new cols rows)) (\<lambda>grid.
     decode_bind decode_cursor (\<lambda>at.
     if outside_grid at grid then decode_err InvalidField
     else decode_bind decode_bool (\<lambda>visible. decode_bind cursor_u8 (\<lambda>s.
     decode_bind (decode_some (shape_from_wire s)) (\<lambda>shape. decode_bind decode_bool (\<lambda>blinking.
     decode_bind cursor_u32 (\<lambda>m. decode_bind (decode_some (mode_set_decode (of_nat m))) (\<lambda>modes.
     decode_bind decode_sticky (\<lambda>sticky.
     if outside_grid (sk_saved_cursor sticky) grid then decode_err InvalidField
     else decode_ok \<lparr>sh_generation = generation, sh_version = version, sh_next_off = next_off,
       sh_size = grid, sh_cursor = at, sh_cursor_visible = visible, sh_cursor_shape = shape,
       sh_cursor_blinking = blinking, sh_modes = modes, sh_sticky = sticky\<rparr>))))))))))))))))"

definition screen_prefix :: "screen_header \<Rightarrow> nat" where
  "screen_prefix header = 64 + sticky_bytes (sh_sticky header)"

definition row_named :: "row_entry \<Rightarrow> 16 word" where
  "row_named entry =
     (let named = of_nat (en_row entry);
          named = (if en_chunk entry then named OR ROW_CHUNK_FLAG else named)
      in if en_clear_tail entry then named OR ROW_CLEAR_TAIL_FLAG else named)"

definition encode_part_row :: "row_entry \<Rightarrow> encoded" where
  "encode_part_row entry = enc_seq [
     enc_check ((of_nat (en_row entry) :: 16 word) AND NOT ROW_INDEX_MASK = 0) (RowIndex (en_row entry)),
     Inr (put_u16 (unat (row_named entry))),
     Inr (put_u16 (rk_col (en_frame entry))),
     Inr (put_u32 (rk_byte (en_frame entry))),
     encode_row_chunk (en_frame entry)]"

definition encode_part_rows :: "nat \<Rightarrow> row_entry list \<Rightarrow> encoded" where
  "encode_part_rows count rows = enc_seq [try_u16 EncOversize count, enc_seq (map encode_part_row rows)]"

definition put_base :: "screen_version option \<Rightarrow> bytes" where
  "put_base base = put_u64 (case base of None \<Rightarrow> 0 | Some v \<Rightarrow> v)"

definition put_screen_part :: "screen_part \<Rightarrow> encoded" where
  "put_screen_part part =
     (case part of
        Head header base scroll pieces rows \<Rightarrow> enc_seq [
          Inr [0], encode_header header, Inr (put_base base), Inr (encode_scroll scroll), Inr (put_u16 pieces),
          encode_part_rows (length rows) (map span_borrow rows)]
      | Tail generation version pieces index rows \<Rightarrow> enc_seq [
          Inr [1], Inr (put_u64 generation), Inr (put_u64 version), Inr (put_u16 pieces), Inr (put_u16 index),
          encode_part_rows (length rows) (map span_borrow rows)])"

text \<open>The columns a piece's rows are checked against, and whether a row index lies outside them.\<close>

definition part_cols :: "grid_size option \<Rightarrow> nat" where
  "part_cols grid = (case grid of None \<Rightarrow> GRID_MAX_COLS | Some g \<Rightarrow> gs_cols g)"

definition part_row_limit :: "grid_size option \<Rightarrow> nat" where
  "part_row_limit grid = (case grid of None \<Rightarrow> GRID_MAX_ROWS | Some g \<Rightarrow> gs_rows g)"

definition row_outside :: "grid_size option \<Rightarrow> nat \<Rightarrow> bool" where
  "row_outside grid row \<longleftrightarrow> (case grid of None \<Rightarrow> False | Some g \<Rightarrow> gs_rows g \<le> row)"

definition row_before :: "(nat \<times> nat) option \<Rightarrow> nat \<Rightarrow> nat \<Rightarrow> bool" where
  "row_before previous row col \<longleftrightarrow>
     (case previous of None \<Rightarrow> False
      | Some (last_row, last_col) \<Rightarrow> row < last_row \<or> row = last_row \<and> col \<le> last_col)"

definition decode_part_row :: "grid_size option \<Rightarrow> (nat \<times> nat) option \<Rightarrow> (rowspan \<times> (nat \<times> nat) option) decoder" where
  "decode_part_row grid previous = decode_bind cursor_u16 (\<lambda>n.
     let named = of_nat n :: 16 word;
         chunk = (named AND ROW_CHUNK_FLAG \<noteq> 0);
         clear_tail = (named AND ROW_CLEAR_TAIL_FLAG \<noteq> 0);
         row = unat (named AND ROW_INDEX_MASK);
         cols = part_cols grid
     in decode_bind cursor_u16 (\<lambda>col. decode_bind cursor_u32 (\<lambda>byte.
     if row_outside grid row then decode_err InvalidField
     else if row_before previous row col then decode_err InvalidField
     else decode_bind (decode_row_frame cols) (\<lambda>frame.
     if cols < col + rf_cells frame \<or> cols * MAX_CLUSTER_BYTES < byte + length (rf_text frame)
     then decode_err InvalidField
     else decode_ok
       (\<lparr>sp_row = row, sp_chunk = chunk, sp_col = col, sp_byte = byte, sp_clear_tail = clear_tail,
         sp_frame = frame\<rparr>, Some (row, col))))))"

definition decode_part_rows :: "grid_size option \<Rightarrow> rowspan list decoder" where
  "decode_part_rows grid = decode_bind cursor_u16 (\<lambda>count.
     if part_row_limit grid < count then decode_err InvalidField
     else decode_loop count (decode_part_row grid) None)"

definition decode_screen_part :: "screen_part decoder" where
  "decode_screen_part = decode_bind cursor_u8 (\<lambda>t.
     if t = 0 then
       decode_bind decode_header (\<lambda>header. decode_bind cursor_u64 (\<lambda>b.
       decode_bind (decode_scroll (gs_rows (sh_size header))) (\<lambda>scroll. decode_bind cursor_u16 (\<lambda>pieces.
       if pieces = 0 \<or> scroll \<noteq> None \<and> pieces \<noteq> 1 then decode_err InvalidField
       else decode_bind (decode_part_rows (Some (sh_size header))) (\<lambda>rows.
         decode_ok (Head header (screen_version_from_u64 b) scroll pieces rows))))))
     else if t = 1 then
       decode_bind cursor_u64 (\<lambda>g. decode_bind (generation_decode g) (\<lambda>generation.
       decode_bind cursor_u64 (\<lambda>v. decode_bind (screen_version_decode v) (\<lambda>version.
       decode_bind cursor_u16 (\<lambda>pieces. decode_bind cursor_u16 (\<lambda>index.
       if pieces < 2 \<or> index = 0 \<or> pieces \<le> index then decode_err InvalidField
       else decode_bind (decode_part_rows None) (\<lambda>rows.
         decode_ok (Tail generation version pieces index rows))))))))
     else decode_err InvalidField)"

definition piece_hint :: "screen_part \<Rightarrow> nat" where
  "piece_hint value =
     (let rows = (case value of Head _ _ _ _ rows \<Rightarrow> rows | Tail _ _ _ _ rows \<Rightarrow> rows);
          fixed = (case value of Head header _ _ _ _ \<Rightarrow> screen_prefix header + PART_BASE + PART_SCROLL
                   | Tail _ _ _ _ _ \<Rightarrow> PART_GENERATION + PART_VERSION + PART_INDEX)
      in PART_KIND + fixed + PART_PIECES + PART_ROW_COUNT + sum_list (map span_encoded_len rows))"

section \<open>Row indices and their flags\<close>

lemma row_flags: "ROW_CHUNK_FLAG = push_bit 15 1" "ROW_CLEAR_TAIL_FLAG = push_bit 14 1"
  by (simp_all add: ROW_CHUNK_FLAG_def ROW_CLEAR_TAIL_FLAG_def)

lemma row_mask: "ROW_INDEX_MASK = mask 14"
  by (simp add: ROW_INDEX_MASK_def ROW_CHUNK_FLAG_def ROW_CLEAR_TAIL_FLAG_def mask_eq_exp_minus_1)

lemma flag_bits: "bit ROW_CHUNK_FLAG n \<longleftrightarrow> n = 15" "bit ROW_CLEAR_TAIL_FLAG n \<longleftrightarrow> n = 14"
  unfolding row_flags by (auto simp only: bit_push_bit_iff bit_1_iff bit_exp_iff) (auto simp: bit_push_bit_iff)

lemma row_index_free:
  "(w :: 16 word) AND NOT ROW_INDEX_MASK = 0 \<longleftrightarrow> \<not> bit w 14 \<and> \<not> bit w 15"
proof
  assume w: "w AND NOT ROW_INDEX_MASK = 0"
  have "\<not> bit (w AND NOT ROW_INDEX_MASK) 14" "\<not> bit (w AND NOT ROW_INDEX_MASK) 15" by (simp_all only: w bit_0_eq bot_apply) auto
  then show "\<not> bit w 14 \<and> \<not> bit w 15" by (simp add: row_mask bit_and_iff bit_not_iff bit_mask_iff)
next
  assume "\<not> bit w 14 \<and> \<not> bit w 15"
  then show "w AND NOT ROW_INDEX_MASK = 0"
    unfolding row_mask
    by (intro bit_word_eqI) (use less_antisym in \<open>fastforce simp: bit_and_iff bit_not_iff bit_mask_iff less_Suc_eq numeral_eq_Suc\<close>)
qed

lemma flag_set: "(w :: 16 word) AND ROW_CHUNK_FLAG \<noteq> 0 \<longleftrightarrow> bit w 15" "w AND ROW_CLEAR_TAIL_FLAG \<noteq> 0 \<longleftrightarrow> bit w 14"
  unfolding row_flags by (simp_all only: bit_iff_and_push_bit_not_eq_0)

lemma row_named_reads:
  assumes "u16_typed (en_row e)" "(of_nat (en_row e) :: 16 word) AND NOT ROW_INDEX_MASK = 0"
  shows "bit (row_named e) 15 = en_chunk e" "bit (row_named e) 14 = en_clear_tail e"
    "unat (row_named e AND ROW_INDEX_MASK) = en_row e"
proof -
  define w where "w = (of_nat (en_row e) :: 16 word)"
  have w: "\<not> bit w 14" "\<not> bit w 15" using assms(2) by (simp_all add: row_index_free w_def)
  have n: "row_named e = (if en_clear_tail e then (if en_chunk e then w OR ROW_CHUNK_FLAG else w) OR ROW_CLEAR_TAIL_FLAG
      else (if en_chunk e then w OR ROW_CHUNK_FLAG else w))"
    by (simp add: row_named_def w_def Let_def)
  show "bit (row_named e) 15 = en_chunk e" "bit (row_named e) 14 = en_clear_tail e"
    unfolding n using w by (auto simp: bit_or_iff flag_bits)
  have "row_named e AND ROW_INDEX_MASK = w"
    unfolding n row_mask
  proof (rule bit_word_eqI)
    fix i assume "i < LENGTH(16)"
    then have "i < 14 \<or> i = 14 \<or> i = 15" by auto
    then show "bit ((if en_clear_tail e then (if en_chunk e then w OR ROW_CHUNK_FLAG else w) OR ROW_CLEAR_TAIL_FLAG
      else (if en_chunk e then w OR ROW_CHUNK_FLAG else w)) AND mask 14) i = bit w i"
      using w by (auto simp: bit_or_iff bit_and_iff bit_mask_iff flag_bits)
  qed
  then show "unat (row_named e AND ROW_INDEX_MASK) = en_row e"
    using assms(1) by (simp add: w_def u16_typed_def unat_of_nat)
qed

lemma masked_row_free: "(of_nat (unat (w AND ROW_INDEX_MASK)) :: 16 word) AND NOT ROW_INDEX_MASK = 0"
  unfolding row_index_free by (simp add: bit_and_iff row_mask bit_mask_iff)

lemma unat_u16_typed: "u16_typed (unat (w :: 16 word))"
proof -
  have "unat w < 2 ^ LENGTH(16)" by (rule unsigned_less)
  then show ?thesis by (simp add: u16_typed_def)
qed

section \<open>Rows of a piece\<close>

lemma encode_row_chunk_place [simp]:
  "encode_row_chunk (ck\<lparr>rk_col := c, rk_byte := b\<rparr>) = encode_row_chunk ck"
  by (simp add: encode_row_chunk_def)

text \<open>What a piece must write for its reader to take it, and what the reader makes of it.\<close>

definition entry_ok :: "grid_size option \<Rightarrow> (nat \<times> nat) option \<Rightarrow> row_entry \<Rightarrow> bool" where
  "entry_ok grid previous e \<longleftrightarrow> u16_typed (en_row e) \<and> u16_typed (rk_col (en_frame e)) \<and> u32_typed (rk_byte (en_frame e)) \<and>
     \<not> row_outside grid (en_row e) \<and> \<not> row_before previous (en_row e) (rk_col (en_frame e)) \<and>
     chunk_fits (part_cols grid) (en_frame e) \<and> rk_col (en_frame e) + rk_cells (en_frame e) \<le> part_cols grid \<and>
     rk_byte (en_frame e) + length (rk_text (en_frame e)) \<le> part_cols grid * MAX_CLUSTER_BYTES"

definition entry_place :: "(nat \<times> nat) option \<Rightarrow> row_entry \<Rightarrow> (nat \<times> nat) option" where
  "entry_place previous e = Some (en_row e, rk_col (en_frame e))"

definition entry_span :: "row_entry \<Rightarrow> rowspan" where
  "entry_span e = \<lparr>sp_row = en_row e, sp_chunk = en_chunk e, sp_col = rk_col (en_frame e), sp_byte = rk_byte (en_frame e),
     sp_clear_tail = en_clear_tail e, sp_frame = row_received (en_frame e)\<rparr>"

lemma entry_roundtrip:
  assumes "entry_ok grid previous e" "encode_part_row e = Inr bs"
  shows "parses (decode_part_row grid previous) bs (entry_span e, entry_place previous e)"
proof -
  from assms(2) obtain d where bs: "bs = put_u16 (unat (row_named e)) @ put_u16 (rk_col (en_frame e)) @ put_u32 (rk_byte (en_frame e)) @ d"
    and d: "encode_row_chunk (en_frame e) = Inr d"
    and free: "(of_nat (en_row e) :: 16 word) AND NOT ROW_INDEX_MASK = 0"
    by (auto simp: encode_part_row_def)
  have ok: "u16_typed (en_row e)" "u16_typed (rk_col (en_frame e))" "u32_typed (rk_byte (en_frame e))"
    "\<not> row_outside grid (en_row e)" "\<not> row_before previous (en_row e) (rk_col (en_frame e))"
    "chunk_fits (part_cols grid) (en_frame e)" "rk_col (en_frame e) + rk_cells (en_frame e) \<le> part_cols grid"
    "rk_byte (en_frame e) + length (rk_text (en_frame e)) \<le> part_cols grid * MAX_CLUSTER_BYTES"
    using assms(1) by (simp_all add: entry_ok_def)
  note reads = row_named_reads [OF ok(1) free]
  have row: "parses (decode_row_frame (part_cols grid)) d (row_received (en_frame e))"
    by (rule row_frame_roundtrip [OF ok(6) d])
  have len: "length (rf_text (row_received (en_frame e))) = length (rk_text (en_frame e))"
    "rf_cells (row_received (en_frame e)) = rk_cells (en_frame e)"
    using blank_controls_utf8 [of "rk_text (en_frame e)"] ok(6) by (simp_all add: chunk_fits_def row_received_def)
  show ?thesis
    unfolding decode_part_row_def bs Let_def
    by (intro parse_binds parse_guard parses_bind_end [OF row])
      (use reads ok len in \<open>auto simp: flag_set entry_span_def entry_place_def unat_u16_typed intro: parses_ok\<close>)
qed

lemma entries_roundtrip:
  assumes "running (entry_ok grid) entry_place None es" "length es \<le> part_row_limit grid"
    "encode_part_rows (length es) es = Inr bs"
  shows "parses (decode_part_rows grid) bs (map entry_span es)"
proof -
  from assms(3) obtain d where bs: "bs = put_u16 (length es) @ d" "length es \<le> 65535"
    and d: "enc_seq (map encode_part_row es) = Inr d"
    by (auto simp: encode_part_rows_def)
  have "parses (decode_loop (length es) (decode_part_row grid) None) d (map entry_span es)"
    by (rule decode_loop_reads [OF entry_roundtrip assms(1) d])
  then show ?thesis
    using bs assms(2) by (auto simp: decode_part_rows_def u16_typed_def intro!: parse_binds)
qed

definition span_ok :: "grid_size option \<Rightarrow> (nat \<times> nat) option \<Rightarrow> rowspan \<Rightarrow> bool" where
  "span_ok grid previous sp \<longleftrightarrow> u16_typed (sp_row sp) \<and> u16_typed (sp_col sp) \<and> u32_typed (sp_byte sp) \<and>
     \<not> row_outside grid (sp_row sp) \<and> \<not> row_before previous (sp_row sp) (sp_col sp) \<and>
     row_fits (part_cols grid) (sp_frame sp) \<and> sp_col sp + rf_cells (sp_frame sp) \<le> part_cols grid \<and>
     sp_byte sp + row_painted_bytes (sp_frame sp) \<le> part_cols grid * MAX_CLUSTER_BYTES"

definition span_place :: "(nat \<times> nat) option \<Rightarrow> rowspan \<Rightarrow> (nat \<times> nat) option" where
  "span_place previous sp = Some (sp_row sp, sp_col sp)"

definition span_view :: "rowspan \<Rightarrow> rowspan" where
  "span_view sp = sp\<lparr>sp_frame := row_received (row_whole (sp_frame sp))\<rparr>"

definition grid_option_typed :: "grid_size option \<Rightarrow> bool" where
  "grid_option_typed grid \<longleftrightarrow> (\<forall>g. grid = Some g \<longrightarrow> grid_typed g)"

lemma part_limits:
  assumes "grid_option_typed grid"
  shows "part_cols grid \<le> 1024" "part_row_limit grid \<le> 512"
proof -
  have "g = the grid \<Longrightarrow> grid \<noteq> None \<Longrightarrow> gs_cols g \<le> 1024 \<and> gs_rows g \<le> 512" for g
    using assms by (auto simp: grid_option_typed_def grid_typed_def grid_new_def GRID_MAX_COLS_def GRID_MAX_ROWS_def split: if_splits)
  then show "part_cols grid \<le> 1024" "part_row_limit grid \<le> 512"
    by (auto simp: part_cols_def part_row_limit_def GRID_MAX_COLS_def GRID_MAX_ROWS_def split: option.splits)
qed

lemma chunk_fits_place [simp]: "chunk_fits cols (ck\<lparr>rk_col := c, rk_byte := b\<rparr>) = chunk_fits cols ck"
  by (simp add: chunk_fits_def)

lemma span_entry_ok:
  assumes "span_ok grid previous sp"
  shows "entry_ok grid previous (span_borrow sp)"
proof -
  have "row_fits (part_cols grid) (sp_frame sp)" using assms by (simp add: span_ok_def)
  from row_whole_fits [OF this] assms show ?thesis
    by (auto simp: span_ok_def entry_ok_def span_borrow_def) (simp_all add: row_whole_def)
qed

lemma span_view_entry: "span_view sp = entry_span (span_borrow sp)"
  by (simp add: span_view_def entry_span_def span_borrow_def row_received_def)

lemma part_row_roundtrip:
  assumes "span_ok grid previous sp" "encode_part_row (span_borrow sp) = Inr bs"
  shows "parses (decode_part_row grid previous) bs (span_view sp, span_place previous sp)"
  using entry_roundtrip [OF span_entry_ok [OF assms(1)] assms(2)]
  by (simp add: span_view_entry entry_place_def span_place_def) (simp add: span_borrow_def)

lemma part_row_length:
  assumes "row_fits cols (sp_frame sp)" "encode_part_row (span_borrow sp) = Inr bs"
  shows "length bs = span_encoded_len sp"
proof -
  from assms(2) obtain d where "encode_row_chunk (row_whole (sp_frame sp)) = Inr d" "length bs = 8 + length d"
    by (auto simp: encode_part_row_def span_borrow_def)
  then show ?thesis
    using encode_row_chunk_length [of "row_whole (sp_frame sp)"] row_whole_fits [OF assms(1)]
    by (simp add: span_encoded_len_def row_encoded_len_def PART_ROW_HEAD_def chunk_fits_def)
qed

lemma part_row_gives:
  assumes "grid_option_typed grid"
  shows "gives (decode_part_row grid previous) (\<lambda>(sp, s') n. s' = span_place previous sp \<and> span_ok grid previous sp \<and>
    (\<exists>bs. encode_part_row (span_borrow sp) = Inr bs \<and> length bs \<le> n))" (is "gives _ ?Q")
  unfolding decode_part_row_def Let_def
proof (intro gives_intros gives_bind [OF row_frame_gives])
  show "part_cols grid \<le> 65535" using part_limits [OF assms] by simp
next
  fix n col byte row m
  let ?w = "of_nat n :: 16 word"
  let ?r = "unat (?w AND ROW_INDEX_MASK)"
  assume a: "u16_typed col" "u32_typed byte" "\<not> row_outside grid ?r" "\<not> row_before previous ?r col"
    and row: "row_fits (part_cols grid) row \<and> \<not> has_control (rf_text row) \<and>
      length (rf_text row) \<le> rf_cells row * MAX_CLUSTER_BYTES \<and>
      (\<exists>bs. encode_row_chunk (row_whole row) = Inr bs \<and> length bs \<le> m)"
    and inside: "\<not> (part_cols grid < col + rf_cells row \<or> part_cols grid * MAX_CLUSTER_BYTES < byte + length (rf_text row))"
  have "row_painted_bytes row \<le> length (rf_text row)" by (simp add: row_painted_bytes_def)
  then show "?Q (\<lparr>sp_row = ?r, sp_chunk = ?w AND ROW_CHUNK_FLAG \<noteq> 0, sp_col = col, sp_byte = byte,
      sp_clear_tail = ?w AND ROW_CLEAR_TAIL_FLAG \<noteq> 0, sp_frame = row\<rparr>, Some (?r, col)) (2 + (2 + (4 + (m + 0))))"
    using a row inside masked_row_free [of ?w]
    by (auto simp: span_place_def span_ok_def span_borrow_def encode_part_row_def unat_u16_typed)
qed

lemma part_rows_loop:
  assumes "grid_option_typed grid"
  shows "wire_loop (\<lambda>sp. encode_part_row (span_borrow sp)) (decode_part_row grid) (span_ok grid) span_place span_view"
  by unfold_locales (fact part_row_roundtrip, fact part_row_gives [OF assms])

definition spans_ok :: "grid_size option \<Rightarrow> rowspan list \<Rightarrow> bool" where
  "spans_ok grid rows \<longleftrightarrow> running (span_ok grid) span_place None rows \<and> length rows \<le> part_row_limit grid"

lemma spans_ok_fit: "spans_ok grid rows \<Longrightarrow> list_all (\<lambda>sp. row_fits (part_cols grid) (sp_frame sp)) rows"
proof -
  have "running (span_ok grid) span_place s rows \<Longrightarrow> list_all (\<lambda>sp. row_fits (part_cols grid) (sp_frame sp)) rows" for s
    by (induction rows arbitrary: s) (auto simp: span_ok_def)
  then show "spans_ok grid rows \<Longrightarrow> ?thesis" unfolding spans_ok_def by blast
qed

lemma part_rows_roundtrip:
  assumes "grid_option_typed grid" "spans_ok grid rows" "encode_part_rows (length rows) (map span_borrow rows) = Inr bs"
  shows "parses (decode_part_rows grid) bs (map span_view rows)"
proof -
  from assms(3) obtain d where bs: "bs = put_u16 (length rows) @ d" "length rows \<le> 65535"
    and d: "enc_seq (map (\<lambda>sp. encode_part_row (span_borrow sp)) rows) = Inr d"
    by (auto simp: encode_part_rows_def comp_def)
  have "parses (decode_loop (length rows) (decode_part_row grid) None) d (map span_view rows)"
    by (rule wire_loop.loop_roundtrip [OF part_rows_loop [OF assms(1)] _ d]) (use assms(2) in \<open>simp add: spans_ok_def\<close>)
  then show ?thesis
    using bs assms(2) by (auto simp: decode_part_rows_def u16_typed_def spans_ok_def intro!: parse_binds)
qed

lemma part_rows_length:
  assumes "list_all (\<lambda>sp. row_fits cols (sp_frame sp)) rows" "encode_part_rows (length rows) (map span_borrow rows) = Inr bs"
  shows "length bs = 2 + sum_list (map span_encoded_len rows)"
proof -
  have "list_all (\<lambda>sp. row_fits cols (sp_frame sp)) rows \<Longrightarrow> enc_seq (map (\<lambda>sp. encode_part_row (span_borrow sp)) rows) = Inr d \<Longrightarrow>
      length d = sum_list (map span_encoded_len rows)" for d
    by (induction rows arbitrary: d) (fastforce simp: part_row_length)+
  then show ?thesis using assms by (auto simp: encode_part_rows_def comp_def)
qed

lemma part_rows_gives:
  assumes "grid_option_typed grid"
  shows "gives (decode_part_rows grid) (\<lambda>rows n. spans_ok grid rows \<and>
    (\<exists>bs. encode_part_rows (length rows) (map span_borrow rows) = Inr bs \<and> length bs \<le> n))"
  unfolding decode_part_rows_def
  by (intro gives_intros gives_mono [OF wire_loop.loop_gives [OF part_rows_loop [OF assms]]])
    (auto simp: spans_ok_def encode_part_rows_def u16_typed_def comp_def)

section \<open>Headers\<close>

definition header_valid :: "screen_header \<Rightarrow> bool" where
  "header_valid h \<longleftrightarrow> non_zero_typed (sh_generation h) \<and> non_zero_typed (sh_version h) \<and> u64_typed (sh_next_off h) \<and>
     grid_typed (sh_size h) \<and> cursor_typed (sh_cursor h) \<and> \<not> outside_grid (sh_cursor h) (sh_size h) \<and>
     mode_set_decode (sh_modes h) = Some (sh_modes h) \<and> sticky_typed (sh_sticky h) \<and>
     \<not> outside_grid (sk_saved_cursor (sh_sticky h)) (sh_size h)"

definition header_view :: "screen_header \<Rightarrow> screen_header" where
  "header_view h = h\<lparr>sh_sticky := sticky_view (sh_sticky h)\<rparr>"

lemma unat_u32_typed: "u32_typed (unat (w :: 32 word))"
proof -
  have "unat w < 2 ^ LENGTH(32)" by (rule unsigned_less)
  then show ?thesis by (simp add: u32_typed_def u32_max_def)
qed

interpretation fld_header: wire_field encode_header decode_header screen_prefix header_valid header_view
proof unfold_locales
  fix h bs assume h: "header_valid h" "encode_header h = Inr bs"
  from h(2) obtain d where bs: "bs = put_u64 (sh_generation h) @ put_u64 (sh_version h) @ put_u64 (sh_next_off h) @
      put_u16 (gs_cols (sh_size h)) @ put_u16 (gs_rows (sh_size h)) @ encode_cursor (sh_cursor h) @
      put_bool (sh_cursor_visible h) @ [shape_to_wire (sh_cursor_shape h)] @ put_bool (sh_cursor_blinking h) @
      put_u32 (unat (sh_modes h)) @ d"
    and d: "encode_sticky (sh_sticky h) = Inr d"
    by (auto simp: encode_header_def)
  have g: "grid_new (gs_cols (sh_size h)) (gs_rows (sh_size h)) = Some (sh_size h)"
    "u16_typed (gs_cols (sh_size h))" "u16_typed (gs_rows (sh_size h))"
    using h(1) grid_typed_u16 by (auto simp: header_valid_def grid_typed_def)
  have "sk_saved_cursor (sticky_view (sh_sticky h)) = sk_saved_cursor (sh_sticky h)" by (simp add: sticky_view_def)
  with g h(1) show "parses decode_header bs (header_view h)"
    unfolding decode_header_def bs
    by (auto simp: header_valid_def header_view_def non_zero_typed_def u64_typed_def unat_u32_typed
        generation_decode_def generation_from_u64_def screen_version_decode_def screen_version_from_u64_def
        intro!: parse_binds el_cursor.bind_back [OF refl] fld_sticky.bind_back_end [OF d])
  show "length bs \<le> screen_prefix h"
    using sticky_length [OF d] by (simp add: bs screen_prefix_def cursor_length)
next
  have m: "mode_set_decode w = Some v \<Longrightarrow> v = w" for w v
    by (auto simp: mode_set_decode_def split: if_splits)
  show "gives decode_header (\<lambda>h n. header_valid h \<and> (\<exists>bs. encode_header h = Inr bs \<and> length bs \<le> n))"
    unfolding decode_header_def generation_decode_def screen_version_decode_def
    by (intro gives_intros el_cursor.bind_gives fld_sticky.bind_gives)
      (auto simp: header_valid_def encode_header_def generation_from_u64_def screen_version_from_u64_def
        non_zero_typed_def u64_typed_def split: if_splits dest: grid_new_typed m)
qed

section \<open>Pieces\<close>

definition base_typed :: "screen_version option \<Rightarrow> bool" where
  "base_typed base \<longleftrightarrow> (\<forall>v. base = Some v \<longrightarrow> non_zero_typed v)"

definition scroll_valid :: "nat \<Rightarrow> scroll_band option \<Rightarrow> bool" where
  "scroll_valid rows scroll \<longleftrightarrow> (\<forall>band. scroll = Some band \<longrightarrow> scroll_applicable band rows)"

definition part_valid :: "screen_part \<Rightarrow> bool" where
  "part_valid part \<longleftrightarrow>
     (case part of
        Head header base scroll pieces rows \<Rightarrow>
          header_valid header \<and> base_typed base \<and> scroll_valid (gs_rows (sh_size header)) scroll \<and>
          u16_typed pieces \<and> pieces \<noteq> 0 \<and> (scroll \<noteq> None \<longrightarrow> pieces = 1) \<and> spans_ok (Some (sh_size header)) rows
      | Tail generation version pieces index rows \<Rightarrow>
          non_zero_typed generation \<and> non_zero_typed version \<and> u16_typed pieces \<and> 2 \<le> pieces \<and>
          0 < index \<and> index < pieces \<and> spans_ok None rows)"

definition part_view :: "screen_part \<Rightarrow> screen_part" where
  "part_view part =
     (case part of
        Head header base scroll pieces rows \<Rightarrow> Head (header_view header) base scroll pieces (map span_view rows)
      | Tail generation version pieces index rows \<Rightarrow> Tail generation version pieces index (map span_view rows))"

lemma parses_scroll:
  assumes "scroll_valid rows scroll" "rows \<le> 65535"
  shows "parses (decode_scroll rows) (encode_scroll scroll) scroll"
proof (cases scroll)
  case None
  then show ?thesis by (auto simp: decode_scroll_def encode_scroll_def intro!: parse_binds)
next
  case (Some band)
  then have "scroll_applicable band rows" using assms(1) by (simp add: scroll_valid_def)
  moreover from this have "u16_typed (sb_top band)" "u16_typed (sb_bottom band)" "u16_typed (sb_lines band)"
    using assms(2) unfolding scroll_applicable_def u16_typed_def by arith+
  ultimately show ?thesis using Some
    by (auto simp: decode_scroll_def encode_scroll_def scroll_applicable_def Let_def intro!: parse_binds)
qed

lemma scroll_length: "length (encode_scroll scroll) \<le> PART_SCROLL"
  by (cases scroll) (simp_all add: encode_scroll_def PART_SCROLL_def)

lemma gives_scroll: "gives (decode_scroll rows) (\<lambda>scroll n. scroll_valid rows scroll \<and> length (encode_scroll scroll) \<le> n)"
  unfolding decode_scroll_def Let_def
  by (intro gives_intros) (auto simp: scroll_valid_def encode_scroll_def)

lemma base_roundtrip: "base_typed base \<Longrightarrow> screen_version_from_u64 (case base of None \<Rightarrow> 0 | Some v \<Rightarrow> v) = base"
  by (cases base) (auto simp: screen_version_from_u64_def base_typed_def non_zero_typed_def)

lemma base_value_typed: "base_typed base \<Longrightarrow> u64_typed (case base of None \<Rightarrow> 0 | Some v \<Rightarrow> v)"
  by (cases base) (auto simp: base_typed_def non_zero_typed_def u64_typed_def)

lemma head_reads:
  assumes "header_valid h" "base_typed base" "scroll_valid (gs_rows (sh_size h)) scroll" "u16_typed pieces"
    "pieces \<noteq> 0" "scroll \<noteq> None \<longrightarrow> pieces = 1"
    and a: "encode_header h = Inr a" and rows: "parses (decode_part_rows (Some (sh_size h))) d rows"
  shows "parses decode_screen_part (0 # a @ put_base base @ encode_scroll scroll @ put_u16 pieces @ d)
    (Head (header_view h) base scroll pieces rows)"
proof -
  have grid: "gs_rows (sh_size h) \<le> 65535"
    using assms(1) grid_typed_u16 [of "sh_size h"] by (simp add: header_valid_def u16_typed_def)
  have same: "sh_size (header_view h) = sh_size h" by (simp add: header_view_def)
  show ?thesis
    unfolding decode_screen_part_def put_base_def
    using assms(1-6) base_roundtrip [OF assms(2)] base_value_typed [OF assms(2)] same
    by (auto intro!: parse_binds fld_header.bind_back [OF a] parses_bind [OF parses_scroll [OF _ grid]]
          parses_bind_end [OF rows])
qed

lemma tail_reads:
  assumes "non_zero_typed g" "non_zero_typed v" "u16_typed pieces" "2 \<le> pieces" "0 < index" "index < pieces"
    and rows: "parses (decode_part_rows None) d rows"
  shows "parses decode_screen_part (1 # put_u64 g @ put_u64 v @ put_u16 pieces @ put_u16 index @ d)
    (Tail g v pieces index rows)"
  unfolding decode_screen_part_def
  using assms(1-6)
  by (auto simp: non_zero_typed_def u64_typed_def u16_typed_def
      generation_decode_def generation_from_u64_def screen_version_decode_def screen_version_from_u64_def
      intro!: parse_binds parses_bind_end [OF rows])

lemma part_roundtrip:
  assumes "part_valid part" "put_screen_part part = Inr bs"
  shows "parses decode_screen_part bs (part_view part)"
proof (cases part)
  case (Head h base scroll pieces rows)
  from assms(2) Head obtain a d where bs: "bs = 0 # a @ put_base base @ encode_scroll scroll @ put_u16 pieces @ d"
    and a: "encode_header h = Inr a" and d: "encode_part_rows (length rows) (map span_borrow rows) = Inr d"
    by (auto simp: put_screen_part_def)
  have "grid_option_typed (Some (sh_size h))" "spans_ok (Some (sh_size h)) rows"
    using assms(1) by (simp_all add: Head part_valid_def header_valid_def grid_option_typed_def)
  from head_reads [OF _ _ _ _ _ _ a part_rows_roundtrip [OF this d]] assms(1) show ?thesis
    by (simp add: Head part_valid_def part_view_def bs)
next
  case (Tail g v pieces index rows)
  from assms(2) Tail obtain d where bs: "bs = 1 # put_u64 g @ put_u64 v @ put_u16 pieces @ put_u16 index @ d"
    and d: "encode_part_rows (length rows) (map span_borrow rows) = Inr d"
    by (auto simp: put_screen_part_def)
  have "grid_option_typed None" "spans_ok None rows"
    using assms(1) by (simp_all add: Tail part_valid_def grid_option_typed_def)
  from tail_reads [OF _ _ _ _ _ _ part_rows_roundtrip [OF this d]] assms(1) show ?thesis
    by (simp add: Tail part_valid_def part_view_def bs)
qed

interpretation fld_piece: wire_field put_screen_part decode_screen_part piece_hint part_valid part_view
proof unfold_locales
  fix part bs assume part: "part_valid part" "put_screen_part part = Inr bs"
  then show "parses decode_screen_part bs (part_view part)" by (rule part_roundtrip)
  show "length bs \<le> piece_hint part"
  proof (cases part)
    case (Head h base scroll pieces rows)
    then obtain a d where bs: "bs = 0 # a @ put_base base @ encode_scroll scroll @ put_u16 pieces @ d"
      and a: "encode_header h = Inr a" and d: "encode_part_rows (length rows) (map span_borrow rows) = Inr d"
      using part(2) by (auto simp: put_screen_part_def)
    have "header_valid h" "spans_ok (Some (sh_size h)) rows" using part(1) Head by (simp_all add: part_valid_def)
    from fld_header.hint_covers [OF this(1) a] part_rows_length [OF spans_ok_fit [OF this(2)] d] scroll_length [of scroll]
    show ?thesis by (simp add: Head bs piece_hint_def put_base_def part_consts)
  next
    case (Tail g v pieces index rows)
    then obtain d where bs: "bs = 1 # put_u64 g @ put_u64 v @ put_u16 pieces @ put_u16 index @ d"
      and d: "encode_part_rows (length rows) (map span_borrow rows) = Inr d"
      using part(2) by (auto simp: put_screen_part_def)
    have "spans_ok None rows" using part(1) Tail by (simp add: part_valid_def)
    from part_rows_length [OF spans_ok_fit [OF this] d]
    show ?thesis by (simp add: Tail bs piece_hint_def part_consts)
  qed
next
  have none: "grid_option_typed None" by (simp add: grid_option_typed_def)
  have some: "header_valid h \<Longrightarrow> grid_option_typed (Some (sh_size h))" for h
    by (simp add: header_valid_def grid_option_typed_def)
  show "gives decode_screen_part (\<lambda>v n. part_valid v \<and> (\<exists>bs. put_screen_part v = Inr bs \<and> length bs \<le> n))"
    unfolding decode_screen_part_def generation_decode_def screen_version_decode_def
    apply (intro gives_intros fld_header.bind_gives gives_bind [OF gives_scroll] gives_bind [OF part_rows_gives [OF none]]
        gives_bind [OF part_rows_gives [OF some]])
      apply assumption
     apply (auto simp: part_valid_def put_screen_part_def put_base_def base_typed_def screen_version_from_u64_def
        generation_from_u64_def non_zero_typed_def u64_typed_def split: if_splits)
    done
qed

end
