(* ===== verification/Proto_Messages.thy ===== *)
theory Proto_Messages
  imports Proto_Parts
begin

text \<open>
  The messages of the protocol, their frames and the stream they travel on, from
  \<^verbatim>\<open>src/crates/proto/src/lib.rs\<close>: the two message enums, the encoder and the decoder the \<^verbatim>\<open>messages!\<close>
  tables generate, the borrowed encoder and decoder of \<^verbatim>\<open>Output\<close>, \<^verbatim>\<open>seal_frame\<close> and \<^verbatim>\<open>read_frame\<close>.

  A message's tag is its position in its table counted from the table's base. The one field that
  was appended in a version, the runs of \<^verbatim>\<open>ForwardAck\<close>, is written from that version on and read as
  empty where the body ends before it. A reader is the bytes it will still deliver and how it ends.
\<close>

section \<open>Model\<close>

datatype client_message =
    CHello version_range grid_size bytes session_env "bytes list" client_id
  | CHelloForward version_range client_id
  | CResume version_range cmd_seq resume_request
  | CInput cmd_seq bytes
  | CResize cmd_seq grid_size
  | CRequestRepaint cmd_seq
  | CScreenAck generation screen_version
  | CClose cmd_seq
  | CDetach cmd_seq
  | CPong nat byte_off
  | CConsumed byte_off
  | CListSessions
  | CKillSession session_id
  | CSearch bytes nat
  | CForwardOpen cmd_seq stream_id forward_target
  | CForwardData stream_id byte_off bool bytes
  | CForwardAck stream_id byte_off nat sack_runs
  | CForwardReset stream_id forward_reset_reason
  | CRenameSession session_id bytes
  | CListNames

datatype server_message =
    SHello version grid_size session_id capability "datagram_offer option"
  | SHelloForward version session_id capability "datagram_offer option"
  | SOutput byte_off input_cue "cmd_seq option" bytes
  | SExit i32
  | SReject reject_reason
  | SCommandAck "cmd_seq option"
  | SDetached detach_reason
  | SPing nat "cmd_seq option" nat
  | SSessionList "session_summary list"
  | SSearchResults "search_match list"
  | SScreen screen_part
  | SForwardData stream_id byte_off bool bytes
  | SForwardAck stream_id byte_off nat sack_runs
  | SForwardReset stream_id forward_reset_reason
  | SOutputSkipped nat
  | SSessionNames "session_name list"

definition CLIENT_TAG_BASE :: u8 where "CLIENT_TAG_BASE = 1"
definition SERVER_TAG_BASE :: u8 where "SERVER_TAG_BASE = 0x81"

subsection \<open>Frames\<close>

definition open_frame :: bytes where
  "open_frame = replicate LENGTH_PREFIX 0"

definition seal_frame :: "bytes \<Rightarrow> encoded" where
  "seal_frame frame =
     (let len = length frame - LENGTH_PREFIX in
      if u32_max < len then Inl EncOversize
      else if len = 0 \<or> MAX_FRAME < len then Inl EncOversize
      else Inr (be_bytes 4 len @ drop LENGTH_PREFIX frame))"

definition framed :: "encoded \<Rightarrow> encoded" where
  "framed body = (case enc_seq [Inr open_frame, body] of Inl e \<Rightarrow> Inl e | Inr out \<Rightarrow> seal_frame out)"

text \<open>A field appended in a version.\<close>

definition put_since :: "nat \<Rightarrow> version \<Rightarrow> encoded \<Rightarrow> encoded" where
  "put_since since spoken field = (if since \<le> spoken then field else Inr [])"

definition get_since :: "nat \<Rightarrow> version \<Rightarrow> 'a \<Rightarrow> 'a decoder \<Rightarrow> 'a decoder" where
  "get_since since spoken absent p c =
     (if spoken < since \<or> cursor_exhausted c then Inr (absent, c) else p c)"

subsection \<open>Client messages\<close>

fun client_body :: "version \<Rightarrow> client_message \<Rightarrow> encoded" where
  "client_body spoken (CHello versions grid term env command client) =
     enc_seq [Inr [0 + CLIENT_TAG_BASE], range_put versions, grid_put grid, term_put term, encode_env env,
       encode_command command, client_put client]"
| "client_body spoken (CHelloForward versions client) =
     enc_seq [Inr [1 + CLIENT_TAG_BASE], range_put versions, client_put client]"
| "client_body spoken (CResume versions seq request) =
     enc_seq [Inr [2 + CLIENT_TAG_BASE], range_put versions, seq_put seq, request_put request]"
| "client_body spoken (CInput seq bytes) =
     enc_seq [Inr [3 + CLIENT_TAG_BASE], seq_put seq, chunk_put MAX_INPUT_CHUNK bytes]"
| "client_body spoken (CResize seq grid) =
     enc_seq [Inr [4 + CLIENT_TAG_BASE], seq_put seq, grid_put grid]"
| "client_body spoken (CRequestRepaint seq) = enc_seq [Inr [5 + CLIENT_TAG_BASE], seq_put seq]"
| "client_body spoken (CScreenAck generation version) =
     enc_seq [Inr [6 + CLIENT_TAG_BASE], gen_put generation, screen_ver_put version]"
| "client_body spoken (CClose seq) = enc_seq [Inr [7 + CLIENT_TAG_BASE], seq_put seq]"
| "client_body spoken (CDetach seq) = enc_seq [Inr [8 + CLIENT_TAG_BASE], seq_put seq]"
| "client_body spoken (CPong token consumed) =
     enc_seq [Inr [9 + CLIENT_TAG_BASE], u64_put token, off_put consumed]"
| "client_body spoken (CConsumed off) = enc_seq [Inr [10 + CLIENT_TAG_BASE], off_put off]"
| "client_body spoken CListSessions = enc_seq [Inr [11 + CLIENT_TAG_BASE]]"
| "client_body spoken (CKillSession session_id) = enc_seq [Inr [12 + CLIENT_TAG_BASE], session_put session_id]"
| "client_body spoken (CSearch pattern limit) =
     enc_seq [Inr [13 + CLIENT_TAG_BASE], pattern_put pattern, u16_put limit]"
| "client_body spoken (CForwardOpen seq stream target) =
     enc_seq [Inr [14 + CLIENT_TAG_BASE], seq_put seq, stream_put stream, encode_forward_target target]"
| "client_body spoken (CForwardData stream off fin bytes) =
     enc_seq [Inr [15 + CLIENT_TAG_BASE], stream_put stream, off_put off, fin_put fin,
       chunk_put MAX_FORWARD_CHUNK bytes]"
| "client_body spoken (CForwardAck stream off window held) =
     enc_seq [Inr [16 + CLIENT_TAG_BASE], stream_put stream, off_put off, u32_put window,
       put_since 14 spoken (sack_put held)]"
| "client_body spoken (CForwardReset stream reason) =
     enc_seq [Inr [17 + CLIENT_TAG_BASE], stream_put stream, reset_put reason]"
| "client_body spoken (CRenameSession session_id name) =
     enc_seq [Inr [18 + CLIENT_TAG_BASE], session_put session_id, name_put name]"
| "client_body spoken CListNames = enc_seq [Inr [19 + CLIENT_TAG_BASE]]"

definition client_encode :: "client_message \<Rightarrow> version \<Rightarrow> encoded" where
  "client_encode m spoken = framed (client_body spoken m)"

fun client_hint :: "client_message \<Rightarrow> nat" where
  "client_hint (CHello versions grid term env command client) =
     1 + 4 + 4 + term_hint term + env_hint env + command_hint command + 16"
| "client_hint (CHelloForward versions client) = 1 + 4 + 16"
| "client_hint (CResume versions seq request) = 1 + 4 + 8 + 80"
| "client_hint (CInput seq bytes) = 1 + 8 + chunk_hint bytes"
| "client_hint (CResize seq grid) = 1 + 8 + 4"
| "client_hint (CRequestRepaint seq) = 1 + 8"
| "client_hint (CScreenAck generation version) = 1 + 8 + 8"
| "client_hint (CClose seq) = 1 + 8"
| "client_hint (CDetach seq) = 1 + 8"
| "client_hint (CPong token consumed) = 1 + 8 + 8"
| "client_hint (CConsumed off) = 1 + 8"
| "client_hint CListSessions = 1"
| "client_hint (CKillSession session_id) = 1 + 16"
| "client_hint (CSearch pattern limit) = 1 + pattern_hint pattern + 2"
| "client_hint (CForwardOpen seq stream target) = 1 + 8 + 4 + target_hint target"
| "client_hint (CForwardData stream off fin bytes) = 1 + 4 + 8 + 1 + chunk_hint bytes"
| "client_hint (CForwardAck stream off window held) = 1 + 4 + 8 + 4 + sack_hint held"
| "client_hint (CForwardReset stream reason) = 1 + 4 + 1"
| "client_hint (CRenameSession session_id name) = 1 + 16 + name_hint name"
| "client_hint CListNames = 1"

definition client_get_fields :: "version \<Rightarrow> u8 \<Rightarrow> client_message decoder" where
  "client_get_fields spoken tag =
     (if tag = 0 + CLIENT_TAG_BASE then
        decode_bind range_get (\<lambda>versions. decode_bind grid_get (\<lambda>grid. decode_bind term_get (\<lambda>term.
        decode_bind decode_env (\<lambda>env. decode_bind decode_command (\<lambda>command.
        decode_bind client_get (\<lambda>client. decode_ok (CHello versions grid term env command client)))))))
      else if tag = 1 + CLIENT_TAG_BASE then
        decode_bind range_get (\<lambda>versions. decode_bind client_get (\<lambda>client.
        decode_ok (CHelloForward versions client)))
      else if tag = 2 + CLIENT_TAG_BASE then
        decode_bind range_get (\<lambda>versions. decode_bind seq_get (\<lambda>seq. decode_bind request_get (\<lambda>request.
        decode_ok (CResume versions seq request))))
      else if tag = 3 + CLIENT_TAG_BASE then
        decode_bind seq_get (\<lambda>seq. decode_bind (chunk_get MAX_INPUT_CHUNK) (\<lambda>bytes.
        decode_ok (CInput seq bytes)))
      else if tag = 4 + CLIENT_TAG_BASE then
        decode_bind seq_get (\<lambda>seq. decode_bind grid_get (\<lambda>grid. decode_ok (CResize seq grid)))
      else if tag = 5 + CLIENT_TAG_BASE then decode_bind seq_get (\<lambda>seq. decode_ok (CRequestRepaint seq))
      else if tag = 6 + CLIENT_TAG_BASE then
        decode_bind gen_get (\<lambda>generation. decode_bind screen_ver_get (\<lambda>version.
        decode_ok (CScreenAck generation version)))
      else if tag = 7 + CLIENT_TAG_BASE then decode_bind seq_get (\<lambda>seq. decode_ok (CClose seq))
      else if tag = 8 + CLIENT_TAG_BASE then decode_bind seq_get (\<lambda>seq. decode_ok (CDetach seq))
      else if tag = 9 + CLIENT_TAG_BASE then
        decode_bind u64_get (\<lambda>token. decode_bind off_get (\<lambda>consumed. decode_ok (CPong token consumed)))
      else if tag = 10 + CLIENT_TAG_BASE then decode_bind off_get (\<lambda>off. decode_ok (CConsumed off))
      else if tag = 11 + CLIENT_TAG_BASE then decode_ok CListSessions
      else if tag = 12 + CLIENT_TAG_BASE then
        decode_bind session_get (\<lambda>session_id. decode_ok (CKillSession session_id))
      else if tag = 13 + CLIENT_TAG_BASE then
        decode_bind pattern_get (\<lambda>pattern. decode_bind u16_get (\<lambda>limit. decode_ok (CSearch pattern limit)))
      else if tag = 14 + CLIENT_TAG_BASE then
        decode_bind seq_get (\<lambda>seq. decode_bind stream_get (\<lambda>stream. decode_bind decode_forward_target (\<lambda>target.
        decode_ok (CForwardOpen seq stream target))))
      else if tag = 15 + CLIENT_TAG_BASE then
        decode_bind stream_get (\<lambda>stream. decode_bind off_get (\<lambda>off. decode_bind fin_get (\<lambda>fin.
        decode_bind (chunk_get MAX_FORWARD_CHUNK) (\<lambda>bytes. decode_ok (CForwardData stream off fin bytes)))))
      else if tag = 16 + CLIENT_TAG_BASE then
        decode_bind stream_get (\<lambda>stream. decode_bind off_get (\<lambda>off. decode_bind u32_get (\<lambda>window.
        decode_bind (get_since 14 spoken [] sack_get) (\<lambda>held. decode_ok (CForwardAck stream off window held)))))
      else if tag = 17 + CLIENT_TAG_BASE then
        decode_bind stream_get (\<lambda>stream. decode_bind reset_get (\<lambda>reason. decode_ok (CForwardReset stream reason)))
      else if tag = 18 + CLIENT_TAG_BASE then
        decode_bind session_get (\<lambda>session_id. decode_bind name_get (\<lambda>name.
        decode_ok (CRenameSession session_id name)))
      else if tag = 19 + CLIENT_TAG_BASE then decode_ok CListNames
      else decode_err (BadTag tag))"

definition run_decoder :: "'a decoder \<Rightarrow> bytes \<Rightarrow> decode_error + 'a" where
  "run_decoder p payload = (case p (cursor_new payload) of Inl e \<Rightarrow> Inl e | Inr (m, c) \<Rightarrow> Inr m)"

definition client_decode :: "bytes \<Rightarrow> version \<Rightarrow> decode_error + client_message" where
  "client_decode payload spoken = run_decoder (decode_bind cursor_u8 (client_get_fields spoken)) payload"

subsection \<open>Server messages\<close>

fun server_body :: "version \<Rightarrow> server_message \<Rightarrow> encoded" where
  "server_body spoken (SHello version grid session_id capability offer) =
     enc_seq [Inr [0 + SERVER_TAG_BASE], ver_put version, grid_put grid, session_put session_id,
       cap_put capability, offer_put offer]"
| "server_body spoken (SHelloForward version session_id capability offer) =
     enc_seq [Inr [1 + SERVER_TAG_BASE], ver_put version, session_put session_id, cap_put capability,
       offer_put offer]"
| "server_body spoken (SOutput off cue echo_ack bytes) =
     enc_seq [Inr [2 + SERVER_TAG_BASE], off_put off, cue_put cue, opt_seq_put echo_ack,
       chunk_put MAX_OUTPUT_CHUNK bytes]"
| "server_body spoken (SExit code) = enc_seq [Inr [3 + SERVER_TAG_BASE], i32_put code]"
| "server_body spoken (SReject reason) = enc_seq [Inr [4 + SERVER_TAG_BASE], refusal_put reason]"
| "server_body spoken (SCommandAck highest) = enc_seq [Inr [5 + SERVER_TAG_BASE], opt_seq_put highest]"
| "server_body spoken (SDetached reason) = enc_seq [Inr [6 + SERVER_TAG_BASE], detach_put reason]"
| "server_body spoken (SPing token echo_ack interval_ms) =
     enc_seq [Inr [7 + SERVER_TAG_BASE], u64_put token, opt_seq_put echo_ack, u16_put interval_ms]"
| "server_body spoken (SSessionList sessions) = enc_seq [Inr [8 + SERVER_TAG_BASE], sessions_put sessions]"
| "server_body spoken (SSearchResults matches) = enc_seq [Inr [9 + SERVER_TAG_BASE], matches_put matches]"
| "server_body spoken (SScreen part) = enc_seq [Inr [10 + SERVER_TAG_BASE], put_screen_part part]"
| "server_body spoken (SForwardData stream off fin bytes) =
     enc_seq [Inr [11 + SERVER_TAG_BASE], stream_put stream, off_put off, fin_put fin,
       chunk_put MAX_FORWARD_CHUNK bytes]"
| "server_body spoken (SForwardAck stream off window held) =
     enc_seq [Inr [12 + SERVER_TAG_BASE], stream_put stream, off_put off, u32_put window,
       put_since 14 spoken (sack_put held)]"
| "server_body spoken (SForwardReset stream reason) =
     enc_seq [Inr [13 + SERVER_TAG_BASE], stream_put stream, reset_put reason]"
| "server_body spoken (SOutputSkipped bytes) = enc_seq [Inr [14 + SERVER_TAG_BASE], u64_put bytes]"
| "server_body spoken (SSessionNames names) = enc_seq [Inr [15 + SERVER_TAG_BASE], names_put names]"

definition server_encode :: "server_message \<Rightarrow> version \<Rightarrow> encoded" where
  "server_encode m spoken = framed (server_body spoken m)"

fun server_hint :: "server_message \<Rightarrow> nat" where
  "server_hint (SHello version grid session_id capability offer) =
     1 + 2 + 4 + 16 + CAPABILITY_BYTES + (1 + OFFER_BYTES)"
| "server_hint (SHelloForward version session_id capability offer) =
     1 + 2 + 16 + CAPABILITY_BYTES + (1 + OFFER_BYTES)"
| "server_hint (SOutput off cue echo_ack bytes) = 1 + 8 + 3 + 8 + chunk_hint bytes"
| "server_hint (SExit code) = 1 + 4"
| "server_hint (SReject reason) = 1 + 9"
| "server_hint (SCommandAck highest) = 1 + 8"
| "server_hint (SDetached reason) = 1 + 1"
| "server_hint (SPing token echo_ack interval_ms) = 1 + 8 + 8 + 2"
| "server_hint (SSessionList sessions) = 1 + sessions_hint sessions"
| "server_hint (SSearchResults matches) = 1 + matches_hint matches"
| "server_hint (SScreen part) = 1 + piece_hint part"
| "server_hint (SForwardData stream off fin bytes) = 1 + 4 + 8 + 1 + chunk_hint bytes"
| "server_hint (SForwardAck stream off window held) = 1 + 4 + 8 + 4 + sack_hint held"
| "server_hint (SForwardReset stream reason) = 1 + 4 + 1"
| "server_hint (SOutputSkipped bytes) = 1 + 8"
| "server_hint (SSessionNames names) = 1 + names_hint names"

definition server_get_fields :: "version \<Rightarrow> u8 \<Rightarrow> server_message decoder" where
  "server_get_fields spoken tag =
     (if tag = 0 + SERVER_TAG_BASE then
        decode_bind ver_get (\<lambda>version. decode_bind grid_get (\<lambda>grid. decode_bind session_get (\<lambda>session_id.
        decode_bind cap_get (\<lambda>capability. decode_bind offer_get (\<lambda>offer.
        decode_ok (SHello version grid session_id capability offer))))))
      else if tag = 1 + SERVER_TAG_BASE then
        decode_bind ver_get (\<lambda>version. decode_bind session_get (\<lambda>session_id.
        decode_bind cap_get (\<lambda>capability. decode_bind offer_get (\<lambda>offer.
        decode_ok (SHelloForward version session_id capability offer)))))
      else if tag = 2 + SERVER_TAG_BASE then
        decode_bind off_get (\<lambda>off. decode_bind cue_get (\<lambda>cue. decode_bind opt_seq_get (\<lambda>echo_ack.
        decode_bind (chunk_get MAX_OUTPUT_CHUNK) (\<lambda>bytes. decode_ok (SOutput off cue echo_ack bytes)))))
      else if tag = 3 + SERVER_TAG_BASE then decode_bind i32_get (\<lambda>code. decode_ok (SExit code))
      else if tag = 4 + SERVER_TAG_BASE then decode_bind refusal_get (\<lambda>reason. decode_ok (SReject reason))
      else if tag = 5 + SERVER_TAG_BASE then decode_bind opt_seq_get (\<lambda>highest. decode_ok (SCommandAck highest))
      else if tag = 6 + SERVER_TAG_BASE then decode_bind detach_get (\<lambda>reason. decode_ok (SDetached reason))
      else if tag = 7 + SERVER_TAG_BASE then
        decode_bind u64_get (\<lambda>token. decode_bind opt_seq_get (\<lambda>echo_ack. decode_bind u16_get (\<lambda>interval_ms.
        decode_ok (SPing token echo_ack interval_ms))))
      else if tag = 8 + SERVER_TAG_BASE then decode_bind sessions_get (\<lambda>sessions. decode_ok (SSessionList sessions))
      else if tag = 9 + SERVER_TAG_BASE then decode_bind matches_get (\<lambda>matches. decode_ok (SSearchResults matches))
      else if tag = 10 + SERVER_TAG_BASE then decode_bind decode_screen_part (\<lambda>part. decode_ok (SScreen part))
      else if tag = 11 + SERVER_TAG_BASE then
        decode_bind stream_get (\<lambda>stream. decode_bind off_get (\<lambda>off. decode_bind fin_get (\<lambda>fin.
        decode_bind (chunk_get MAX_FORWARD_CHUNK) (\<lambda>bytes. decode_ok (SForwardData stream off fin bytes)))))
      else if tag = 12 + SERVER_TAG_BASE then
        decode_bind stream_get (\<lambda>stream. decode_bind off_get (\<lambda>off. decode_bind u32_get (\<lambda>window.
        decode_bind (get_since 14 spoken [] sack_get) (\<lambda>held. decode_ok (SForwardAck stream off window held)))))
      else if tag = 13 + SERVER_TAG_BASE then
        decode_bind stream_get (\<lambda>stream. decode_bind reset_get (\<lambda>reason. decode_ok (SForwardReset stream reason)))
      else if tag = 14 + SERVER_TAG_BASE then decode_bind u64_get (\<lambda>bytes. decode_ok (SOutputSkipped bytes))
      else if tag = 15 + SERVER_TAG_BASE then decode_bind names_get (\<lambda>names. decode_ok (SSessionNames names))
      else decode_err (BadTag tag))"

definition server_decode :: "bytes \<Rightarrow> version \<Rightarrow> decode_error + server_message" where
  "server_decode payload spoken = run_decoder (decode_bind cursor_u8 (server_get_fields spoken)) payload"

subsection \<open>The borrowed forms of Output\<close>

record output_ref =
  or_off :: byte_off
  or_cue :: input_cue
  or_echo_ack :: "cmd_seq option"
  or_bytes :: bytes

definition peek_fields :: "output_ref decoder" where
  "peek_fields =
     decode_bind off_get (\<lambda>off. decode_bind cue_get (\<lambda>cue. decode_bind opt_seq_get (\<lambda>echo_ack.
     decode_bind cursor_u32 (\<lambda>len.
     let limit = min MAX_OUTPUT_CHUNK u32_max in
     if limit < len then decode_err (DecOversize len limit)
     else decode_bind (cursor_take len) (\<lambda>bytes.
       decode_ok \<lparr>or_off = off, or_cue = cue, or_echo_ack = echo_ack, or_bytes = bytes\<rparr>)))))"

definition peek_output :: "bytes \<Rightarrow> (decode_error + output_ref) option" where
  "peek_output payload =
     (case cursor_u8 (cursor_new payload) of
        Inl _ \<Rightarrow> None
      | Inr (tag, c) \<Rightarrow>
          if tag \<noteq> 2 + SERVER_TAG_BASE then None
          else Some (case peek_fields c of Inl e \<Rightarrow> Inl e | Inr (r, _) \<Rightarrow> Inr r))"

definition put_output :: "byte_off \<Rightarrow> input_cue \<Rightarrow> cmd_seq option \<Rightarrow> bytes \<Rightarrow> encoded" where
  "put_output off cue echo_ack bytes =
     framed (enc_seq [Inr [2 + SERVER_TAG_BASE], off_put off, cue_put cue, opt_seq_put echo_ack,
       chunk_put MAX_OUTPUT_CHUNK bytes])"

definition encode_output_into :: "byte_off \<Rightarrow> input_cue \<Rightarrow> cmd_seq option \<Rightarrow> bytes \<Rightarrow> encoded" where
  "encode_output_into off cue echo_ack bytes = put_output off cue echo_ack bytes"

subsection \<open>Reading frames from a stream\<close>

record reader =
  rd_bytes :: bytes
  rd_fault :: io_kind

definition read_exact :: "reader \<Rightarrow> nat \<Rightarrow> decode_error + bytes \<times> reader" where
  "read_exact r n =
     (if n \<le> length (rd_bytes r) then Inr (take n (rd_bytes r), r\<lparr>rd_bytes := drop n (rd_bytes r)\<rparr>)
      else if rd_fault r = UnexpectedEof then Inl Truncated
      else Inl (Io (rd_fault r)))"

definition read_frame :: "reader \<Rightarrow> nat \<Rightarrow> decode_error + bytes \<times> reader" where
  "read_frame r limit =
     (case read_exact r 4 of
        Inl e \<Rightarrow> Inl e
      | Inr (header, r) \<Rightarrow>
          let len = from_be header in
          if len = 0 \<or> limit < len then Inl (DecOversize len limit) else read_exact r len)"

section \<open>What a message must be and what arrives\<close>

text \<open>The types of the fields, and for a screen what \<open>part_valid\<close> says.\<close>

fun client_typed :: "client_message \<Rightarrow> bool" where
  "client_typed (CHello versions grid term env command client) \<longleftrightarrow>
     range_typed versions \<and> grid_typed grid \<and> utf8 term \<and> env_typed env \<and> list_all utf8 command \<and> array_typed 16 client"
| "client_typed (CHelloForward versions client) \<longleftrightarrow> range_typed versions \<and> array_typed 16 client"
| "client_typed (CResume versions seq request) \<longleftrightarrow> range_typed versions \<and> non_zero_typed seq \<and> request_typed request"
| "client_typed (CInput seq bytes) \<longleftrightarrow> non_zero_typed seq"
| "client_typed (CResize seq grid) \<longleftrightarrow> non_zero_typed seq \<and> grid_typed grid"
| "client_typed (CRequestRepaint seq) \<longleftrightarrow> non_zero_typed seq"
| "client_typed (CScreenAck generation version) \<longleftrightarrow> non_zero_typed generation \<and> non_zero_typed version"
| "client_typed (CClose seq) \<longleftrightarrow> non_zero_typed seq"
| "client_typed (CDetach seq) \<longleftrightarrow> non_zero_typed seq"
| "client_typed (CPong token consumed) \<longleftrightarrow> u64_typed token \<and> u64_typed consumed"
| "client_typed (CConsumed off) \<longleftrightarrow> u64_typed off"
| "client_typed CListSessions \<longleftrightarrow> True"
| "client_typed (CKillSession session_id) \<longleftrightarrow> array_typed 16 session_id"
| "client_typed (CSearch pattern limit) \<longleftrightarrow> utf8 pattern \<and> u16_typed limit"
| "client_typed (CForwardOpen seq stream target) \<longleftrightarrow> non_zero_typed seq \<and> stream_typed stream \<and> target_typed target"
| "client_typed (CForwardData stream off fin bytes) \<longleftrightarrow> stream_typed stream \<and> u64_typed off"
| "client_typed (CForwardAck stream off window held) \<longleftrightarrow>
     stream_typed stream \<and> u64_typed off \<and> u32_typed window \<and> list_all sack_run_typed held"
| "client_typed (CForwardReset stream reason) \<longleftrightarrow> stream_typed stream"
| "client_typed (CRenameSession session_id name) \<longleftrightarrow> array_typed 16 session_id \<and> utf8 name"
| "client_typed CListNames \<longleftrightarrow> True"

fun client_view :: "version \<Rightarrow> client_message \<Rightarrow> client_message" where
  "client_view spoken (CForwardAck stream off window held) =
     CForwardAck stream off window (if 14 \<le> spoken then held else [])"
| "client_view spoken m = m"

fun server_typed :: "server_message \<Rightarrow> bool" where
  "server_typed (SHello version grid session_id capability offer) \<longleftrightarrow> ver_typed version \<and> grid_typed grid \<and>
     array_typed 16 session_id \<and> array_typed CAPABILITY_BYTES capability \<and> offer_typed offer"
| "server_typed (SHelloForward version session_id capability offer) \<longleftrightarrow> ver_typed version \<and>
     array_typed 16 session_id \<and> array_typed CAPABILITY_BYTES capability \<and> offer_typed offer"
| "server_typed (SOutput off cue echo_ack bytes) \<longleftrightarrow> u64_typed off \<and> cue_typed cue \<and> opt_seq_typed echo_ack"
| "server_typed (SExit code) \<longleftrightarrow> True"
| "server_typed (SReject reason) \<longleftrightarrow> refusal_typed reason"
| "server_typed (SCommandAck highest) \<longleftrightarrow> opt_seq_typed highest"
| "server_typed (SDetached reason) \<longleftrightarrow> True"
| "server_typed (SPing token echo_ack interval_ms) \<longleftrightarrow> u64_typed token \<and> opt_seq_typed echo_ack \<and> u16_typed interval_ms"
| "server_typed (SSessionList sessions) \<longleftrightarrow> list_all summary_typed sessions"
| "server_typed (SSearchResults matches) \<longleftrightarrow> list_all match_typed matches"
| "server_typed (SScreen part) \<longleftrightarrow> part_valid part"
| "server_typed (SForwardData stream off fin bytes) \<longleftrightarrow> stream_typed stream \<and> u64_typed off"
| "server_typed (SForwardAck stream off window held) \<longleftrightarrow>
     stream_typed stream \<and> u64_typed off \<and> u32_typed window \<and> list_all sack_run_typed held"
| "server_typed (SForwardReset stream reason) \<longleftrightarrow> stream_typed stream"
| "server_typed (SOutputSkipped bytes) \<longleftrightarrow> u64_typed bytes"
| "server_typed (SSessionNames names) \<longleftrightarrow> list_all named_typed names"

fun server_view :: "version \<Rightarrow> server_message \<Rightarrow> server_message" where
  "server_view spoken (SForwardAck stream off window held) =
     SForwardAck stream off window (if 14 \<le> spoken then held else [])"
| "server_view spoken (SScreen part) = SScreen (part_view part)"
| "server_view spoken m = m"

section \<open>The tables keep the contract of a field\<close>

lemma since_back:
  assumes "\<not> isl (put_since 14 spoken (sack_put held))" "list_all sack_run_typed held"
  shows "parses (get_since 14 spoken [] sack_get) (projr (put_since 14 spoken (sack_put held)))
    (if 14 \<le> spoken then held else [])"
proof (cases "14 \<le> spoken")
  case True
  then obtain bs where bs: "sack_put held = Inr bs" using assms(1) by (auto simp: put_since_def isl_def)
      (metis isl_def sum.collapse(2))
  have ne: "bs \<noteq> []" using bs by (auto simp: sack_put_def split: if_splits)
  from fld_sack.roundtrip [OF assms(2) bs] have "parses sack_get bs held" .
  then have "parses (get_since 14 spoken [] sack_get) bs held"
    using ne True by (auto simp: parses_def get_since_def cursor_exhausted_def cursor_at_def)
  then show ?thesis using True bs by (simp add: put_since_def)
next
  case False
  then show ?thesis by (simp add: put_since_def parses_def get_since_def)
qed

lemma since_gives:
  "gives (get_since 14 spoken [] sack_get) (\<lambda>held n. (spoken < 14 \<longrightarrow> held = []) \<and> list_all sack_run_typed held \<and>
    (\<exists>bs. put_since 14 spoken (sack_put held) = Inr bs \<and> length bs \<le> n + 1))"
proof -
  have "gives sack_get (\<lambda>held n. list_all sack_run_typed held \<and>
      (\<exists>bs. put_since 14 spoken (sack_put held) = Inr bs \<and> length bs \<le> n + 1))"
    by (rule gives_mono [OF fld_sack.stable]) (auto simp: put_since_def)
  moreover have "sack_put [] = Inr [0]" by (simp add: sack_put_def)
  ultimately show ?thesis by (auto simp: gives_def get_since_def put_since_def)
qed

lemmas client_backs = fld_range.put_back fld_range.put_back_end fld_grid.put_back fld_grid.put_back_end fld_term.put_back fld_env.put_back
  fld_command.put_back fld_client.put_back fld_client.put_back_end fld_seq.put_back fld_seq.put_back_end fld_request.put_back_end
  fld_input.put_back_end fld_gen.put_back fld_screen_ver.put_back_end fld_u64.put_back fld_off.put_back fld_off.put_back_end
  fld_session.put_back fld_session.put_back_end fld_pattern.put_back fld_u16.put_back_end fld_stream.put_back fld_target.put_back_end
  fld_fin.put_back fld_forward.put_back_end fld_u32.put_back fld_reset.put_back_end fld_name.put_back_end
  parses_bind_end [OF since_back]

lemma client_body_parses:
  assumes "client_typed m" "client_body spoken m = Inr bs"
  shows "parses (decode_bind cursor_u8 (client_get_fields spoken)) bs (client_view spoken m)"
  using assms
  by (cases m)
    (auto simp: client_get_fields_def enc_seq_written CLIENT_TAG_BASE_def always_def simp del: enc_seq_Inr
      intro!: parse_binds client_backs)

lemmas server_backs = fld_ver.put_back fld_grid.put_back fld_session.put_back fld_cap.put_back fld_offer.put_back_end
  fld_off.put_back fld_cue.put_back fld_opt_seq.put_back fld_opt_seq.put_back_end fld_output.put_back_end
  fld_i32.put_back_end fld_refusal.put_back_end fld_detach.put_back_end fld_u64.put_back fld_u64.put_back_end
  fld_u16.put_back_end fld_sessions.put_back_end fld_matches.put_back_end fld_piece.put_back_end
  fld_stream.put_back fld_fin.put_back fld_forward.put_back_end fld_u32.put_back fld_reset.put_back_end
  fld_names.put_back_end parses_bind_end [OF since_back]

lemma server_body_parses:
  assumes "server_typed m" "server_body spoken m = Inr bs"
  shows "parses (decode_bind cursor_u8 (server_get_fields spoken)) bs (server_view spoken m)"
  using assms
  by (cases m)
    (auto simp: server_get_fields_def enc_seq_written SERVER_TAG_BASE_def always_def simp del: enc_seq_Inr
      intro!: parse_binds server_backs)

lemmas client_gives = fld_range.bind_gives fld_grid.bind_gives fld_term.bind_gives fld_env.bind_gives
  fld_command.bind_gives fld_client.bind_gives fld_seq.bind_gives fld_request.bind_gives fld_input.bind_gives
  fld_gen.bind_gives fld_screen_ver.bind_gives fld_u64.bind_gives fld_off.bind_gives fld_session.bind_gives
  fld_pattern.bind_gives fld_u16.bind_gives fld_stream.bind_gives fld_target.bind_gives fld_fin.bind_gives
  fld_forward.bind_gives fld_u32.bind_gives fld_reset.bind_gives fld_name.bind_gives gives_bind [OF since_gives]

lemma client_body_gives:
  "gives (decode_bind cursor_u8 (client_get_fields spoken))
    (\<lambda>m n. client_typed m \<and> client_view spoken m = m \<and> (\<exists>bs. client_body spoken m = Inr bs \<and> length bs \<le> n + 1))"
  unfolding client_get_fields_def
  by (intro gives_intros client_gives) auto

lemmas server_gives = fld_ver.bind_gives fld_grid.bind_gives fld_session.bind_gives fld_cap.bind_gives
  fld_offer.bind_gives fld_off.bind_gives fld_cue.bind_gives fld_opt_seq.bind_gives fld_output.bind_gives
  fld_i32.bind_gives fld_refusal.bind_gives fld_detach.bind_gives fld_u64.bind_gives fld_u16.bind_gives
  fld_sessions.bind_gives fld_matches.bind_gives fld_piece.bind_gives fld_stream.bind_gives fld_fin.bind_gives
  fld_forward.bind_gives fld_u32.bind_gives fld_reset.bind_gives fld_names.bind_gives gives_bind [OF since_gives]

lemma server_body_gives:
  "gives (decode_bind cursor_u8 (server_get_fields spoken))
    (\<lambda>m n. server_typed m \<and> (\<exists>bs. server_body spoken m = Inr bs \<and> length bs \<le> n + 1))"
  unfolding server_get_fields_def
  by (intro gives_intros server_gives) auto

section \<open>Sizes\<close>

text \<open>The hint an encoder allocates by covers the body it writes.\<close>

lemma since_length:
  "list_all sack_run_typed held \<Longrightarrow> \<not> isl (put_since 14 spoken (sack_put held)) \<Longrightarrow>
   length (projr (put_since 14 spoken (sack_put held))) \<le> sack_hint held"
  using fld_sack.written_length [of held] by (auto simp: put_since_def)

lemmas typed_lengths = fld_range.written_length fld_grid.written_length fld_term.written_length fld_env.written_length
  fld_command.written_length fld_client.written_length fld_seq.written_length fld_request.written_length
  fld_gen.written_length fld_screen_ver.written_length fld_u64.written_length
  fld_off.written_length fld_session.written_length fld_pattern.written_length fld_u16.written_length
  fld_stream.written_length fld_target.written_length
  fld_u32.written_length fld_name.written_length since_length [rotated]
  fld_ver.written_length fld_cap.written_length fld_offer.written_length fld_cue.written_length
  fld_opt_seq.written_length fld_refusal.written_length
  fld_sessions.written_length fld_matches.written_length fld_piece.written_length
  fld_names.written_length

lemmas free_lengths = fld_input.written_length [simplified always_def simp_thms] fld_fin.written_length [simplified always_def simp_thms]
  fld_forward.written_length [simplified always_def simp_thms] fld_reset.written_length [simplified always_def simp_thms]
  fld_output.written_length [simplified always_def simp_thms] fld_i32.written_length [simplified always_def simp_thms]
  fld_detach.written_length [simplified always_def simp_thms]

lemma client_body_hint:
  assumes "client_typed m" "client_body spoken m = Inr bs"
  shows "length bs \<le> client_hint m"
  using assms
  by (cases m)
    (auto simp: enc_seq_written simp del: enc_seq_Inr dest!: typed_lengths free_lengths)

lemma server_body_hint:
  assumes "server_typed m" "server_body spoken m = Inr bs"
  shows "length bs \<le> server_hint m"
  using assms
  by (cases m)
    (auto simp: enc_seq_written simp del: enc_seq_Inr dest!: typed_lengths free_lengths)

end
