(* ===== verification/Proto_Stream.thy ===== *)
theory Proto_Stream
  imports Proto_Messages
begin

text \<open>
  Frames on a byte stream. A framed protocol is a pair of an encoder and a decoder whose frames
  are a length and a body the decoder reads back; the locale \<open>framed_protocol\<close> shows that a stream of such
  frames is read back message by message, whatever follows it. Both tables of
  \<^verbatim>\<open>src/crates/proto/src/lib.rs\<close> are one, the client's under the daemon's smaller limit.
\<close>

section \<open>One frame\<close>

lemma framed_Inr:
  "framed body = Inr frame \<longleftrightarrow>
   (\<exists>bs. body = Inr bs \<and> 0 < length bs \<and> length bs \<le> MAX_FRAME \<and> frame = be_bytes 4 (length bs) @ bs)"
  by (cases body)
    (auto simp: framed_def enc_seq.simps open_frame_def seal_frame_def Let_def LENGTH_PREFIX_def MAX_FRAME_def u32_max_def)

lemma read_frame_back:
  assumes "0 < length bs" "length bs \<le> limit" "length bs \<le> MAX_FRAME"
  shows "read_frame \<lparr>rd_bytes = (be_bytes 4 (length bs) @ bs) @ rest, rd_fault = f\<rparr> limit =
    Inr (bs, \<lparr>rd_bytes = rest, rd_fault = f\<rparr>)"
proof -
  have "from_be (be_bytes 4 (length bs)) = length bs"
    using assms(3) by (simp add: from_be_be_bytes MAX_FRAME_def)
  then show ?thesis using assms by (simp add: read_frame_def read_exact_def Let_def)
qed

lemma parses_run:
  assumes "parses p bs v" "length bs + length post \<le> usize_max"
  shows "run_decoder p (bs @ post) = Inr v"
proof -
  have "p (cursor_at [] (bs @ post)) = Inr (v, cursor_at ([] @ bs) post)"
    using assms unfolding parses_def by (metis add_0 list.size(3))
  then show ?thesis by (simp add: run_decoder_def cursor_new_def cursor_at_def)
qed

lemma gives_run:
  assumes "gives p Q" "run_decoder p payload = Inr v"
  shows "\<exists>n \<le> length payload. Q v n"
proof -
  from assms(2) obtain c where "p (cursor_new payload) = Inr (v, c)"
    by (auto simp: run_decoder_def split: sum.splits)
  with assms(1) have "cu_pos c \<le> max (cu_pos (cursor_new payload)) (length (cu_bytes (cursor_new payload)))"
      "Q v (cu_pos c - cu_pos (cursor_new payload))"
    unfolding gives_def by blast+
  then show ?thesis by (auto simp: cursor_new_def)
qed

section \<open>A stream of frames\<close>

fun read_messages :: "(bytes \<Rightarrow> decode_error + 'm) \<Rightarrow> nat \<Rightarrow> nat \<Rightarrow> reader \<Rightarrow> decode_error + 'm list \<times> reader" where
  "read_messages dec limit 0 r = Inr ([], r)"
| "read_messages dec limit (Suc n) r =
     (case read_frame r limit of
        Inl e \<Rightarrow> Inl e
      | Inr (payload, r) \<Rightarrow>
          (case dec payload of
             Inl e \<Rightarrow> Inl e
           | Inr m \<Rightarrow>
               (case read_messages dec limit n r of Inl e \<Rightarrow> Inl e | Inr (ms, r) \<Rightarrow> Inr (m # ms, r))))"

text \<open>A frame within both limits whose payload decodes to a message.\<close>

definition carries :: "(bytes \<Rightarrow> decode_error + 'm) \<Rightarrow> nat \<Rightarrow> bytes \<Rightarrow> 'm \<Rightarrow> bool" where
  "carries dec limit frame m \<longleftrightarrow>
     (\<exists>bs. frame = be_bytes 4 (length bs) @ bs \<and> 0 < length bs \<and> length bs \<le> limit \<and> length bs \<le> MAX_FRAME \<and>
       dec bs = Inr m)"

lemma frames_back:
  "list_all2 (carries dec limit) frames ms \<Longrightarrow>
   read_messages dec limit (length ms) \<lparr>rd_bytes = concat frames @ rest, rd_fault = f\<rparr> =
   Inr (ms, \<lparr>rd_bytes = rest, rd_fault = f\<rparr>)"
proof (induction rule: list_all2_induct)
  case (Cons frame frames m ms)
  from Cons(1) obtain bs where bs: "frame = be_bytes 4 (length bs) @ bs" "0 < length bs" "length bs \<le> limit"
    "length bs \<le> MAX_FRAME" "dec bs = Inr m" unfolding carries_def by blast
  then show ?case using read_frame_back [OF bs(2-4), of "concat frames @ rest" f] Cons.IH by simp
qed simp

lemma enc_seq_pieces:
  "enc_seq (map enc ms) = Inr bs \<Longrightarrow> \<exists>frames. bs = concat frames \<and> list_all2 (\<lambda>m frame. enc m = Inr frame) ms frames"
proof (induction ms arbitrary: bs)
  case (Cons m ms)
  then obtain a b where ab: "enc m = Inr a" "enc_seq (map enc ms) = Inr b" "bs = a @ b" by auto
  from Cons.IH [OF ab(2)] obtain frames where "b = concat frames" "list_all2 (\<lambda>m frame. enc m = Inr frame) ms frames"
    by blast
  then show ?case using ab by (intro exI [of _ "a # frames"]) simp
qed simp

locale framed_protocol =
  fixes enc :: "'m \<Rightarrow> encoded"
    and dec :: "bytes \<Rightarrow> decode_error + 'm"
    and limit :: nat
    and valid :: "'m \<Rightarrow> bool"
    and view :: "'m \<Rightarrow> 'm"
  assumes frame: "valid m \<Longrightarrow> enc m = Inr frame \<Longrightarrow> carries dec limit frame (view m)"
begin

lemma stream_back:
  assumes "list_all valid ms" "enc_seq (map enc ms) = Inr bs"
  shows "read_messages dec limit (length ms) \<lparr>rd_bytes = bs @ rest, rd_fault = f\<rparr> =
    Inr (map view ms, \<lparr>rd_bytes = rest, rd_fault = f\<rparr>)"
proof -
  from enc_seq_pieces [OF assms(2)] obtain frames where bs: "bs = concat frames"
    and fs: "list_all2 (\<lambda>m frame. enc m = Inr frame) ms frames" by blast
  from fs assms(1) have "list_all2 (carries dec limit) frames (map view ms)"
    by (induction rule: list_all2_induct) (auto intro: frame)
  from frames_back [OF this] show ?thesis by (simp add: bs)
qed

end

section \<open>The two tables\<close>

lemma encode_env_small: "encode_env env = Inr bs \<Longrightarrow> length bs \<le> 4097"
  using encode_env_entries by (fastforce simp: encode_env_def MAX_ENV_def)

lemma encode_command_small: "encode_command ws = Inr bs \<Longrightarrow> length bs \<le> 129"
  using encode_command_length by (fastforce simp: encode_command_def MAX_COMMAND_def)

lemma sack_small: "sack_put held = Inr bs \<Longrightarrow> length bs \<le> 257"
proof -
  have "enc_seq (map sack_run_put held) = Inr b \<Longrightarrow> length b = 8 * length held" for b
    by (induction held arbitrary: b) (fastforce simp: sack_run_put_def)+
  then show "sack_put held = Inr bs \<Longrightarrow> ?thesis"
    by (fastforce simp: sack_put_def MAX_ACK_RUNS_def split: if_splits)
qed

lemma client_body_small:
  assumes "client_typed m" "client_body spoken m = Inr bs"
  shows "0 < length bs" "length bs \<le> MAX_CLIENT_FRAME"
proof -
  note puts = range_put_def grid_put_def term_put_def client_put_def seq_put_def request_put_def chunk_put_def
    gen_put_def screen_ver_put_def u64_put_def u32_put_def u16_put_def off_put_def session_put_def pattern_put_def
    stream_put_def encode_forward_target_def fin_put_def reset_put_def name_put_def put_since_def Let_def
  show "0 < length bs" using assms by (cases m) auto
  show "length bs \<le> MAX_CLIENT_FRAME"
    using assms
    by (cases m)
      (auto simp: puts proto_consts valid_term_def array_typed_def request_typed_def split: if_splits
        dest!: encode_env_small encode_command_small sack_small)
qed

lemma max_frame_usize: "n \<le> MAX_FRAME \<Longrightarrow> n \<le> usize_max"
  by (simp add: MAX_FRAME_def usize_max_def)

lemma client_decode_body:
  "client_typed m \<Longrightarrow> client_body spoken m = Inr bs \<Longrightarrow> length bs + length post \<le> MAX_FRAME \<Longrightarrow>
   client_decode (bs @ post) spoken = Inr (client_view spoken m)"
  unfolding client_decode_def by (rule parses_run [OF client_body_parses]) (simp_all add: max_frame_usize)

lemma server_decode_body:
  "server_typed m \<Longrightarrow> server_body spoken m = Inr bs \<Longrightarrow> length bs + length post \<le> MAX_FRAME \<Longrightarrow>
   server_decode (bs @ post) spoken = Inr (server_view spoken m)"
  unfolding server_decode_def by (rule parses_run [OF server_body_parses]) (simp_all add: max_frame_usize)

interpretation to_daemon: framed_protocol "\<lambda>m. client_encode m spoken" "\<lambda>payload. client_decode payload spoken"
  MAX_CLIENT_FRAME client_typed "client_view spoken" for spoken
proof
  fix m frame assume m: "client_typed m" "client_encode m spoken = Inr frame"
  then obtain bs where bs: "client_body spoken m = Inr bs" "0 < length bs" "length bs \<le> MAX_FRAME"
    "frame = be_bytes 4 (length bs) @ bs" by (auto simp: client_encode_def framed_Inr)
  then show "carries (\<lambda>payload. client_decode payload spoken) MAX_CLIENT_FRAME frame (client_view spoken m)"
    unfolding carries_def using client_body_small [OF m(1) bs(1)] client_decode_body [OF m(1) bs(1), of "[]"] by auto
qed

interpretation to_client: framed_protocol "\<lambda>m. server_encode m spoken" "\<lambda>payload. server_decode payload spoken"
  MAX_FRAME server_typed "server_view spoken" for spoken
proof
  fix m frame assume m: "server_typed m" "server_encode m spoken = Inr frame"
  then obtain bs where bs: "server_body spoken m = Inr bs" "0 < length bs" "length bs \<le> MAX_FRAME"
    "frame = be_bytes 4 (length bs) @ bs" by (auto simp: server_encode_def framed_Inr)
  then show "carries (\<lambda>payload. server_decode payload spoken) MAX_FRAME frame (server_view spoken m)"
    unfolding carries_def using server_decode_body [OF m(1) bs(1), of "[]"] by auto
qed

end
