(* ===== verification/Proto_Cut.thy ===== *)
theory Proto_Cut
  imports Proto_Stream
begin

text \<open>
  Cutting a screen into pieces that fit a budget: \<^verbatim>\<open>spans\<close> and \<^verbatim>\<open>encode_screen_parts\<close> of
  \<^verbatim>\<open>src/crates/proto/src/lib.rs\<close> over the row chunks of \<^verbatim>\<open>src/crates/proto/src/screen.rs\<close>. A row's chunks put
  end to end are the span of the row they were cut from, two neighbours would not have fitted one
  piece, every piece fits the budget, and the pieces read back are the screen that was cut.
\<close>

section \<open>Model\<close>

lemma chunk_fill_run:
  "snd (snd (snd (chunk_fill budget first rs s))) \<ge> snd (snd (snd s)) \<and>
   snd (snd (snd (chunk_fill budget first rs s))) \<le> snd (snd (snd s)) + length rs"
  by (induction budget first rs s rule: chunk_fill.induct) (auto simp: Let_def)

definition chunks_left :: "row_chunks \<Rightarrow> nat" where
  "chunks_left c = (if ch_done c then 0 else Suc (length (rf_runs (ch_row c)) - ch_run c))"

lemma chunks_left_decreases:
  assumes "row_chunks_next c = Some (Some ck, c')"
  shows "chunks_left c' < chunks_left c"
proof -
  let ?rs = "drop (ch_run c) (take (ch_end c) (rf_runs (ch_row c)))"
  obtain cost cells byte run where fill: "chunk_fill (ch_budget c) (ch_run c) ?rs (CHUNK_FIXED, 0, ch_byte c, ch_run c) = (cost, cells, byte, run)"
    by (metis prod_cases4)
  have nd: "\<not> ch_done c" using assms by (auto simp: row_chunks_next_def split: if_splits)
  have run: "ch_run c \<le> run" "run \<le> ch_run c + length ?rs"
    using chunk_fill_run [where budget = "ch_budget c" and first = "ch_run c" and rs = ?rs
        and s = "(CHUNK_FIXED, 0, ch_byte c, ch_run c)"] fill by simp_all
  have "ch_row c' = ch_row c" "ch_run c' = run" "ch_run c = run \<Longrightarrow> ch_done c'"
    using assms nd fill by (auto simp: row_chunks_next_def Let_def split: if_splits)
  moreover have "length ?rs \<le> length (rf_runs (ch_row c)) - ch_run c" by simp
  ultimately show ?thesis using run nd unfolding chunks_left_def by (cases "ch_run c = run") (simp_all, linarith)
qed

text \<open>The iterator run to its end.\<close>

function row_chunks_all :: "row_chunks \<Rightarrow> row_chunk list option" where
  "row_chunks_all c =
     (case row_chunks_next c of
        None \<Rightarrow> None
      | Some (None, c') \<Rightarrow> Some []
      | Some (Some chunk, c') \<Rightarrow>
          (case row_chunks_all c' of None \<Rightarrow> None | Some chunks \<Rightarrow> Some (chunk # chunks)))"
  by pat_completeness auto
termination
  by (relation "measure chunks_left") (auto dest: chunks_left_decreases)

declare row_chunks_all.simps [simp del]

record row_update =
  up_row :: nat
  up_frame :: row_frame
  up_runs :: "nat \<times> nat"
  up_clear_tail :: bool

definition row_update_whole :: "nat \<Rightarrow> row_frame \<Rightarrow> row_update" where
  "row_update_whole row frame =
     \<lparr>up_row = row, up_frame = frame, up_runs = (0, length (rf_runs frame)), up_clear_tail = False\<rparr>"

text \<open>What \<^verbatim>\<open>Spans::next\<close> yields for one update: its chunks, the last of them owing the erase, or the
  erase alone where nothing is left to paint.\<close>

fun entries_of :: "nat \<Rightarrow> bool \<Rightarrow> bool \<Rightarrow> row_chunk list \<Rightarrow> row_entry list" where
  "entries_of row is_cut clear_tail [] = []"
| "entries_of row is_cut clear_tail (chunk # chunks) =
     \<lparr>en_row = row, en_chunk = is_cut, en_clear_tail = (clear_tail \<and> chunks = []), en_frame = chunk\<rparr>
     # entries_of row is_cut clear_tail chunks"

definition update_entries :: "nat \<Rightarrow> row_update \<Rightarrow> row_entry list option" where
  "update_entries budget update =
     (let chunks = row_span (up_frame update) (up_runs update) budget;
          start = row_chunks_start chunks;
          is_cut = (budget < row_span_len (up_frame update) (up_runs update))
      in case row_chunks_all chunks of
        None \<Rightarrow> None
      | Some [] \<Rightarrow>
          Some (if up_clear_tail update
            then [\<lparr>en_row = up_row update, en_chunk = is_cut, en_clear_tail = True,
                   en_frame = \<lparr>rk_text = [], rk_runs = [], rk_cells = 0, rk_col = fst start, rk_byte = snd start\<rparr>\<rparr>]
            else [])
      | Some chunks \<Rightarrow> Some (entries_of (up_row update) is_cut (up_clear_tail update) chunks))"

fun spans :: "nat \<Rightarrow> row_update list \<Rightarrow> row_entry list option" where
  "spans budget [] = Some []"
| "spans budget (update # rows) =
     (case update_entries budget update of
        None \<Rightarrow> None
      | Some es \<Rightarrow> (case spans budget rows of None \<Rightarrow> None | Some rest \<Rightarrow> Some (es @ rest)))"

definition entry_cost :: "row_entry \<Rightarrow> nat" where
  "entry_cost entry = PART_ROW_HEAD + chunk_encoded_len (en_frame entry)"

text \<open>How many entries each piece takes and its size.\<close>

fun cut_pieces :: "nat \<Rightarrow> row_entry list \<Rightarrow> nat \<times> nat \<Rightarrow> encode_error + (nat \<times> nat) list" where
  "cut_pieces budget [] (count, used) = Inr [(count, used)]"
| "cut_pieces budget (entry # entries) (count, used) =
     (let cost = entry_cost entry in
      if budget < used + cost \<and> \<not> (count = 0 \<and> used = TAIL_FIXED) then
        (if budget < TAIL_FIXED + cost then Inl EncOversize
         else case cut_pieces budget entries (1, TAIL_FIXED + cost) of
           Inl e \<Rightarrow> Inl e | Inr cuts \<Rightarrow> Inr ((count, used) # cuts))
      else if budget < used + cost then Inl EncOversize
      else cut_pieces budget entries (Suc count, used + cost))"

definition encode_piece ::
    "screen_header \<Rightarrow> screen_version option \<Rightarrow> scroll_band option \<Rightarrow> nat \<Rightarrow> nat \<Rightarrow> nat \<Rightarrow>
     row_entry list \<Rightarrow> encoded" where
  "encode_piece header base scroll pieces index count entries =
     framed (enc_seq (Inr [10 + SERVER_TAG_BASE] #
       (if index = 0 then
          [Inr [0], encode_header header, Inr (put_base base), Inr (encode_scroll scroll), Inr (put_u16 pieces)]
        else
          [Inr [1], Inr (put_u64 (sh_generation header)), Inr (put_u64 (sh_version header)),
           Inr (put_u16 pieces), Inr (put_u16 index)]) @
       [encode_part_rows count entries]))"

fun encode_pieces ::
    "screen_header \<Rightarrow> screen_version option \<Rightarrow> scroll_band option \<Rightarrow> nat \<Rightarrow> nat \<Rightarrow> (nat \<times> nat) list \<Rightarrow>
     row_entry list \<Rightarrow> encode_error + bytes list" where
  "encode_pieces header base scroll pieces index [] entries = Inr []"
| "encode_pieces header base scroll pieces index ((count, used) # cuts) entries =
     (case encode_piece header base scroll pieces index count (take count entries) of
        Inl e \<Rightarrow> Inl e
      | Inr out \<Rightarrow>
          (case encode_pieces header base scroll pieces (Suc index) cuts (drop count entries) of
             Inl e \<Rightarrow> Inl e | Inr parts \<Rightarrow> Inr (out # parts)))"

definition encode_screen_parts ::
    "screen_header \<Rightarrow> screen_version option \<Rightarrow> scroll_band option \<Rightarrow> row_update list \<Rightarrow> nat \<Rightarrow>
     (encode_error + bytes list) option" where
  "encode_screen_parts header base scroll rows budget =
     (if (case scroll of None \<Rightarrow> False | Some band \<Rightarrow> \<not> scroll_applicable band (gs_rows (sh_size header)))
      then Some (Inl (BadScroll (the scroll)))
      else
        let head_fixed = HEAD_FIXED + screen_prefix header in
        if budget < head_fixed then Some (Inl EncOversize)
        else if budget < TAIL_FIXED + PART_ROW_HEAD then None
        else case spans (budget - TAIL_FIXED - PART_ROW_HEAD) rows of
          None \<Rightarrow> None
        | Some entries \<Rightarrow> Some
            (case cut_pieces budget entries (0, head_fixed) of
               Inl e \<Rightarrow> Inl e
             | Inr cuts \<Rightarrow>
                 if 65535 < length cuts then Inl EncOversize
                 else if scroll \<noteq> None \<and> length cuts \<noteq> 1 then Inl EncOversize
                 else encode_pieces header base scroll (length cuts) 0 cuts entries))"

section \<open>Filling one chunk\<close>

definition run_unit :: "style_run \<Rightarrow> nat" where
  "run_unit r = ru_bytes r + run_style_len r"

definition units :: "style_run list \<Rightarrow> nat" where
  "units rs = sum_list (map run_unit rs)"

definition cells_of :: "style_run list \<Rightarrow> nat" where
  "cells_of rs = sum_list (map ru_cells rs)"

definition bytes_of :: "style_run list \<Rightarrow> nat" where
  "bytes_of rs = sum_list (map ru_bytes rs)"

lemma run_sums [simp]: "units [] = 0" "units (r # rs) = run_unit r + units rs" "cells_of [] = 0"
  "cells_of (r # rs) = ru_cells r + cells_of rs" "bytes_of [] = 0" "bytes_of (r # rs) = ru_bytes r + bytes_of rs"
  "units (xs @ ys) = units xs + units ys" "cells_of (xs @ ys) = cells_of xs + cells_of ys"
  "bytes_of (xs @ ys) = bytes_of xs + bytes_of ys"
  by (simp_all add: units_def cells_of_def bytes_of_def)

lemma units_split: "units rs = bytes_of rs + style_len rs"
  by (induction rs) (simp_all add: run_unit_def style_len_def)

lemma chunk_fill_spec:
  assumes "first \<le> run" "cells + cells_of rs \<le> 65535"
  shows "\<exists>k \<le> length rs.
    chunk_fill budget first rs (cost, cells, byte, run) =
      (cost + units (take k rs), cells + cells_of (take k rs), byte + bytes_of (take k rs), run + k) \<and>
    (k < length rs \<longrightarrow> budget < cost + units (take (Suc k) rs) \<and> first < run + k) \<and>
    (k = 0 \<or> cost + units (take k rs) \<le> budget \<or> k = 1 \<and> run = first)"
  using assms
proof (induction rs arbitrary: cost cells byte run)
  case Nil
  then show ?case by simp
next
  case (Cons r rs)
  show ?case
  proof (cases "budget < cost + run_unit r \<and> first < run")
    case True
    then show ?thesis by (intro exI [of _ 0]) (simp add: run_unit_def)
  next
    case False
    have sat: "u16_saturating_add cells (ru_cells r) = cells + ru_cells r"
      using Cons.prems(2) by (simp add: u16_saturating_add_def)
    from Cons.IH [of "Suc run" "cells + ru_cells r" "cost + run_unit r" "byte + ru_bytes r"] Cons.prems
    obtain k where k: "k \<le> length rs"
      "chunk_fill budget first rs (cost + run_unit r, cells + ru_cells r, byte + ru_bytes r, Suc run) =
        (cost + run_unit r + units (take k rs), cells + ru_cells r + cells_of (take k rs),
         byte + ru_bytes r + bytes_of (take k rs), Suc run + k)"
      "k < length rs \<longrightarrow> budget < cost + run_unit r + units (take (Suc k) rs) \<and> first < Suc run + k"
      "k = 0 \<or> cost + run_unit r + units (take k rs) \<le> budget \<or> k = 1 \<and> Suc run = first"
      by auto
    have "chunk_fill budget first (r # rs) (cost, cells, byte, run) =
        chunk_fill budget first rs (cost + run_unit r, cells + ru_cells r, byte + ru_bytes r, Suc run)"
      using False sat by (auto simp: run_unit_def Let_def)
    then show ?thesis using k False Cons.prems(1)
      by (intro exI [of _ "Suc k"]) (auto simp: add.assoc)
  qed
qed

section \<open>The iterator's state\<close>

text \<open>A row a screen of \<open>cols\<close> columns can hold.\<close>

definition row_sound :: "nat \<Rightarrow> row_frame \<Rightarrow> bool" where
  "row_sound cols row \<longleftrightarrow> row_fits cols row \<and> length (rf_text row) \<le> rf_cells row * MAX_CLUSTER_BYTES"

definition chunks_inv :: "nat \<Rightarrow> row_chunks \<Rightarrow> bool" where
  "chunks_inv cols c \<longleftrightarrow> row_sound cols (ch_row c) \<and> ch_painted c = row_painted_bytes (ch_row c) \<and>
     ch_run c \<le> ch_end c \<and> ch_end c \<le> length (rf_runs (ch_row c)) \<and>
     ch_byte c = bytes_of (take (ch_run c) (rf_runs (ch_row c))) \<and>
     ch_cell c = cells_of (take (ch_run c) (rf_runs (ch_row c)))"

text \<open>Where a span of the row ends, in bytes and in columns.\<close>

definition stop_byte :: "row_chunks \<Rightarrow> nat" where
  "stop_byte c = (if ch_end c = length (rf_runs (ch_row c)) then row_painted_bytes (ch_row c)
     else bytes_of (take (ch_end c) (rf_runs (ch_row c))))"

definition stop_cell :: "row_chunks \<Rightarrow> nat" where
  "stop_cell c = (if ch_end c = length (rf_runs (ch_row c)) then rf_cells (ch_row c)
     else cells_of (take (ch_end c) (rf_runs (ch_row c))))"

lemma take_sums_le: "n \<le> m \<Longrightarrow> bytes_of (take n rs) \<le> bytes_of (take m rs)" "n \<le> m \<Longrightarrow> cells_of (take n rs) \<le> cells_of (take m rs)"
proof -
  assume "n \<le> m"
  then have "take m rs = take n rs @ drop n (take m rs)" by (metis append_take_drop_id min.absorb1 take_take)
  then show "bytes_of (take n rs) \<le> bytes_of (take m rs)" "cells_of (take n rs) \<le> cells_of (take m rs)"
    by (metis le_add1 run_sums(9), metis le_add1 run_sums(8))
qed

lemma take_sums_all: "bytes_of (take n rs) \<le> bytes_of rs" "cells_of (take n rs) \<le> cells_of rs"
  using take_sums_le [of n "max n (length rs)" rs] by simp_all

lemma running_append:
  "running ok upd s (xs @ ys) \<longleftrightarrow> running ok upd s xs \<and> running ok upd (foldl upd s xs) ys"
  by (induction xs arbitrary: s) auto

lemma foldl_cover: "foldl run_cover s xs = (fst s + cells_of xs, snd s + bytes_of xs)"
  by (induction xs arbitrary: s) (auto simp: run_cover_def)

lemma row_sound_facts:
  assumes "row_sound cols row"
  shows "utf8 (rf_text row)" "cells_of (rf_runs row) \<le> rf_cells row" "rf_cells row \<le> cols" "rf_cells row \<le> 65535"
    "bytes_of (rf_runs row) \<le> row_painted_bytes row" "row_painted_bytes row \<le> length (rf_text row)"
    "is_char_boundary (rf_text row) (row_painted_bytes row)"
    "is_char_boundary (rf_text row) (bytes_of (take n (rf_runs row)))"
proof -
  have r: "utf8 (rf_text row)" "row_tiles (rf_text row) (rf_cells row) (rf_runs row)"
    using assms by (simp_all add: row_sound_def row_fits_def)
  show "utf8 (rf_text row)" "rf_cells row \<le> cols" "rf_cells row \<le> 65535"
    using assms by (simp_all add: row_sound_def row_fits_def u16_typed_def)
  show "cells_of (rf_runs row) \<le> rf_cells row" using row_tiles_cover [OF r(2)] by (simp add: cells_of_def)
  show "bytes_of (rf_runs row) \<le> row_painted_bytes row" "row_painted_bytes row \<le> length (rf_text row)"
    "is_char_boundary (rf_text row) (row_painted_bytes row)"
    using painted_boundary [OF r] by (simp_all add: bytes_of_def)
  have "row_tiles (rf_text row) (rf_cells row) (take n (rf_runs row))"
    using r(2) running_append [of "run_ok (rf_text row) (rf_cells row)" run_cover "(0, 0)" "take n (rf_runs row)"
        "drop n (rf_runs row)"] by (simp add: row_tiles_def)
  from row_tiles_cover(2) [OF this] show "is_char_boundary (rf_text row) (bytes_of (take n (rf_runs row)))"
    by (simp add: bytes_of_def)
qed

text \<open>The chunk of runs \<open>a\<close> to \<open>b\<close> of a row with its text up to byte \<open>till\<close>.\<close>

definition chunk_between :: "row_frame \<Rightarrow> nat \<Rightarrow> nat \<Rightarrow> nat \<Rightarrow> nat \<Rightarrow> row_chunk" where
  "chunk_between row a b till cells =
     (let start = bytes_of (take a (rf_runs row)) in
      \<lparr>rk_text = take (till - start) (drop start (rf_text row)), rk_runs = take (b - a) (drop a (rf_runs row)),
       rk_cells = cells, rk_col = cells_of (take a (rf_runs row)), rk_byte = narrow start\<rparr>)"

definition chunks_at :: "row_chunks \<Rightarrow> nat \<Rightarrow> row_chunks" where
  "chunks_at c b = c\<lparr>ch_run := b, ch_byte := bytes_of (take b (rf_runs (ch_row c))),
     ch_cell := cells_of (take b (rf_runs (ch_row c)))\<rparr>"

definition last_chunk :: "row_chunks \<Rightarrow> row_chunk" where
  "last_chunk c = chunk_between (ch_row c) (ch_run c) (ch_end c) (stop_byte c) (stop_cell c - ch_cell c)"

definition mid_chunk :: "row_chunks \<Rightarrow> nat \<Rightarrow> row_chunk" where
  "mid_chunk c b = chunk_between (ch_row c) (ch_run c) b (bytes_of (take b (rf_runs (ch_row c))))
     (cells_of (take b (rf_runs (ch_row c))) - ch_cell c)"

text \<open>What the next unit of the row costs: the run a chunk stopped before, or the unstyled tail.\<close>

definition next_unit :: "row_chunks \<Rightarrow> nat \<Rightarrow> nat" where
  "next_unit c b = (if b < ch_end c then run_unit (rf_runs (ch_row c) ! b)
     else row_painted_bytes (ch_row c) - bytes_of (take b (rf_runs (ch_row c))))"

lemma take_more: "take (a + k) rs = take a rs @ take k (drop a rs)"
  by (simp add: take_add)

lemma str_get_slice:
  assumes "row_sound cols row" "a \<le> b" "b = bytes_of (take m (rf_runs row)) \<or> b = row_painted_bytes row"
    "a = bytes_of (take n (rf_runs row))"
  shows "str_get (rf_text row) a b = Some (take (b - a) (drop a (rf_text row)))"
  using assms row_sound_facts(7,8) [OF assms(1)] by (auto simp: str_get_def)

lemma next_spec:
  assumes inv: "chunks_inv cols c" and nd: "\<not> ch_done c"
  shows "\<exists>b. ch_run c \<le> b \<and> b \<le> ch_end c \<and>
    (CHUNK_FIXED + units (take (b - ch_run c) (drop (ch_run c) (rf_runs (ch_row c)))) \<le> ch_budget c \<or> b \<le> Suc (ch_run c)) \<and>
    (ch_run c < b \<and> (b < ch_end c \<or> ch_end c = length (rf_runs (ch_row c))) \<and>
       row_chunks_next c = Some (Some (mid_chunk c b), chunks_at c b) \<and>
       ch_budget c < CHUNK_FIXED + units (take (b - ch_run c) (drop (ch_run c) (rf_runs (ch_row c)))) + next_unit c b
     \<or> b = ch_end c \<and> (\<exists>c'. ch_done c' \<and> row_chunks_next c =
         Some (if chunk_is_empty (last_chunk c) \<and> 0 < ch_run c then None else Some (last_chunk c), c')) \<and>
       (ch_end c = length (rf_runs (ch_row c)) \<longrightarrow> b = ch_run c \<or> chunk_encoded_len (last_chunk c) \<le> ch_budget c))"
proof -
  let ?row = "ch_row c" and ?a = "ch_run c" and ?e = "ch_end c"
  let ?runs = "rf_runs (ch_row c)"
  have snd: "row_sound cols ?row" and painted: "ch_painted c = row_painted_bytes ?row"
    and ae: "?a \<le> ?e" "?e \<le> length ?runs" and at: "ch_byte c = bytes_of (take ?a ?runs)" "ch_cell c = cells_of (take ?a ?runs)"
    using inv by (simp_all add: chunks_inv_def)
  note rs = row_sound_facts [OF snd]
  define rest where "rest = drop ?a (take ?e ?runs)"
  have "cells_of (take ?a (take ?e ?runs)) + cells_of rest = cells_of (take ?e ?runs)"
    unfolding rest_def by (metis append_take_drop_id run_sums(8))
  then have small: "0 + cells_of rest \<le> 65535"
    using take_sums_all(2) [of ?e ?runs] rs(2,4) by simp
  from chunk_fill_spec [where first = ?a and run = ?a and budget = "ch_budget c" and cost = CHUNK_FIXED
      and byte = "ch_byte c", OF order_refl small]
  obtain k where k: "k \<le> length rest"
    and fill: "chunk_fill (ch_budget c) ?a rest (CHUNK_FIXED, 0, ch_byte c, ?a) =
      (CHUNK_FIXED + units (take k rest), cells_of (take k rest), ch_byte c + bytes_of (take k rest), ?a + k)"
    and more: "k < length rest \<Longrightarrow> ch_budget c < CHUNK_FIXED + units (take (Suc k) rest) \<and> 0 < k"
    and fits: "k = 0 \<or> CHUNK_FIXED + units (take k rest) \<le> ch_budget c \<or> k = 1"
    by auto
  define b where "b = ?a + k"
  have be: "?a \<le> b" "b \<le> ?e" using k ae by (simp_all add: rest_def b_def)
  have taken: "take k rest = take k (drop ?a ?runs)" using be by (simp add: rest_def b_def drop_take)
  have sums: "bytes_of (take b ?runs) = ch_byte c + bytes_of (take k rest)"
    "cells_of (take b ?runs) = ch_cell c + cells_of (take k rest)"
    by (simp_all add: b_def take_more at taken)
  have bound: "bytes_of (take b ?runs) \<le> row_painted_bytes ?row" "cells_of (take b ?runs) \<le> rf_cells ?row"
    using take_sums_all [of b ?runs] rs(2,5) by simp_all
  have small': "ch_cell c + cells_of (take k rest) \<le> 65535" using bound(2) sums(2) rs(4) by simp
  show ?thesis
  proof (intro exI [of _ b] conjI)
    show "?a \<le> b" "b \<le> ?e" by (fact be)+
    show "CHUNK_FIXED + units (take (b - ?a) (drop ?a ?runs)) \<le> ch_budget c \<or> b \<le> Suc ?a"
      using fits taken by (auto simp: b_def)
    show "?a < b \<and> (b < ?e \<or> ?e = length ?runs) \<and> row_chunks_next c = Some (Some (mid_chunk c b), chunks_at c b) \<and>
        ch_budget c < CHUNK_FIXED + units (take (b - ?a) (drop ?a ?runs)) + next_unit c b \<or>
      b = ?e \<and> (\<exists>c'. ch_done c' \<and> row_chunks_next c =
         Some (if chunk_is_empty (last_chunk c) \<and> 0 < ?a then None else Some (last_chunk c), c')) \<and>
       (?e = length ?runs \<longrightarrow> b = ?a \<or> chunk_encoded_len (last_chunk c) \<le> ch_budget c)"
    proof -
      have fill': "chunk_fill (ch_budget c) ?a (drop ?a (take ?e ?runs)) (CHUNK_FIXED, 0, ch_byte c, ?a) =
          (CHUNK_FIXED + units (take k rest), cells_of (take k rest), bytes_of (take b ?runs), b)"
        unfolding rest_def [symmetric] by (rule fill [folded b_def sums(1)])
      have le: "ch_byte c \<le> bytes_of (take b ?runs)" using sums(1) by simp
      have slice: "str_get (rf_text ?row) (ch_byte c) (bytes_of (take b ?runs)) =
          Some (take (bytes_of (take b ?runs) - ch_byte c) (drop (ch_byte c) (rf_text ?row)))"
        by (rule str_get_slice [OF snd le]) (auto simp: at)
      have slice': "str_get (rf_text ?row) (ch_byte c) (row_painted_bytes ?row) =
          Some (take (row_painted_bytes ?row - ch_byte c) (drop (ch_byte c) (rf_text ?row)))"
        using le bound(1) by (intro str_get_slice [OF snd]) (auto simp: at)
      have sat: "u16_saturating_add (ch_cell c) (cells_of (take k rest)) = cells_of (take b ?runs)"
        using small' sums(2) by (simp add: u16_saturating_add_def)
      have min1: "min (bytes_of (take b ?runs)) (row_painted_bytes ?row) = bytes_of (take b ?runs)"
        using bound(1) by simp
      have units_b: "units (take (b - ?a) (drop ?a ?runs)) = units (take k rest)" by (simp add: taken b_def)
      have mid: "mid_chunk c b = \<lparr>rk_text = take (bytes_of (take b ?runs) - ch_byte c) (drop (ch_byte c) (rf_text ?row)),
          rk_runs = take (b - ?a) (drop ?a ?runs), rk_cells = cells_of (take k rest), rk_col = ch_cell c,
          rk_byte = narrow (ch_byte c)\<rparr>"
        by (simp add: mid_chunk_def chunk_between_def Let_def at sums(2))
      have last: "last_chunk c = \<lparr>rk_text = take (stop_byte c - ch_byte c) (drop (ch_byte c) (rf_text ?row)),
          rk_runs = take (?e - ?a) (drop ?a ?runs), rk_cells = stop_cell c - ch_cell c, rk_col = ch_cell c,
          rk_byte = narrow (ch_byte c)\<rparr>"
        by (simp add: last_chunk_def chunk_between_def Let_def at)
      consider (mid) "b < ?e" | (short) "b = ?e" "?e < length ?runs" | (tail) "b = ?e" "?e = length ?runs"
        using be ae by linarith
      then show ?thesis
      proof cases
        case mid
        then have kl: "k < length rest" "rest ! k = ?runs ! b" using ae by (simp_all add: rest_def b_def)
        have runs: "take (b - ?a) (drop ?a ?runs) \<noteq> []" using more [OF kl(1)] mid ae by (simp add: b_def)
        have "ch_budget c < CHUNK_FIXED + units (take k rest) + next_unit c b"
          using more [OF kl(1)] kl mid by (simp add: take_Suc_conv_app_nth next_unit_def add.assoc)
        moreover have "row_chunks_next c = Some (Some (mid_chunk c b), chunks_at c b)"
          using nd fill' mid more [OF kl(1)] runs
          by (simp add: row_chunks_next_def Let_def painted min1 slice sat chunks_at_def \<open>mid_chunk c b = _\<close>
              chunk_is_empty_def b_def [symmetric])
        ultimately show ?thesis using mid more [OF kl(1)] units_b by (simp add: b_def)
      next
        case short
        note here = fill' [unfolded short(1)] min1 [unfolded short(1)] slice [unfolded short(1)]
        have stop: "stop_byte c = bytes_of (take ?e ?runs)" "stop_cell c - ch_cell c = cells_of (take k rest)"
          using short sums(2) by (simp_all add: stop_byte_def stop_cell_def)
        have "row_chunks_next c = Some (if chunk_is_empty (last_chunk c) \<and> 0 < ?a then None else Some (last_chunk c),
            c\<lparr>ch_run := ?e, ch_byte := bytes_of (take ?e ?runs),
              ch_cell := u16_saturating_add (ch_cell c) (cells_of (take k rest)), ch_done := True\<rparr>)"
          using nd short by (simp add: row_chunks_next_def Let_def painted here last stop)
        then show ?thesis using short by auto
      next
        case tail
        have stop: "stop_byte c = row_painted_bytes ?row" "stop_cell c = rf_cells ?row"
          using tail by (simp_all add: stop_byte_def stop_cell_def)
        have max1: "max (row_painted_bytes ?row) (bytes_of (take b ?runs)) = row_painted_bytes ?row"
          using bound(1) by simp
        have cells: "u16_saturating_add (cells_of (take k rest)) (rf_cells ?row - cells_of (take b ?runs)) =
            rf_cells ?row - ch_cell c"
          using bound(2) sums(2) rs(4) by (simp add: u16_saturating_add_def)
        have tb: "take b ?runs = ?runs" using tail by simp
        show ?thesis
        proof (cases "CHUNK_FIXED + units (take k rest) + (row_painted_bytes ?row - bytes_of (take b ?runs)) \<le> ch_budget c \<or> ?a = b")
          case True
          then have T: "CHUNK_FIXED + units (take k rest) + (row_painted_bytes ?row - bytes_of (take b ?runs)) \<le> ch_budget c \<or>
              ?a = b \<and> cells_of (take k rest) = 0" by (auto simp: b_def)
          have len: "chunk_encoded_len (last_chunk c) =
              CHUNK_FIXED + units (take k rest) + (row_painted_bytes ?row - bytes_of (take b ?runs))"
            using bound(1) rs(6) le sums(1) tail taken
            by (simp add: last chunk_encoded_len_def stop units_split b_def)
          have nx: "row_chunks_next c = Some (if chunk_is_empty (last_chunk c) \<and> 0 < ?a then None else Some (last_chunk c),
              c\<lparr>ch_run := b, ch_byte := row_painted_bytes ?row,
                ch_cell := u16_saturating_add (ch_cell c) (rf_cells ?row - ch_cell c), ch_done := True\<rparr>)"
            using nd fill' tail small' T
            by (simp add: row_chunks_next_def Let_def painted slice' sat last stop max1 [unfolded tb] cells [unfolded tb]
                sums(2) [symmetric])
          show ?thesis using tail nx len True by auto
        next
          case False
          have runs: "take (b - ?a) (drop ?a ?runs) \<noteq> []" using False tail ae be by (simp add: b_def)
          have "row_chunks_next c = Some (Some (mid_chunk c b), chunks_at c b)"
            using nd fill' tail False small' runs
            by (simp add: row_chunks_next_def Let_def painted min1 [unfolded tb] slice [unfolded tb] sat [unfolded tb]
                chunks_at_def mid [unfolded tb, unfolded tail] chunk_is_empty_def sums(2) [symmetric])
          then show ?thesis using False tail be units_b by (auto simp: next_unit_def)
        qed
      qed
    qed
  qed
qed

section \<open>All the chunks of a span\<close>

lemma char_boundary_slice:
  assumes "is_char_boundary t (start + i)" "i \<le> n" "start + n \<le> length t"
  shows "is_char_boundary (take n (drop start t)) i"
  using assms by (auto simp: is_char_boundary_def split: if_splits)

lemma running_runs_shift:
  assumes "running (run_ok t cells) run_cover (c0 + c, b0 + b) rs" "c + cells_of rs \<le> cells'" "b + bytes_of rs \<le> n"
    "b0 + n \<le> length t"
  shows "running (run_ok (take n (drop b0 t)) cells') run_cover (c, b) rs"
  using assms
proof (induction rs arbitrary: c b)
  case (Cons r rs)
  have step: "run_cover (c0 + c, b0 + b) r = (c0 + (c + ru_cells r), b0 + (b + ru_bytes r))"
    "run_cover (c, b) r = (c + ru_cells r, b + ru_bytes r)" by (simp_all add: run_cover_def)
  have "run_ok (take n (drop b0 t)) cells' (c, b) r"
    using Cons.prems char_boundary_slice [of t b0 "b + ru_bytes r" n] by (auto simp: run_ok_def add.assoc)
  then show ?case using Cons.IH [of "c + ru_cells r" "b + ru_bytes r"] Cons.prems by (simp add: step add.assoc)
qed simp

lemma take_slice_sums:
  assumes "a \<le> b"
  shows "bytes_of (take b rs) = bytes_of (take a rs) + bytes_of (take (b - a) (drop a rs))"
    "cells_of (take b rs) = cells_of (take a rs) + cells_of (take (b - a) (drop a rs))"
  using take_more [of a "b - a" rs] assms by simp_all

lemma chunk_between_fits:
  assumes row: "row_sound cols row" and ab: "a \<le> b" "b \<le> length (rf_runs row)"
    and till: "bytes_of (take b (rf_runs row)) \<le> till" "till = bytes_of (take b (rf_runs row)) \<or> till = row_painted_bytes row"
    and cells: "cells_of (take b (rf_runs row)) \<le> cells_of (take a (rf_runs row)) + cells"
      "cells_of (take a (rf_runs row)) + cells \<le> rf_cells row"
  shows "chunk_fits cols (chunk_between row a b till cells)"
    "length (rk_text (chunk_between row a b till cells)) = till - bytes_of (take a (rf_runs row))"
proof -
  let ?runs = "rf_runs row" and ?mine = "take (b - a) (drop a (rf_runs row))"
  let ?start = "bytes_of (take a (rf_runs row))"
  note rs = row_sound_facts [OF row] and sums = take_slice_sums [OF ab(1), of ?runs]
  have le: "?start \<le> till" using till(1) sums by simp
  have got: "str_get (rf_text row) ?start till = Some (take (till - ?start) (drop ?start (rf_text row)))"
    by (rule str_get_slice [OF row le]) (use till(2) in auto)
  note slice = str_get_utf8 [OF rs(1) got]
  show "length (rk_text (chunk_between row a b till cells)) = till - ?start"
    using slice(2) by (simp add: chunk_between_def Let_def)
  have "running (run_ok (rf_text row) (rf_cells row)) run_cover (0, 0) (take a ?runs @ ?mine @ drop b ?runs)"
    using row ab by (simp add: row_sound_def row_fits_def row_tiles_def flip: append_assoc take_more)
  then have "running (run_ok (rf_text row) (rf_cells row)) run_cover (cells_of (take a ?runs) + 0, ?start + 0) ?mine"
    by (simp add: running_append foldl_cover)
  from running_runs_shift [OF this, of cells "till - ?start"]
  have "row_tiles (take (till - ?start) (drop ?start (rf_text row))) cells ?mine"
    using sums cells till(1) slice(3) le by (simp add: row_tiles_def)
  then show "chunk_fits cols (chunk_between row a b till cells)"
    using row slice(1) cells ab by (auto simp: chunk_fits_def chunk_between_def Let_def row_sound_def row_fits_def u16_typed_def)
qed

text \<open>Chunks that land end to end, and the bytes of a chunk beyond its fixed part.\<close>

fun placed :: "nat \<Rightarrow> nat \<Rightarrow> row_chunk list \<Rightarrow> bool" where
  "placed col byte [] \<longleftrightarrow> True"
| "placed col byte (k # ks) \<longleftrightarrow>
     rk_col k = col \<and> rk_byte k = byte \<and> placed (col + rk_cells k) (byte + length (rk_text k)) ks"

definition chunk_load :: "row_chunk \<Rightarrow> nat" where
  "chunk_load k = length (rk_text k) + style_len (rk_runs k)"

fun crowded :: "nat \<Rightarrow> row_chunk list \<Rightarrow> bool" where
  "crowded budget (k # k' # ks) \<longleftrightarrow> budget < chunk_encoded_len k + chunk_load k' \<and> crowded budget (k' # ks)"
| "crowded budget _ \<longleftrightarrow> True"

definition span_cut :: "nat \<Rightarrow> row_chunks \<Rightarrow> row_chunk list \<Rightarrow> bool" where
  "span_cut cols c ks \<longleftrightarrow>
     concat (map rk_text ks) = take (stop_byte c - ch_byte c) (drop (ch_byte c) (rf_text (ch_row c))) \<and>
     concat (map rk_runs ks) = take (ch_end c - ch_run c) (drop (ch_run c) (rf_runs (ch_row c))) \<and>
     ch_cell c + sum_list (map rk_cells ks) = stop_cell c \<and> placed (ch_cell c) (ch_byte c) ks \<and>
     list_all (chunk_fits cols) ks \<and> crowded (ch_budget c) ks \<and>
     list_all (\<lambda>k. chunk_encoded_len k \<le> ch_budget c \<or> length (rk_runs k) \<le> 1) ks"

lemma sound_byte_narrow:
  assumes "row_sound cols row"
  shows "narrow (bytes_of (take n (rf_runs row))) = bytes_of (take n (rf_runs row))"
  using row_sound_facts(4,5,6) [OF assms] take_sums_all(1) [of n "rf_runs row"] assms
  by (simp add: narrow_def row_sound_def MAX_CLUSTER_BYTES_def u32_max_def)

lemma chunks_at_inv:
  assumes "chunks_inv cols c" "b \<le> ch_end c"
  shows "chunks_inv cols (chunks_at c b)"
  using assms by (simp add: chunks_inv_def chunks_at_def)

lemma chunks_at_simps [simp]:
  "ch_row (chunks_at c b) = ch_row c" "ch_end (chunks_at c b) = ch_end c" "ch_run (chunks_at c b) = b"
  "ch_budget (chunks_at c b) = ch_budget c" "ch_done (chunks_at c b) = ch_done c"
  "ch_byte (chunks_at c b) = bytes_of (take b (rf_runs (ch_row c)))"
  "ch_cell (chunks_at c b) = cells_of (take b (rf_runs (ch_row c)))"
  "stop_byte (chunks_at c b) = stop_byte c" "stop_cell (chunks_at c b) = stop_cell c"
  "next_unit (chunks_at c b) n = next_unit c n"
  by (simp_all add: chunks_at_def stop_byte_def stop_cell_def next_unit_def)

lemma stop_after:
  assumes "chunks_inv cols c" "b \<le> ch_end c"
  shows "bytes_of (take b (rf_runs (ch_row c))) \<le> stop_byte c" "cells_of (take b (rf_runs (ch_row c))) \<le> stop_cell c"
    "stop_byte c \<le> length (rf_text (ch_row c))" "stop_cell c \<le> rf_cells (ch_row c)"
  using assms row_sound_facts(2,5,6) [of cols "ch_row c"] take_sums_le [OF assms(2), of "rf_runs (ch_row c)"]
    take_sums_all [of b "rf_runs (ch_row c)"] take_sums_all [of "ch_end c" "rf_runs (ch_row c)"]
  by (auto simp: stop_byte_def stop_cell_def chunks_inv_def)

lemma mid_chunk_facts:
  assumes inv: "chunks_inv cols c" and b: "ch_run c \<le> b" "b \<le> ch_end c"
  shows "chunk_fits cols (mid_chunk c b)" "rk_col (mid_chunk c b) = ch_cell c" "rk_byte (mid_chunk c b) = ch_byte c"
    "rk_text (mid_chunk c b) = take (bytes_of (take b (rf_runs (ch_row c))) - ch_byte c) (drop (ch_byte c) (rf_text (ch_row c)))"
    "rk_runs (mid_chunk c b) = take (b - ch_run c) (drop (ch_run c) (rf_runs (ch_row c)))"
    "ch_cell c + rk_cells (mid_chunk c b) = cells_of (take b (rf_runs (ch_row c)))"
    "ch_byte c + length (rk_text (mid_chunk c b)) = bytes_of (take b (rf_runs (ch_row c)))"
    "chunk_load (mid_chunk c b) = units (take (b - ch_run c) (drop (ch_run c) (rf_runs (ch_row c))))"
proof -
  let ?runs = "rf_runs (ch_row c)"
  have row: "row_sound cols (ch_row c)" and e: "b \<le> length ?runs"
    and at: "ch_byte c = bytes_of (take (ch_run c) ?runs)" "ch_cell c = cells_of (take (ch_run c) ?runs)"
    using inv b by (simp_all add: chunks_inv_def)
  note sums = take_slice_sums [OF b(1), of ?runs] and top = stop_after [OF inv b(2)]
  have fits: "chunk_fits cols (mid_chunk c b)"
    "length (rk_text (mid_chunk c b)) = bytes_of (take b ?runs) - bytes_of (take (ch_run c) ?runs)"
    unfolding mid_chunk_def
    by (rule chunk_between_fits [OF row b(1) e]; use sums top(2,4) at in simp)+
  then show "chunk_fits cols (mid_chunk c b)" by simp
  show parts: "rk_col (mid_chunk c b) = ch_cell c" "rk_byte (mid_chunk c b) = ch_byte c"
    "rk_text (mid_chunk c b) = take (bytes_of (take b ?runs) - ch_byte c) (drop (ch_byte c) (rf_text (ch_row c)))"
    "rk_runs (mid_chunk c b) = take (b - ch_run c) (drop (ch_run c) ?runs)"
    "ch_cell c + rk_cells (mid_chunk c b) = cells_of (take b ?runs)"
    using sums at sound_byte_narrow [OF row] by (simp_all add: mid_chunk_def chunk_between_def Let_def)
  show "ch_byte c + length (rk_text (mid_chunk c b)) = bytes_of (take b ?runs)" using fits(2) sums at by simp
  show "chunk_load (mid_chunk c b) = units (take (b - ch_run c) (drop (ch_run c) ?runs))"
    using fits(2) sums(1) by (simp add: chunk_load_def parts(4) units_split)
qed

lemma last_chunk_facts:
  assumes inv: "chunks_inv cols c"
  shows "chunk_fits cols (last_chunk c)" "rk_col (last_chunk c) = ch_cell c" "rk_byte (last_chunk c) = ch_byte c"
    "rk_text (last_chunk c) = take (stop_byte c - ch_byte c) (drop (ch_byte c) (rf_text (ch_row c)))"
    "rk_runs (last_chunk c) = take (ch_end c - ch_run c) (drop (ch_run c) (rf_runs (ch_row c)))"
    "ch_cell c + rk_cells (last_chunk c) = stop_cell c"
    "chunk_load (last_chunk c) = units (take (ch_end c - ch_run c) (drop (ch_run c) (rf_runs (ch_row c)))) +
       (stop_byte c - bytes_of (take (ch_end c) (rf_runs (ch_row c))))"
proof -
  let ?runs = "rf_runs (ch_row c)"
  have row: "row_sound cols (ch_row c)" and e: "ch_run c \<le> ch_end c" "ch_end c \<le> length ?runs"
    and at: "ch_byte c = bytes_of (take (ch_run c) ?runs)" "ch_cell c = cells_of (take (ch_run c) ?runs)"
    using inv by (simp_all add: chunks_inv_def)
  note sums = take_slice_sums [OF e(1), of ?runs] and top = stop_after [OF inv order_refl]
  have fits: "chunk_fits cols (last_chunk c)"
    "length (rk_text (last_chunk c)) = stop_byte c - bytes_of (take (ch_run c) ?runs)"
    unfolding last_chunk_def
    by (rule chunk_between_fits [OF row e]; use sums top at in \<open>simp add: stop_byte_def\<close>)+
  then show "chunk_fits cols (last_chunk c)" by simp
  show parts: "rk_col (last_chunk c) = ch_cell c" "rk_byte (last_chunk c) = ch_byte c"
    "rk_text (last_chunk c) = take (stop_byte c - ch_byte c) (drop (ch_byte c) (rf_text (ch_row c)))"
    "rk_runs (last_chunk c) = take (ch_end c - ch_run c) (drop (ch_run c) ?runs)"
    "ch_cell c + rk_cells (last_chunk c) = stop_cell c"
    using sums top at sound_byte_narrow [OF row] by (simp_all add: last_chunk_def chunk_between_def Let_def)
  show "chunk_load (last_chunk c) = units (take (ch_end c - ch_run c) (drop (ch_run c) ?runs)) +
       (stop_byte c - bytes_of (take (ch_end c) ?runs))"
    using fits(2) sums(1) top(1) by (simp add: chunk_load_def parts(4) units_split)
qed

lemma units_first: "n < length rs \<Longrightarrow> 0 < k \<Longrightarrow> run_unit (rs ! n) \<le> units (take k (drop n rs))"
  by (cases k) (auto simp: Cons_nth_drop_Suc [symmetric])

lemma load_len: "chunk_encoded_len k = CHUNK_FIXED + chunk_load k"
  by (simp add: chunk_encoded_len_def chunk_load_def)

text \<open>The first chunk carries at least the unit the one before it stopped at.\<close>

definition leads :: "row_chunks \<Rightarrow> row_chunk list \<Rightarrow> bool" where
  "leads c ks \<longleftrightarrow> ks \<noteq> [] \<and> (ch_run c < ch_end c \<or> ch_end c = length (rf_runs (ch_row c))) \<longrightarrow>
     next_unit c (ch_run c) \<le> chunk_load (hd ks)"

lemma last_cut:
  assumes inv: "chunks_inv cols c"
    and few: "CHUNK_FIXED + units (take (ch_end c - ch_run c) (drop (ch_run c) (rf_runs (ch_row c)))) \<le> ch_budget c \<or>
      ch_end c \<le> Suc (ch_run c)"
    and tail: "ch_end c = length (rf_runs (ch_row c)) \<longrightarrow> ch_end c = ch_run c \<or> chunk_encoded_len (last_chunk c) \<le> ch_budget c"
  shows "span_cut cols c [last_chunk c]" "leads c [last_chunk c]"
    "chunk_is_empty (last_chunk c) \<Longrightarrow> span_cut cols c []"
proof -
  note last = last_chunk_facts [OF inv]
  have ends: "ch_run c \<le> ch_end c" "ch_end c \<le> length (rf_runs (ch_row c))"
    "ch_byte c = bytes_of (take (ch_run c) (rf_runs (ch_row c)))"
    using inv by (simp_all add: chunks_inv_def)
  have "chunk_encoded_len (last_chunk c) \<le> ch_budget c \<or> length (rk_runs (last_chunk c)) \<le> 1"
    using few tail last(5,7) by (auto simp: load_len stop_byte_def)
  then show "span_cut cols c [last_chunk c]" using last by (simp add: span_cut_def)
  show "chunk_is_empty (last_chunk c) \<Longrightarrow> span_cut cols c []"
    using last by (auto simp: span_cut_def chunk_is_empty_def)
  show "leads c [last_chunk c]"
    using last(7) ends units_first [of "ch_run c" "rf_runs (ch_row c)" "ch_end c - ch_run c"]
    by (auto simp: leads_def next_unit_def stop_byte_def)
qed

lemma mid_cut:
  assumes inv: "chunks_inv cols c" and b: "ch_run c < b" "b \<le> ch_end c" "b < ch_end c \<or> ch_end c = length (rf_runs (ch_row c))"
    and few: "CHUNK_FIXED + units (take (b - ch_run c) (drop (ch_run c) (rf_runs (ch_row c)))) \<le> ch_budget c \<or> b \<le> Suc (ch_run c)"
    and over: "ch_budget c < CHUNK_FIXED + units (take (b - ch_run c) (drop (ch_run c) (rf_runs (ch_row c)))) + next_unit c b"
    and rest: "span_cut cols (chunks_at c b) ks" "leads (chunks_at c b) ks"
  shows "span_cut cols c (mid_chunk c b # ks)" "leads c (mid_chunk c b # ks)"
proof -
  let ?runs = "rf_runs (ch_row c)"
  note mid = mid_chunk_facts [OF inv less_imp_le [OF b(1)] b(2)]
  note top = stop_after [OF inv b(2)]
  have ends: "ch_end c \<le> length ?runs" "ch_byte c = bytes_of (take (ch_run c) ?runs)" using inv by (simp_all add: chunks_inv_def)
  have crowd: "crowded (ch_budget c) (mid_chunk c b # ks)"
    using rest b(3) over mid(8) by (cases ks) (auto simp: span_cut_def leads_def load_len)
  have "stop_byte c - ch_byte c = (bytes_of (take b ?runs) - ch_byte c) + (stop_byte c - bytes_of (take b ?runs))"
    using top(1) mid(7) by simp
  then have t: "take (stop_byte c - ch_byte c) (drop (ch_byte c) (rf_text (ch_row c))) =
      rk_text (mid_chunk c b) @ take (stop_byte c - bytes_of (take b ?runs)) (drop (bytes_of (take b ?runs)) (rf_text (ch_row c)))"
    using mid(4,7) by (simp only: take_add) (simp add: add.commute)
  have "ch_end c - ch_run c = (b - ch_run c) + (ch_end c - b)" using b by simp
  then have r: "take (ch_end c - ch_run c) (drop (ch_run c) ?runs) = rk_runs (mid_chunk c b) @ take (ch_end c - b) (drop b ?runs)"
    using mid(5) b(1) by (simp only: take_add) (simp add: add.commute)
  show "span_cut cols c (mid_chunk c b # ks)"
    using rest(1) crowd few mid t r b by (auto simp: span_cut_def load_len)
  show "leads c (mid_chunk c b # ks)"
    using mid(8) b ends units_first [of "ch_run c" ?runs "b - ch_run c"] by (auto simp: leads_def next_unit_def)
qed

lemma chunks_all:
  "chunks_inv cols c \<Longrightarrow> \<not> ch_done c \<Longrightarrow> \<exists>ks. row_chunks_all c = Some ks \<and> span_cut cols c ks \<and> leads c ks"
proof (induction "ch_end c - ch_run c" arbitrary: c rule: less_induct)
  case less
  from next_spec [OF less.prems] obtain b where b: "ch_run c \<le> b" "b \<le> ch_end c"
    "CHUNK_FIXED + units (take (b - ch_run c) (drop (ch_run c) (rf_runs (ch_row c)))) \<le> ch_budget c \<or> b \<le> Suc (ch_run c)"
    and split: "ch_run c < b \<and> (b < ch_end c \<or> ch_end c = length (rf_runs (ch_row c))) \<and>
       row_chunks_next c = Some (Some (mid_chunk c b), chunks_at c b) \<and>
       ch_budget c < CHUNK_FIXED + units (take (b - ch_run c) (drop (ch_run c) (rf_runs (ch_row c)))) + next_unit c b
     \<or> b = ch_end c \<and> (\<exists>c'. ch_done c' \<and> row_chunks_next c =
         Some (if chunk_is_empty (last_chunk c) \<and> 0 < ch_run c then None else Some (last_chunk c), c')) \<and>
       (ch_end c = length (rf_runs (ch_row c)) \<longrightarrow> b = ch_run c \<or> chunk_encoded_len (last_chunk c) \<le> ch_budget c)"
      (is "?mid \<or> ?last")
    by blast
  from split show ?case
  proof
    assume ?mid
    then have m: "ch_run c < b" "b < ch_end c \<or> ch_end c = length (rf_runs (ch_row c))"
      "row_chunks_next c = Some (Some (mid_chunk c b), chunks_at c b)"
      "ch_budget c < CHUNK_FIXED + units (take (b - ch_run c) (drop (ch_run c) (rf_runs (ch_row c)))) + next_unit c b"
      by blast+
    have "ch_end c - b < ch_end c - ch_run c" using m(1) b(2) by linarith
    with less.hyps [of "chunks_at c b"] less.prems chunks_at_inv [OF less.prems(1) b(2)]
    obtain ks where ks: "row_chunks_all (chunks_at c b) = Some ks" "span_cut cols (chunks_at c b) ks" "leads (chunks_at c b) ks"
      by auto
    moreover have "row_chunks_all c = Some (mid_chunk c b # ks)" by (subst row_chunks_all.simps) (simp add: m(3) ks(1))
    ultimately show ?case using mid_cut [OF less.prems(1) m(1) b(2) m(2) b(3) m(4)] by blast
  next
    assume ?last
    then obtain c' where e: "b = ch_end c" "ch_done c'" "row_chunks_next c =
         Some (if chunk_is_empty (last_chunk c) \<and> 0 < ch_run c then None else Some (last_chunk c), c')"
      "ch_end c = length (rf_runs (ch_row c)) \<longrightarrow> b = ch_run c \<or> chunk_encoded_len (last_chunk c) \<le> ch_budget c"
      by blast
    note last = last_cut [OF less.prems(1) b(3) [unfolded e(1)] e(4) [unfolded e(1)]]
    have over: "row_chunks_all c' = Some []" using e(2) by (subst row_chunks_all.simps) (simp add: row_chunks_next_def)
    show ?case
    proof (cases "chunk_is_empty (last_chunk c) \<and> 0 < ch_run c")
      case True
      then have "row_chunks_all c = Some []" using e(3) by (subst row_chunks_all.simps) simp
      then show ?thesis using last(3) True by (auto simp: leads_def)
    next
      case False
      then have "row_chunks_all c = Some [last_chunk c]" using e(3) over by (subst row_chunks_all.simps) simp
      then show ?thesis using last(1,2) by blast
    qed
  qed
qed

end
