(* ===== verification/Proto_Pieces.thy ===== *)
theory Proto_Pieces
  imports Proto_Cut
begin

text \<open>
  A screen cut into pieces, read back. Every update of a sound screen yields entries without a panic,
  the entries of one row would not have fitted one piece together, so no piece names a row twice; every
  piece \<^verbatim>\<open>encode_screen_parts\<close> of \<^verbatim>\<open>src/crates/proto/src/lib.rs\<close> writes fits the budget and decodes to
  the head or the tail it stands for.
\<close>

section \<open>The entries of one update\<close>

definition update_chunks :: "nat \<Rightarrow> row_update \<Rightarrow> row_chunks" where
  "update_chunks budget u = row_span (up_frame u) (up_runs u) budget"

lemma row_run_start_sound:
  assumes "row_sound cols row"
  shows "row_run_start row n = (cells_of (take n (rf_runs row)), bytes_of (take n (rf_runs row)))"
proof -
  have "cells + cells_of rs \<le> 65535 \<Longrightarrow>
      foldl (\<lambda>(col, byte) run. (u16_saturating_add col (ru_cells run), byte + ru_bytes run)) (cells, bytes) rs =
      (cells + cells_of rs, bytes + bytes_of rs)" for cells bytes rs
    by (induction rs arbitrary: cells bytes) (auto simp: u16_saturating_add_def)
  from this [of 0 "take n (rf_runs row)" 0] show ?thesis
    using row_sound_facts(2,4) [OF assms] take_sums_all(2) [of n "rf_runs row"] by (simp add: row_run_start_def)
qed

lemma update_chunks_inv:
  assumes "row_sound cols (up_frame u)"
  shows "chunks_inv cols (update_chunks budget u)" "\<not> ch_done (update_chunks budget u)"
    "ch_budget (update_chunks budget u) = budget" "ch_row (update_chunks budget u) = up_frame u"
  using assms by (simp_all add: update_chunks_def row_span_def row_clamp_runs_def Let_def chunks_inv_def
      row_run_start_sound split_def)

text \<open>The erase falls on the last entry alone.\<close>

definition erase_last :: "bool \<Rightarrow> row_entry list \<Rightarrow> bool" where
  "erase_last clear es \<longleftrightarrow> (clear \<longrightarrow> es \<noteq> []) \<and>
     map en_clear_tail es = (if es = [] then [] else replicate (length es - 1) False @ [clear])"

definition update_cut :: "nat \<Rightarrow> nat \<Rightarrow> row_update \<Rightarrow> row_entry list \<Rightarrow> bool" where
  "update_cut cols budget u es \<longleftrightarrow>
     span_cut cols (update_chunks budget u) (map en_frame es) \<and> list_all (\<lambda>e. en_row e = up_row u) es \<and>
     list_all (\<lambda>e. en_chunk e = (budget < row_span_len (up_frame u) (up_runs u))) es \<and>
     erase_last (up_clear_tail u) es"

lemma entries_of_cut:
  "map en_frame (entries_of row is_cut clear ks) = ks" "list_all (\<lambda>e. en_row e = row) (entries_of row is_cut clear ks)"
  "list_all (\<lambda>e. en_chunk e = is_cut) (entries_of row is_cut clear ks)" "length (entries_of row is_cut clear ks) = length ks"
  "ks \<noteq> [] \<Longrightarrow> map en_clear_tail (entries_of row is_cut clear ks) = replicate (length ks - 1) False @ [clear]"
proof -
  show "map en_frame (entries_of row is_cut clear ks) = ks" "list_all (\<lambda>e. en_row e = row) (entries_of row is_cut clear ks)"
    "list_all (\<lambda>e. en_chunk e = is_cut) (entries_of row is_cut clear ks)" "length (entries_of row is_cut clear ks) = length ks"
    by (induction ks) auto
  show "ks \<noteq> [] \<Longrightarrow> map en_clear_tail (entries_of row is_cut clear ks) = replicate (length ks - 1) False @ [clear]"
    by (induction ks) (auto, case_tac ks, auto)
qed

lemma span_cut_erase:
  assumes "span_cut cols c []" "k = \<lparr>rk_text = [], rk_runs = [], rk_cells = 0, rk_col = ch_cell c, rk_byte = ch_byte c\<rparr>"
  shows "span_cut cols c [k]"
  using assms by (simp add: span_cut_def chunk_fits_def row_tiles_def u16_typed_def)

lemma update_entries_cut:
  assumes "row_sound cols (up_frame u)"
  shows "\<exists>es. update_entries budget u = Some es \<and> update_cut cols budget u es"
proof -
  let ?c = "update_chunks budget u"
  note inv = update_chunks_inv [OF assms, of budget]
  from chunks_all [OF inv(1,2)] obtain ks where ks: "row_chunks_all ?c = Some ks" "span_cut cols ?c ks" by blast
  have byte: "narrow (ch_byte ?c) = ch_byte ?c"
    using inv(1) sound_byte_narrow [OF assms] inv(4) by (simp add: chunks_inv_def)
  show ?thesis
  proof (cases ks)
    case Nil
    then show ?thesis
      using ks byte span_cut_erase [of cols ?c]
      by (auto simp: update_entries_def update_chunks_def Let_def update_cut_def erase_last_def row_chunks_start_def)
  next
    case (Cons k ks')
    then have "length (entries_of row is_cut clear ks) = Suc (length ks')" for row is_cut clear
      by (simp add: entries_of_cut)
    then have "entries_of row is_cut clear ks \<noteq> []" for row is_cut clear by (metis list.size(3) nat.simps(3))
    with Cons show ?thesis
      using ks by (auto simp: update_entries_def update_chunks_def Let_def update_cut_def erase_last_def entries_of_cut
          simp del: entries_of.simps)
  qed
qed

section \<open>The entries of a screen\<close>

fun apart :: "nat \<Rightarrow> row_entry list \<Rightarrow> bool" where
  "apart budget (e # e' # es) \<longleftrightarrow>
     (en_row e < en_row e' \<or> budget < chunk_encoded_len (en_frame e) + chunk_load (en_frame e')) \<and>
     en_row e \<le> en_row e' \<and> apart budget (e' # es)"
| "apart budget _ \<longleftrightarrow> True"

lemma apart_append:
  "apart budget xs \<Longrightarrow> apart budget ys \<Longrightarrow> \<forall>x \<in> set xs. \<forall>y \<in> set ys. en_row x < en_row y \<Longrightarrow>
   apart budget (xs @ ys)"
  by (induction budget xs rule: apart.induct) (auto, (cases ys; auto)+)

lemma apart_split: "apart budget (xs @ ys) \<Longrightarrow> apart budget xs \<and> apart budget ys"
  by (induction budget xs rule: apart.induct) (auto, (cases ys; auto)+)

lemma crowded_apart:
  "crowded budget (map en_frame es) \<Longrightarrow> list_all (\<lambda>e. en_row e = row) es \<Longrightarrow> apart budget es"
  by (induction budget es rule: apart.induct) auto

text \<open>Rows in order, each sound and on the grid.\<close>

definition rows_sound :: "grid_size \<Rightarrow> row_update list \<Rightarrow> bool" where
  "rows_sound grid rows \<longleftrightarrow> sorted_wrt (<) (map up_row rows) \<and>
     list_all (\<lambda>u. up_row u < gs_rows grid \<and> row_sound (gs_cols grid) (up_frame u)) rows"

definition entry_inside :: "grid_size \<Rightarrow> row_entry \<Rightarrow> bool" where
  "entry_inside grid e \<longleftrightarrow> en_row e < gs_rows grid \<and> chunk_fits (gs_cols grid) (en_frame e) \<and>
     rk_col (en_frame e) + rk_cells (en_frame e) \<le> gs_cols grid \<and>
     rk_byte (en_frame e) + length (rk_text (en_frame e)) \<le> gs_cols grid * MAX_CLUSTER_BYTES"

lemma placed_within:
  "placed col byte ks \<Longrightarrow> k \<in> set ks \<Longrightarrow>
   rk_col k + rk_cells k \<le> col + sum_list (map rk_cells ks) \<and>
   rk_byte k + length (rk_text k) \<le> byte + length (concat (map rk_text ks))"
  by (induction ks arbitrary: col byte) fastforce+

lemma update_cut_inside:
  assumes cut: "update_cut (gs_cols grid) budget u es" and u: "row_sound (gs_cols grid) (up_frame u)" "up_row u < gs_rows grid"
    and e: "e \<in> set es"
  shows "entry_inside grid e"
proof -
  let ?c = "update_chunks budget u"
  note inv = update_chunks_inv [OF u(1), of budget] and top = stop_after [OF update_chunks_inv(1) [OF u(1), of budget], of "ch_run ?c"]
  have sp: "span_cut (gs_cols grid) ?c (map en_frame es)" using cut by (simp add: update_cut_def)
  have "en_frame e \<in> set (map en_frame es)" using e by simp
  from placed_within [of "ch_cell ?c" "ch_byte ?c", OF _ this] sp
  have "rk_col (en_frame e) + rk_cells (en_frame e) \<le> stop_cell ?c"
    "rk_byte (en_frame e) + length (rk_text (en_frame e)) \<le> ch_byte ?c + (stop_byte ?c - ch_byte ?c)"
    by (auto simp: span_cut_def)
  moreover have "ch_byte ?c \<le> stop_byte ?c" "stop_byte ?c \<le> length (rf_text (up_frame u))" "stop_cell ?c \<le> rf_cells (up_frame u)"
    using top inv(1,4) by (simp_all add: chunks_inv_def)
  moreover have "length (rf_text (up_frame u)) \<le> gs_cols grid * MAX_CLUSTER_BYTES" "rf_cells (up_frame u) \<le> gs_cols grid"
    using u(1) by (auto simp: row_sound_def row_fits_def intro: le_trans mult_le_mono1)
  ultimately show ?thesis
    using sp cut e u(2) by (auto simp: entry_inside_def span_cut_def update_cut_def list_all_iff)
qed

text \<open>The entries of a whole screen are those of its updates in order.\<close>

lemma spans_cut:
  "rows_sound grid rows \<Longrightarrow> \<exists>ess. spans budget rows = Some (concat ess) \<and> apart budget (concat ess) \<and>
     list_all2 (update_cut (gs_cols grid) budget) rows ess \<and> list_all (entry_inside grid) (concat ess)"
proof (induction rows)
  case Nil
  then show ?case by (intro exI [of _ "[]"]) simp
next
  case (Cons u rows)
  have u: "row_sound (gs_cols grid) (up_frame u)" "up_row u < gs_rows grid" and after: "\<forall>v \<in> set rows. up_row u < up_row v"
    and rest: "rows_sound grid rows"
    using Cons.prems by (auto simp: rows_sound_def)
  from update_entries_cut [OF u(1)] obtain es where es: "update_entries budget u = Some es" "update_cut (gs_cols grid) budget u es"
    by blast
  from Cons.IH [OF rest] obtain ess where ess: "spans budget rows = Some (concat ess)" "apart budget (concat ess)"
    "list_all2 (update_cut (gs_cols grid) budget) rows ess" "list_all (entry_inside grid) (concat ess)" by blast
  have later: "\<exists>v \<in> set rows. en_row e = up_row v" if "e \<in> set (concat ess)" for e
    using ess(3) that
    by (induction rows ess rule: list_all2_induct) (auto simp: update_cut_def list_all_iff)
  have mine: "list_all (\<lambda>e. en_row e = up_row u) es" "apart budget es"
    using es(2) crowded_apart [of budget es] update_chunks_inv(3) [OF u(1)]
    by (auto simp: update_cut_def span_cut_def)
  have "apart budget (es @ concat ess)"
    by (rule apart_append [OF mine(2) ess(2)]) (use later mine(1) after in \<open>fastforce simp: list_all_iff\<close>)
  then show ?case
    using es ess update_cut_inside [OF es(2) u] by (intro exI [of _ "es # ess"]) (auto simp: list_all_iff)
qed

section \<open>Shares of a piece each\<close>

fun shares :: "(nat \<times> nat) list \<Rightarrow> 'a list \<Rightarrow> 'a list list" where
  "shares [] es = []"
| "shares ((n, used) # cuts) es = take n es # shares cuts (drop n es)"

definition total_cost :: "row_entry list \<Rightarrow> nat" where
  "total_cost es = sum_list (map entry_cost es)"

lemma total_cost_simps [simp]: "total_cost [] = 0" "total_cost (e # es) = entry_cost e + total_cost es"
  "total_cost (xs @ ys) = total_cost xs + total_cost ys"
  by (simp_all add: total_cost_def)

fun well_cut :: "nat \<Rightarrow> nat \<Rightarrow> (nat \<times> nat) list \<Rightarrow> row_entry list \<Rightarrow> bool" where
  "well_cut budget fixed [] es \<longleftrightarrow> es = []"
| "well_cut budget fixed ((n, used) # cuts) es \<longleftrightarrow> n \<le> length es \<and> used = fixed + total_cost (take n es) \<and>
     used \<le> budget \<and> well_cut budget TAIL_FIXED cuts (drop n es)"

lemma cut_pieces_well:
  "cut_pieces budget es (length taken, fixed + total_cost taken) = Inr cuts \<Longrightarrow> fixed + total_cost taken \<le> budget \<Longrightarrow>
   well_cut budget fixed cuts (taken @ es) \<and> cuts \<noteq> []"
proof (induction es arbitrary: taken fixed cuts)
  case Nil
  then show ?case by auto
next
  case (Cons e es)
  consider (fresh) cuts' where "cut_pieces budget es (length [e], TAIL_FIXED + total_cost [e]) = Inr cuts'"
      "cuts = (length taken, fixed + total_cost taken) # cuts'" "TAIL_FIXED + total_cost [e] \<le> budget"
    | (more) "cut_pieces budget es (length (taken @ [e]), fixed + total_cost (taken @ [e])) = Inr cuts"
      "fixed + total_cost (taken @ [e]) \<le> budget"
    using Cons.prems by (auto simp: Let_def add.assoc split: if_splits sum.splits)
  then show ?case
  proof cases
    case fresh
    then show ?thesis using Cons.IH [OF fresh(1)] Cons.prems(2) by simp
  next
    case more
    then show ?thesis using Cons.IH [OF more] by simp
  qed
qed

lemma well_cut_shares: "well_cut budget fixed cuts es \<Longrightarrow> concat (shares cuts es) = es \<and> length (shares cuts es) = length cuts"
  by (induction budget fixed cuts es rule: well_cut.induct) auto

text \<open>Two chunks of one row never share a piece.\<close>

lemma piece_rows_ascend:
  assumes "apart (budget - TAIL_FIXED - PART_ROW_HEAD) es" "TAIL_FIXED + total_cost es \<le> budget"
  shows "sorted_wrt (<) (map en_row es)"
  using assms
proof (induction es rule: induct_list012)
  case (3 e e' es)
  have "\<not> budget - TAIL_FIXED - PART_ROW_HEAD < chunk_encoded_len (en_frame e) + chunk_load (en_frame e')"
    using "3.prems"(2) by (simp add: entry_cost_def load_len)
  then have less: "en_row e < en_row e'" using "3.prems"(1) by auto
  have rest: "sorted_wrt (<) (map en_row (e' # es))" using "3.IH"(2) "3.prems" by simp
  then show ?case using less by auto
qed simp_all

lemma ascending_length:
  assumes "sorted_wrt (<) (xs :: nat list)" "list_all (\<lambda>x. x < n) xs"
  shows "length xs \<le> n"
proof -
  have "card (set xs) = length xs" using strict_sorted_iff assms(1) by (metis distinct_card)
  moreover have "card (set xs) \<le> card {..<n}" using assms(2) by (intro card_mono) (auto simp: list_all_iff)
  ultimately show ?thesis by simp
qed

lemma entry_inside_ok:
  assumes "entry_inside grid e" "grid_typed grid" "g = Some grid \<or> g = None" "\<not> row_before previous (en_row e) (rk_col (en_frame e))"
  shows "entry_ok g previous e"
proof -
  have lim: "gs_cols grid \<le> 1024" "gs_rows grid \<le> 512"
    using part_limits [of "Some grid"] assms(2) by (simp_all add: grid_option_typed_def part_cols_def part_row_limit_def)
  have cols: "gs_cols grid \<le> part_cols g" using assms(3) lim by (auto simp: part_cols_def GRID_MAX_COLS_def)
  have "gs_cols grid * MAX_CLUSTER_BYTES \<le> part_cols g * MAX_CLUSTER_BYTES" using cols by simp
  moreover have "gs_cols grid * MAX_CLUSTER_BYTES \<le> 1024 * 64" using lim(1) by (simp add: MAX_CLUSTER_BYTES_def)
  ultimately show ?thesis using assms lim cols
    by (auto simp: entry_inside_def entry_ok_def chunk_fits_def u16_typed_def u32_typed_def u32_max_def row_outside_def
        MAX_CLUSTER_BYTES_def)
qed

lemma entries_running:
  assumes "sorted_wrt (<) (map en_row es)" "list_all (entry_inside grid) es" "grid_typed grid" "g = Some grid \<or> g = None"
  shows "running (entry_ok g) entry_place None es" "length es \<le> part_row_limit g"
proof -
  have "(\<forall>e \<in> set es. \<forall>r c. previous = Some (r, c) \<longrightarrow> r < en_row e) \<Longrightarrow> running (entry_ok g) entry_place previous es" for previous
    using assms(1,2)
  proof (induction es arbitrary: previous)
    case (Cons e es)
    have "\<not> row_before previous (en_row e) (rk_col (en_frame e))"
      using Cons.prems(1) by (auto simp: row_before_def split: option.splits)
    then show ?case
      using Cons entry_inside_ok [OF _ assms(3,4)] by (auto simp: entry_place_def)
  qed simp
  then show "running (entry_ok g) entry_place None es" by simp
  have "gs_rows grid \<le> part_row_limit g"
    using assms(3,4) part_limits [of "Some grid"] by (auto simp: grid_option_typed_def part_row_limit_def GRID_MAX_ROWS_def)
  moreover have "length (map en_row es) \<le> gs_rows grid"
    by (rule ascending_length [OF assms(1)]) (use assms(2) in \<open>auto simp: list_all_iff entry_inside_def\<close>)
  ultimately show "length es \<le> part_row_limit g" by simp
qed

section \<open>Pieces on the wire\<close>

lemma entry_length: "utf8 (rk_text (en_frame e)) \<Longrightarrow> encode_part_row e = Inr bs \<Longrightarrow> length bs = entry_cost e"
  using encode_row_chunk_length by (fastforce simp: encode_part_row_def entry_cost_def PART_ROW_HEAD_def)

lemma entries_length:
  assumes "list_all (entry_inside grid) es" "encode_part_rows n es = Inr bs"
  shows "length bs = PART_ROW_COUNT + total_cost es"
proof -
  have "list_all (entry_inside grid) es \<Longrightarrow> enc_seq (map encode_part_row es) = Inr d \<Longrightarrow> length d = total_cost es" for d
    by (induction es arbitrary: d) (fastforce simp: entry_length entry_inside_def chunk_fits_def)+
  then show ?thesis using assms by (auto simp: encode_part_rows_def PART_ROW_COUNT_def)
qed

definition piece_part ::
    "screen_header \<Rightarrow> screen_version option \<Rightarrow> scroll_band option \<Rightarrow> nat \<Rightarrow> nat \<Rightarrow> row_entry list \<Rightarrow> screen_part" where
  "piece_part header base scroll pieces index es =
     (if index = 0 then Head (header_view header) base scroll pieces (map entry_span es)
      else Tail (sh_generation header) (sh_version header) pieces index (map entry_span es))"

definition piece_fixed :: "screen_header \<Rightarrow> nat \<Rightarrow> nat" where
  "piece_fixed header index = (if index = 0 then HEAD_FIXED + screen_prefix header else TAIL_FIXED)"

lemma encode_piece_reads:
  assumes h: "header_valid h" "base_typed base" "scroll_valid (gs_rows (sh_size h)) scroll" "scroll \<noteq> None \<longrightarrow> pieces = 1"
    and index: "u16_typed pieces" "index < pieces"
    and es: "sorted_wrt (<) (map en_row es)" "list_all (entry_inside (sh_size h)) es"
    and out: "encode_piece h base scroll pieces index (length es) es = Inr out"
  shows "length out \<le> piece_fixed h index + total_cost es"
    "carries (\<lambda>payload. server_decode payload spoken) MAX_FRAME out (SScreen (piece_part h base scroll pieces index es))"
proof -
  have grid: "grid_typed (sh_size h)" using h(1) by (simp add: header_valid_def)
  have carry: "carries (\<lambda>payload. server_decode payload spoken) MAX_FRAME out (SScreen part)"
    if "parses decode_screen_part body part" "framed (Inr ((10 + SERVER_TAG_BASE) # body)) = Inr out" for body part
  proof -
    have "parses (decode_bind cursor_u8 (server_get_fields spoken)) ((10 + SERVER_TAG_BASE) # body) (SScreen part)"
      using that(1)
      by (intro parse_binds) (auto simp: server_get_fields_def SERVER_TAG_BASE_def intro!: parses_bind_end parses_ok)
    then show ?thesis
      using that(2) parses_run [where post = "[]"] max_frame_usize
      by (fastforce simp: carries_def framed_Inr server_decode_def)
  qed
  have len: "framed (Inr bs) = Inr out \<Longrightarrow> length out = 4 + length bs" for bs by (auto simp: framed_Inr)
  show "length out \<le> piece_fixed h index + total_cost es"
    "carries (\<lambda>payload. server_decode payload spoken) MAX_FRAME out (SScreen (piece_part h base scroll pieces index es))"
  proof (atomize (full), cases "index = 0")
    case True
    from out True obtain a d where f: "framed (Inr ((10 + SERVER_TAG_BASE) # 0 # a @ put_base base @ encode_scroll scroll @
        put_u16 pieces @ d)) = Inr out" and a: "encode_header h = Inr a" and d: "encode_part_rows (length es) es = Inr d"
      by (cases "encode_header h"; cases "encode_part_rows (length es) es") (auto simp: encode_piece_def framed_def enc_seq.simps)
    have rows: "parses (decode_part_rows (Some (sh_size h))) d (map entry_span es)"
      by (rule entries_roundtrip [OF entries_running [OF es grid] d]) simp_all
    from carry [OF head_reads [OF h(1-3) index(1) _ h(4) a rows] f] index(2)
      len [OF f] fld_header.hint_covers [OF h(1) a] entries_length [OF es(2) d] scroll_length [of scroll]
    show "length out \<le> piece_fixed h index + total_cost es \<and>
      carries (\<lambda>payload. server_decode payload spoken) MAX_FRAME out (SScreen (piece_part h base scroll pieces index es))"
      using True by (simp add: piece_part_def piece_fixed_def put_base_def part_consts LENGTH_PREFIX_def)
  next
    case False
    from out False obtain d where f: "framed (Inr ((10 + SERVER_TAG_BASE) # 1 # put_u64 (sh_generation h) @
        put_u64 (sh_version h) @ put_u16 pieces @ put_u16 index @ d)) = Inr out" and d: "encode_part_rows (length es) es = Inr d"
      by (cases "encode_part_rows (length es) es") (auto simp: encode_piece_def framed_def enc_seq.simps)
    have rows: "parses (decode_part_rows None) d (map entry_span es)"
      by (rule entries_roundtrip [OF entries_running [OF es grid] d]) simp_all
    have gv: "non_zero_typed (sh_generation h)" "non_zero_typed (sh_version h)" using h(1) by (simp_all add: header_valid_def)
    from carry [OF tail_reads [OF gv index(1) _ _ index(2) rows] f] False index(2)
      len [OF f] entries_length [OF es(2) d]
    show "length out \<le> piece_fixed h index + total_cost es \<and>
      carries (\<lambda>payload. server_decode payload spoken) MAX_FRAME out (SScreen (piece_part h base scroll pieces index es))"
      by (simp add: piece_part_def piece_fixed_def part_consts LENGTH_PREFIX_def)
  qed
qed

section \<open>All the pieces\<close>

definition screen_pieces ::
    "screen_header \<Rightarrow> screen_version option \<Rightarrow> scroll_band option \<Rightarrow> row_entry list list \<Rightarrow> screen_part list" where
  "screen_pieces header base scroll pieces =
     map (\<lambda>(i, es). piece_part header base scroll (length pieces) i es) (List.enumerate 0 pieces)"

definition part_rows :: "screen_part \<Rightarrow> rowspan list" where
  "part_rows part = (case part of Head _ _ _ _ rows \<Rightarrow> rows | Tail _ _ _ _ rows \<Rightarrow> rows)"

lemma screen_pieces_rows: "concat (map part_rows (screen_pieces h base scroll pieces)) = map entry_span (concat pieces)"
proof -
  have "part_rows (piece_part h base scroll n i es) = map entry_span es" for n i es
    by (simp add: part_rows_def piece_part_def)
  then have "map part_rows (screen_pieces h base scroll pieces) = map (\<lambda>(i, es). map entry_span es) (List.enumerate 0 pieces)"
    by (simp add: screen_pieces_def comp_def split_def)
  also have "\<dots> = map (map entry_span) pieces"
    by (simp add: split_def comp_def flip: map_map [of "map entry_span" snd, unfolded comp_def])
  finally show ?thesis by (simp add: map_concat)
qed

lemma head_covers_tail: "TAIL_FIXED + PART_ROW_HEAD \<le> HEAD_FIXED + screen_prefix h" "TAIL_FIXED \<le> piece_fixed h index"
  by (simp_all add: part_consts LENGTH_PREFIX_def screen_prefix_def piece_fixed_def)

lemma encode_pieces_read:
  assumes h: "header_valid h" "base_typed base" "scroll_valid (gs_rows (sh_size h)) scroll" "scroll \<noteq> None \<longrightarrow> pieces = 1"
    and pieces: "u16_typed pieces"
  shows "well_cut budget (piece_fixed h index) cuts es \<Longrightarrow> apart (budget - TAIL_FIXED - PART_ROW_HEAD) es \<Longrightarrow>
    list_all (entry_inside (sh_size h)) es \<Longrightarrow> index + length cuts = pieces \<Longrightarrow>
    encode_pieces h base scroll pieces index cuts es = Inr parts \<Longrightarrow>
    list_all (\<lambda>out. length out \<le> budget) parts \<and>
    list_all2 (carries (\<lambda>payload. server_decode payload spoken) MAX_FRAME) parts
      (map (\<lambda>(i, es). SScreen (piece_part h base scroll pieces i es)) (List.enumerate index (shares cuts es)))"
proof (induction cuts arbitrary: index es parts)
  case Nil
  then show ?case by simp
next
  case (Cons cut_at cuts)
  obtain n used where at: "cut_at = (n, used)" by (cases cut_at)
  let ?mine = "take n es" and ?rest = "drop n es"
  from Cons.prems(5) obtain out parts' where out: "encode_piece h base scroll pieces index n ?mine = Inr out"
    and rest: "encode_pieces h base scroll pieces (Suc index) cuts ?rest = Inr parts'" and parts: "parts = out # parts'"
    by (auto simp: at split: sum.splits)
  have n: "length ?mine = n" "piece_fixed h index + total_cost ?mine \<le> budget"
    "well_cut budget (piece_fixed h (Suc index)) cuts ?rest"
    using Cons.prems(1) by (auto simp: at piece_fixed_def)
  have ap: "apart (budget - TAIL_FIXED - PART_ROW_HEAD) ?mine" "apart (budget - TAIL_FIXED - PART_ROW_HEAD) ?rest"
    using apart_split [of _ ?mine ?rest] Cons.prems(2) by simp_all
  have inside: "list_all (entry_inside (sh_size h)) ?mine" "list_all (entry_inside (sh_size h)) ?rest"
    using Cons.prems(3) by (auto simp: list_all_iff dest: in_set_takeD in_set_dropD)
  have up: "sorted_wrt (<) (map en_row ?mine)"
    using n(2) head_covers_tail(2) [of h index] by (intro piece_rows_ascend [OF ap(1)]) simp
  have "index < pieces" using Cons.prems(4) by simp
  from encode_piece_reads [OF h pieces this up inside(1), unfolded n(1), OF out] n(2)
    Cons.IH [OF n(3) ap(2) inside(2) _ rest] Cons.prems(4)
  show ?case by (simp add: at parts)
qed

lemma encode_screen_parts_read:
  assumes h: "header_valid h" "base_typed base" and rows: "rows_sound (sh_size h) rows"
  shows "\<exists>r. encode_screen_parts h base scroll rows budget = Some r"
    "encode_screen_parts h base scroll rows budget = Some (Inr parts) \<Longrightarrow>
     \<exists>ess pieces. list_all2 (update_cut (gs_cols (sh_size h)) (budget - TAIL_FIXED - PART_ROW_HEAD)) rows ess \<and>
       concat pieces = concat ess \<and> list_all (\<lambda>out. length out \<le> budget) parts \<and>
       list_all2 (carries (\<lambda>payload. server_decode payload spoken) MAX_FRAME) parts
         (map SScreen (screen_pieces h base scroll pieces))"
proof -
  let ?fixed = "HEAD_FIXED + screen_prefix h" and ?chunk = "budget - TAIL_FIXED - PART_ROW_HEAD"
  from spans_cut [OF rows, of ?chunk] obtain ess where ess: "spans ?chunk rows = Some (concat ess)" "apart ?chunk (concat ess)"
    "list_all2 (update_cut (gs_cols (sh_size h)) ?chunk) rows ess" "list_all (entry_inside (sh_size h)) (concat ess)" by blast
  show "\<exists>r. encode_screen_parts h base scroll rows budget = Some r"
    using ess(1) head_covers_tail(1) [of h] by (auto simp: encode_screen_parts_def Let_def)
  assume ok: "encode_screen_parts h base scroll rows budget = Some (Inr parts)"
  then obtain cuts where cuts: "cut_pieces budget (concat ess) (0, ?fixed) = Inr cuts" "length cuts \<le> 65535"
    "scroll \<noteq> None \<longrightarrow> length cuts = 1" "encode_pieces h base scroll (length cuts) 0 cuts (concat ess) = Inr parts"
    and fits: "?fixed \<le> budget" and sc: "scroll_valid (gs_rows (sh_size h)) scroll"
    using ess(1) by (auto simp: encode_screen_parts_def Let_def scroll_valid_def split: if_splits option.splits sum.splits)
  have well: "well_cut budget (piece_fixed h 0) cuts (concat ess)"
    using cut_pieces_well [of budget "concat ess" "[]" ?fixed cuts] cuts(1) fits by (simp add: piece_fixed_def)
  have "concat (shares cuts (concat ess)) = concat ess" "length (shares cuts (concat ess)) = length cuts"
    using well_cut_shares [OF well] by simp_all
  moreover from this encode_pieces_read [OF h sc cuts(3) _ well ess(2,4) _ cuts(4)] cuts(2)
  have "list_all (\<lambda>out. length out \<le> budget) parts \<and>
      list_all2 (carries (\<lambda>payload. server_decode payload spoken) MAX_FRAME) parts
        (map SScreen (screen_pieces h base scroll (shares cuts (concat ess))))"
    by (simp add: screen_pieces_def u16_typed_def comp_def split_def)
  ultimately show "\<exists>ess pieces. list_all2 (update_cut (gs_cols (sh_size h)) ?chunk) rows ess \<and>
       concat pieces = concat ess \<and> list_all (\<lambda>out. length out \<le> budget) parts \<and>
       list_all2 (carries (\<lambda>payload. server_decode payload spoken) MAX_FRAME) parts
         (map SScreen (screen_pieces h base scroll pieces))"
    using ess(3) by blast
qed

section \<open>A row read back\<close>

lemma blank_controls_append:
  assumes "utf8 xs" "utf8 ys"
  shows "blank_controls (xs @ ys) = blank_controls xs @ blank_controls ys"
  using assms
proof (induction xs rule: utf8_induct)
  case (Char c x r)
  then show ?case using blank_controls_char [OF Char(1)] by simp
qed simp

lemma blank_controls_concat: "list_all utf8 ts \<Longrightarrow> blank_controls (concat ts) = concat (map blank_controls ts) \<and> utf8 (concat ts)"
  by (induction ts) (simp_all add: blank_controls_append utf8_append)

lemma rows_of_update:
  assumes "list_all2 (update_cut cols budget) rows ess" "sorted_wrt (<) (map up_row rows)" "u \<in> set rows"
  shows "\<exists>es. update_cut cols budget u es \<and> filter (\<lambda>e. en_row e = up_row u) (concat ess) = es"
  using assms
proof (induction rule: list_all2_induct)
  case (Cons v rows es ess)
  have rows: "list_all (\<lambda>e. en_row e = up_row v) es" "update_cut cols budget v es" using Cons(1) by (simp_all add: update_cut_def)
  have later: "\<exists>w \<in> set rows. en_row e = up_row w" if "e \<in> set (concat ess)" for e
    using Cons(2) that by (induction rows ess rule: list_all2_induct) (auto simp: update_cut_def list_all_iff)
  show ?case
  proof (cases "u = v")
    case True
    have "filter (\<lambda>e. en_row e = up_row u) (concat ess) = []"
      using later Cons.prems(1) True by (force simp: filter_empty_conv)
    then show ?thesis using rows True by (auto simp: list_all_iff)
  next
    case False
    then have u: "u \<in> set rows" "up_row v < up_row u" using Cons.prems by auto
    then have "filter (\<lambda>e. en_row e = up_row u) es = []" using rows(1) by (auto simp: filter_empty_conv list_all_iff)
    then show ?thesis using Cons.IH u(1) Cons.prems(1) by simp
  qed
qed simp

end
