(* ===== verification/Proto_Delta.thy ===== *)
theory Proto_Delta
  imports Proto_Cut
begin

text \<open>
  What a delta may leave out: \<^verbatim>\<open>changed_span\<close> of \<^verbatim>\<open>src/crates/proto/src/screen.rs\<close> names runs of a row such
  that the row is the one before it with those runs painted over, and names none only where nothing
  painted differs. Also the mode sets of a screen, whose exclusive groups hold one mode each.
\<close>

section \<open>Modes\<close>

lemma mode_get_bit: "mode_set_get s i \<longleftrightarrow> bit s i"
  by (simp add: mode_set_get_def bit_iff_and_push_bit_not_eq_0)

lemma mode_get_set: "i < 32 \<Longrightarrow> mode_set_get (mode_set_set s i on) j = (if i = j then on else mode_set_get s j)"
  unfolding mode_get_bit mode_set_set_def
  by (cases "j < 32") (auto simp: bit_or_iff bit_and_iff bit_not_iff bit_push_bit_iff bit_exp_iff impossible_bit)

lemma exclusive_table: "EXCLUSIVE = [[17, 3, 4, 5], [7, 10, 8, 11]]"
  by (simp add: EXCLUSIVE_def EXCLUSIVE_MODES_def mode_index_def REPAINT_MODES_def)

lemma repaint_entries: "REPAINT_MODES ! 17 = 9" "REPAINT_MODES ! 3 = 1000" "REPAINT_MODES ! 4 = 1002" "REPAINT_MODES ! 5 = 1003"
  "REPAINT_MODES ! 7 = 1005" "REPAINT_MODES ! 10 = 1015" "REPAINT_MODES ! 8 = 1006" "REPAINT_MODES ! 11 = 1016"
  by (simp_all add: REPAINT_MODES_def)

lemma mode_fold_get:
  "list_all (\<lambda>i. i < 32) members \<Longrightarrow>
   mode_set_get (fold (\<lambda>i s. mode_set_set s i (P i)) members s) j = (if j \<in> set members then P j else mode_set_get s j)"
  by (induction members arbitrary: s) (auto simp: mode_get_set)

text \<open>Selecting in one group leaves it holding that selection, and every other mode as it was.\<close>

definition mode_allowed :: "nat \<Rightarrow> nat option \<Rightarrow> bool" where
  "mode_allowed grp mode \<longleftrightarrow> grp < length EXCLUSIVE_MODES \<and> (\<forall>m. mode = Some m \<longrightarrow> m \<in> set (EXCLUSIVE_MODES ! grp))"

lemma mode_select_get:
  assumes "mode_allowed grp mode"
  shows "\<exists>s'. mode_select s grp mode = Some s' \<and>
    (\<forall>i. mode_set_get s' i = (if i \<in> set (EXCLUSIVE ! grp) then mode = Some (REPAINT_MODES ! i) else mode_set_get s i))"
proof -
  have small: "grp < 2 \<Longrightarrow> list_all (\<lambda>i. i < 32) (EXCLUSIVE ! grp)" by (auto simp: exclusive_table less_2_cases_iff)
  have grp: "grp < 2" "length EXCLUSIVE = 2" using assms by (auto simp: mode_allowed_def EXCLUSIVE_MODES_def exclusive_table)
  show ?thesis
  proof (cases mode)
    case None
    then show ?thesis using grp mode_fold_get [OF small, where P = "\<lambda>_. False"] by (simp add: mode_select_def)
  next
    case (Some m)
    then have m: "m \<in> set (EXCLUSIVE_MODES ! grp)" using assms by (simp add: mode_allowed_def)
    have "\<exists>c. find (\<lambda>i. REPAINT_MODES ! i = m) (EXCLUSIVE ! grp) = Some c \<and>
        (\<forall>i \<in> set (EXCLUSIVE ! grp). (i = c) = (m = REPAINT_MODES ! i))"
      using m grp(1) by (auto simp: less_2_cases_iff exclusive_table EXCLUSIVE_MODES_def repaint_entries)
    then obtain c where c: "find (\<lambda>i. REPAINT_MODES ! i = m) (EXCLUSIVE ! grp) = Some c"
      "\<forall>i \<in> set (EXCLUSIVE ! grp). (i = c) = (m = REPAINT_MODES ! i)" by blast
    then show ?thesis using Some grp mode_fold_get [OF small, where P = "\<lambda>i. i = c"] by (simp add: mode_select_def Let_def)
  qed
qed

lemma selection_find:
  assumes "\<forall>i. mode_set_get s' i = (if i \<in> set grp then mode = Some (REPAINT_MODES ! i) else mode_set_get s i)"
    "mode = None \<or> (\<exists>i \<in> set grp. mode = Some (REPAINT_MODES ! i))"
  shows "map_option (\<lambda>i. REPAINT_MODES ! i) (find (mode_set_get s') (rev grp)) = mode"
proof (cases "find (mode_set_get s') (rev grp)")
  case None
  then have "\<forall>i \<in> set grp. \<not> mode_set_get s' i" by (simp add: find_None_iff)
  then show ?thesis using None assms by (auto split: if_splits)
next
  case (Some i)
  then obtain n where "n < length (rev grp)" "mode_set_get s' (rev grp ! n)" "i = rev grp ! n" by (auto simp: find_Some_iff)
  then have "i \<in> set grp" "mode_set_get s' i" by (metis nth_mem set_rev, simp)
  then show ?thesis using Some assms(1) by auto
qed

lemma mode_select_spec:
  assumes "mode_allowed grp mode"
  shows "\<exists>s'. mode_select s grp mode = Some s' \<and> mode_selections s' = (mode_selections s)[grp := mode] \<and>
    (\<forall>i. i \<notin> set (EXCLUSIVE ! grp) \<longrightarrow> mode_set_get s' i = mode_set_get s i)"
proof -
  from mode_select_get [OF assms] obtain s' where s': "mode_select s grp mode = Some s'"
    "\<forall>i. mode_set_get s' i = (if i \<in> set (EXCLUSIVE ! grp) then mode = Some (REPAINT_MODES ! i) else mode_set_get s i)" by blast
  have grp: "grp = 0 \<or> grp = 1" using assms by (auto simp: mode_allowed_def EXCLUSIVE_MODES_def)
  have "mode = None \<or> (\<exists>i \<in> set (EXCLUSIVE ! grp). mode = Some (REPAINT_MODES ! i))"
    using assms grp by (cases mode) (auto simp: mode_allowed_def exclusive_table EXCLUSIVE_MODES_def repaint_entries)
  note mine = selection_find [OF s'(2) this]
  have other: "find (mode_set_get s') (rev (EXCLUSIVE ! (1 - grp))) = find (mode_set_get s) (rev (EXCLUSIVE ! (1 - grp)))"
  proof (rule find_cong [OF refl])
    fix i assume "i \<in> set (rev (EXCLUSIVE ! (1 - grp)))"
    then have "i \<notin> set (EXCLUSIVE ! grp)" using grp by (auto simp: exclusive_table)
    then show "mode_set_get s' i = mode_set_get s i" using s'(2) by simp
  qed
  have two: "mode_selections x = [map_option (\<lambda>i. REPAINT_MODES ! i) (find (mode_set_get x) (rev (EXCLUSIVE ! 0))),
      map_option (\<lambda>i. REPAINT_MODES ! i) (find (mode_set_get x) (rev (EXCLUSIVE ! 1)))]" for x
    by (simp only: mode_selections_def exclusive_table) simp
  have "mode_selections s' = (mode_selections s)[grp := mode]"
    using grp mine other unfolding two by (elim disjE) simp_all
  then show ?thesis using s' by auto
qed

lemma mode_select_foreign:
  assumes "grp < 2" "m \<notin> set (EXCLUSIVE_MODES ! grp)"
  shows "mode_select s grp (Some m) = None"
proof -
  from assms(1) consider "grp = 0" | "grp = 1" by linarith
  then show ?thesis using assms(2)
    by cases (auto simp: mode_select_def exclusive_table EXCLUSIVE_MODES_def repaint_entries Let_def)
qed

section \<open>Scanning two rows\<close>

definition same_place :: "style_run \<times> style_run \<Rightarrow> bool" where
  "same_place z \<longleftrightarrow> ru_cells (fst z) = ru_cells (snd z) \<and> ru_bytes (fst z) = ru_bytes (snd z)"

definition bytes_before :: "(style_run \<times> style_run) list \<Rightarrow> nat \<Rightarrow> nat" where
  "bytes_before zs j = bytes_of (map fst (take j zs))"

definition same_run :: "bytes \<Rightarrow> bytes \<Rightarrow> nat \<Rightarrow> (style_run \<times> style_run) list \<Rightarrow> nat \<Rightarrow> bool" where
  "same_run mine theirs byte zs j \<longleftrightarrow> fst (zs ! j) = snd (zs ! j) \<and>
     str_get mine (byte + bytes_before zs j) (byte + bytes_before zs (Suc j)) =
     str_get theirs (byte + bytes_before zs j) (byte + bytes_before zs (Suc j))"

lemma bytes_before_Cons [simp]: "bytes_before (z # zs) 0 = 0" "bytes_before (z # zs) (Suc j) = ru_bytes (fst z) + bytes_before zs j"
  by (simp_all add: bytes_before_def)

lemma bytes_before_0 [simp]: "bytes_before zs 0 = 0"
  by (simp add: bytes_before_def)

lemma same_run_0: "same_run mine theirs byte (z # zs) 0 \<longleftrightarrow> same_place z \<and> ru_style (fst z) = ru_style (snd z) \<and>
    str_get mine byte (byte + ru_bytes (fst z)) = str_get theirs byte (byte + ru_bytes (fst z))"
  by (auto simp: same_run_def same_place_def)

lemma same_run_Suc: "same_run mine theirs byte (z # zs) (Suc j) \<longleftrightarrow> same_run mine theirs (byte + ru_bytes (fst z)) zs j"
  by (simp add: same_run_def add.assoc)

definition scan_result ::
    "bytes \<Rightarrow> bytes \<Rightarrow> nat \<Rightarrow> (style_run \<times> style_run) list \<Rightarrow> nat option \<times> nat \<times> nat \<times> bool \<Rightarrow> nat \<Rightarrow>
     nat option \<times> nat \<times> nat \<times> bool \<Rightarrow> bool" where
  "scan_result mine theirs index zs s k r \<longleftrightarrow>
     (case s of (first, till, byte, aligned) \<Rightarrow> case r of (first', till', byte', aligned') \<Rightarrow>
       k \<le> length zs \<and> (\<forall>j < k. same_place (zs ! j)) \<and> byte' = byte + bytes_before zs k \<and>
       aligned' = (aligned \<and> k = length zs) \<and> (k < length zs \<longrightarrow> first' \<noteq> None) \<and>
       (first \<noteq> None \<longrightarrow> first' = first) \<and>
       (first = None \<longrightarrow> (\<forall>f. first' = Some f \<longrightarrow> index \<le> f \<and> f \<le> index + k \<and> f < index + length zs)) \<and>
       (first = None \<longrightarrow> (\<forall>j < k. (\<forall>f. first' = Some f \<longrightarrow> index + j < f) \<longrightarrow> same_run mine theirs byte zs j)) \<and>
       (\<forall>j < k. till' \<le> index + j \<longrightarrow> same_run mine theirs byte zs j) \<and>
       (till' = till \<or> index < till' \<and> till' \<le> index + length zs))"

lemma all_less_Suc: "(\<forall>j < Suc k. P j) \<longleftrightarrow> P 0 \<and> (\<forall>j < k. P (Suc j))"
  by (auto simp: less_Suc_eq_0_disj)

lemma changed_scan_spec:
  "\<exists>k. scan_result mine theirs index zs (first, till, byte, aligned)
     k (changed_scan mine theirs index zs (first, till, byte, aligned))"
proof (induction zs arbitrary: index first till byte aligned)
  case Nil
  then show ?case by (auto simp: scan_result_def)
next
  case (Cons z zs)
  obtain m t where z: "z = (m, t)" by (cases z)
  show ?case
  proof (cases "same_place z")
    case False
    then show ?thesis
      by (intro exI [of _ 0]) (auto simp: scan_result_def z same_place_def Let_def)
  next
    case True
    define differs where "differs = (\<not> same_run mine theirs byte (z # zs) 0)"
    define first1 where "first1 = (if differs \<and> first = None then Some index else first)"
    define till1 where "till1 = (if differs then index + 1 else till)"
    have step: "changed_scan mine theirs index (z # zs) (first, till, byte, aligned) =
        changed_scan mine theirs (Suc index) zs (first1, till1, byte + ru_bytes m, aligned)"
      using True by (simp add: z same_run_0 differs_def first1_def till1_def same_place_def Let_def)
    obtain f2 t2 b2 a2 where r: "changed_scan mine theirs (Suc index) zs (first1, till1, byte + ru_bytes m, aligned) = (f2, t2, b2, a2)"
      by (metis prod_cases4)
    from Cons.IH [of "Suc index" first1 till1 "byte + ru_bytes m" aligned] obtain k where
      "scan_result mine theirs (Suc index) zs (first1, till1, byte + ru_bytes m, aligned) k (f2, t2, b2, a2)"
      unfolding r by blast
    then have "scan_result mine theirs index (z # zs) (first, till, byte, aligned) (Suc k) (f2, t2, b2, a2)"
      unfolding scan_result_def prod.case all_less_Suc
      using True
      by (auto simp: same_run_Suc differs_def first1_def till1_def z split: if_splits)
    then show ?thesis unfolding step r by blast
  qed
qed

section \<open>The row a span restores\<close>

text \<open>What a row paints, and a row painted over another between two runs. A span that reaches the last
  run takes the unstyled tail with it and settles the row's width.\<close>

definition row_shown :: "row_frame \<Rightarrow> row_frame" where
  "row_shown row = row\<lparr>rf_text := take (row_painted_bytes row) (rf_text row)\<rparr>"

definition row_spliced :: "row_frame \<Rightarrow> row_frame \<Rightarrow> nat \<times> nat \<Rightarrow> row_frame" where
  "row_spliced previous row runs =
     (let (a, b) = runs; start = bytes_of (take a (rf_runs row)); stop = bytes_of (take b (rf_runs row)) in
      if b = length (rf_runs row)
      then \<lparr>rf_text = take start (rf_text previous) @ take (row_painted_bytes row - start) (drop start (rf_text row)),
        rf_runs = take a (rf_runs previous) @ drop a (rf_runs row), rf_cells = rf_cells row\<rparr>
      else \<lparr>rf_text = take start (rf_text previous) @ take (stop - start) (drop start (rf_text row)) @
          take (row_painted_bytes previous - stop) (drop stop (rf_text previous)),
        rf_runs = take a (rf_runs previous) @ take (b - a) (drop a (rf_runs row)) @ drop b (rf_runs previous),
        rf_cells = rf_cells previous\<rparr>)"

lemma take_slice: "i \<le> j \<Longrightarrow> take j xs = take i xs @ take (j - i) (drop i xs)"
  by (metis le_add_diff_inverse take_add)

lemma same_place_bytes:
  assumes "\<forall>j < k. same_place (zip rs ps ! j)" "k \<le> length (zip rs ps)" "n \<le> k"
  shows "bytes_before (zip rs ps) n = bytes_of (take n rs)" "bytes_of (take n ps) = bytes_of (take n rs)"
proof -
  show "bytes_before (zip rs ps) n = bytes_of (take n rs)"
    using assms(2,3) by (simp add: bytes_before_def take_zip)
  have "map ru_bytes (take n ps) = map ru_bytes (take n rs)"
    using assms by (intro nth_equalityI) (auto simp: same_place_def)
  then show "bytes_of (take n ps) = bytes_of (take n rs)" by (simp add: bytes_of_def)
qed

lemma same_slice:
  assumes rows: "row_sound cols row" "row_sound cols' previous"
    and place: "\<forall>m < k. same_place (zip (rf_runs row) (rf_runs previous) ! m)" "k \<le> length (zip (rf_runs row) (rf_runs previous))"
    and same: "\<And>m. i \<le> m \<Longrightarrow> m < j \<Longrightarrow> same_run (rf_text row) (rf_text previous) 0 (zip (rf_runs row) (rf_runs previous)) m"
    and ij: "i \<le> j" "j \<le> k"
  shows "take (bytes_of (take j (rf_runs row)) - bytes_of (take i (rf_runs row))) (drop (bytes_of (take i (rf_runs row))) (rf_text row)) =
    take (bytes_of (take j (rf_runs row)) - bytes_of (take i (rf_runs row))) (drop (bytes_of (take i (rf_runs row))) (rf_text previous))"
    "take (j - i) (drop i (rf_runs row)) = take (j - i) (drop i (rf_runs previous))"
proof -
  let ?zs = "zip (rf_runs row) (rf_runs previous)" and ?B = "\<lambda>n. bytes_of (take n (rf_runs row))"
  note B = same_place_bytes [OF place]
  show "take (j - i) (drop i (rf_runs row)) = take (j - i) (drop i (rf_runs previous))"
    using same place(2) ij by (intro nth_equalityI) (auto simp: same_run_def)
  show "take (?B j - ?B i) (drop (?B i) (rf_text row)) = take (?B j - ?B i) (drop (?B i) (rf_text previous))"
    using ij same
  proof (induction j rule: dec_induct)
    case (step n)
    have le: "?B i \<le> ?B n" "?B n \<le> ?B (Suc n)" using step(1) by (auto intro: take_sums_le)
    have bn: "n \<le> k" "Suc n \<le> k" using step by simp_all
    have got: "str_get (rf_text row) (?B n) (?B (Suc n)) = str_get (rf_text previous) (?B n) (?B (Suc n))"
      using step.prems(2) [of n] step(1) B(1) [OF bn(1)] B(1) [OF bn(2)] by (simp add: same_run_def)
    have "str_get (rf_text row) (?B n) (?B (Suc n)) = Some (take (?B (Suc n) - ?B n) (drop (?B n) (rf_text row)))"
      by (rule str_get_slice [OF rows(1) le(2)]) auto
    moreover have "str_get (rf_text previous) (?B n) (?B (Suc n)) = Some (take (?B (Suc n) - ?B n) (drop (?B n) (rf_text previous)))"
      by (rule str_get_slice [OF rows(2) le(2), where m = "Suc n" and n = n]) (use B(2) [OF bn(1)] B(2) [OF bn(2)] in auto)
    ultimately have one: "take (?B (Suc n) - ?B n) (drop (?B n) (rf_text row)) = take (?B (Suc n) - ?B n) (drop (?B n) (rf_text previous))"
      using got by simp
    have "take (?B (Suc n) - ?B i) (drop (?B i) t) = take (?B n - ?B i) (drop (?B i) t) @ take (?B (Suc n) - ?B n) (drop (?B n) t)" for t :: bytes
      using take_slice [of "?B n - ?B i" "?B (Suc n) - ?B i" "drop (?B i) t"] le by simp
    then show ?case using one step by simp
  qed simp
qed

text \<open>The tail compared past the last aligned run.\<close>

lemma same_tail:
  assumes rows: "row_sound cols row" "row_sound cols' previous"
    and at: "bytes_of (take k (rf_runs previous)) = bytes_of (take k (rf_runs row))"
    and same: "str_get (rf_text row) (bytes_of (take k (rf_runs row))) (row_painted_bytes row) =
      str_get (rf_text previous) (bytes_of (take k (rf_runs row))) (row_painted_bytes previous)"
  shows "row_painted_bytes previous = row_painted_bytes row"
    "take (row_painted_bytes row - bytes_of (take k (rf_runs row))) (drop (bytes_of (take k (rf_runs row))) (rf_text row)) =
     take (row_painted_bytes row - bytes_of (take k (rf_runs row))) (drop (bytes_of (take k (rf_runs row))) (rf_text previous))"
proof -
  let ?b = "bytes_of (take k (rf_runs row))"
  have le: "?b \<le> row_painted_bytes row" "?b \<le> row_painted_bytes previous"
    using row_sound_facts(5) [OF rows(1)] row_sound_facts(5) [OF rows(2)] take_sums_all(1) [of k] at by (metis le_trans)+
  have one: "str_get (rf_text row) ?b (row_painted_bytes row) = Some (take (row_painted_bytes row - ?b) (drop ?b (rf_text row)))"
    by (rule str_get_slice [OF rows(1) le(1), where n = k]) auto
  have two: "str_get (rf_text previous) ?b (row_painted_bytes previous) =
      Some (take (row_painted_bytes previous - ?b) (drop ?b (rf_text previous)))"
    by (rule str_get_slice [OF rows(2) le(2), where n = k]) (use at in auto)
  from same one two have eq: "take (row_painted_bytes row - ?b) (drop ?b (rf_text row)) =
      take (row_painted_bytes previous - ?b) (drop ?b (rf_text previous))" by simp
  have "row_painted_bytes row - ?b = row_painted_bytes previous - ?b"
    using arg_cong [OF eq, of length] row_sound_facts(6) [OF rows(1)] row_sound_facts(6) [OF rows(2)] by simp
  then show p: "row_painted_bytes previous = row_painted_bytes row" using le by simp
  show "take (row_painted_bytes row - ?b) (drop ?b (rf_text row)) = take (row_painted_bytes row - ?b) (drop ?b (rf_text previous))"
    using eq p by simp
qed

text \<open>A row whose runs before \<open>a\<close> are those of the row before it, and where a later bound is named also
  those from it on with the tail.\<close>

lemma spliced_to_end:
  assumes rows: "row_sound cols row" "row_sound cols' previous" and a: "a \<le> length (rf_runs row)"
    and runs: "take a (rf_runs row) = take a (rf_runs previous)"
    and body: "take (bytes_of (take a (rf_runs row))) (rf_text row) = take (bytes_of (take a (rf_runs row))) (rf_text previous)"
  shows "row_spliced previous row (a, length (rf_runs row)) = row_shown row"
proof -
  have "bytes_of (take a (rf_runs row)) \<le> row_painted_bytes row"
    using row_sound_facts(5) [OF rows(1)] take_sums_all(1) [of a "rf_runs row"] by simp
  note split = take_slice [OF this, of "rf_text row"]
  have "take a (rf_runs previous) @ drop a (rf_runs row) = rf_runs row" using runs append_take_drop_id by metis
  then show ?thesis using split body by (simp add: row_spliced_def row_shown_def Let_def)
qed

lemma spliced_inside:
  assumes rows: "row_sound cols row" "row_sound cols' previous" and ab: "a \<le> b" "b < length (rf_runs row)"
    and runs: "take a (rf_runs row) = take a (rf_runs previous)" "drop b (rf_runs row) = drop b (rf_runs previous)"
    and body: "take (bytes_of (take a (rf_runs row))) (rf_text row) = take (bytes_of (take a (rf_runs row))) (rf_text previous)"
    and tail: "take (row_painted_bytes row - bytes_of (take b (rf_runs row))) (drop (bytes_of (take b (rf_runs row))) (rf_text row)) =
      take (row_painted_bytes row - bytes_of (take b (rf_runs row))) (drop (bytes_of (take b (rf_runs row))) (rf_text previous))"
    and whole: "row_painted_bytes previous = row_painted_bytes row" "rf_cells previous = rf_cells row"
  shows "row_spliced previous row (a, b) = row_shown row"
proof -
  have le: "bytes_of (take a (rf_runs row)) \<le> bytes_of (take b (rf_runs row))" "bytes_of (take b (rf_runs row)) \<le> row_painted_bytes row"
    using take_sums_le(1) [OF ab(1)] row_sound_facts(5) [OF rows(1)] take_sums_all(1) [of b "rf_runs row"] by auto
  have "rf_runs row = take a (rf_runs row) @ take (b - a) (drop a (rf_runs row)) @ drop b (rf_runs row)"
    using take_slice [OF ab(1), of "rf_runs row"] by (metis append_assoc append_take_drop_id)
  moreover have "take (row_painted_bytes row) (rf_text row) = take (bytes_of (take a (rf_runs row))) (rf_text row) @
      take (bytes_of (take b (rf_runs row)) - bytes_of (take a (rf_runs row))) (drop (bytes_of (take a (rf_runs row))) (rf_text row)) @
      take (row_painted_bytes row - bytes_of (take b (rf_runs row))) (drop (bytes_of (take b (rf_runs row))) (rf_text row))"
    using take_slice [OF le(1), of "rf_text row"] take_slice [OF le(2), of "rf_text row"] by simp
  ultimately show ?thesis
    using ab(2) runs body tail whole by (simp add: row_spliced_def row_shown_def Let_def)
qed

lemma scan_result_facts:
  assumes "scan_result mine theirs 0 zs (None, 0, 0, al) k (first, till, byte, aligned)"
  shows "k \<le> length zs" "\<forall>j < k. same_place (zs ! j)" "byte = bytes_before zs k" "aligned = (al \<and> k = length zs)"
    "k < length zs \<longrightarrow> first \<noteq> None" "first = Some f \<Longrightarrow> f \<le> k \<and> f < length zs"
    "j < k \<Longrightarrow> (\<And>f. first = Some f \<Longrightarrow> j < f) \<Longrightarrow> same_run mine theirs 0 zs j"
    "j < k \<Longrightarrow> till \<le> j \<Longrightarrow> same_run mine theirs 0 zs j" "till \<le> length zs"
  using assms by (auto simp: scan_result_def)

text \<open>What the scan settles: \<open>k\<close> runs line up, and the span is read off the first and the last that
  differ and the tail.\<close>

definition tail_differs :: "row_frame \<Rightarrow> row_frame \<Rightarrow> nat \<Rightarrow> bool" where
  "tail_differs row previous byte \<longleftrightarrow> rf_cells row \<noteq> rf_cells previous \<or>
     str_get (rf_text row) byte (row_painted_bytes row) \<noteq> str_get (rf_text previous) byte (row_painted_bytes previous)"

lemma changed_span_scan:
  obtains k first till byte aligned where
    "scan_result (rf_text row) (rf_text previous) 0 (zip (rf_runs row) (rf_runs previous))
       (None, 0, 0, length (rf_runs row) = length (rf_runs previous)) k (first, till, byte, aligned)"
    "row_changed_span row previous =
      (if \<not> aligned \<or> tail_differs row previous byte then
         let f = (case first of None \<Rightarrow> min (length (rf_runs row)) (length (rf_runs previous)) | Some f \<Rightarrow> f)
         in Some (f, max (length (rf_runs row)) f)
       else map_option (\<lambda>f. (f, max till f)) first)"
proof -
  let ?s = "changed_scan (rf_text row) (rf_text previous) 0 (zip (rf_runs row) (rf_runs previous))
       (None, 0, 0, length (rf_runs row) = length (rf_runs previous))"
  obtain first till byte aligned where scan: "?s = (first, till, byte, aligned)" by (metis prod_cases4)
  from changed_scan_spec [of "rf_text row" "rf_text previous" 0 "zip (rf_runs row) (rf_runs previous)" None 0 0
      "length (rf_runs row) = length (rf_runs previous)", unfolded scan]
  obtain k where "scan_result (rf_text row) (rf_text previous) 0 (zip (rf_runs row) (rf_runs previous))
       (None, 0, 0, length (rf_runs row) = length (rf_runs previous)) k (first, till, byte, aligned)" by blast
  moreover have "row_changed_span row previous =
      (if \<not> aligned \<or> tail_differs row previous byte then
         let f = (case first of None \<Rightarrow> min (length (rf_runs row)) (length (rf_runs previous)) | Some f \<Rightarrow> f)
         in Some (f, max (length (rf_runs row)) f)
       else map_option (\<lambda>f. (f, max till f)) first)"
    by (cases first) (auto simp: row_changed_span_def scan tail_differs_def Let_def)
  ultimately show ?thesis by (rule that)
qed

lemma settled_tail:
  assumes "row_sound cols row" "row_sound cols' previous" "bytes_of (take k (rf_runs previous)) = bytes_of (take k (rf_runs row))"
    "\<not> tail_differs row previous (bytes_of (take k (rf_runs row)))"
  shows "rf_cells previous = rf_cells row" "row_painted_bytes previous = row_painted_bytes row"
    "take (row_painted_bytes row - bytes_of (take k (rf_runs row))) (drop (bytes_of (take k (rf_runs row))) (rf_text row)) =
     take (row_painted_bytes row - bytes_of (take k (rf_runs row))) (drop (bytes_of (take k (rf_runs row))) (rf_text previous))"
  using assms(4) same_tail [OF assms(1-3)] by (simp_all add: tail_differs_def)

lemma styled_painted: "row_sound cols row \<Longrightarrow> bytes_of (take n (rf_runs row)) \<le> row_painted_bytes row"
  using row_sound_facts(5) take_sums_all(1) [of n "rf_runs row"] le_trans by blast

lemma changed_span_none:
  assumes rows: "row_sound cols row" "row_sound cols' previous" and none: "row_changed_span row previous = None"
  shows "row_shown previous = row_shown row"
proof -
  let ?B = "\<lambda>n. bytes_of (take n (rf_runs row))"
  obtain k first till byte aligned where scan: "scan_result (rf_text row) (rf_text previous) 0 (zip (rf_runs row) (rf_runs previous))
       (None, 0, 0, length (rf_runs row) = length (rf_runs previous)) k (first, till, byte, aligned)"
    and now: "row_changed_span row previous =
      (if \<not> aligned \<or> tail_differs row previous byte then
         let f = (case first of None \<Rightarrow> min (length (rf_runs row)) (length (rf_runs previous)) | Some f \<Rightarrow> f)
         in Some (f, max (length (rf_runs row)) f)
       else map_option (\<lambda>f. (f, max till f)) first)"
    by (rule changed_span_scan [of row previous])
  from none now have span: "aligned" "\<not> tail_differs row previous byte" "first = None"
    by (auto simp: Let_def split: if_splits)
  note k = scan_result_facts [OF scan]
  have all: "k = length (rf_runs row)" "length (rf_runs previous) = length (rf_runs row)" using span(1) k(4) by simp_all
  have byte: "byte = ?B k" "bytes_of (take k (rf_runs previous)) = ?B k"
    using same_place_bytes [OF k(2,1) order_refl] k(3) by simp_all
  have same: "same_run (rf_text row) (rf_text previous) 0 (zip (rf_runs row) (rf_runs previous)) m" if "m < k" for m
    using k(7) [OF that] span(3) by simp
  have body: "take (?B k) (rf_text row) = take (?B k) (rf_text previous)" and "take k (rf_runs row) = take k (rf_runs previous)"
    using same_slice [OF rows k(2,1) same, of 0 k] by simp_all
  then have runs: "rf_runs previous = rf_runs row" using all by (metis order_refl take_all)
  note s = settled_tail [OF rows byte(2) span(2) [unfolded byte(1)]]
  note le = styled_painted [OF rows(1), of k]
  have "take (row_painted_bytes row) (rf_text row) = take (row_painted_bytes row) (rf_text previous)"
    by (simp only: take_slice [OF le] body s(3))
  then show ?thesis using runs s(1,2) by (simp add: row_shown_def)
qed

lemma changed_span_some:
  assumes rows: "row_sound cols row" "row_sound cols' previous" and some: "row_changed_span row previous = Some (a, b)"
  shows "a \<le> b \<and> b \<le> length (rf_runs row) \<and> row_spliced previous row (a, b) = row_shown row"
proof -
  let ?zs = "zip (rf_runs row) (rf_runs previous)" and ?B = "\<lambda>n. bytes_of (take n (rf_runs row))"
  obtain k first till byte aligned where scan: "scan_result (rf_text row) (rf_text previous) 0 ?zs
       (None, 0, 0, length (rf_runs row) = length (rf_runs previous)) k (first, till, byte, aligned)"
    and now: "row_changed_span row previous =
      (if \<not> aligned \<or> tail_differs row previous byte then
         let f = (case first of None \<Rightarrow> min (length (rf_runs row)) (length (rf_runs previous)) | Some f \<Rightarrow> f)
         in Some (f, max (length (rf_runs row)) f)
       else map_option (\<lambda>f. (f, max till f)) first)"
    by (rule changed_span_scan [of row previous])
  from some now have a0: "first = Some a \<or> first = None \<and> a = length ?zs"
    and b0: "b = max (length (rf_runs row)) a \<or> b = max till a \<and> aligned \<and> \<not> tail_differs row previous byte"
    by (auto simp: Let_def split: if_splits option.splits)
  note k = scan_result_facts [OF scan]
  have a: "a \<le> k" "a \<le> length (rf_runs row)" using a0 k(1,5) k(6) [of a] by auto
  have same: "same_run (rf_text row) (rf_text previous) 0 ?zs m" if "m < a" for m
    using k(7) [of m] a0 a(1) that by auto
  have byte: "byte = ?B k" "bytes_of (take k (rf_runs previous)) = ?B k"
    using same_place_bytes [OF k(2,1) order_refl] k(3) by simp_all
  have runs: "take a (rf_runs row) = take a (rf_runs previous)" and body: "take (?B a) (rf_text row) = take (?B a) (rf_text previous)"
    using same_slice [OF rows k(2,1) same, of 0 a] a(1) by simp_all
  show ?thesis
  proof (cases "b = length (rf_runs row)")
    case True
    then show ?thesis using a(2) spliced_to_end [OF rows a(2) runs body] by simp
  next
    case False
    then have inner: "b = max till a" "aligned" "\<not> tail_differs row previous byte" using a(2) b0 by auto
    have all: "k = length (rf_runs row)" "length (rf_runs previous) = length (rf_runs row)" using inner(2) k(4) by simp_all
    have b: "a \<le> b" "b < length (rf_runs row)" using False inner(1) a(2) k(9) by auto
    have later: "same_run (rf_text row) (rf_text previous) 0 ?zs m" if "b \<le> m" "m < k" for m
      using k(8) that inner(1) by simp
    note rest = same_slice [OF rows k(2,1) later, of b k]
    note s = settled_tail [OF rows byte(2) inner(3) [unfolded byte(1)]]
    have le: "?B b \<le> ?B k" "?B k \<le> row_painted_bytes row" using take_sums_le(1) [of b k "rf_runs row"] b all(1) styled_painted [OF rows(1), of k] by linarith+
    have split: "take (row_painted_bytes row - ?B b) (drop (?B b) t) =
        take (?B k - ?B b) (drop (?B b) t) @ take (row_painted_bytes row - ?B k) (drop (?B k) t)" for t :: bytes
      using take_slice [of "?B k - ?B b" "row_painted_bytes row - ?B b" "drop (?B b) t"] le by simp
    have "take (row_painted_bytes row - ?B b) (drop (?B b) (rf_text row)) = take (row_painted_bytes row - ?B b) (drop (?B b) (rf_text previous))"
      unfolding split using rest(1) b(2) all(1) s(3) by (metis less_imp_le order_refl)
    moreover have "drop b (rf_runs row) = drop b (rf_runs previous)" using rest(2) b(2) all by simp
    ultimately show ?thesis using b spliced_inside [OF rows b runs _ body _ s(2,1)] by simp
  qed
qed

end
