(* ===== verification/Proto_Clean.thy ===== *)
theory Proto_Clean
  imports Proto_Stream
begin

text \<open>
  No control character arrives in a string. Every string either table of
  \<^verbatim>\<open>src/crates/proto/src/lib.rs\<close> carries, the words of a command apart, is free of control characters
  once decoded, so a peer cannot drive the terminal through a title, a name or a row.
\<close>

section \<open>The strings of a message\<close>

fun client_strings :: "client_message \<Rightarrow> bytes list" where
  "client_strings (CHello versions grid term env command client) = term # concat (map (\<lambda>(name, value). [name, value]) env)"
| "client_strings (CSearch pattern limit) = [pattern]"
| "client_strings (CForwardOpen seq stream target) = [ft_host target]"
| "client_strings (CRenameSession session_id name) = [name]"
| "client_strings m = []"

definition header_strings :: "screen_header \<Rightarrow> bytes list" where
  "header_strings h = (case sk_title (sh_sticky h) of None \<Rightarrow> [] | Some title \<Rightarrow> [title]) @ sk_deferred (sh_sticky h)"

definition spans_strings :: "rowspan list \<Rightarrow> bytes list" where
  "spans_strings rows = map (\<lambda>sp. rf_text (sp_frame sp)) rows"

definition part_strings :: "screen_part \<Rightarrow> bytes list" where
  "part_strings part =
     (case part of Head header _ _ _ rows \<Rightarrow> header_strings header @ spans_strings rows
      | Tail _ _ _ _ rows \<Rightarrow> spans_strings rows)"

fun server_strings :: "server_message \<Rightarrow> bytes list" where
  "server_strings (SSessionList sessions) = map ss_command sessions"
| "server_strings (SSearchResults matches) = map sm_line matches"
| "server_strings (SScreen part) = part_strings part"
| "server_strings (SSessionNames names) = map sn_name names"
| "server_strings m = []"

definition clean :: "bytes \<Rightarrow> bool" where
  "clean bs \<longleftrightarrow> utf8 bs \<and> \<not> has_control bs"

section \<open>Client messages\<close>

lemma printable_clean: "list_all (\<lambda>b. 0x20 \<le> b \<and> b < 0x7F) bs \<Longrightarrow> clean bs"
proof (induction bs)
  case Nil
  then show ?case by (simp add: clean_def has_control_def)
next
  case (Cons b bs)
  have "b < 0x80" using Cons.prems by (auto simp: word_less_nat_alt word_le_nat_alt)
  from utf8_char_intros(1) [OF this] have c: "utf8_char (unat b) [b]" .
  have "\<not> is_control (unat b)" using Cons.prems by (auto simp: is_control_def word_less_nat_alt word_le_nat_alt)
  then show ?case using Cons utf8_char_append [OF c, of bs] text_chars_char [OF c, of bs]
    by (simp add: clean_def has_control_def)
qed

lemma alnum_printable: "is_ascii_alphanumeric b \<Longrightarrow> 0x20 \<le> b \<and> b < 0x7F" "is_ascii_alphabetic b \<Longrightarrow> 0x20 \<le> b \<and> b < 0x7F"
  by (auto simp: is_ascii_alphanumeric_def is_ascii_alphabetic_def word_less_nat_alt word_le_nat_alt)

lemma valid_term_clean: "valid_term t \<Longrightarrow> clean t"
  by (rule printable_clean) (auto simp: valid_term_def list_all_iff dest: alnum_printable)

lemma valid_env_name_clean: "valid_env_name t \<Longrightarrow> clean t"
  by (rule printable_clean) (auto simp: valid_env_name_def list_all_iff split: list.splits dest: alnum_printable)

lemma client_strings_clean:
  assumes "client_typed m" "client_body spoken m = Inr bs"
  shows "list_all clean (client_strings m)"
proof (cases m)
  case (CHello versions grid t env command client)
  from assms(2) CHello obtain a b where "term_put t = Inr a" "encode_env env = Inr b" by auto
  then have "valid_term t" "list_all (\<lambda>(name, value). valid_env_name name \<and> \<not> has_control value \<and> length name \<le> 255) env"
    using encode_env_entries by (auto simp: term_put_def encode_env_def)
  then show ?thesis
    using assms(1) CHello valid_term_clean [of t] valid_env_name_clean
    by (fastforce simp: list_all_iff env_typed_def clean_def)
next
  case (CForwardOpen seq stream target)
  then show ?thesis using assms
    by (auto simp: encode_forward_target_def Let_def clean_def target_typed_def)
qed (use assms in \<open>auto simp: pattern_put_def name_put_def clean_def split: if_splits\<close>)

section \<open>Server messages\<close>

lemma listed_clean:
  "enc_seq (map summary_put ss) = Inr bs \<Longrightarrow> list_all summary_typed ss \<Longrightarrow> list_all clean (map ss_command ss)"
  "enc_seq (map match_put ms) = Inr bs \<Longrightarrow> list_all match_typed ms \<Longrightarrow> list_all clean (map sm_line ms)"
  "enc_seq (map named_put ns) = Inr bs \<Longrightarrow> list_all named_typed ns \<Longrightarrow> list_all clean (map sn_name ns)"
proof -
  show "enc_seq (map summary_put ss) = Inr bs \<Longrightarrow> list_all summary_typed ss \<Longrightarrow> list_all clean (map ss_command ss)"
    by (induction ss arbitrary: bs) (fastforce simp: summary_put_def summary_typed_def clean_def)+
  show "enc_seq (map match_put ms) = Inr bs \<Longrightarrow> list_all match_typed ms \<Longrightarrow> list_all clean (map sm_line ms)"
    by (induction ms arbitrary: bs) (fastforce simp: match_put_def match_typed_def clean_def)+
  show "enc_seq (map named_put ns) = Inr bs \<Longrightarrow> list_all named_typed ns \<Longrightarrow> list_all clean (map sn_name ns)"
    by (induction ns arbitrary: bs) (fastforce simp: named_put_def name_put_def named_typed_def clean_def split: if_splits)+
qed

lemma gives_loop_all:
  assumes "\<And>s. gives (step s) (\<lambda>(v, s') n. P v)"
  shows "gives (decode_loop n step s) (\<lambda>vs m. list_all P vs)"
proof (induction n arbitrary: s)
  case 0
  then show ?case by (auto intro!: gives_intros)
next
  case (Suc n)
  then show ?case
    by (auto intro!: gives_intros gives_bind [OF assms] gives_bind [OF Suc.IH])
qed

lemma row_span_clean:
  assumes "grid_option_typed grid"
  shows "gives (decode_part_row grid previous) (\<lambda>(sp, s') n. clean (rf_text (sp_frame sp)))"
proof -
  have "part_cols grid \<le> 65535" using part_limits [OF assms] by simp
  then show ?thesis
    unfolding decode_part_row_def Let_def
    by (intro gives_intros gives_bind [OF row_frame_gives]) (auto simp: clean_def row_fits_def)
qed

lemma part_rows_clean:
  assumes "grid_option_typed grid"
  shows "gives (decode_part_rows grid) (\<lambda>rows n. list_all clean (spans_strings rows))"
proof -
  have "gives (decode_loop count (decode_part_row grid) None) (\<lambda>rows n. list_all clean (spans_strings rows))" for count
    by (rule gives_mono [OF gives_loop_all [OF row_span_clean [OF assms]]]) (auto simp: spans_strings_def list_all_iff)
  then show ?thesis unfolding decode_part_rows_def by (intro gives_intros)
qed

lemma title_clean: "gives decode_title (\<lambda>title n. list_all clean (case title of None \<Rightarrow> [] | Some t \<Rightarrow> [t]))"
  unfolding decode_title_def by (intro gives_intros) (auto simp: clean_def)

lemma deferred_clean: "gives (decode_deferred tot) (\<lambda>(e, s') n. clean e)"
  unfolding decode_deferred_def by (intro gives_intros) (auto simp: clean_def)

lemma sticky_clean:
  "gives decode_sticky (\<lambda>s n. list_all clean (case sk_title s of None \<Rightarrow> [] | Some t \<Rightarrow> [t]) \<and> list_all clean (sk_deferred s))"
  unfolding decode_sticky_def
  by (intro gives_intros gives_bind [OF title_clean] el_cursor.bind_gives gives_bind [OF gives_loop_all [OF deferred_clean]]) auto

lemma header_clean: "gives decode_header (\<lambda>h n. grid_option_typed (Some (sh_size h)) \<and> list_all clean (header_strings h))"
  unfolding decode_header_def generation_decode_def screen_version_decode_def
  by (intro gives_intros el_cursor.bind_gives gives_bind [OF sticky_clean])
    (auto simp: header_strings_def grid_option_typed_def dest: grid_new_typed)

lemma part_clean: "gives decode_screen_part (\<lambda>part n. list_all clean (part_strings part))"
proof -
  have none: "grid_option_typed None" by (simp add: grid_option_typed_def)
  show ?thesis
    unfolding decode_screen_part_def generation_decode_def screen_version_decode_def
    by (intro gives_intros gives_bind [OF header_clean] gives_bind [OF gives_scroll] gives_bind [OF part_rows_clean] none)
      (auto simp: part_strings_def)
qed

lemma server_strings_clean:
  assumes "server_decode payload spoken = Inr m"
  shows "list_all clean (server_strings m)"
proof -
  have typed: "server_typed m" "\<exists>bs. server_body spoken m = Inr bs"
    using gives_run [OF server_body_gives] assms unfolding server_decode_def by blast+
  show ?thesis
  proof (cases m)
    case (SScreen part)
    have "gives (decode_bind cursor_u8 (server_get_fields spoken)) (\<lambda>m n. \<forall>part. m = SScreen part \<longrightarrow> list_all clean (part_strings part))"
      unfolding server_get_fields_def
      by (intro gives_intros server_gives gives_bind [OF part_clean]) auto
    from gives_run [OF this] assms SScreen show ?thesis unfolding server_decode_def by fastforce
  qed (use typed listed_clean in \<open>auto simp: sessions_put_def matches_put_def names_put_def\<close>)
qed

end
