(* ===== verification/Proto_Properties.thy ===== *)
theory Proto_Properties
  imports Proto_Pieces Proto_Delta Proto_Clean
begin

text \<open>
  The properties of the wire protocol: streams of messages in both directions, what a decoder may
  return, screens cut to a budget and read back, deltas of rows, and the borrowed forms of the hot
  message. Each is followed by a witness on concrete values.
\<close>

section \<open>Streams of messages\<close>

text \<open>C7: a stream of client messages is read back message by message by the daemon, under its own
  frame limit and whatever bytes follow; the one field an older version does not write reads as empty.\<close>

theorem client_stream_roundtrip:
  assumes "list_all client_typed ms" "enc_seq (map (\<lambda>m. client_encode m spoken) ms) = Inr bs"
  shows "read_messages (\<lambda>payload. client_decode payload spoken) MAX_CLIENT_FRAME (length ms)
      \<lparr>rd_bytes = bs @ rest, rd_fault = f\<rparr> =
    Inr (map (client_view spoken) ms, \<lparr>rd_bytes = rest, rd_fault = f\<rparr>)"
  by (rule to_daemon.stream_back [OF assms])

theorem client_stream_roundtrip_witness:
  "\<exists>bs. enc_seq (map (\<lambda>m. client_encode m 17) [CListSessions, CInput 7 [0x61, 0x1B]]) = Inr bs \<and>
     read_messages (\<lambda>payload. client_decode payload 17) MAX_CLIENT_FRAME 2 \<lparr>rd_bytes = bs @ [0], rd_fault = UnexpectedEof\<rparr> =
     Inr ([CListSessions, CInput 7 [0x61, 0x1B]], \<lparr>rd_bytes = [0], rd_fault = UnexpectedEof\<rparr>)"
proof -
  have "\<exists>bs. enc_seq (map (\<lambda>m. client_encode m 17) [CListSessions, CInput 7 [0x61, 0x1B]]) = Inr bs"
    by (simp add: client_encode_def framed_Inr seq_put_def chunk_put_def MAX_FRAME_def MAX_INPUT_CHUNK_def u32_max_def)
  moreover have "list_all client_typed [CListSessions, CInput 7 [0x61, 0x1B]]"
    by (simp add: non_zero_typed_def u64_max_def)
  ultimately show ?thesis using client_stream_roundtrip [of "[CListSessions, CInput 7 [0x61, 0x1B]]" 17 _ "[0]" UnexpectedEof]
    by (auto simp: numeral_2_eq_2)
qed

text \<open>C8: the same for the daemon's messages and its clients, screens included. What arrives of a screen
  is its rows with control characters blanked and its titles and notices as far as the limits carry.\<close>

theorem server_stream_roundtrip:
  assumes "list_all server_typed ms" "enc_seq (map (\<lambda>m. server_encode m spoken) ms) = Inr bs"
  shows "read_messages (\<lambda>payload. server_decode payload spoken) MAX_FRAME (length ms)
      \<lparr>rd_bytes = bs @ rest, rd_fault = f\<rparr> =
    Inr (map (server_view spoken) ms, \<lparr>rd_bytes = rest, rd_fault = f\<rparr>)"
  by (rule to_client.stream_back [OF assms])

theorem server_stream_roundtrip_witness:
  "\<exists>bs. enc_seq (map (\<lambda>m. server_encode m 17) [SExit 3, SOutput 9 Opaque (Some 4) [0x1B]]) = Inr bs \<and>
     read_messages (\<lambda>payload. server_decode payload 17) MAX_FRAME 2 \<lparr>rd_bytes = bs @ [0], rd_fault = UnexpectedEof\<rparr> =
     Inr ([SExit 3, SOutput 9 Opaque (Some 4) [0x1B]], \<lparr>rd_bytes = [0], rd_fault = UnexpectedEof\<rparr>)"
proof -
  have "\<exists>bs. enc_seq (map (\<lambda>m. server_encode m 17) [SExit 3, SOutput 9 Opaque (Some 4) [0x1B]]) = Inr bs"
    by (simp add: server_encode_def framed_Inr off_put_def cue_put_def encode_cue_def opt_seq_put_def i32_put_def chunk_put_def
        MAX_FRAME_def MAX_OUTPUT_CHUNK_def u32_max_def)
  moreover have "list_all server_typed [SExit 3, SOutput 9 Opaque (Some 4) [0x1B]]"
    by (simp add: non_zero_typed_def opt_seq_typed_def cue_typed_def u64_typed_def u64_max_def)
  ultimately show ?thesis using server_stream_roundtrip [of "[SExit 3, SOutput 9 Opaque (Some 4) [0x1B]]" 17 _ "[0]" UnexpectedEof]
    by (auto simp: numeral_2_eq_2)
qed

section \<open>What a decoder returns\<close>

text \<open>C13: whatever bytes the daemon decodes, the message is one the types of the source allow, the
  encoder takes it back within one byte of the payload, and that frame decodes to it again.\<close>

theorem client_decode_canonical:
  assumes "client_decode payload spoken = Inr m"
  shows "client_typed m \<and> (\<exists>frame. client_encode m spoken = Inr frame \<and> length frame \<le> LENGTH_PREFIX + length payload + 1 \<and>
    client_decode (drop LENGTH_PREFIX frame) spoken = Inr m)"
proof -
  obtain n bs where n: "n \<le> length payload" "client_typed m" "client_view spoken m = m"
    "client_body spoken m = Inr bs" "length bs \<le> n + 1"
    using gives_run [OF client_body_gives] assms unfolding client_decode_def by blast
  note small = client_body_small [OF n(2,4)]
  have "length bs \<le> MAX_FRAME" using small(2) by (simp add: MAX_CLIENT_FRAME_def MAX_FRAME_def)
  then show ?thesis
    using n small client_decode_body [OF n(2,4), of "[]"] by (auto simp: client_encode_def framed_Inr LENGTH_PREFIX_def)
qed

theorem client_decode_canonical_witness:
  "client_decode [1, 1] 17 = Inl Truncated \<and> client_decode [0x0C, 9] 17 = Inr CListSessions \<and> client_typed CListSessions \<and>
   (\<exists>frame. client_encode CListSessions 17 = Inr frame \<and> client_decode (drop LENGTH_PREFIX frame) 17 = Inr CListSessions)"
proof -
  have "client_decode [0x0C, 9] 17 = Inr CListSessions" "client_decode [1, 1] 17 = Inl Truncated"
    by (simp_all add: client_decode_def run_decoder_def decode_bind_def cursor_u8_def cursor_take_def cursor_new_def
        client_get_fields_def CLIENT_TAG_BASE_def decode_ok_def range_get_def cursor_u16_def cursor_array_def usize_max_def)
  then show ?thesis using client_decode_canonical [of "[0x0C, 9]" 17 CListSessions] by auto
qed

text \<open>C14: the same for a client reading the daemon, screens included: for every payload shorter than the frame
  limit, a decoded message is well typed and the frame it is written back to decodes to what that message shows.\<close>

theorem server_decode_canonical:
  assumes "server_decode payload spoken = Inr m" "length payload < MAX_FRAME"
  shows "server_typed m \<and> (\<exists>frame. server_encode m spoken = Inr frame \<and> length frame \<le> LENGTH_PREFIX + length payload + 1 \<and>
    server_decode (drop LENGTH_PREFIX frame) spoken = Inr (server_view spoken m))"
proof -
  obtain n bs where n: "n \<le> length payload" "server_typed m" "server_body spoken m = Inr bs" "length bs \<le> n + 1"
    using gives_run [OF server_body_gives] assms(1) unfolding server_decode_def by blast
  have "0 < length bs" using n(3) by (cases m) auto
  then show ?thesis
    using n assms(2) server_decode_body [OF n(2,3), of "[]"] by (auto simp: server_encode_def framed_Inr LENGTH_PREFIX_def)
qed

theorem server_decode_canonical_witness:
  "server_decode [0x84, 0, 0, 0, 3] 17 = Inr (SExit 3) \<and>
   (\<exists>frame. server_encode (SExit 3) 17 = Inr frame \<and> server_decode (drop LENGTH_PREFIX frame) 17 = Inr (SExit 3))"
proof -
  have "server_decode [0x84, 0, 0, 0, 3] 17 = Inr (SExit 3)"
    by (simp add: server_decode_def run_decoder_def decode_bind_def cursor_u8_def cursor_take_def cursor_new_def usize_max_def
        server_get_fields_def SERVER_TAG_BASE_def decode_ok_def i32_get_def cursor_u32_def cursor_array_def from_be_def)
  then show ?thesis using server_decode_canonical [of "[0x84, 0, 0, 0, 3]" 17 "SExit 3"] by (auto simp: MAX_FRAME_def)
qed

text \<open>C15: no decoded message carries a control character in a string: terminal names, environments,
  patterns, hosts and names towards the daemon; commands, lines, names, titles, notices and the text of
  every row towards the client. The words of a command are the exception.\<close>

theorem decoded_strings_clean:
  assumes "client_decode up spoken = Inr m" "server_decode down spoken = Inr m'"
  shows "list_all clean (client_strings m) \<and> list_all clean (server_strings m')"
proof -
  obtain bs where "client_typed m" "client_body spoken m = Inr bs"
    using gives_run [OF client_body_gives] assms(1) unfolding client_decode_def by blast
  then show ?thesis using client_strings_clean server_strings_clean [OF assms(2)] by blast
qed

lemma ascii_utf8: "list_all (\<lambda>b. 0x20 \<le> b \<and> b < 0x7F) bs \<Longrightarrow> utf8 bs \<and> \<not> has_control bs"
  using printable_clean by (simp add: clean_def)

theorem decoded_strings_clean_witness:
  "\<exists>up down. client_decode up 17 = Inr (CSearch [0x61, 0x20, 0x62] 5) \<and>
     server_decode down 17 = Inr (SSessionNames [\<lparr>sn_session_id = replicate 16 0, sn_name = [0x61]\<rparr>]) \<and>
     list_all clean (client_strings (CSearch [0x61, 0x20, 0x62] 5)) \<and>
     list_all clean (server_strings (SSessionNames [\<lparr>sn_session_id = replicate 16 0, sn_name = [0x61]\<rparr>]))"
proof -
  let ?m = "CSearch [0x61, 0x20, 0x62] 5" and ?m' = "SSessionNames [\<lparr>sn_session_id = replicate 16 0, sn_name = [0x61]\<rparr>]"
  have "client_typed ?m" "\<exists>bs. client_body 17 ?m = Inr bs"
    by (simp_all add: ascii_utf8 u16_typed_def pattern_put_def u16_put_def MAX_PATTERN_def)
  then obtain up where up: "client_decode up 17 = Inr ?m"
    using client_decode_body [of ?m 17 _ "[]"] client_body_small [of ?m 17]
    by (auto simp: MAX_CLIENT_FRAME_def MAX_FRAME_def)
  have "server_typed ?m'" "\<exists>bs. server_body 17 ?m' = Inr bs \<and> length bs \<le> MAX_FRAME"
    by (simp_all add: ascii_utf8 named_typed_def array_typed_def names_put_def named_put_def name_put_def MAX_SESSIONS_def
        MAX_SESSION_NAME_def MAX_FRAME_def)
  then obtain down where down: "server_decode down 17 = Inr ?m'"
    using server_decode_body [of ?m' 17 _ "[]"] by auto
  show ?thesis using decoded_strings_clean [OF up down] up down by blast
qed

section \<open>Screens\<close>




text \<open>A small screen: two rows of an eighty by twenty-four grid, the first with a styled run.\<close>

definition demo_header :: screen_header where
  "demo_header = \<lparr>sh_generation = 1, sh_version = 2, sh_next_off = 0, sh_size = \<lparr>gs_cols = 80, gs_rows = 24\<rparr>,
     sh_cursor = Some (1, 0), sh_cursor_visible = True, sh_cursor_shape = Block, sh_cursor_blinking = False, sh_modes = 0,
     sh_sticky = \<lparr>sk_title = None, sk_kitty_keyboard = 0, sk_bell = False, sk_saved_cursor = None, sk_pending_wrap = False,
       sk_deferred = []\<rparr>\<rparr>"

definition demo_style :: cell_style where
  "demo_style = \<lparr>cs_fg = Palette 3, cs_bg = DefaultColor, cs_underline_color = DefaultColor, cs_attrs = 1, cs_underline = UnderlineNone\<rparr>"

definition demo_rows :: "row_update list" where
  "demo_rows =
     [row_update_whole 0 \<lparr>rf_text = [0x61, 0x62], rf_runs = [\<lparr>ru_cells = 1, ru_bytes = 1, ru_style = demo_style\<rparr>], rf_cells = 2\<rparr>,
      row_update_whole 5 \<lparr>rf_text = [0x63], rf_runs = [], rf_cells = 1\<rparr>]"

lemmas demo_defs = demo_header_def demo_style_def demo_rows_def row_update_whole_def

lemma demo_valid: "header_valid demo_header" "rows_sound (sh_size demo_header) demo_rows"
proof -
  show "header_valid demo_header"
    by (simp add: demo_defs header_valid_def non_zero_typed_def u64_typed_def u64_max_def grid_typed_def grid_new_def
        GRID_MAX_COLS_def GRID_MAX_ROWS_def cursor_typed_def outside_grid_def mode_set_decode_def sticky_typed_def u16_typed_def)
  show "rows_sound (sh_size demo_header) demo_rows"
    by (simp add: demo_defs rows_sound_def row_sound_def row_fits_def ascii_utf8 row_tiles_def run_ok_def run_cover_def
        u16_typed_def MAX_RUN_BYTES_def MAX_CLUSTER_BYTES_def usize_max_def is_char_boundary_def is_cont_def)
qed









text \<open>C26: cutting a screen never panics on rows a grid can hold: no slice falls inside a character, no
  subtraction underflows, whatever the budget, the base or the band.\<close>

theorem screen_cut_total:
  assumes "header_valid h" "base_typed base" "rows_sound (sh_size h) rows"
  shows "encode_screen_parts h base scroll rows budget \<noteq> None"
  using encode_screen_parts_read(1) [OF assms] by auto

theorem screen_cut_total_witness: "encode_screen_parts demo_header (Some 1) None demo_rows 10 \<noteq> None"
  using screen_cut_total [OF demo_valid(1) _ demo_valid(2), of "Some 1" None 10]
  by (simp add: base_typed_def non_zero_typed_def u64_max_def)

text \<open>C25: the chunks of a row put end to end are the row: its painted text, its runs and its columns, each
  chunk placed where the last ended and acceptable to a reader. Two neighbours would not have fitted one
  chunk, and a chunk over the budget holds a single run or none.\<close>

theorem row_chunks_cover:
  assumes "row_sound cols row"
  shows "\<exists>ks. row_chunks_all (row_chunks_of row budget) = Some ks \<and>
    concat (map rk_text ks) = take (row_painted_bytes row) (rf_text row) \<and> concat (map rk_runs ks) = rf_runs row \<and>
    sum_list (map rk_cells ks) = rf_cells row \<and> placed 0 0 ks \<and> list_all (chunk_fits cols) ks \<and> crowded budget ks \<and>
    list_all (\<lambda>k. chunk_encoded_len k \<le> budget \<or> length (rk_runs k) \<le> 1) ks"
proof -
  let ?u = "row_update_whole 0 row" and ?c = "row_chunks_of row budget"
  have c: "update_chunks budget ?u = ?c" by (simp add: update_chunks_def row_update_whole_def row_chunks_of_def)
  have "row_sound cols (up_frame ?u)" using assms by (simp add: row_update_whole_def)
  note inv = update_chunks_inv [OF this, of budget, unfolded c]
  from chunks_all [OF inv(1,2)] obtain ks where ks: "row_chunks_all ?c = Some ks" "span_cut cols ?c ks" by blast
  have "ch_run ?c = 0" "ch_byte ?c = 0" "ch_cell ?c = 0" "ch_row ?c = row" "ch_end ?c = length (rf_runs row)" "ch_budget ?c = budget"
    by (simp_all add: row_chunks_of_def row_span_def row_clamp_runs_def row_run_start_def)
  then show ?thesis using ks by (intro exI [of _ ks]) (simp add: span_cut_def stop_byte_def stop_cell_def)
qed

theorem row_chunks_cover_witness:
  "\<exists>ks. row_chunks_all (row_chunks_of (up_frame (demo_rows ! 0)) 20) = Some ks \<and>
     concat (map rk_text ks) = [0x61, 0x62] \<and> sum_list (map rk_cells ks) = 2 \<and> crowded 20 ks"
proof -
  have row: "row_sound 80 (up_frame (demo_rows ! 0))"
    using demo_valid(2) by (simp add: rows_sound_def demo_rows_def demo_header_def)
  have facts: "row_painted_bytes (up_frame (demo_rows ! 0)) = 2" "rf_text (up_frame (demo_rows ! 0)) = [0x61, 0x62]"
    "rf_cells (up_frame (demo_rows ! 0)) = 2"
    by (simp_all add: demo_defs row_painted_bytes_def row_styled_bytes_def trim_end_spaces_def)
  from row_chunks_cover [OF row, of 20] show ?thesis by (auto simp: facts)
qed

text \<open>C24: the span a delta names restores the row: where the two rows differ nowhere a client could see
  no span is named, and otherwise the row before with the named runs painted over, the tail with them
  where they reach the last, shows exactly the new row.\<close>

theorem row_delta_restores:
  assumes "row_sound cols row" "row_sound cols' previous"
  shows "case row_changed_span row previous of
      None \<Rightarrow> row_shown previous = row_shown row
    | Some (a, b) \<Rightarrow> a \<le> b \<and> b \<le> length (rf_runs row) \<and> row_spliced previous row (a, b) = row_shown row"
  using changed_span_none [OF assms] changed_span_some [OF assms] by (auto split: option.splits)

theorem row_delta_restores_witness:
  "row_changed_span (up_frame (demo_rows ! 0)) (up_frame (demo_rows ! 1)) = Some (0, 1) \<and>
   row_spliced (up_frame (demo_rows ! 1)) (up_frame (demo_rows ! 0)) (0, 1) = row_shown (up_frame (demo_rows ! 0))"
proof -
  have rows: "row_sound 80 (up_frame (demo_rows ! 0))" "row_sound 80 (up_frame (demo_rows ! 1))"
    using demo_valid(2) by (simp_all add: rows_sound_def demo_rows_def demo_header_def)
  have "row_changed_span (up_frame (demo_rows ! 0)) (up_frame (demo_rows ! 1)) = Some (0, 1)"
    by (simp add: demo_defs row_changed_span_def Let_def)
  with row_delta_restores [OF rows] show ?thesis by simp
qed

text \<open>C34: the borrowed reading of the hot message is the owned one. A payload whose first byte is not
  the tag of \<^verbatim>\<open>Output\<close> is left alone; any other is read, or refused with the same error, as the whole
  decoder would, in every version, and writing through the borrowed encoder is writing the message.\<close>

theorem peek_output_agrees:
  "peek_output payload =
     (if payload \<noteq> [] \<and> hd payload = 2 + SERVER_TAG_BASE
      then Some (case server_decode payload spoken of
        Inl e \<Rightarrow> Inl e
      | Inr m \<Rightarrow> (case m of SOutput off cue echo_ack bytes \<Rightarrow>
          Inr \<lparr>or_off = off, or_cue = cue, or_echo_ack = echo_ack, or_bytes = bytes\<rparr>))
      else None) \<and>
   encode_output_into off cue echo_ack bytes = server_encode (SOutput off cue echo_ack bytes) spoken"
proof -
  have out: "encode_output_into off cue echo_ack bytes = server_encode (SOutput off cue echo_ack bytes) spoken"
    by (simp add: encode_output_into_def put_output_def server_encode_def)
  show ?thesis
  proof (cases payload)
    case Nil
    then show ?thesis using out by (simp add: decode_bind_def peek_output_def cursor_u8_def cursor_take_def cursor_new_def cursor_array_def)
  next
    case (Cons tag body)
    have u8: "cursor_u8 (cursor_new (t # body)) = Inr (t, \<lparr>cu_bytes = t # body, cu_pos = Suc 0\<rparr>)" for t
      by (simp add: decode_bind_def decode_ok_def cursor_u8_def cursor_take_def cursor_new_def usize_max_def)
    have fields: "server_get_fields spoken (2 + SERVER_TAG_BASE) =
        decode_bind peek_fields (\<lambda>r. decode_ok (SOutput (or_off r) (or_cue r) (or_echo_ack r) (or_bytes r)))"
      by (rule ext)
        (simp add: server_get_fields_def peek_fields_def chunk_get_def decode_bind_def decode_ok_def decode_err_def Let_def
          split: sum.splits prod.splits)
    show ?thesis
      using out Cons
      by (auto simp: peek_output_def u8 server_decode_def run_decoder_def fields decode_ok_def decode_bind_def [of cursor_u8]
          decode_bind_def [of peek_fields] split: sum.splits)
  qed
qed

text \<open>C35: a frame cut short is never a message. Whatever prefix of a frame a reader delivers before it
  ends, the reader reports truncation at end of stream and the transport's own fault otherwise.\<close>

theorem read_frame_cut_short:
  assumes "0 < length bs" "length bs \<le> limit" "length bs \<le> MAX_FRAME" "n < LENGTH_PREFIX + length bs"
  shows "read_frame \<lparr>rd_bytes = take n (be_bytes 4 (length bs) @ bs), rd_fault = f\<rparr> limit =
    Inl (if f = UnexpectedEof then Truncated else Io f)"
proof (cases "n < 4")
  case True
  then show ?thesis by (simp add: read_frame_def read_exact_def)
next
  case False
  have "from_be (be_bytes 4 (length bs)) = length bs"
    using assms(3) by (simp add: from_be_be_bytes MAX_FRAME_def)
  then show ?thesis using False assms by (auto simp: read_frame_def read_exact_def Let_def LENGTH_PREFIX_def)
qed

theorem read_frame_cut_short_witness:
  "read_frame \<lparr>rd_bytes = take 5 (be_bytes 4 2 @ [0x0C, 0]), rd_fault = UnexpectedEof\<rparr> MAX_CLIENT_FRAME = Inl Truncated"
  using read_frame_cut_short [of "[0x0C, 0]" MAX_CLIENT_FRAME 5 UnexpectedEof]
  by (simp add: MAX_CLIENT_FRAME_def MAX_FRAME_def LENGTH_PREFIX_def numeral_2_eq_2)

text \<open>Negotiation settles on the newest version both ranges hold, and refuses, naming both ranges,
  exactly when there is none.\<close>

theorem version_negotiate_newest:
  "version_negotiate server client =
     (let both = {vr_oldest server..vr_newest server} \<inter> {vr_oldest client..vr_newest client} in
      if both = {} then Inl (RejectVersion server client) else Inr (Max both))"
proof -
  let ?low = "max (vr_oldest server) (vr_oldest client)" and ?high = "min (vr_newest server) (vr_newest client)"
  have both: "{vr_oldest server..vr_newest server} \<inter> {vr_oldest client..vr_newest client} = {?low..?high}" by auto
  have "?low \<le> ?high \<Longrightarrow> Max {?low..?high} = ?high" by (rule Max_eqI) auto
  then show ?thesis unfolding both by (auto simp: version_negotiate_def Let_def max_def min_def)
qed

text \<open>C37: the text of a row goes out with every control character a blank of its own width and nothing else
  changed: of the characters written, the one in the place of a C0 control or DEL is a space, the one in the place of
  a C1 control is the no-break space, and every other is the character that was there. The length and the character
  boundaries are those of the text, so the runs that name byte counts still tile it, and a text without controls goes
  out byte for byte.\<close>

theorem push_row_text_blanks:
  assumes "utf8 t"
  shows "utf8 (push_row_text t) \<and>
    text_chars (push_row_text t) =
      map (\<lambda>c. if c \<le> 0x1F \<or> c = 0x7F then 0x20 else if 0x80 \<le> c \<and> c \<le> 0x9F then 0xA0 else c) (text_chars t) \<and>
    \<not> has_control (push_row_text t) \<and> length (push_row_text t) = length t \<and>
    (\<forall>i. is_char_boundary (push_row_text t) i = is_char_boundary t i) \<and> (\<not> has_control t \<longrightarrow> push_row_text t = t)"
proof -
  have "char_blanked = (\<lambda>c. if c \<le> 0x1F \<or> c = 0x7F then 0x20 else if 0x80 \<le> c \<and> c \<le> 0x9F then 0xA0 else c)"
    by (auto simp: char_blanked_def is_control_def)
  then show ?thesis
    using blank_controls_utf8 [OF assms] blank_controls_chars [OF assms] blank_controls_boundary [OF assms] blank_controls_idle [OF assms]
    by (simp add: push_row_text_blank)
qed

theorem push_row_text_blanks_witness:
  "utf8 [0x61, 0x1B, 0xC2, 0x9B] \<and> push_row_text [0x61, 0x1B, 0xC2, 0x9B] = [0x61, 0x20, 0xC2, 0xA0] \<and>
   text_chars (push_row_text [0x61, 0x1B, 0xC2, 0x9B]) = [0x61, 0x20, 0xA0]"
proof -
  have t: "utf8 [0x61, 0x1B, 0xC2, 0x9B]" "text_chars [0x61, 0x1B, 0xC2, 0x9B] = [0x61, 0x1B, 0x9B]"
    by (simp_all add: utf8_def text_chars_def utf8_chars.simps is_cont_def utf8_second_def utf8_low_def)
  moreover have "push_row_text [0x61, 0x1B, 0xC2, 0x9B] = [0x61, 0x20, 0xC2, 0xA0]" by (simp add: push_row_text_blank)
  ultimately show ?thesis using push_row_text_blanks [OF t(1)] by simp
qed

text \<open>Selecting a mode in an exclusive group leaves that group holding exactly the selection, the other
  group's selection and every mode outside the group as they were; a mode of another group panics.\<close>

theorem mode_select_exclusive:
  assumes "grp < length EXCLUSIVE_MODES"
  shows "case mode_select s grp mode of
      None \<Rightarrow> \<exists>m. mode = Some m \<and> m \<notin> set (EXCLUSIVE_MODES ! grp)
    | Some s' \<Rightarrow> mode_allowed grp mode \<and> mode_selections s' = (mode_selections s)[grp := mode] \<and>
        (\<forall>i. i \<notin> set (EXCLUSIVE ! grp) \<longrightarrow> mode_set_get s' i = mode_set_get s i)"
proof (cases "mode_allowed grp mode")
  case True
  from mode_select_spec [OF True, of s] True show ?thesis by auto
next
  case False
  then obtain m where "mode = Some m" "m \<notin> set (EXCLUSIVE_MODES ! grp)" using assms by (auto simp: mode_allowed_def)
  then show ?thesis using mode_select_foreign assms by (simp add: EXCLUSIVE_MODES_def)
qed

theorem mode_select_exclusive_witness:
  "\<exists>s'. mode_select 0 1 (Some 1006) = Some s' \<and> mode_selections s' = [None, Some 1006]"
proof -
  have g: "1 < length EXCLUSIVE_MODES" by (simp add: EXCLUSIVE_MODES_def)
  have "mode_selections 0 = [None, None]" by (simp add: mode_selections_def exclusive_table mode_set_get_def)
  then show ?thesis using mode_select_exclusive [OF g, where s = 0 and mode = "Some 1006"]
    by (auto simp: EXCLUSIVE_MODES_def split: option.splits)
qed

text \<open>Of the notices a screen carries the newest that fit: those sent are a suffix within both
  limits, and one more would have broken a limit.\<close>

theorem deferred_newest_fit:
  "\<exists>dropped. ds = dropped @ drop (deferred_start ds) ds \<and>
     length (drop (deferred_start ds) ds) \<le> MAX_DEFERRED \<and>
     sum_list (map deferred_cost (drop (deferred_start ds) ds)) \<le> MAX_DEFERRED_BYTES \<and>
     (dropped = [] \<or> MAX_DEFERRED < Suc (length (drop (deferred_start ds) ds)) \<or>
      MAX_DEFERRED_BYTES < deferred_cost (last dropped) + sum_list (map deferred_cost (drop (deferred_start ds) ds)))"
proof (intro exI conjI)
  let ?n = "deferred_start ds"
  show "ds = take ?n ds @ drop ?n ds" by simp
  show "length (drop ?n ds) \<le> MAX_DEFERRED" "sum_list (map deferred_cost (drop ?n ds)) \<le> MAX_DEFERRED_BYTES"
    by (rule deferred_start_spec)+
  show "take ?n ds = [] \<or> MAX_DEFERRED < Suc (length (drop ?n ds)) \<or>
      MAX_DEFERRED_BYTES < deferred_cost (last (take ?n ds)) + sum_list (map deferred_cost (drop ?n ds))"
  proof (cases "0 < ?n")
    case True
    have le: "?n \<le> length ds" by (rule deferred_start_spec)
    then have "last (take ?n ds) = ds ! (?n - 1)" using True by (subst last_conv_nth) auto
    moreover have "drop (?n - 1) ds = ds ! (?n - 1) # drop (Suc (?n - 1)) ds"
      using True le by (intro Cons_nth_drop_Suc [symmetric]) simp
    ultimately have "drop (?n - 1) ds = last (take ?n ds) # drop ?n ds" using True by simp
    then show ?thesis using deferred_start_spec(4) [OF True] by (auto simp del: length_drop)
  qed simp
qed

end
