(* ===== verification/Row_Mask.thy ===== *)
theory Row_Mask
  imports Prelude
begin

text \<open>
  The set of rows an emulator dirtied: \<^verbatim>\<open>RowMask\<close> of \<^verbatim>\<open>src/crates/vt/src/lib.rs\<close>, a growing vector of
  64-bit words, bit by bit. It behaves as a set of rows, and its iterators list that set in ascending
  order.
\<close>

section \<open>Model\<close>

record row_mask =
  rm_words :: "u64 list"

definition mask_default :: row_mask where
  "mask_default = \<lparr>rm_words = []\<rparr>"

definition mask_words_for :: "nat \<Rightarrow> nat" where
  "mask_words_for rows = div_ceil rows 64"

definition mask_position :: "nat \<Rightarrow> nat \<times> u64" where
  "mask_position row = (row div 64, push_bit (row mod 64) 1)"

definition mask_with_rows :: "nat \<Rightarrow> row_mask" where
  "mask_with_rows rows = \<lparr>rm_words = replicate (mask_words_for rows) 0\<rparr>"

definition mask_reset :: "row_mask \<Rightarrow> nat \<Rightarrow> row_mask" where
  "mask_reset m rows = m\<lparr>rm_words := replicate (mask_words_for rows) 0\<rparr>"

text \<open>\<^verbatim>\<open>Vec::resize\<close> with zeros.\<close>

definition words_resize :: "u64 list \<Rightarrow> nat \<Rightarrow> u64 list" where
  "words_resize ws n = take n ws @ replicate (n - length ws) 0"

definition mask_set :: "row_mask \<Rightarrow> nat \<Rightarrow> row_mask" where
  "mask_set m row =
     (let (word, b) = mask_position row;
          words = (if length (rm_words m) \<le> word then words_resize (rm_words m) (word + 1) else rm_words m)
      in m\<lparr>rm_words := words[word := words ! word OR b]\<rparr>)"

definition mask_filled :: "nat \<Rightarrow> row_mask" where
  "mask_filled rows = foldl mask_set (mask_with_rows rows) [0..<rows]"

definition mask_get :: "row_mask \<Rightarrow> nat \<Rightarrow> bool" where
  "mask_get m row =
     (let (word, b) = mask_position row in word < length (rm_words m) \<and> rm_words m ! word AND b \<noteq> 0)"

fun words_union :: "u64 list \<Rightarrow> u64 list \<Rightarrow> u64 list" where
  "words_union (slot # slots) (word # words) = (slot OR word) # words_union slots words"
| "words_union slots _ = slots"

definition mask_union :: "row_mask \<Rightarrow> row_mask \<Rightarrow> row_mask" where
  "mask_union m other =
     (let words = (if length (rm_words m) < length (rm_words other)
        then words_resize (rm_words m) (length (rm_words other)) else rm_words m)
      in m\<lparr>rm_words := words_union words (rm_words other)\<rparr>)"

definition mask_clear_all :: "row_mask \<Rightarrow> row_mask" where
  "mask_clear_all m = m\<lparr>rm_words := map (\<lambda>_. 0) (rm_words m)\<rparr>"

definition mask_is_empty :: "row_mask \<Rightarrow> bool" where
  "mask_is_empty m = list_all (\<lambda>word. word = 0) (rm_words m)"

text \<open>The bits of one word: take the lowest, clear it, go on.\<close>

definition trailing_zeros :: "u64 \<Rightarrow> nat" where
  "trailing_zeros w = length (takeWhile (\<lambda>n. \<not> bit w n) [0..<64])"

lemma word_pred_less:
  assumes "w \<noteq> (0 :: u64)"
  shows "w AND (w - 1) < w"
proof -
  have "w AND (w - 1) \<le> w - 1" by (rule word_and_le1)
  also have "w - 1 < w"
    using assms unat_minus_one [of w] by (simp add: word_less_nat_alt unat_gt_0)
  finally show ?thesis .
qed

function word_bits :: "u64 \<Rightarrow> nat list" where
  "word_bits w = (if w = 0 then [] else trailing_zeros w # word_bits (w AND (w - 1)))"
  by pat_completeness auto
termination
  by (relation "measure unat") (auto dest!: word_pred_less simp: word_less_nat_alt)

declare word_bits.simps [simp del]

text \<open>\<^verbatim>\<open>bits\<close> over the words from a given index on; a row that does not fit sixteen bits ends the walk of its word.\<close>

fun mask_bits :: "nat \<Rightarrow> u64 list \<Rightarrow> nat list" where
  "mask_bits index [] = []"
| "mask_bits index (word # words) =
     takeWhile (\<lambda>row. row < 65536) (map (\<lambda>b. index * 64 + b) (word_bits word)) @ mask_bits (Suc index) words"

definition mask_iter :: "row_mask \<Rightarrow> nat list" where
  "mask_iter m = mask_bits 0 (rm_words m)"

definition word_or_zero :: "u64 list \<Rightarrow> nat \<Rightarrow> u64" where
  "word_or_zero ws i = (if i < length ws then ws ! i else 0)"

definition mask_iter_either :: "row_mask \<Rightarrow> row_mask \<Rightarrow> nat list" where
  "mask_iter_either m other =
     (let words = max (length (rm_words m)) (length (rm_words other))
      in mask_bits 0 (map (\<lambda>i. word_or_zero (rm_words m) i OR word_or_zero (rm_words other) i) [0..<words]))"

section \<open>A mask is a set of rows\<close>

definition mask_rows :: "row_mask \<Rightarrow> nat set" where
  "mask_rows m = {row. mask_get m row}"

text \<open>Rows are sixteen bits wide.\<close>

definition mask_ok :: "row_mask \<Rightarrow> bool" where
  "mask_ok m \<longleftrightarrow> length (rm_words m) \<le> 1024"

definition words_bit :: "u64 list \<Rightarrow> nat \<Rightarrow> bool" where
  "words_bit ws row \<longleftrightarrow> bit (word_or_zero ws (row div 64)) (row mod 64)"

lemma mask_get_bit: "mask_get m row = words_bit (rm_words m) row"
  by (simp add: mask_get_def mask_position_def words_bit_def word_or_zero_def and_exp_eq_0_iff_not_bit
      push_bit_eq_mult)

lemma words_bit_resize [simp]: "length ws \<le> n \<Longrightarrow> words_bit (words_resize ws n) row = words_bit ws row"
  by (auto simp: words_bit_def word_or_zero_def words_resize_def nth_append)

lemma length_words_resize [simp]: "length (words_resize ws n) = n"
  by (simp add: words_resize_def)

lemma words_bit_update:
  assumes "row div 64 < length ws"
  shows "words_bit (ws[row div 64 := ws ! (row div 64) OR 2 ^ (row mod 64)]) i \<longleftrightarrow> i = row \<or> words_bit ws i"
proof (cases "i div 64 = row div 64")
  case True
  have "i = row \<longleftrightarrow> i mod 64 = row mod 64" using True by (metis mult_div_mod_eq)
  with True assms show ?thesis
    by (auto simp: words_bit_def word_or_zero_def bit_or_iff bit_exp_iff)
next
  case False
  then show ?thesis using assms by (auto simp: words_bit_def word_or_zero_def)
qed

lemma mask_get_set [simp]: "mask_get (mask_set m row) i \<longleftrightarrow> i = row \<or> mask_get m i"
proof -
  let ?ws = "if length (rm_words m) \<le> row div 64 then words_resize (rm_words m) (row div 64 + 1) else rm_words m"
  have "row div 64 < length ?ws" by (auto simp: words_resize_def)
  from words_bit_update [OF this] have "words_bit (rm_words (mask_set m row)) i \<longleftrightarrow> i = row \<or> words_bit ?ws i"
    by (simp add: mask_set_def mask_position_def Let_def)
  then show ?thesis by (simp add: mask_get_bit)
qed

lemma mask_get_default [simp]: "\<not> mask_get mask_default i"
  by (simp add: mask_get_def mask_default_def mask_position_def)

lemma mask_get_reset [simp]: "\<not> mask_get (mask_reset m rows) i" "\<not> mask_get (mask_with_rows rows) i"
  by (simp_all add: mask_get_bit words_bit_def word_or_zero_def mask_reset_def mask_with_rows_def)

lemma mask_get_sets: "mask_get (foldl mask_set m rows) i \<longleftrightarrow> i \<in> set rows \<or> mask_get m i"
  by (induction rows arbitrary: m) auto

lemma mask_get_filled [simp]: "mask_get (mask_filled rows) i \<longleftrightarrow> i < rows"
  by (auto simp: mask_filled_def mask_get_sets)

lemma mask_get_clear_all [simp]: "\<not> mask_get (mask_clear_all m) i"
  by (simp add: mask_get_bit words_bit_def word_or_zero_def mask_clear_all_def)

lemma words_bit_union: "length ws' \<le> length ws \<Longrightarrow> words_bit (words_union ws ws') i \<longleftrightarrow> words_bit ws i \<or> words_bit ws' i"
proof -
  have "length (words_union ws ws') = length ws" for ws ws' :: "u64 list"
    by (induction ws ws' rule: words_union.induct) auto
  moreover have "length ws' \<le> length ws \<Longrightarrow> k < length ws \<Longrightarrow>
      words_union ws ws' ! k = ws ! k OR word_or_zero ws' k" for k
    by (induction ws ws' arbitrary: k rule: words_union.induct) (auto simp: word_or_zero_def nth_Cons split: nat.splits)
  ultimately show "length ws' \<le> length ws \<Longrightarrow> ?thesis"
    by (auto simp: words_bit_def word_or_zero_def bit_or_iff)
qed

lemma mask_get_union [simp]: "mask_get (mask_union m other) i \<longleftrightarrow> mask_get m i \<or> mask_get other i"
  by (auto simp: mask_get_bit mask_union_def Let_def words_bit_union)

lemma mask_is_empty_rows: "mask_is_empty m \<longleftrightarrow> (\<forall>i. \<not> mask_get m i)"
proof
  assume "mask_is_empty m"
  then show "\<forall>i. \<not> mask_get m i"
    by (auto simp: mask_is_empty_def mask_get_bit words_bit_def word_or_zero_def list_all_length)
next
  assume none: "\<forall>i. \<not> mask_get m i"
  have "rm_words m ! k = 0" if k: "k < length (rm_words m)" for k
  proof (rule bit_eqI)
    fix n assume "possible_bit TYPE(u64) n"
    then have "(k * 64 + n) div 64 = k" "(k * 64 + n) mod 64 = n" by (simp_all add: possible_bit_word)
    then show "bit (rm_words m ! k) n = bit 0 n"
      using none [rule_format, of "k * 64 + n"] k by (simp add: mask_get_bit words_bit_def word_or_zero_def)
  qed
  then show "mask_is_empty m" by (simp add: mask_is_empty_def list_all_length)
qed

section \<open>The iterators\<close>

lemma trailing_zeros_bit:
  assumes "w \<noteq> 0"
  shows "bit w (trailing_zeros w)" "\<And>n. n < trailing_zeros w \<Longrightarrow> \<not> bit w n"
proof -
  let ?low = "takeWhile (\<lambda>n. \<not> bit w n) [0..<64]"
  obtain n where "bit w n" using assms by (metis bit_eqI bit_0_eq bot_apply bot_bool_def)
  moreover from this have "n < 64" using bit_imp_le_length [of w n] by simp
  ultimately have "bit w n" "n < 64" .
  then have "?low \<noteq> [0..<64]" by (metis atLeastLessThan_iff set_takeWhileD set_upt zero_le)
  then have less: "length ?low < length [0..<64]"
    by (metis length_takeWhile_le le_neq_implies_less takeWhile_eq_take take_all_iff order_refl)
  have "\<not> \<not> bit w ([0..<64] ! length ?low)" using nth_length_takeWhile [OF less] .
  then show "bit w (trailing_zeros w)" using less by (simp add: trailing_zeros_def)
  fix n assume "n < trailing_zeros w"
  then show "\<not> bit w n"
    using less takeWhile_nth [of n "\<lambda>n. \<not> bit w n" "[0..<64]"] nth_mem [of n ?low] set_takeWhileD [of "?low ! n" "\<lambda>n. \<not> bit w n" "[0..<64]"]
    by (simp add: trailing_zeros_def)
qed

lemma word_pred_bit:
  assumes "w \<noteq> (0 :: u64)"
  shows "w AND (w - 1) = unset_bit (trailing_zeros w) w"
proof (rule bit_eqI)
  let ?t = "trailing_zeros w"
  note t = trailing_zeros_bit [OF assms]
  have "w - 1 = unset_bit ?t w + mask ?t"
    using t(1) by (simp add: unset_bit_eq mask_eq_exp_minus_1)
  also have "unset_bit ?t w + mask ?t = unset_bit ?t w OR mask ?t"
    using t(2) by (intro disjunctive_add_eq_or bit_eqI) (auto simp: bit_and_iff bit_unset_bit_iff bit_mask_iff)
  finally have "w - 1 = unset_bit ?t w OR mask ?t" .
  then show "bit (w AND (w - 1)) n = bit (unset_bit ?t w) n" for n
    using t(2) [of n] by (auto simp: bit_and_iff bit_or_iff bit_unset_bit_iff bit_mask_iff)
qed

lemma word_bits_filter: "word_bits w = filter (bit w) [0..<64]"
proof (induction w rule: word_bits.induct)
  case (1 w)
  show ?case
  proof (cases "w = 0")
    case False
    let ?t = "trailing_zeros w"
    note t = trailing_zeros_bit [OF False]
    have "?t < 64" using bit_imp_le_length [OF t(1)] by simp
    then have split: "[0..<64] = [0..<?t] @ ?t # [Suc ?t..<64]"
      using upt_add_eq_append [of 0 ?t "64 - ?t"] upt_conv_Cons [of ?t 64] by simp
    have low: "filter (bit v) [0..<?t] = []" if "\<And>n. bit v n \<Longrightarrow> bit w n" for v :: u64
      using that t(2) by (fastforce simp: filter_empty_conv)
    have high: "filter (bit (unset_bit ?t w)) [Suc ?t..<64] = filter (bit w) [Suc ?t..<64]"
      by (intro filter_cong) (auto simp: bit_unset_bit_iff)
    have "filter (bit w) [0..<64] = ?t # filter (bit (unset_bit ?t w)) [0..<64]"
      unfolding split filter_append using t(1) low [of w] low [of "unset_bit ?t w"] high by (simp add: bit_unset_bit_iff)
    then show ?thesis using 1 False by (simp add: word_bits.simps [of w] word_pred_bit)
  qed (simp add: word_bits.simps)
qed

lemma mask_bits_filter:
  assumes "index + length ws \<le> 1024"
  shows "mask_bits index ws = filter (\<lambda>row. words_bit ws (row - index * 64)) [index * 64..<(index + length ws) * 64]"
  using assms
proof (induction index ws rule: mask_bits.induct)
  case (2 index word words)
  have here: "takeWhile (\<lambda>row. row < 65536) (map (\<lambda>b. index * 64 + b) (word_bits word)) =
      filter (\<lambda>row. bit word (row - index * 64)) [index * 64..<(index + 1) * 64]"
  proof -
    have "takeWhile (\<lambda>row. row < 65536) (map (\<lambda>b. index * 64 + b) (word_bits word)) = map (\<lambda>b. index * 64 + b) (word_bits word)"
      using 2(2) by (intro takeWhile_eq_all_conv [THEN iffD2]) (auto simp: word_bits_filter)
    moreover have "[index * 64..<(index + 1) * 64] = map (\<lambda>b. index * 64 + b) [0..<64]"
      by (intro nth_equalityI) auto
    ultimately show ?thesis by (simp add: word_bits_filter filter_map comp_def)
  qed
  have "[index * 64..<(index + length (word # words)) * 64] = [index * 64..<(index + 1) * 64] @ [(index + 1) * 64..<(Suc index + length words) * 64]"
    using upt_add_eq_append [of "index * 64" "(index + 1) * 64" "length words * 64"] by (simp add: algebra_simps)
  moreover have "filter (\<lambda>row. words_bit (word # words) (row - index * 64)) [index * 64..<(index + 1) * 64] =
      filter (\<lambda>row. bit word (row - index * 64)) [index * 64..<(index + 1) * 64]"
    by (intro filter_cong) (auto simp: words_bit_def word_or_zero_def)
  moreover have "filter (\<lambda>row. words_bit (word # words) (row - index * 64)) [(index + 1) * 64..<(Suc index + length words) * 64] =
      filter (\<lambda>row. words_bit words (row - Suc index * 64)) [Suc index * 64..<(Suc index + length words) * 64]"
  proof (intro filter_cong)
    fix row assume "row \<in> set [Suc index * 64..<(Suc index + length words) * 64]"
    then obtain k where "row = Suc index * 64 + k" by (metis atLeastLessThan_iff le_add_diff_inverse set_upt)
    moreover have "(64 + k) div 64 = Suc (k div 64)" by simp
    ultimately show "words_bit (word # words) (row - index * 64) = words_bit words (row - Suc index * 64)"
      by (simp add: words_bit_def word_or_zero_def del: div_add_self1)
  qed simp
  ultimately show ?case using here 2 by simp
qed simp

lemma mask_iter_filter: "mask_ok m \<Longrightarrow> mask_iter m = filter (mask_get m) [0..<length (rm_words m) * 64]"
  using mask_bits_filter [of 0 "rm_words m"] by (simp add: mask_iter_def mask_ok_def mask_get_bit [abs_def])

lemma words_bit_bound: "words_bit ws row \<Longrightarrow> row < length ws * 64"
  by (auto simp: words_bit_def word_or_zero_def less_mult_imp_div_less split: if_splits)

text \<open>What an iterator yields: the rows of the mask, each once, in ascending order.\<close>

lemma mask_bits_spec:
  assumes "length ws \<le> 1024"
  shows "set (mask_bits 0 ws) = {row. words_bit ws row}" "sorted_wrt (<) (mask_bits 0 ws)"
  using mask_bits_filter [of 0 ws] words_bit_bound [of ws] assms by (auto intro: sorted_wrt_filter)

lemma mask_iter_spec:
  assumes "mask_ok m"
  shows "set (mask_iter m) = mask_rows m" "sorted_wrt (<) (mask_iter m)"
  using mask_bits_spec [of "rm_words m"] assms by (simp_all add: mask_iter_def mask_ok_def mask_rows_def mask_get_bit)

lemma mask_iter_either_spec:
  assumes "mask_ok m" "mask_ok other"
  shows "set (mask_iter_either m other) = mask_rows m \<union> mask_rows other" "sorted_wrt (<) (mask_iter_either m other)"
proof -
  let ?ws = "map (\<lambda>i. word_or_zero (rm_words m) i OR word_or_zero (rm_words other) i)
    [0..<max (length (rm_words m)) (length (rm_words other))]"
  have len: "length ?ws \<le> 1024" using assms by (simp add: mask_ok_def)
  have "words_bit ?ws row \<longleftrightarrow> words_bit (rm_words m) row \<or> words_bit (rm_words other) row" for row
    by (auto simp: words_bit_def word_or_zero_def bit_or_iff)
  with mask_bits_spec [OF len] show "set (mask_iter_either m other) = mask_rows m \<union> mask_rows other"
    "sorted_wrt (<) (mask_iter_either m other)"
    by (auto simp: mask_iter_either_def Let_def mask_rows_def mask_get_bit)
qed

lemma mask_get_small: "mask_ok m \<Longrightarrow> mask_get m row \<Longrightarrow> row < 65536"
  using words_bit_bound [of "rm_words m" row] by (simp add: mask_ok_def mask_get_bit)

section \<open>Masks stay within sixteen bits\<close>

lemma length_words_union [simp]: "length (words_union ws ws') = length ws"
  by (induction ws ws' rule: words_union.induct) auto

lemma mask_ok_ops [simp]:
  "mask_ok mask_default" "rows < 65536 \<Longrightarrow> mask_ok (mask_with_rows rows)" "rows < 65536 \<Longrightarrow> mask_ok (mask_reset m rows)"
  "mask_ok m \<Longrightarrow> row < 65536 \<Longrightarrow> mask_ok (mask_set m row)" "mask_ok m \<Longrightarrow> mask_ok other \<Longrightarrow> mask_ok (mask_union m other)"
  "mask_ok m \<Longrightarrow> mask_ok (mask_clear_all m)"
  by (auto simp: mask_ok_def mask_default_def mask_with_rows_def mask_reset_def mask_words_for_def div_ceil_def mask_set_def
      mask_position_def mask_union_def mask_clear_all_def Let_def)

lemma mask_ok_sets: "mask_ok m \<Longrightarrow> list_all (\<lambda>row. row < 65536) rows \<Longrightarrow> mask_ok (foldl mask_set m rows)"
  by (induction rows arbitrary: m) auto

lemma mask_ok_filled [simp]: "rows < 65536 \<Longrightarrow> mask_ok (mask_filled rows)"
  by (auto simp: mask_filled_def list_all_iff intro!: mask_ok_sets)

section \<open>The interface\<close>

text \<open>What the clients of a mask rely on: it is a finite set of rows with the usual laws.\<close>

locale row_set =
  fixes ok :: "'m \<Rightarrow> bool" and rows_in :: "'m \<Rightarrow> nat set"
    and none :: 'm and add :: "'m \<Rightarrow> nat \<Rightarrow> 'm" and join :: "'m \<Rightarrow> 'm \<Rightarrow> 'm" and wipe :: "'m \<Rightarrow> 'm"
    and listed :: "'m \<Rightarrow> 'm \<Rightarrow> nat list"
  assumes none_laws: "ok none" "rows_in none = {}"
    and add_laws: "ok m \<Longrightarrow> row < 65536 \<Longrightarrow> ok (add m row)" "rows_in (add m row) = insert row (rows_in m)"
    and join_laws: "ok m \<Longrightarrow> ok m' \<Longrightarrow> ok (join m m')" "rows_in (join m m') = rows_in m \<union> rows_in m'"
    and wipe_laws: "ok m \<Longrightarrow> ok (wipe m)" "rows_in (wipe m) = {}"
    and listed_laws: "ok m \<Longrightarrow> ok m' \<Longrightarrow> set (listed m m') = rows_in m \<union> rows_in m'"
      "ok m \<Longrightarrow> ok m' \<Longrightarrow> sorted_wrt (<) (listed m m')"
begin

lemma adds_rows: "rows_in (foldl add m rows) = set rows \<union> rows_in m"
  by (induction rows arbitrary: m) (auto simp: add_laws)

lemma adds_ok: "ok m \<Longrightarrow> list_all (\<lambda>row. row < 65536) rows \<Longrightarrow> ok (foldl add m rows)"
  by (induction rows arbitrary: m) (auto simp: add_laws)

lemma listed_exact: "ok m \<Longrightarrow> ok m' \<Longrightarrow> listed m m' = sorted_list_of_set (rows_in m \<union> rows_in m')"
  by (metis listed_laws List.finite_set sorted_list_of_set.sorted_key_list_of_set_unique strict_sorted_imp_sorted
      strict_sorted_iff sorted_list_of_set.idem_if_sorted_distinct)

lemma listed_wiped: "ok m \<Longrightarrow> ok m' \<Longrightarrow> listed (wipe m) m' = listed none m'"
  by (simp add: listed_exact wipe_laws none_laws)

end

interpretation rmask: row_set mask_ok mask_rows mask_default mask_set mask_union mask_clear_all mask_iter_either
  by unfold_locales (auto simp: mask_rows_def mask_iter_either_spec)

lemma mask_is_a_set:
  "mask_rows (mask_set m row) = insert row (mask_rows m) \<and> mask_rows (mask_union m other) = mask_rows m \<union> mask_rows other \<and>
   mask_rows (mask_clear_all m) = {} \<and> mask_rows (mask_filled rows) = {..<rows} \<and> (mask_is_empty m = (mask_rows m = {}))"
  by (auto simp: mask_rows_def mask_is_empty_rows)

end
