(* ===== verification/Vt_Rows.thy ===== *)
theory Vt_Rows
  imports Proto_Delta Row_Mask
begin

text \<open>
  The rows of a screen as the emulator hands them on: \<^verbatim>\<open>fill_row\<close>, \<^verbatim>\<open>cell_style\<close> and the row loop of
  \<^verbatim>\<open>repaint\<close> in \<^verbatim>\<open>src/crates/vt/src/lib.rs\<close>. The cells themselves come from Ghostty, whose every answer
  may be an error: they are arguments. A row built from readable cells is the cells grouped into runs of
  one style, each within the bound a row is cut at, and is sound for the wire; a repaint leaves every row
  alone that it does not report dirty.
\<close>

section \<open>Model\<close>

subsection \<open>What Ghostty answers\<close>

datatype vt_error = Ghostty bytes | ContinuationLimit | SearchTooLarge | ClusterTooLarge | SinkPanic bytes

type_synonym 'a ffi = "bytes + 'a"

datatype cell_wide = Narrow | Wide | SpacerTail | SpacerHead

datatype ghostty_color = NoColor | PaletteIndex u8 | RgbColor u8 u8 u8

text \<open>Ghostty's enumeration is open: the last constructor stands for what it may add.\<close>

datatype ghostty_underline = UnderNone | UnderSingle | UnderDouble | UnderCurly | UnderDotted | UnderDashed | UnderOther

record ghostty_style =
  gy_fg_color :: ghostty_color
  gy_bg_color :: ghostty_color
  gy_underline_color :: ghostty_color
  gy_bold :: bool
  gy_italic :: bool
  gy_faint :: bool
  gy_blink :: bool
  gy_inverse :: bool
  gy_invisible :: bool
  gy_strikethrough :: bool
  gy_overline :: bool
  gy_underline :: ghostty_underline

record vt_cell =
  vc_wide :: "cell_wide ffi"
  vc_graphemes :: "bytes ffi"
  vc_style :: "ghostty_style ffi"

record vt_row =
  vr_dirty :: "bool ffi"
  vr_styled :: "bool ffi"
  vr_cells :: "vt_cell list ffi"
  vr_set_dirty :: "unit ffi"

subsection \<open>Styles\<close>

fun ghostty_style_color :: "ghostty_color \<Rightarrow> style_color" where
  "ghostty_style_color NoColor = DefaultColor"
| "ghostty_style_color (PaletteIndex index) = Palette index"
| "ghostty_style_color (RgbColor r g b) = Rgb r g b"

fun ghostty_underline_style :: "ghostty_underline \<Rightarrow> underline_style" where
  "ghostty_underline_style UnderNone = UnderlineNone"
| "ghostty_underline_style UnderSingle = Single"
| "ghostty_underline_style UnderDouble = Double"
| "ghostty_underline_style UnderCurly = Curly"
| "ghostty_underline_style UnderDotted = Dotted"
| "ghostty_underline_style UnderDashed = Dashed"
| "ghostty_underline_style UnderOther = Single"

definition ghostty_cell_style :: "ghostty_style \<Rightarrow> cell_style" where
  "ghostty_cell_style style =
     \<lparr>cs_fg = ghostty_style_color (gy_fg_color style),
      cs_bg = ghostty_style_color (gy_bg_color style),
      cs_underline_color = ghostty_style_color (gy_underline_color style),
      cs_attrs = foldl (\<lambda>a (flag, on). attrs_with a flag on) 0
        [(1, gy_bold style), (2, gy_italic style), (4, gy_faint style), (8, gy_blink style),
         (16, gy_inverse style), (32, gy_invisible style), (64, gy_strikethrough style), (128, gy_overline style)],
      cs_underline = ghostty_underline_style (gy_underline style)\<rparr>"

definition style_default :: cell_style where
  "style_default = \<lparr>cs_fg = DefaultColor, cs_bg = DefaultColor, cs_underline_color = DefaultColor, cs_attrs = 0,
     cs_underline = UnderlineNone\<rparr>"

definition row_default :: row_frame where
  "row_default = \<lparr>rf_text = [], rf_runs = [], rf_cells = 0\<rparr>"

subsection \<open>One row\<close>

text \<open>The run being built: its style, its cells and its bytes.\<close>

type_synonym open_run = "(cell_style \<times> nat \<times> nat) option"

text \<open>The text of a cell pushed on the row, and how many bytes it took.\<close>

definition cell_push :: "vt_cell \<Rightarrow> cell_wide \<Rightarrow> row_frame \<Rightarrow> (vt_error + nat) \<times> row_frame" where
  "cell_push cell wide frame =
     (if wide = SpacerTail then (Inr 0, frame)
      else case vc_graphemes cell of
        Inl e \<Rightarrow> (Inl (Ghostty e), frame)
      | Inr cluster \<Rightarrow>
          if cluster = [] then (Inr 1, frame\<lparr>rf_text := rf_text frame @ [0x20]\<rparr>)
          else (if u32_max < length cluster then Inl ClusterTooLarge else Inr (length cluster),
                frame\<lparr>rf_text := rf_text frame @ cluster\<rparr>))"

definition run_extend :: "cell_style \<Rightarrow> nat \<Rightarrow> row_frame \<times> open_run \<Rightarrow> (row_frame \<times> open_run) option" where
  "run_extend style written s =
     (case s of
        (frame, None) \<Rightarrow> Some (frame, Some (style, 1, written))
      | (frame, Some (current, run_cells, bytes)) \<Rightarrow>
          if current = style \<and> u32_max < bytes + written then None
          else if current = style \<and> bytes + written \<le> MAX_RUN_BYTES then
            (if run_cells = 65535 then None else Some (frame, Some (current, run_cells + 1, bytes + written)))
          else
            Some (frame\<lparr>rf_runs := rf_runs frame @ [\<lparr>ru_cells = run_cells, ru_bytes = bytes, ru_style = current\<rparr>]\<rparr>,
                  Some (style, 1, written)))"

text \<open>\<open>None\<close> is an overflow of a column or a byte count, a panic.\<close>

definition fill_cell :: "bool \<Rightarrow> vt_cell \<Rightarrow> row_frame \<times> open_run \<Rightarrow> ((vt_error + unit) \<times> row_frame \<times> open_run) option" where
  "fill_cell styled cell s =
     (let (frame, run) = s in
      case vc_wide cell of
        Inl e \<Rightarrow> Some (Inl (Ghostty e), frame, run)
      | Inr wide \<Rightarrow>
        (case cell_push cell wide frame of
           (Inl e, frame) \<Rightarrow> Some (Inl e, frame, run)
         | (Inr written, frame) \<Rightarrow>
           if rf_cells frame = 65535 then None
           else let frame = frame\<lparr>rf_cells := rf_cells frame + 1\<rparr> in
             (case (wide = SpacerTail, run) of
                (True, Some (current, run_cells, bytes)) \<Rightarrow>
                  if run_cells = 65535 then None else Some (Inr (), frame, Some (current, run_cells + 1, bytes))
              | _ \<Rightarrow>
                (case (if styled then map_sum id ghostty_cell_style (vc_style cell) else Inr style_default) of
                   Inl e \<Rightarrow> Some (Inl (Ghostty e), frame, run)
                 | Inr style \<Rightarrow> map_option (\<lambda>s. (Inr (), s)) (run_extend style written (frame, run))))))"

fun fill_cells :: "bool \<Rightarrow> vt_cell list \<Rightarrow> row_frame \<times> open_run \<Rightarrow> ((vt_error + unit) \<times> row_frame \<times> open_run) option" where
  "fill_cells styled [] s = Some (Inr (), s)"
| "fill_cells styled (cell # cells) s =
     (case fill_cell styled cell s of
        None \<Rightarrow> None
      | Some (Inl e, s') \<Rightarrow> Some (Inl e, s')
      | Some (Inr _, s') \<Rightarrow> fill_cells styled cells s')"

definition row_close :: "row_frame \<times> open_run \<Rightarrow> row_frame" where
  "row_close s =
     (let (frame, run) = s;
          runs = rf_runs frame @ (case run of None \<Rightarrow> []
            | Some (style, run_cells, bytes) \<Rightarrow> [\<lparr>ru_cells = run_cells, ru_bytes = bytes, ru_style = style\<rparr>])
      in frame\<lparr>rf_runs := if runs \<noteq> [] \<and> style_is_default (ru_style (last runs)) then butlast runs else runs\<rparr>)"

definition fill_row :: "row_frame \<Rightarrow> vt_cell list ffi \<Rightarrow> bool \<Rightarrow> ((vt_error + unit) \<times> row_frame) option" where
  "fill_row frame cells styled =
     (let frame = frame\<lparr>rf_text := [], rf_runs := [], rf_cells := 0\<rparr> in
      case cells of
        Inl e \<Rightarrow> Some (Inl (Ghostty e), frame)
      | Inr cells \<Rightarrow>
          (case fill_cells styled cells (frame, None) of
             None \<Rightarrow> None
           | Some (Inl e, frame, _) \<Rightarrow> Some (Inl e, frame)
           | Some (Inr _, s) \<Rightarrow> Some (Inr (), row_close s)))"

subsection \<open>The grid\<close>

record repaint_state =
  rp_rows :: "row_frame list"
  rp_dirty :: row_mask
  rp_previous :: row_frame

text \<open>One damaged row rebuilt in place. Where the whole state was rebuilt the row before is kept aside and its
  content decides whether the row is dirty.\<close>

definition repaint_row ::
    "bool \<Rightarrow> nat \<Rightarrow> vt_row \<Rightarrow> repaint_state \<Rightarrow> ((vt_error + unit) \<times> repaint_state) option" where
  "repaint_row compare index row st =
     (case vr_styled row of
        Inl e \<Rightarrow> Some (Inl (Ghostty e), st)
      | Inr styled \<Rightarrow>
          let (frame, previous) =
            (if compare then (rp_previous st, rp_rows st ! index) else (rp_rows st ! index, rp_previous st)) in
          (case fill_row frame (vr_cells row) styled of
             None \<Rightarrow> None
           | Some (result, frame) \<Rightarrow>
               let st = st\<lparr>rp_rows := (rp_rows st)[index := frame], rp_previous := previous\<rparr> in
               (case result of
                  Inl e \<Rightarrow> Some (Inl e, st)
                | Inr _ \<Rightarrow>
                    let st = (if \<not> compare \<or> frame \<noteq> previous then st\<lparr>rp_dirty := mask_set (rp_dirty st) index\<rparr> else st) in
                    Some (map_sum Ghostty id (vr_set_dirty row), st))))"

fun repaint_loop ::
    "bool \<Rightarrow> bool \<Rightarrow> vt_row list \<Rightarrow> nat \<Rightarrow> repaint_state \<Rightarrow> ((vt_error + nat) \<times> repaint_state) option" where
  "repaint_loop redraw_all compare [] index st = Some (Inr index, st)"
| "repaint_loop redraw_all compare (row # rows) index st =
     (case (if redraw_all then Inr True else vr_dirty row) of
        Inl e \<Rightarrow> Some (Inl (Ghostty e), st)
      | Inr damaged \<Rightarrow>
          let st = (if index = length (rp_rows st) then st\<lparr>rp_rows := rp_rows st @ [row_default]\<rparr> else st) in
          (case (if damaged then repaint_row compare index row st else Some (Inr (), st)) of
             None \<Rightarrow> None
           | Some (Inl e, st) \<Rightarrow> Some (Inl e, st)
           | Some (Inr _, st) \<Rightarrow>
               if index = 65535 then None else repaint_loop redraw_all compare rows (index + 1) st))"

definition repaint_grid ::
    "bool \<Rightarrow> bool \<Rightarrow> nat \<Rightarrow> vt_row list \<Rightarrow> repaint_state \<Rightarrow> ((vt_error + unit) \<times> repaint_state) option" where
  "repaint_grid redraw_all compare grid_rows rows st =
     (case repaint_loop redraw_all compare rows 0 (st\<lparr>rp_dirty := mask_reset (rp_dirty st) grid_rows\<rparr>) of
        None \<Rightarrow> None
      | Some (Inl e, st) \<Rightarrow> Some (Inl e, st)
      | Some (Inr index, st) \<Rightarrow> Some (Inr (), st\<lparr>rp_rows := take index (rp_rows st)\<rparr>))"

section \<open>The cells of a row\<close>

text \<open>What a cell paints: the trailing half of a wide glyph paints nothing and continues the style before it, an
  empty cell paints a space.\<close>

definition cell_text :: "vt_cell \<Rightarrow> bytes" where
  "cell_text cell = (case (vc_wide cell, vc_graphemes cell) of
     (Inr SpacerTail, _) \<Rightarrow> [] | (_, Inr cluster) \<Rightarrow> if cluster = [] then [0x20] else cluster | _ \<Rightarrow> [])"

definition cell_own_style :: "bool \<Rightarrow> vt_cell \<Rightarrow> cell_style" where
  "cell_own_style styled cell =
     (case (styled, vc_style cell) of (True, Inr style) \<Rightarrow> ghostty_cell_style style | _ \<Rightarrow> style_default)"

fun painted_cells :: "bool \<Rightarrow> cell_style option \<Rightarrow> vt_cell list \<Rightarrow> (cell_style \<times> bytes) list" where
  "painted_cells styled before [] = []"
| "painted_cells styled before (cell # cells) =
     (let style = (case before of Some s \<Rightarrow> if vc_wide cell = Inr SpacerTail then s else cell_own_style styled cell
        | None \<Rightarrow> cell_own_style styled cell)
      in (style, cell_text cell) # painted_cells styled (Some style) cells)"

text \<open>A cell Ghostty answers for, holding one cluster of text.\<close>

definition cell_ready :: "bool \<Rightarrow> vt_cell \<Rightarrow> bool" where
  "cell_ready styled cell \<longleftrightarrow>
     (\<exists>wide cluster. vc_wide cell = Inr wide \<and> vc_graphemes cell = Inr cluster \<and> utf8 cluster \<and>
        length cluster \<le> MAX_CLUSTER_BYTES) \<and>
     (styled \<longrightarrow> (\<exists>style. vc_style cell = Inr style))"

type_synonym cell_group = "(cell_style \<times> bytes) list"

definition group_bytes :: "cell_group \<Rightarrow> nat" where
  "group_bytes g = sum_list (map (\<lambda>p. length (snd p)) g)"

definition group_run :: "cell_group \<Rightarrow> style_run" where
  "group_run g = \<lparr>ru_cells = length g, ru_bytes = group_bytes g, ru_style = fst (hd g)\<rparr>"

definition group_ok :: "cell_group \<Rightarrow> bool" where
  "group_ok g \<longleftrightarrow> g \<noteq> [] \<and> list_all (\<lambda>p. fst p = fst (hd g)) g \<and> group_bytes g \<le> MAX_RUN_BYTES"

text \<open>The row that groups of cells make, the last one being the unstyled rest.\<close>

definition grouped_row :: "cell_group list \<Rightarrow> cell_group \<Rightarrow> row_frame" where
  "grouped_row gs tail =
     \<lparr>rf_text = concat (map snd (concat gs @ tail)), rf_runs = map group_run gs, rf_cells = length (concat gs @ tail)\<rparr>"

definition row_building :: "cell_group list \<Rightarrow> cell_group \<Rightarrow> row_frame \<times> open_run" where
  "row_building gs g =
     (grouped_row gs g, if g = [] then None else Some (fst (hd g), length g, group_bytes g))"

definition building_ok :: "cell_group list \<Rightarrow> cell_group \<Rightarrow> bool" where
  "building_ok gs g \<longleftrightarrow> list_all group_ok gs \<and> (if g = [] then gs = [] else group_ok g)"

lemma group_bytes_simps [simp]: "group_bytes [] = 0" "group_bytes (p # g) = length (snd p) + group_bytes g"
  "group_bytes (g @ g') = group_bytes g + group_bytes g'"
  by (simp_all add: group_bytes_def)

lemma utf8_space: "utf8 [0x20]"
  using utf8_char_append [OF blank_char(1), of "[]"] by simp

lemma cell_text_small: "cell_ready styled cell \<Longrightarrow> utf8 (cell_text cell) \<and> length (cell_text cell) \<le> MAX_CLUSTER_BYTES"
  by (auto simp: cell_ready_def cell_text_def MAX_CLUSTER_BYTES_def utf8_space split: cell_wide.splits)

lemma grouped_push:
  "grouped_row gs (g @ [p]) = (grouped_row gs g)\<lparr>rf_text := rf_text (grouped_row gs g) @ snd p, rf_cells := rf_cells (grouped_row gs g) + 1\<rparr>"
  "grouped_row (gs @ [g]) [p] =
     (grouped_row gs (g @ [p]))\<lparr>rf_runs := rf_runs (grouped_row gs g) @ [group_run g]\<rparr>"
  by (simp_all add: grouped_row_def)

lemma group_okD: "group_ok g \<Longrightarrow> g \<noteq> []" "group_ok g \<Longrightarrow> group_bytes g \<le> MAX_RUN_BYTES"
  by (simp_all add: group_ok_def)

lemma group_ok_one: "length (snd p) \<le> MAX_RUN_BYTES \<Longrightarrow> group_ok [p]"
  by (simp add: group_ok_def)

lemma group_ok_snoc:
  assumes "group_ok g" "fst p = fst (hd g)" "group_bytes g + length (snd p) \<le> MAX_RUN_BYTES"
  shows "group_ok (g @ [p])"
  using assms by (simp add: group_ok_def hd_append)

lemma building_ok_snoc:
  assumes "building_ok gs g" "g \<noteq> []" "fst p = fst (hd g)" "group_bytes g + length (snd p) \<le> MAX_RUN_BYTES"
  shows "building_ok gs (g @ [p])"
  using assms group_ok_snoc [of g p] by (simp add: building_ok_def)

text \<open>One cell joins the group being built or closes it and opens another.\<close>

lemma fill_cell_building:
  assumes "building_ok gs g" "cell_ready styled cell" "length (concat gs @ g) < 65535"
    and p: "p = hd (painted_cells styled (if g = [] then None else Some (fst (hd g))) [cell])"
  shows "\<exists>gs' g'. fill_cell styled cell (row_building gs g) = Some (Inr (), row_building gs' g') \<and> building_ok gs' g' \<and>
    concat gs' @ g' = (concat gs @ g) @ [p] \<and> g' \<noteq> [] \<and> fst (hd g') = fst p"
proof -
  let ?frame = "grouped_row gs g" and ?text = "cell_text cell"
  from assms(2) obtain wide cluster where w: "vc_wide cell = Inr wide" "vc_graphemes cell = Inr cluster" by (auto simp: cell_ready_def)
  have small: "length ?text \<le> MAX_CLUSTER_BYTES" using cell_text_small [OF assms(2)] by simp
  have shown: "snd p = ?text" by (simp add: p Let_def)
  have push: "cell_push cell wide ?frame = (Inr (length ?text), ?frame\<lparr>rf_text := rf_text ?frame @ ?text\<rparr>)"
    using w small by (auto simp: cell_push_def cell_text_def MAX_CLUSTER_BYTES_def u32_max_def split: cell_wide.splits if_splits)
  have room: "rf_cells ?frame \<noteq> 65535" "length g \<noteq> 65535" using assms(3) by (simp_all add: grouped_row_def)
  let ?next = "(?frame\<lparr>rf_text := rf_text ?frame @ ?text\<rparr>)\<lparr>rf_cells := rf_cells ?frame + 1\<rparr>"
  have grown: "grouped_row gs (g @ [p]) = ?next" by (simp add: grouped_push shown)
  show ?thesis
  proof (cases "wide = SpacerTail \<and> g \<noteq> []")
    case True
    then have spacer: "fst p = fst (hd g)" "?text = []" using w by (simp_all add: p Let_def cell_text_def)
    then have "fill_cell styled cell (row_building gs g) = Some (Inr (), row_building gs (g @ [p]))"
      using True w push room shown grown by (simp add: fill_cell_def row_building_def)
    moreover have "building_ok gs (g @ [p])"
      using building_ok_snoc [OF assms(1)] group_okD(2) [of g] assms(1) True spacer shown by (simp add: building_ok_def)
    ultimately show ?thesis using True spacer by (intro exI [of _ gs] exI [of _ "g @ [p]"]) simp
  next
    case False
    have style: "(if styled then map_sum id ghostty_cell_style (vc_style cell) else Inr style_default) = Inr (fst p)"
      using assms(2) w False by (auto simp: p Let_def cell_own_style_def cell_ready_def)
    have step: "fill_cell styled cell (row_building gs g) =
        map_option (\<lambda>s. (Inr (), s)) (run_extend (fst p) (length ?text) (?next, snd (row_building gs g)))"
      using w push room style False by (auto simp: fill_cell_def row_building_def Let_def split: bool.splits)
    show ?thesis
    proof (cases "g = []")
      case True
      then have "fill_cell styled cell (row_building gs g) = Some (Inr (), row_building gs [p])"
        using step grown shown by (simp add: run_extend_def row_building_def)
      moreover have "building_ok gs [p]"
        using assms(1) True shown small by (simp add: building_ok_def group_ok_one MAX_CLUSTER_BYTES_def MAX_RUN_BYTES_def)
      ultimately show ?thesis using True by (intro exI [of _ gs] exI [of _ "[p]"]) simp
    next
      case nonempty: False
      have bound: "group_bytes g + length ?text \<le> u32_max"
        using assms(1) nonempty small group_okD(2) [of g] by (simp add: building_ok_def MAX_CLUSTER_BYTES_def MAX_RUN_BYTES_def u32_max_def)
      show ?thesis
      proof (cases "fst (hd g) = fst p \<and> group_bytes g + length ?text \<le> MAX_RUN_BYTES")
        case True
        then have "fill_cell styled cell (row_building gs g) = Some (Inr (), row_building gs (g @ [p]))"
          using step nonempty bound room grown shown by (simp add: run_extend_def row_building_def)
        moreover have "building_ok gs (g @ [p])"
          using building_ok_snoc [OF assms(1) nonempty] True shown by simp
        ultimately show ?thesis using True nonempty by (intro exI [of _ gs] exI [of _ "g @ [p]"]) simp
      next
        case other: False
        then have "fill_cell styled cell (row_building gs g) = Some (Inr (), row_building (gs @ [g]) [p])"
          using step nonempty bound shown grown grouped_push(2) [of gs g p]
          by (auto simp: run_extend_def row_building_def group_run_def grouped_row_def)
        moreover have "building_ok (gs @ [g]) [p]"
          using assms(1) nonempty shown small by (simp add: building_ok_def group_ok_one MAX_CLUSTER_BYTES_def MAX_RUN_BYTES_def)
        ultimately show ?thesis by (intro exI [of _ "gs @ [g]"] exI [of _ "[p]"]) simp
      qed
    qed
  qed
qed

lemma fill_cells_building:
  assumes "building_ok gs g" "list_all (cell_ready styled) cells" "length (concat gs @ g) + length cells \<le> 65535"
  shows "\<exists>gs' g'. fill_cells styled cells (row_building gs g) = Some (Inr (), row_building gs' g') \<and> building_ok gs' g' \<and>
    concat gs' @ g' = (concat gs @ g) @ painted_cells styled (if g = [] then None else Some (fst (hd g))) cells"
  using assms
proof (induction cells arbitrary: gs g)
  case (Cons cell cells)
  let ?before = "if g = [] then None else Some (fst (hd g))"
  let ?p = "hd (painted_cells styled ?before [cell])"
  have "building_ok gs g" "cell_ready styled cell" "length (concat gs @ g) < 65535" using Cons.prems by simp_all
  from fill_cell_building [OF this refl] obtain gs1 g1 where one: "fill_cell styled cell (row_building gs g) = Some (Inr (), row_building gs1 g1)"
    "building_ok gs1 g1" "concat gs1 @ g1 = (concat gs @ g) @ [?p]" "g1 \<noteq> []" "fst (hd g1) = fst ?p" by blast
  have "length (concat gs1 @ g1) + length cells \<le> 65535" using Cons.prems(3) one(3) by simp
  with Cons.IH [OF one(2)] Cons.prems(2) obtain gs2 g2 where rest:
    "fill_cells styled cells (row_building gs1 g1) = Some (Inr (), row_building gs2 g2)" "building_ok gs2 g2"
    "concat gs2 @ g2 = (concat gs1 @ g1) @ painted_cells styled (Some (fst ?p)) cells"
    using one(4,5) by auto
  have "painted_cells styled ?before (cell # cells) = ?p # painted_cells styled (Some (fst ?p)) cells" by (simp add: Let_def)
  then show ?case using one rest by (intro exI [of _ gs2] exI [of _ g2]) simp
qed auto

section \<open>A built row\<close>

definition row_built :: "nat \<Rightarrow> row_frame \<Rightarrow> bool" where
  "row_built cols row \<longleftrightarrow> (\<exists>gs rest. row = grouped_row gs rest \<and> list_all group_ok gs \<and>
     (rest = [] \<or> group_ok rest \<and> style_is_default (fst (hd rest))) \<and> length (concat gs @ rest) = cols \<and>
     (\<forall>p \<in> set (concat gs @ rest). utf8 (snd p) \<and> length (snd p) \<le> MAX_CLUSTER_BYTES))"

lemma painted_cells_ready:
  "list_all (cell_ready styled) cells \<Longrightarrow> p \<in> set (painted_cells styled before cells) \<Longrightarrow>
   utf8 (snd p) \<and> length (snd p) \<le> MAX_CLUSTER_BYTES"
  by (induction styled before cells rule: painted_cells.induct) (auto simp: Let_def cell_text_small)

lemma length_painted_cells [simp]: "length (painted_cells styled before cells) = length cells"
  by (induction styled before cells rule: painted_cells.induct) (auto simp: Let_def)

lemma row_close_building:
  assumes "building_ok gs g"
  shows "\<exists>gs' rest. row_close (row_building gs g) = grouped_row gs' rest \<and> list_all group_ok gs' \<and>
    (rest = [] \<or> group_ok rest \<and> style_is_default (fst (hd rest))) \<and> concat gs' @ rest = concat gs @ g"
proof (cases "g = []")
  case True
  then have "row_close (row_building gs g) = grouped_row [] []"
    using assms by (simp add: building_ok_def row_building_def row_close_def grouped_row_def)
  then show ?thesis using True assms by (intro exI [of _ "[]"] exI [of _ "[]"]) (simp add: building_ok_def)
next
  case False
  then have runs: "row_close (row_building gs g) =
      (grouped_row gs g)\<lparr>rf_runs := if style_is_default (fst (hd g)) then map group_run gs else map group_run (gs @ [g])\<rparr>"
    by (simp add: row_close_def row_building_def grouped_row_def group_run_def)
  show ?thesis
  proof (cases "style_is_default (fst (hd g))")
    case True
    then have "row_close (row_building gs g) = grouped_row gs g" by (simp add: runs grouped_row_def)
    then show ?thesis using assms False True by (intro exI [of _ gs] exI [of _ g]) (simp add: building_ok_def)
  next
    case other: False
    then have "row_close (row_building gs g) = grouped_row (gs @ [g]) []" by (simp add: runs grouped_row_def)
    then show ?thesis using assms False by (intro exI [of _ "gs @ [g]"] exI [of _ "[]"]) (simp add: building_ok_def)
  qed
qed

lemma fill_row_grouped:
  assumes "list_all (cell_ready styled) cells" "length cells \<le> 65535"
  shows "\<exists>gs rest. fill_row frame (Inr cells) styled = Some (Inr (), grouped_row gs rest) \<and> list_all group_ok gs \<and>
    (rest = [] \<or> group_ok rest \<and> style_is_default (fst (hd rest))) \<and>
    concat gs @ rest = painted_cells styled None cells"
proof -
  have start: "(frame\<lparr>rf_text := [], rf_runs := [], rf_cells := 0\<rparr>, None) = row_building [] []"
    by (cases frame) (simp add: row_building_def grouped_row_def)
  have "building_ok [] []" by (simp add: building_ok_def)
  from fill_cells_building [OF this assms(1)] assms(2) obtain gs g where
    f: "fill_cells styled cells (row_building [] []) = Some (Inr (), row_building gs g)" "building_ok gs g"
    "concat gs @ g = painted_cells styled None cells" by auto
  from row_close_building [OF f(2)] f(3) show ?thesis by (auto simp: fill_row_def start f(1))
qed

lemma fill_row_built:
  assumes "list_all (cell_ready styled) cells" "length cells \<le> 65535"
  shows "\<exists>row. fill_row frame (Inr cells) styled = Some (Inr (), row) \<and> row_built (length cells) row"
proof -
  from fill_row_grouped [OF assms, of frame] obtain gs rest where
    g: "fill_row frame (Inr cells) styled = Some (Inr (), grouped_row gs rest)" "list_all group_ok gs"
    "rest = [] \<or> group_ok rest \<and> style_is_default (fst (hd rest))" "concat gs @ rest = painted_cells styled None cells" by blast
  have "row_built (length cells) (grouped_row gs rest)"
    unfolding row_built_def using g painted_cells_ready [OF assms(1)] by (intro exI [of _ gs] exI [of _ rest]) simp
  then show ?thesis using g(1) by blast
qed

subsection \<open>What a built row gives\<close>

lemma utf8_concat: "\<forall>x \<in> set xs. utf8 x \<Longrightarrow> utf8 (concat xs)"
  by (induction xs) (auto simp: utf8_append)

lemma length_texts: "length (concat (map snd g)) = group_bytes g"
  by (induction g) auto

lemma group_bytes_le: "\<forall>p \<in> set g. length (snd p) \<le> n \<Longrightarrow> group_bytes g \<le> length g * n"
  by (induction g) auto

lemma grouped_sums:
  "cells_of (map group_run gs) = length (concat gs)" "bytes_of (map group_run gs) = group_bytes (concat gs)"
  by (induction gs) (auto simp: group_run_def cells_of_def bytes_of_def)

lemma grouped_tiles:
  assumes "list_all group_ok gs" "\<forall>p \<in> set (front @ concat gs @ rest). utf8 (snd p)" "t = concat (map snd (front @ concat gs @ rest))"
    "length (front @ concat gs @ rest) = cells" "cells \<le> 65535" "length t \<le> usize_max"
  shows "running (run_ok t cells) run_cover (length front, group_bytes front) (map group_run gs)"
  using assms
proof (induction gs arbitrary: front)
  case (Cons g gs)
  have rest: "running (run_ok t cells) run_cover (length (front @ g), group_bytes (front @ g)) (map group_run gs)"
    by (rule Cons.IH) (use Cons.prems in auto)
  have edge: "is_char_boundary t (group_bytes front + group_bytes g)"
  proof -
    have "t = concat (map snd (front @ g)) @ concat (map snd (concat gs @ rest))" using Cons.prems(3) by simp
    moreover have "utf8 (concat (map snd (front @ g)))" "utf8 (concat (map snd (concat gs @ rest)))"
      using Cons.prems(2) by (intro utf8_concat; auto)+
    ultimately show ?thesis
      using boundary_utf8_split [of "concat (map snd (front @ g))" "concat (map snd (concat gs @ rest))"]
      by (simp add: length_texts del: concat_append map_append)
  qed
  have "length t = group_bytes (front @ g) + group_bytes (concat gs @ rest)"
    using Cons.prems(3) length_texts [of "(front @ g) @ (concat gs @ rest)"] by simp
  then have "run_ok t cells (length front, group_bytes front) (group_run g)"
    using Cons.prems(1,4-6) edge by (simp add: run_ok_def group_run_def u16_typed_def group_okD)
  moreover have "run_cover (length front, group_bytes front) (group_run g) = (length (front @ g), group_bytes (front @ g))"
    by (simp add: run_cover_def group_run_def)
  ultimately show ?case using rest by simp
qed simp

lemma row_built_facts:
  assumes "row_built cols row" "cols \<le> 65535"
  shows "row_sound cols row" "rf_cells row = cols" "\<forall>r \<in> set (rf_runs row). 1 \<le> ru_cells r"
    "cells_of (rf_runs row) = cols \<Longrightarrow> bytes_of (rf_runs row) = length (rf_text row)"
    "length (rf_text row) \<le> bytes_of (rf_runs row) + MAX_RUN_BYTES"
proof -
  from assms(1) obtain gs rest where g: "row = grouped_row gs rest" "list_all group_ok gs"
    "rest = [] \<or> group_ok rest \<and> style_is_default (fst (hd rest))" "length (concat gs @ rest) = cols"
    "\<forall>p \<in> set (concat gs @ rest). utf8 (snd p) \<and> length (snd p) \<le> MAX_CLUSTER_BYTES" by (auto simp: row_built_def)
  have len: "length (rf_text row) = group_bytes (concat gs @ rest)" by (simp add: g(1) grouped_row_def length_texts del: map_append concat_append)
  also have "\<dots> \<le> cols * MAX_CLUSTER_BYTES" using group_bytes_le [of "concat gs @ rest"] g(4,5) by auto
  finally have small: "length (rf_text row) \<le> cols * MAX_CLUSTER_BYTES" .
  have tiles: "row_tiles (rf_text row) cols (rf_runs row)"
    using grouped_tiles [OF g(2), of "[]" rest "rf_text row" cols] g(4,5) assms(2) small
    by (simp add: g(1) grouped_row_def row_tiles_def MAX_CLUSTER_BYTES_def usize_max_def)
  have pos: "\<forall>r \<in> set (rf_runs row). 1 \<le> ru_cells r"
    using g(2) by (auto simp: g(1) grouped_row_def group_run_def list_all_iff Suc_le_eq dest: group_okD(1))
  have "length gs \<le> length (concat gs)" using g(2)
  proof (induction gs)
    case (Cons x xs)
    then show ?case using group_okD(1) [of x] by (cases x) auto
  qed simp
  then have few: "length (rf_runs row) \<le> cols" using g(4) by (simp add: g(1) grouped_row_def)
  have "utf8 (rf_text row)" using utf8_concat [of "map snd (concat gs @ rest)"] g(5) unfolding g(1) grouped_row_def by auto
  then show "row_sound cols row"
    using tiles few small g(4) assms(2) by (simp add: row_sound_def row_fits_def g(1) grouped_row_def u16_typed_def)
  show "rf_cells row = cols" using g(4) by (simp add: g(1) grouped_row_def)
  show "\<forall>r \<in> set (rf_runs row). 1 \<le> ru_cells r" by (rule pos)
  show "cells_of (rf_runs row) = cols \<Longrightarrow> bytes_of (rf_runs row) = length (rf_text row)"
    using g(4) len by (simp add: g(1) grouped_row_def grouped_sums)
  show "length (rf_text row) \<le> bytes_of (rf_runs row) + MAX_RUN_BYTES"
    using g(3) len by (auto simp: g(1) grouped_row_def grouped_sums dest: group_okD(2))
qed

section \<open>A repaint reports what it changed\<close>

text \<open>A row Ghostty answers for, and what it shows.\<close>

definition vt_row_ready :: "nat \<Rightarrow> vt_row \<Rightarrow> bool" where
  "vt_row_ready cols row \<longleftrightarrow> (\<exists>dirty styled cells. vr_dirty row = Inr dirty \<and> vr_styled row = Inr styled \<and>
     vr_cells row = Inr cells \<and> vr_set_dirty row = Inr () \<and> list_all (cell_ready styled) cells \<and> length cells = cols)"

definition vt_row_damaged :: "bool \<Rightarrow> vt_row \<Rightarrow> bool" where
  "vt_row_damaged redraw_all row \<longleftrightarrow> redraw_all \<or> vr_dirty row = Inr True"

definition vt_row_frame :: "vt_row \<Rightarrow> row_frame" where
  "vt_row_frame row =
     (case (vr_styled row, fill_row row_default (vr_cells row) (case vr_styled row of Inr styled \<Rightarrow> styled | Inl _ \<Rightarrow> False)) of
        (Inr _, Some (Inr _, frame)) \<Rightarrow> frame | _ \<Rightarrow> row_default)"

definition row_at :: "row_frame list \<Rightarrow> nat \<Rightarrow> row_frame" where
  "row_at rows i = (if i < length rows then rows ! i else row_default)"

lemma fill_row_any: "fill_row frame cells styled = fill_row row_default cells styled"
  by (cases frame) (simp add: fill_row_def row_default_def)

lemma vt_row_frame_built:
  assumes "vt_row_ready cols row" "cols \<le> 65535"
  shows "row_built cols (vt_row_frame row)"
    "\<exists>styled. vr_styled row = Inr styled \<and> fill_row frame (vr_cells row) styled = Some (Inr (), vt_row_frame row)"
proof -
  from assms(1) obtain styled cells where r: "vr_styled row = Inr styled" "vr_cells row = Inr cells"
    "list_all (cell_ready styled) cells" "length cells = cols" by (auto simp: vt_row_ready_def)
  from fill_row_built [OF r(3), of row_default] assms(2) r(4) obtain f where
    f: "fill_row row_default (Inr cells) styled = Some (Inr (), f)" "row_built cols f" by auto
  then have same: "vt_row_frame row = f" by (simp add: vt_row_frame_def r)
  show "row_built cols (vt_row_frame row)" using f same by simp
  show "\<exists>styled. vr_styled row = Inr styled \<and> fill_row frame (vr_cells row) styled = Some (Inr (), vt_row_frame row)"
    using f same r fill_row_any [of frame] by auto
qed

lemma repaint_row_ready:
  assumes "vt_row_ready cols row" "cols \<le> 65535" "index < length (rp_rows st)"
  shows "\<exists>st'. repaint_row compare index row st = Some (Inr (), st') \<and>
    rp_rows st' = (rp_rows st)[index := vt_row_frame row] \<and>
    rp_dirty st' = (if compare \<and> rp_rows st ! index = vt_row_frame row then rp_dirty st else mask_set (rp_dirty st) index)"
proof -
  let ?frame = "if compare then rp_previous st else rp_rows st ! index"
  from vt_row_frame_built(2) [OF assms(1,2), of ?frame] obtain styled where
    "vr_styled row = Inr styled" "fill_row ?frame (vr_cells row) styled = Some (Inr (), vt_row_frame row)" by blast
  moreover have "vr_set_dirty row = Inr ()" using assms(1) by (auto simp: vt_row_ready_def)
  ultimately show ?thesis by (auto simp: repaint_row_def Let_def)
qed

text \<open>What the loop leaves at a row: the damaged rows are shown anew and reported unless they were compared and
  found the same, the others are as they were.\<close>

definition row_repainted :: "bool \<Rightarrow> bool \<Rightarrow> vt_row \<Rightarrow> row_frame \<Rightarrow> row_frame \<Rightarrow> bool \<Rightarrow> bool" where
  "row_repainted redraw_all compare row old new dirty \<longleftrightarrow>
     new = (if vt_row_damaged redraw_all row then vt_row_frame row else old) \<and>
     dirty = (vt_row_damaged redraw_all row \<and> (compare \<longrightarrow> old \<noteq> new))"

lemma repaint_loop_ready:
  assumes "list_all (vt_row_ready cols) rows" "cols \<le> 65535" "index \<le> length (rp_rows st)" "index + length rows \<le> 65535"
    "\<forall>i \<ge> index. \<not> mask_get (rp_dirty st) i"
  shows "\<exists>st'. repaint_loop redraw_all compare rows index st = Some (Inr (index + length rows), st') \<and>
    index + length rows \<le> length (rp_rows st') \<and>
    (\<forall>i < index. rp_rows st' ! i = rp_rows st ! i \<and> mask_get (rp_dirty st') i = mask_get (rp_dirty st) i) \<and>
    (\<forall>i < length rows. row_repainted redraw_all compare (rows ! i) (row_at (rp_rows st) (index + i))
       (rp_rows st' ! (index + i)) (mask_get (rp_dirty st') (index + i))) \<and>
    (\<forall>i \<ge> index + length rows. \<not> mask_get (rp_dirty st') i)"
  using assms
proof (induction rows arbitrary: index st)
  case (Cons row rows)
  let ?st = "if index = length (rp_rows st) then st\<lparr>rp_rows := rp_rows st @ [row_default]\<rparr> else st"
  have row: "vt_row_ready cols row" and rows: "list_all (vt_row_ready cols) rows" using Cons.prems(1) by simp_all
  from row obtain dirty where dirty: "vr_dirty row = Inr dirty" by (auto simp: vt_row_ready_def)
  have st: "index < length (rp_rows ?st)" "rp_rows ?st ! index = row_at (rp_rows st) index" "rp_dirty ?st = rp_dirty st"
    "\<And>i. row_at (rp_rows ?st) i = row_at (rp_rows st) i" "\<forall>i < index. rp_rows ?st ! i = rp_rows st ! i"
    using Cons.prems(3) by (auto simp: row_at_def nth_append)
  obtain st1 where one: "(if vt_row_damaged redraw_all row then repaint_row compare index row ?st else Some (Inr (), ?st)) = Some (Inr (), st1)"
    "length (rp_rows st1) = length (rp_rows ?st)" "\<forall>i. i \<noteq> index \<longrightarrow> rp_rows st1 ! i = rp_rows ?st ! i"
    "\<forall>i. i \<noteq> index \<longrightarrow> mask_get (rp_dirty st1) i = mask_get (rp_dirty st) i"
    "row_repainted redraw_all compare row (row_at (rp_rows st) index) (rp_rows st1 ! index) (mask_get (rp_dirty st1) index)"
  proof (cases "vt_row_damaged redraw_all row")
    case True
    from repaint_row_ready [OF row Cons.prems(2) st(1), of compare] obtain s where
      "repaint_row compare index row ?st = Some (Inr (), s)" "rp_rows s = (rp_rows ?st)[index := vt_row_frame row]"
      "rp_dirty s = (if compare \<and> rp_rows ?st ! index = vt_row_frame row then rp_dirty ?st else mask_set (rp_dirty ?st) index)" by blast
    then show ?thesis using that [of s] True st Cons.prems(5) by (simp add: row_repainted_def)
  next
    case False
    then show ?thesis using that [of ?st] st Cons.prems(5) by (simp add: row_repainted_def)
  qed
  have later: "row_at (rp_rows st1) i = row_at (rp_rows st) i" if "index < i" for i
    using that one(2,3) st(4) [of i] by (simp add: row_at_def)
  have "repaint_loop redraw_all compare (row # rows) index st = repaint_loop redraw_all compare rows (index + 1) st1"
    using one(1) Cons.prems(4) dirty by (auto simp: vt_row_damaged_def Let_def split: if_splits)
  moreover obtain st2 where two: "repaint_loop redraw_all compare rows (index + 1) st1 = Some (Inr (index + 1 + length rows), st2)"
    "index + 1 + length rows \<le> length (rp_rows st2)"
    "\<forall>i < index + 1. rp_rows st2 ! i = rp_rows st1 ! i \<and> mask_get (rp_dirty st2) i = mask_get (rp_dirty st1) i"
    "\<forall>i < length rows. row_repainted redraw_all compare (rows ! i) (row_at (rp_rows st1) (index + 1 + i))
       (rp_rows st2 ! (index + 1 + i)) (mask_get (rp_dirty st2) (index + 1 + i))"
    "\<forall>i \<ge> index + 1 + length rows. \<not> mask_get (rp_dirty st2) i"
    using Cons.IH [OF rows Cons.prems(2), of "index + 1" st1] Cons.prems(4,5) one(2,4) st(1) by auto
  moreover have "row_repainted redraw_all compare ((row # rows) ! i) (row_at (rp_rows st) (index + i))
      (rp_rows st2 ! (index + i)) (mask_get (rp_dirty st2) (index + i))" if i: "i < length (row # rows)" for i
  proof (cases i)
    case 0
    then show ?thesis using one(5) two(3) by simp
  next
    case (Suc k)
    then show ?thesis using two(4) [rule_format, of k] later [of "index + 1 + k"] i by simp
  qed
  ultimately show ?case using one(3,4) st(5) by (intro exI [of _ st2]) auto
qed auto

lemma repaint_grid_ready:
  assumes "list_all (vt_row_ready cols) rows" "cols \<le> 65535" "length rows \<le> 65535"
  shows "\<exists>st'. repaint_grid redraw_all compare grid_rows rows st = Some (Inr (), st') \<and> length (rp_rows st') = length rows \<and>
    (\<forall>i < length rows. row_repainted redraw_all compare (rows ! i) (row_at (rp_rows st) i)
       (rp_rows st' ! i) (mask_get (rp_dirty st') i)) \<and>
    (\<forall>i \<ge> length rows. \<not> mask_get (rp_dirty st') i)"
proof -
  let ?st = "st\<lparr>rp_dirty := mask_reset (rp_dirty st) grid_rows\<rparr>"
  from repaint_loop_ready [OF assms(1,2), of 0 ?st redraw_all compare] assms(3) obtain st' where
    s: "repaint_loop redraw_all compare rows 0 ?st = Some (Inr (length rows), st')" "length rows \<le> length (rp_rows st')"
    "\<forall>i < length rows. row_repainted redraw_all compare (rows ! i) (row_at (rp_rows st) i) (rp_rows st' ! i) (mask_get (rp_dirty st') i)"
    "\<forall>i \<ge> length rows. \<not> mask_get (rp_dirty st') i" by auto
  then show ?thesis by (simp add: repaint_grid_def)
qed

end
