(* ===== verification/Screen_Ledger.thy ===== *)
theory Screen_Ledger
  imports Vt_Rows
begin

text \<open>
  What an attached client has confirmed and what it is still missing: \<^verbatim>\<open>src/crates/server/src/screen.rs\<close>. A
  plan is the difference between the confirmed screen and the frame at hand: the band of rows that
  moved, found by hashing and confirmed by content, the rows in doubt whole and the rest as spans. The
  rows of a plan applied to any screen that agrees with the confirmed one outside the rows in doubt
  give the frame.
\<close>

section \<open>Model\<close>

subsection \<open>Plans\<close>

datatype row_plan = PlanWhole | PlanSpan "nat \<times> nat" bool

record planned_row =
  pr_row :: nat
  pr_sending :: row_plan

definition planned_update :: "planned_row \<Rightarrow> row_frame \<Rightarrow> row_update" where
  "planned_update one frame =
     (case pr_sending one of
        PlanWhole \<Rightarrow> row_update_whole (pr_row one) frame
      | PlanSpan runs clear_tail \<Rightarrow>
          \<lparr>up_row = pr_row one, up_frame = frame, up_runs = runs, up_clear_tail = clear_tail\<rparr>)"

record plan =
  pn_full :: bool
  pn_base :: screen_version
  pn_scroll :: "scroll_band option"
  pn_rows :: "planned_row list"

definition plan_default :: plan where
  "plan_default = \<lparr>pn_full = True, pn_base = screen_version_initial, pn_scroll = None, pn_rows = []\<rparr>"

record screen_ledger =
  sl_confirmed :: "(generation \<times> screen_version) option"
  sl_confirmed_rows :: "row_frame list"
  sl_pending :: "(generation \<times> screen_version) option"
  sl_pending_rows :: "row_frame list"
  sl_damage :: row_mask
  sl_in_flight_damage :: row_mask
  sl_sent_unconfirmed :: row_mask
  sl_named :: "planned_row list"
  sl_confirmed_hashes :: "u64 list"
  sl_frame_hashes :: "u64 list"
  sl_plan :: plan

definition ledger_new :: screen_ledger where
  "ledger_new =
     \<lparr>sl_confirmed = None, sl_confirmed_rows = [], sl_pending = None, sl_pending_rows = [],
      sl_damage = mask_default, sl_in_flight_damage = mask_default, sl_sent_unconfirmed = mask_default,
      sl_named = [], sl_confirmed_hashes = [], sl_frame_hashes = [], sl_plan = plan_default\<rparr>"

definition ledger_note_damage :: "screen_ledger \<Rightarrow> row_mask \<Rightarrow> screen_ledger" where
  "ledger_note_damage l dirty = l\<lparr>sl_damage := mask_union (sl_damage l) dirty\<rparr>"

definition ledger_invalidate :: "screen_ledger \<Rightarrow> nat \<Rightarrow> screen_ledger" where
  "ledger_invalidate l rows =
     l\<lparr>sl_confirmed := None, sl_confirmed_rows := [], sl_confirmed_hashes := [], sl_pending := None,
       sl_damage := mask_filled rows, sl_in_flight_damage := mask_reset (sl_in_flight_damage l) rows,
       sl_sent_unconfirmed := mask_reset (sl_sent_unconfirmed l) rows\<rparr>"

subsection \<open>Hashing rows\<close>

definition hash_mix :: "u64 \<Rightarrow> u64 \<Rightarrow> u64" where
  "hash_mix hash word = (word_rotl 5 hash XOR word) * 0x517cc1b727220a95"

definition color_key :: "style_color \<Rightarrow> u64" where
  "color_key color =
     (case color of
        DefaultColor \<Rightarrow> 0
      | Palette index \<Rightarrow> push_bit 24 1 OR ucast index
      | Rgb red green blue \<Rightarrow> push_bit 24 2 OR push_bit 16 (ucast red) OR push_bit 8 (ucast green) OR ucast blue)"

definition style_key :: "cell_style \<Rightarrow> u64" where
  "style_key style =
     word_rotl 21 (color_key (cs_fg style)) XOR word_rotl 42 (color_key (cs_bg style)) XOR
     color_key (cs_underline_color style) XOR push_bit 56 (ucast (cs_attrs style)) XOR
     push_bit 48 (ucast (underline_to_wire (cs_underline style)))"

text \<open>Eight bytes at a time, in the byte order of the machine, and the rest one by one.\<close>

fun hash_text :: "(bytes \<Rightarrow> u64) \<Rightarrow> u64 \<Rightarrow> bytes \<Rightarrow> u64" where
  "hash_text ne hash (a # b # c # d # e # f # g # h # rest) = hash_text ne (hash_mix hash (ne [a, b, c, d, e, f, g, h])) rest"
| "hash_text ne hash rest = foldl (\<lambda>hash byte. hash_mix hash (ucast byte OR 0x100)) hash rest"

definition row_hash :: "(bytes \<Rightarrow> u64) \<Rightarrow> row_frame \<Rightarrow> u64" where
  "row_hash ne row =
     foldl (\<lambda>hash run. hash_mix (hash_mix hash (of_nat (ru_cells run) OR push_bit 16 (of_nat (ru_bytes run))))
         (style_key (ru_style run)))
       (hash_text ne (of_nat (rf_cells row)) (rf_text row)) (rf_runs row)"

definition hash_rows :: "(bytes \<Rightarrow> u64) \<Rightarrow> row_frame list \<Rightarrow> u64 list" where
  "hash_rows ne rows = map (row_hash ne) rows"

subsection \<open>The band that moved\<close>

record hashed =
  hs_rows :: "row_frame list"
  hs_hashes :: "u64 list"

text \<open>\<^verbatim>\<open>partition_point\<close> on rows in ascending order.\<close>

definition rows_within :: "planned_row list \<Rightarrow> nat \<Rightarrow> nat \<Rightarrow> nat" where
  "rows_within named upper lower =
     (let start = length (takeWhile (\<lambda>one. pr_row one < upper) named)
      in length (takeWhile (\<lambda>one. pr_row one < lower) (drop start named)))"

definition band_cost :: "scroll_band \<Rightarrow> planned_row list \<Rightarrow> row_mask \<Rightarrow> nat" where
  "band_cost band named carried =
     (let revealed = sb_bottom band - sb_lines band;
          inherited = length (filter (\<lambda>row. mask_get carried (row + sb_lines band)) [sb_top band..<revealed]);
          inside = rows_within named (sb_top band) (sb_bottom band)
      in sb_lines band + inherited + (length named - inside))"

text \<open>Where the matching rows that start at \<open>row\<close> stop.\<close>

function match_stop :: "u64 list \<Rightarrow> u64 list \<Rightarrow> nat \<Rightarrow> nat \<Rightarrow> nat \<Rightarrow> nat" where
  "match_stop frame confirmed lines last_row row =
     (if row < last_row \<and> frame ! row = confirmed ! (row + lines)
      then match_stop frame confirmed lines last_row (row + 1) else row)"
  by pat_completeness auto
termination by (relation "measure (\<lambda>(_, _, _, last_row, row). last_row - row)") auto

declare match_stop.simps [simp del]

lemma match_stop_ge: "row \<le> match_stop frame confirmed lines last_row row"
  by (induction frame confirmed lines last_row row rule: match_stop.induct)
    (subst match_stop.simps, auto)

lemma match_stop_gt:
  assumes "row < last_row" "frame ! row = confirmed ! (row + lines)"
  shows "row < match_stop frame confirmed lines last_row row"
proof -
  have "match_stop frame confirmed lines last_row row = match_stop frame confirmed lines last_row (row + 1)"
    using assms by (subst match_stop.simps) simp
  then show ?thesis using match_stop_ge [of "row + 1" frame confirmed lines last_row] by simp
qed

definition band_consider ::
    "hashed \<Rightarrow> hashed \<Rightarrow> nat \<Rightarrow> planned_row list \<Rightarrow> row_mask \<Rightarrow> nat \<Rightarrow> nat \<Rightarrow> nat \<Rightarrow> (nat \<times> scroll_band) option \<Rightarrow>
     (nat \<times> scroll_band) option" where
  "band_consider confirmed frame count named carried lines upper row best =
     (let found = \<lparr>sb_top = upper, sb_bottom = min (row + lines) count, sb_lines = lines\<rparr>;
          found_cost = band_cost found named carried
      in if (case best of None \<Rightarrow> True | Some (lowest, _) \<Rightarrow> found_cost < lowest) \<and>
            list_all (\<lambda>at. hs_rows frame ! at = hs_rows confirmed ! (at + lines)) [upper..<row]
         then Some (found_cost, found) else best)"

function band_scan ::
    "hashed \<Rightarrow> hashed \<Rightarrow> nat \<Rightarrow> planned_row list \<Rightarrow> row_mask \<Rightarrow> nat \<Rightarrow> nat \<Rightarrow> nat \<Rightarrow> (nat \<times> scroll_band) option \<Rightarrow>
     (nat \<times> scroll_band) option" where
  "band_scan confirmed frame count named carried lines last_row row best =
     (if row < last_row then
        (if hs_hashes frame ! row \<noteq> hs_hashes confirmed ! (row + lines)
         then band_scan confirmed frame count named carried lines last_row (row + 1) best
         else
           let stop = match_stop (hs_hashes frame) (hs_hashes confirmed) lines last_row row
           in band_scan confirmed frame count named carried lines last_row stop
                (band_consider confirmed frame count named carried lines row stop best))
      else best)"
  by pat_completeness auto
termination
  by (relation "measure (\<lambda>(_, _, _, _, _, _, last_row, row, _). last_row - row)") (auto simp: match_stop_gt diff_less_mono2)

declare band_scan.simps [simp del]

fun band_search ::
    "hashed \<Rightarrow> hashed \<Rightarrow> nat \<Rightarrow> planned_row list \<Rightarrow> row_mask \<Rightarrow> nat list \<Rightarrow> (nat \<times> scroll_band) option \<Rightarrow>
     (nat \<times> scroll_band) option" where
  "band_search confirmed frame count named carried [] best = best"
| "band_search confirmed frame count named carried (lines # shifts) best =
     (if (case best of None \<Rightarrow> False | Some (lowest, _) \<Rightarrow> lowest \<le> lines) then best
      else band_search confirmed frame count named carried shifts
             (band_scan confirmed frame count named carried lines (count - lines) 0 best))"

definition band_find :: "hashed \<Rightarrow> hashed \<Rightarrow> nat \<Rightarrow> planned_row list \<Rightarrow> row_mask \<Rightarrow> scroll_band option" where
  "band_find confirmed frame count named carried =
     (let limit = min (min (length named) 65535) count in
      case band_search confirmed frame count named carried [1..<limit] None of
        Some (lowest, found) \<Rightarrow> if lowest < length named then Some found else None
      | None \<Rightarrow> None)"

subsection \<open>Planning\<close>

definition plan_partial :: "row_frame \<Rightarrow> nat \<times> nat \<Rightarrow> row_plan" where
  "plan_partial frame runs = PlanSpan runs (snd runs = length (rf_runs frame))"

definition ledger_release_in_flight :: "screen_ledger \<Rightarrow> screen_ledger" where
  "ledger_release_in_flight l =
     (case sl_pending l of
        None \<Rightarrow> l
      | Some _ \<Rightarrow> l\<lparr>sl_pending := None, sl_damage := mask_union (sl_damage l) (sl_in_flight_damage l),
          sl_in_flight_damage := mask_clear_all (sl_in_flight_damage l)\<rparr>)"

definition ledger_carry_every :: "screen_ledger \<Rightarrow> nat \<Rightarrow> screen_ledger" where
  "ledger_carry_every l rows = l\<lparr>sl_sent_unconfirmed := foldl mask_set (sl_sent_unconfirmed l) [0..<rows]\<rparr>"

definition ledger_in_flight :: "screen_ledger \<Rightarrow> bool" where
  "ledger_in_flight l \<longleftrightarrow> sl_pending l \<noteq> None"

definition ledger_scroll_to :: "screen_ledger \<Rightarrow> scroll_band \<Rightarrow> screen_ledger" where
  "ledger_scroll_to l band =
     (let revealed = sb_bottom band - sb_lines band; rows = pn_rows (sl_plan l); carried = sl_sent_unconfirmed l;
          named = filter (\<lambda>one. pr_row one < sb_top band) rows @
            map (\<lambda>row. \<lparr>pr_row = row, pr_sending = PlanWhole\<rparr>)
              (filter (\<lambda>row. mask_get carried (row + sb_lines band)) [sb_top band..<revealed]) @
            map (\<lambda>row. \<lparr>pr_row = row, pr_sending = PlanWhole\<rparr>) [revealed..<sb_bottom band] @
            filter (\<lambda>one. sb_bottom band \<le> pr_row one) rows
      in l\<lparr>sl_plan := (sl_plan l)\<lparr>pn_scroll := Some band, pn_rows := named\<rparr>, sl_named := rows,
           sl_sent_unconfirmed := foldl mask_set carried [sb_top band..<sb_bottom band]\<rparr>)"

text \<open>The rows worth naming, in the order of the mask, up to the first past the grid.\<close>

fun plan_rows :: "row_frame list \<Rightarrow> row_frame list \<Rightarrow> row_mask \<Rightarrow> nat list \<Rightarrow> planned_row list" where
  "plan_rows frame confirmed carried [] = []"
| "plan_rows frame confirmed carried (row # rows) =
     (if length frame \<le> row then []
      else if mask_get carried row then
        \<lparr>pr_row = row, pr_sending = PlanWhole\<rparr> # plan_rows frame confirmed carried rows
      else case row_changed_span (frame ! row) (confirmed ! row) of
        Some runs \<Rightarrow> \<lparr>pr_row = row, pr_sending = plan_partial (frame ! row) runs\<rparr> # plan_rows frame confirmed carried rows
      | None \<Rightarrow> plan_rows frame confirmed carried rows)"

definition plan_band :: "(bytes \<Rightarrow> u64) \<Rightarrow> screen_ledger \<Rightarrow> row_frame list \<Rightarrow> screen_ledger" where
  "plan_band ne l frame =
     (let l1 = (if sl_confirmed_hashes l = [] then l\<lparr>sl_confirmed_hashes := hash_rows ne (sl_confirmed_rows l)\<rparr> else l);
          l2 = l1\<lparr>sl_frame_hashes := hash_rows ne frame\<rparr>
      in case band_find \<lparr>hs_rows = sl_confirmed_rows l2, hs_hashes = sl_confirmed_hashes l2\<rparr>
             \<lparr>hs_rows = frame, hs_hashes = sl_frame_hashes l2\<rparr> (length frame) (pn_rows (sl_plan l2)) (sl_sent_unconfirmed l2) of
           Some found \<Rightarrow> ledger_scroll_to l2 found
         | None \<Rightarrow> l2)"

definition ledger_plan_delta :: "(bytes \<Rightarrow> u64) \<Rightarrow> screen_ledger \<Rightarrow> row_frame list \<Rightarrow> screen_header \<Rightarrow> bool \<times> screen_ledger" where
  "ledger_plan_delta ne l frame header =
     (case sl_confirmed l of
        None \<Rightarrow> (False, l)
      | Some (generation, base) \<Rightarrow>
          if generation \<noteq> sh_generation header \<or> length (sl_confirmed_rows l) \<noteq> length frame then (False, l)
          else if 65535 < length frame then (False, l)
          else
            let l1 = l\<lparr>sl_plan := (sl_plan l)\<lparr>pn_base := base\<rparr>\<rparr> in
            if mask_is_empty (sl_damage l1) \<and> mask_is_empty (sl_sent_unconfirmed l1) then (True, l1)
            else
              let rows = plan_rows frame (sl_confirmed_rows l1) (sl_sent_unconfirmed l1)
                    (mask_iter_either (sl_damage l1) (sl_sent_unconfirmed l1));
                  l2 = l1\<lparr>sl_plan := (sl_plan l1)\<lparr>pn_rows := pn_rows (sl_plan l1) @ rows\<rparr>\<rparr>;
                  l3 = (if 1 < length (pn_rows (sl_plan l2)) then plan_band ne l2 frame else l2)
              in (length (pn_rows (sl_plan l3)) < length frame, l3))"

text \<open>\<^verbatim>\<open>snapshot\<close>: the buffer is reused row by row.\<close>

fun snapshot :: "row_frame list \<Rightarrow> row_frame list \<Rightarrow> row_frame list" where
  "snapshot (slot # into) (row # rows) =
     slot\<lparr>rf_text := rf_text row, rf_runs := rf_runs row, rf_cells := rf_cells row\<rparr> # snapshot into rows"
| "snapshot into rows = rows"

definition ledger_plan :: "(bytes \<Rightarrow> u64) \<Rightarrow> screen_ledger \<Rightarrow> row_frame list \<Rightarrow> screen_header \<Rightarrow> plan \<times> screen_ledger" where
  "ledger_plan ne l frame header =
     (let l1 = ledger_release_in_flight l;
          l2 = l1\<lparr>sl_plan := (sl_plan l1)\<lparr>pn_rows := [], pn_scroll := None, pn_base := screen_version_initial\<rparr>\<rparr>;
          (delta, l3) = ledger_plan_delta ne l2 frame header;
          l4 = l3\<lparr>sl_plan := (sl_plan l3)\<lparr>pn_full := \<not> delta\<rparr>\<rparr>;
          l5 = (if pn_full (sl_plan l4) then
                  let l = l4\<lparr>sl_plan := (sl_plan l4)\<lparr>pn_rows := [], pn_scroll := None\<rparr>\<rparr>
                  in if length frame \<le> 65535 then ledger_carry_every l (length frame) else l
                else l4\<lparr>sl_sent_unconfirmed := foldl mask_set (sl_sent_unconfirmed l4) (map pr_row (pn_rows (sl_plan l4)))\<rparr>);
          l6 = l5\<lparr>sl_pending := Some (sh_generation header, sh_version header),
                  sl_damage := mask_clear_all (sl_in_flight_damage l5), sl_in_flight_damage := sl_damage l5,
                  sl_pending_rows := snapshot (sl_pending_rows l5) frame\<rparr>
      in (sl_plan l6, l6))"

definition ledger_confirm :: "screen_ledger \<Rightarrow> generation \<Rightarrow> screen_version \<Rightarrow> bool \<times> screen_ledger" where
  "ledger_confirm l generation version =
     (if sl_pending l \<noteq> Some (generation, version) then (False, l)
      else (True, l\<lparr>sl_pending := None, sl_in_flight_damage := mask_clear_all (sl_in_flight_damage l),
        sl_sent_unconfirmed := mask_clear_all (sl_sent_unconfirmed l),
        sl_confirmed_rows := sl_pending_rows l, sl_pending_rows := sl_confirmed_rows l,
        sl_confirmed_hashes := [], sl_confirmed := Some (generation, version)\<rparr>))"

section \<open>The rows a plan names\<close>

definition named_rows :: "planned_row list \<Rightarrow> nat set" where
  "named_rows rows = pr_row ` set rows"

text \<open>How a row may be sent: whole, or as the span in which it differs from the confirmed one where the client is
  known to hold that.\<close>

definition sending_ok :: "row_frame list \<Rightarrow> row_frame list \<Rightarrow> row_mask \<Rightarrow> planned_row \<Rightarrow> bool" where
  "sending_ok frame confirmed carried one \<longleftrightarrow>
     (case pr_sending one of
        PlanWhole \<Rightarrow> True
      | PlanSpan runs clear_tail \<Rightarrow> \<not> mask_get carried (pr_row one) \<and>
          row_changed_span (frame ! pr_row one) (confirmed ! pr_row one) = Some runs \<and>
          clear_tail = (snd runs = length (rf_runs (frame ! pr_row one))))"

lemma named_rows_simps [simp]: "named_rows [] = {}" "named_rows (one # rows) = insert (pr_row one) (named_rows rows)"
  "named_rows (xs @ ys) = named_rows xs \<union> named_rows ys"
  by (auto simp: named_rows_def)

lemma plan_rows_inside: "named_rows (plan_rows frame confirmed carried xs) \<subseteq> set xs \<inter> {..<length frame}"
  by (induction frame confirmed carried xs rule: plan_rows.induct) (auto split: option.splits)

lemma plan_rows_sending: "list_all (sending_ok frame confirmed carried) (plan_rows frame confirmed carried xs)"
  by (induction frame confirmed carried xs rule: plan_rows.induct)
    (auto simp: sending_ok_def plan_partial_def split: option.splits)

lemma plan_rows_ascend: "sorted_wrt (<) xs \<Longrightarrow> sorted_wrt (\<lambda>a b. pr_row a < pr_row b) (plan_rows frame confirmed carried xs)"
proof (induction frame confirmed carried xs rule: plan_rows.induct)
  case (2 frame confirmed carried row rows)
  have "\<forall>b \<in> set (plan_rows frame confirmed carried rows). row < pr_row b"
    using 2(4) plan_rows_inside [of frame confirmed carried rows] by (fastforce simp: named_rows_def)
  then show ?case using 2 by (auto split: option.splits)
qed simp

lemma plan_rows_skip:
  assumes "sorted_wrt (<) xs" "row \<in> set xs" "row < length frame" "row \<notin> named_rows (plan_rows frame confirmed carried xs)"
  shows "\<not> mask_get carried row \<and> row_changed_span (frame ! row) (confirmed ! row) = None"
  using assms
proof (induction frame confirmed carried xs rule: plan_rows.induct)
  case (2 frame confirmed carried r rows)
  have "\<not> length frame \<le> r" using 2(4-6) by auto
  then show ?case using 2 by (auto split: option.splits if_splits)
qed simp

section \<open>The band that moved\<close>

text \<open>A band the client can apply, whose rows all moved.\<close>

definition band_good :: "row_frame list \<Rightarrow> row_frame list \<Rightarrow> scroll_band \<Rightarrow> bool" where
  "band_good confirmed frame band \<longleftrightarrow> scroll_applicable band (length frame) \<and> sb_lines band < sb_bottom band - sb_top band \<and>
     (\<forall>i. sb_top band \<le> i \<and> i < sb_bottom band - sb_lines band \<longrightarrow> frame ! i = confirmed ! (i + sb_lines band))"

lemma match_stop_le: "row \<le> last_row \<Longrightarrow> match_stop frame confirmed lines last_row row \<le> last_row"
  by (induction frame confirmed lines last_row row rule: match_stop.induct) (subst match_stop.simps, auto)

lemma band_consider_good:
  assumes "case best of None \<Rightarrow> True | Some (_, b) \<Rightarrow> band_good (hs_rows confirmed) (hs_rows frame) b"
    "upper < row" "row + lines \<le> length (hs_rows frame)" "0 < lines" "band_consider confirmed frame (length (hs_rows frame)) named carried lines upper row best = Some (c, b)"
  shows "band_good (hs_rows confirmed) (hs_rows frame) b"
  using assms
  by (auto simp: band_consider_def Let_def band_good_def scroll_applicable_def list_all_iff split: if_splits)

lemma band_scan_good:
  assumes "case best of None \<Rightarrow> True | Some (_, b) \<Rightarrow> band_good (hs_rows confirmed) (hs_rows frame) b" "0 < lines"
    "last_row + lines \<le> count" "count = length (hs_rows frame)"
    "band_scan confirmed frame count named carried lines last_row row best = Some (c, b)"
  shows "band_good (hs_rows confirmed) (hs_rows frame) b"
  using assms
proof (induction confirmed frame count named carried lines last_row row best rule: band_scan.induct)
  case (1 confirmed frame count named carried lines last_row row best)
  let ?stop = "match_stop (hs_hashes frame) (hs_hashes confirmed) lines last_row row"
  show ?case
  proof (cases "row < last_row")
    case False
    then show ?thesis using 1(3,7) by (subst (asm) band_scan.simps) simp
  next
    case True
    show ?thesis
    proof (cases "hs_hashes frame ! row = hs_hashes confirmed ! (row + lines)")
      case False
      then show ?thesis using 1(1) [OF True] 1(3-7) True by (subst (asm) (2) band_scan.simps) simp
    next
      case match: True
      let ?best = "band_consider confirmed frame count named carried lines row ?stop best"
      have "row < ?stop" "?stop + lines \<le> length (hs_rows frame)"
        using match_stop_gt [OF True match] match_stop_le [of row last_row "hs_hashes frame" "hs_hashes confirmed" lines] True 1(5,6)
        by simp_all
      then have "case ?best of None \<Rightarrow> True | Some (_, b) \<Rightarrow> band_good (hs_rows confirmed) (hs_rows frame) b"
        using band_consider_good [OF 1(3), of row ?stop lines named carried] 1(4,6) by (auto split: option.splits)
      moreover have "band_scan confirmed frame count named carried lines last_row ?stop ?best = Some (c, b)"
        using 1(7) True match by (subst (asm) band_scan.simps) (simp add: Let_def)
      ultimately show ?thesis using 1(2) [OF True _ refl] match 1(4-6) by simp
    qed
  qed
qed

lemma band_search_good:
  assumes "case best of None \<Rightarrow> True | Some (_, b) \<Rightarrow> band_good (hs_rows confirmed) (hs_rows frame) b"
    "\<forall>lines \<in> set shifts. 0 < lines \<and> lines < length (hs_rows frame)"
    "band_search confirmed frame (length (hs_rows frame)) named carried shifts best = Some (c, b)"
  shows "band_good (hs_rows confirmed) (hs_rows frame) b"
  using assms
proof (induction shifts arbitrary: best)
  case (Cons lines shifts)
  let ?next = "band_scan confirmed frame (length (hs_rows frame)) named carried lines (length (hs_rows frame) - lines) 0 best"
  have "case ?next of None \<Rightarrow> True | Some (_, b) \<Rightarrow> band_good (hs_rows confirmed) (hs_rows frame) b"
    using band_scan_good [OF Cons.prems(1) _ _ refl, of lines "length (hs_rows frame) - lines" named carried 0] Cons.prems(2)
    by (auto split: option.splits)
  then show ?case using Cons by (auto split: if_splits)
qed auto

lemma band_find_good:
  assumes "band_find confirmed frame (length (hs_rows frame)) named carried = Some band"
  shows "band_good (hs_rows confirmed) (hs_rows frame) band"
  using assms band_search_good [where best = None and confirmed = confirmed and frame = frame and named = named and carried = carried
      and shifts = "[1..<min (min (length named) 65535) (length (hs_rows frame))]" and b = band]
  by (auto simp: band_find_def Let_def split: option.splits if_splits)

section \<open>The ledger over time\<close>

text \<open>What the ledger knows of the emulator's rows \<open>frame\<close>: a row it does not call damaged is the confirmed one,
  and a row not damaged since the screen in flight was planned is the one that screen carries.\<close>

definition rows_agree :: "row_mask \<Rightarrow> row_mask \<Rightarrow> row_frame list \<Rightarrow> row_frame list \<Rightarrow> bool" where
  "rows_agree m m' xs ys \<longleftrightarrow> (\<forall>i < length ys. \<not> mask_get m i \<longrightarrow> \<not> mask_get m' i \<longrightarrow> xs ! i = ys ! i)"

definition ledger_ok :: "screen_ledger \<Rightarrow> row_frame list \<Rightarrow> bool" where
  "ledger_ok l frame \<longleftrightarrow>
     mask_ok (sl_damage l) \<and> mask_ok (sl_in_flight_damage l) \<and> mask_ok (sl_sent_unconfirmed l) \<and>
     (sl_pending l = None \<longrightarrow> mask_is_empty (sl_in_flight_damage l)) \<and>
     (sl_confirmed l \<noteq> None \<longrightarrow> length (sl_confirmed_rows l) = length frame \<longrightarrow>
       rows_agree (sl_damage l) (sl_in_flight_damage l) (sl_confirmed_rows l) frame) \<and>
     (sl_pending l \<noteq> None \<longrightarrow> length (sl_pending_rows l) = length frame \<and>
       rows_agree (sl_damage l) mask_default (sl_pending_rows l) frame)"

lemma ledger_ok_new: "ledger_ok ledger_new frame"
  by (simp add: ledger_ok_def ledger_new_def mask_is_empty_def mask_default_def mask_ok_def)

lemma ledger_ok_damage:
  assumes "ledger_ok l frame" "mask_ok dirty" "length frame' = length frame" "\<forall>i < length frame. \<not> mask_get dirty i \<longrightarrow> frame' ! i = frame ! i"
  shows "ledger_ok (ledger_note_damage l dirty) frame'"
  using assms by (auto simp: ledger_ok_def ledger_note_damage_def rows_agree_def)

lemma ledger_ok_invalidate:
  assumes "ledger_ok l frame" "rows < 65536"
  shows "ledger_ok (ledger_invalidate l rows) frame'"
  using assms by (auto simp: ledger_ok_def ledger_invalidate_def mask_is_empty_rows)

lemma ledger_ok_release:
  assumes "ledger_ok l frame"
  shows "ledger_ok (ledger_release_in_flight l) frame"
  using assms by (auto simp: ledger_ok_def ledger_release_in_flight_def rows_agree_def mask_is_empty_rows split: option.splits)

lemma ledger_ok_confirm:
  assumes "ledger_ok l frame"
  shows "ledger_ok (snd (ledger_confirm l generation version)) frame"
  using assms by (auto simp: ledger_ok_def ledger_confirm_def rows_agree_def mask_is_empty_rows)

lemma snapshot_copies: "snapshot into rows = rows"
  by (induction into rows rule: snapshot.induct) auto

subsection \<open>What a plan promises\<close>

text \<open>Where the row the client shows at \<open>i\<close> comes from once the band has moved.\<close>

definition band_source :: "scroll_band option \<Rightarrow> nat \<Rightarrow> nat option" where
  "band_source scroll i =
     (case scroll of
        None \<Rightarrow> Some i
      | Some band \<Rightarrow>
          if sb_top band \<le> i \<and> i < sb_bottom band - sb_lines band then Some (i + sb_lines band)
          else if sb_top band \<le> i \<and> i < sb_bottom band then None else Some i)"

definition band_rows :: "scroll_band option \<Rightarrow> nat set" where
  "band_rows scroll = (case scroll of None \<Rightarrow> {} | Some band \<Rightarrow> {sb_top band..<sb_bottom band})"

text \<open>A delta is good for a frame over a base, with some rows of the base in doubt: the rows it names ascend
  and are sent whole, or as a span of a row that neither moved nor is in doubt; and every row it leaves out
  shows what the base shows where it came from.\<close>

definition delta_good ::
    "row_frame list \<Rightarrow> row_frame list \<Rightarrow> (nat \<Rightarrow> bool) \<Rightarrow> scroll_band option \<Rightarrow> planned_row list \<Rightarrow> bool" where
  "delta_good confirmed frame doubt scroll rows \<longleftrightarrow>
     sorted_wrt (\<lambda>a b. pr_row a < pr_row b) rows \<and> named_rows rows \<subseteq> {..<length frame} \<and>
     (\<forall>band. scroll = Some band \<longrightarrow> scroll_applicable band (length frame)) \<and>
     (\<forall>one \<in> set rows. case pr_sending one of
        PlanWhole \<Rightarrow> True
      | PlanSpan runs clear_tail \<Rightarrow> \<not> doubt (pr_row one) \<and> pr_row one \<notin> band_rows scroll \<and>
          row_changed_span (frame ! pr_row one) (confirmed ! pr_row one) = Some runs \<and>
          clear_tail = (snd runs = length (rf_runs (frame ! pr_row one)))) \<and>
     (\<forall>i < length frame. i \<notin> named_rows rows \<longrightarrow>
        (\<exists>j. band_source scroll i = Some j \<and> j < length frame \<and> \<not> doubt j \<and> row_shown (confirmed ! j) = row_shown (frame ! i)))"

lemma ascend_filter: "sorted_wrt (\<lambda>a b. pr_row a < pr_row b) rows \<Longrightarrow> sorted_wrt (\<lambda>a b. pr_row a < pr_row b) (filter P rows)"
  by (rule sorted_wrt_filter)

lemma delta_good_rows:
  assumes "rows_agree damage mask_default confirmed frame" "mask_ok damage" "mask_ok carried"
    "length confirmed = length frame"
    "\<forall>row \<in> set frame \<union> set confirmed. \<exists>cols. row_sound cols row"
  shows "delta_good confirmed frame (mask_get carried) None
    (plan_rows frame confirmed carried (mask_iter_either damage carried))"
proof -
  let ?xs = "mask_iter_either damage carried"
  note xs = mask_iter_either_spec [OF assms(2,3)]
  have skip: "\<not> mask_get carried i \<and> row_shown (confirmed ! i) = row_shown (frame ! i)"
    if i: "i < length frame" "i \<notin> named_rows (plan_rows frame confirmed carried ?xs)" for i
  proof (cases "i \<in> set ?xs")
    case True
    from plan_rows_skip [OF xs(2) True i] have none: "\<not> mask_get carried i" "row_changed_span (frame ! i) (confirmed ! i) = None" by auto
    obtain cols cols' where "row_sound cols (frame ! i)" "row_sound cols' (confirmed ! i)"
      using assms(4,5) i(1) by (metis UnCI nth_mem)
    from changed_span_none [OF this none(2)] none(1) show ?thesis by simp
  next
    case False
    then show ?thesis using xs(1) assms(1) i(1) by (auto simp: rows_agree_def mask_rows_def)
  qed
  then show ?thesis
    using plan_rows_ascend [OF xs(2)] plan_rows_inside [of frame confirmed carried ?xs] plan_rows_sending [of frame confirmed carried ?xs]
    by (auto simp: delta_good_def band_source_def band_rows_def sending_ok_def list_all_iff split: row_plan.splits)
qed

text \<open>The rows \<^verbatim>\<open>scroll_to\<close> names around a band.\<close>

definition scrolled_rows :: "scroll_band \<Rightarrow> (nat \<Rightarrow> bool) \<Rightarrow> planned_row list \<Rightarrow> planned_row list" where
  "scrolled_rows band doubt rows =
     filter (\<lambda>one. pr_row one < sb_top band) rows @
     map (\<lambda>row. \<lparr>pr_row = row, pr_sending = PlanWhole\<rparr>)
       (filter (\<lambda>row. doubt (row + sb_lines band)) [sb_top band..<sb_bottom band - sb_lines band]) @
     map (\<lambda>row. \<lparr>pr_row = row, pr_sending = PlanWhole\<rparr>) [sb_bottom band - sb_lines band..<sb_bottom band] @
     filter (\<lambda>one. sb_bottom band \<le> pr_row one) rows"

lemma scrolled_named:
  "named_rows (scrolled_rows band doubt rows) =
     {i \<in> named_rows rows. i < sb_top band \<or> sb_bottom band \<le> i} \<union>
     {i. sb_top band \<le> i \<and> i < sb_bottom band - sb_lines band \<and> doubt (i + sb_lines band)} \<union>
     {sb_bottom band - sb_lines band..<sb_bottom band}"
  by (auto simp: scrolled_rows_def named_rows_def image_Un image_image)

lemma scrolled_ascend:
  assumes "sorted_wrt (\<lambda>a b. pr_row a < pr_row b) rows" "sb_top band \<le> sb_bottom band - sb_lines band"
  shows "sorted_wrt (\<lambda>a b. pr_row a < pr_row b) (scrolled_rows band doubt rows)"
proof -
  have "sorted_wrt (\<lambda>a b. pr_row a < pr_row b) (map (\<lambda>row. \<lparr>pr_row = row, pr_sending = PlanWhole\<rparr>) xs)" if "sorted_wrt (<) xs" for xs
    using that by (simp add: sorted_wrt_map)
  moreover have "sorted_wrt (<) (filter (\<lambda>row. doubt (row + sb_lines band)) [sb_top band..<sb_bottom band - sb_lines band])"
    by (intro sorted_wrt_filter) simp
  ultimately show ?thesis
    using assms by (auto simp: scrolled_rows_def sorted_wrt_append intro: sorted_wrt_filter)
qed

lemma delta_good_scrolled:
  assumes "delta_good confirmed frame doubt None rows" "band_good confirmed frame band"
  shows "delta_good confirmed frame doubt (Some band) (scrolled_rows band doubt rows)"
proof -
  have app: "scroll_applicable band (length frame)" and moved:
    "\<And>i. sb_top band \<le> i \<Longrightarrow> i < sb_bottom band - sb_lines band \<Longrightarrow> frame ! i = confirmed ! (i + sb_lines band)"
    using assms(2) by (auto simp: band_good_def)
  have "sb_top band \<le> sb_bottom band - sb_lines band" "sb_bottom band \<le> length frame" "sb_lines band \<le> sb_bottom band"
    using app by (auto simp: scroll_applicable_def)
  note band = this app
  have old: "sorted_wrt (\<lambda>a b. pr_row a < pr_row b) rows" "named_rows rows \<subseteq> {..<length frame}"
    "\<And>i. i < length frame \<Longrightarrow> i \<notin> named_rows rows \<Longrightarrow> \<not> doubt i \<and> row_shown (confirmed ! i) = row_shown (frame ! i)"
    using assms(1) by (auto simp: delta_good_def band_source_def)
  have out: "\<exists>j. band_source (Some band) i = Some j \<and> j < length frame \<and> \<not> doubt j \<and> row_shown (confirmed ! j) = row_shown (frame ! i)"
    if i: "i < length frame" "i \<notin> named_rows (scrolled_rows band doubt rows)" for i
    using i old(3) [of i] moved [of i] band by (auto simp: scrolled_named band_source_def)
  have "case pr_sending one of PlanWhole \<Rightarrow> True
      | PlanSpan runs clear_tail \<Rightarrow> \<not> doubt (pr_row one) \<and> pr_row one \<notin> band_rows (Some band) \<and>
          row_changed_span (frame ! pr_row one) (confirmed ! pr_row one) = Some runs \<and>
          clear_tail = (snd runs = length (rf_runs (frame ! pr_row one)))"
    if "one \<in> set (scrolled_rows band doubt rows)" for one
    using that assms(1) by (auto simp: scrolled_rows_def delta_good_def band_rows_def split: row_plan.splits)
  moreover have "named_rows (scrolled_rows band doubt rows) \<subseteq> {..<length frame}"
    using old(2) band by (auto simp: scrolled_named)
  ultimately show ?thesis
    unfolding delta_good_def using out scrolled_ascend [OF old(1) band(1), of doubt] app by auto
qed

lemma scroll_to_fields:
  "sl_plan (ledger_scroll_to l band) =
     (sl_plan l)\<lparr>pn_scroll := Some band, pn_rows := scrolled_rows band (mask_get (sl_sent_unconfirmed l)) (pn_rows (sl_plan l))\<rparr>"
  "mask_get (sl_sent_unconfirmed (ledger_scroll_to l band)) i \<longleftrightarrow> i \<in> {sb_top band..<sb_bottom band} \<or> mask_get (sl_sent_unconfirmed l) i"
  "mask_ok (sl_sent_unconfirmed l) \<Longrightarrow> sb_bottom band < 65536 \<Longrightarrow> mask_ok (sl_sent_unconfirmed (ledger_scroll_to l band))"
  by (auto simp: ledger_scroll_to_def Let_def scrolled_rows_def mask_get_sets list_all_iff intro!: mask_ok_sets)

text \<open>The fields a plan does not touch.\<close>

definition ledger_kept :: "screen_ledger \<Rightarrow> screen_ledger \<Rightarrow> bool" where
  "ledger_kept l l' \<longleftrightarrow> sl_confirmed l' = sl_confirmed l \<and> sl_confirmed_rows l' = sl_confirmed_rows l \<and> sl_damage l' = sl_damage l \<and>
     sl_in_flight_damage l' = sl_in_flight_damage l \<and> sl_pending_rows l' = sl_pending_rows l"

lemma plan_band_good:
  assumes "delta_good (sl_confirmed_rows l) frame (mask_get (sl_sent_unconfirmed l)) None (pn_rows (sl_plan l))"
    "pn_scroll (sl_plan l) = None" "mask_ok (sl_sent_unconfirmed l)" "length frame \<le> 65535" "plan_band ne l frame = l'"
  shows "delta_good (sl_confirmed_rows l) frame (mask_get (sl_sent_unconfirmed l)) (pn_scroll (sl_plan l')) (pn_rows (sl_plan l')) \<and>
    ledger_kept l l' \<and> mask_ok (sl_sent_unconfirmed l') \<and> pn_base (sl_plan l') = pn_base (sl_plan l) \<and>
    (\<forall>i. mask_get (sl_sent_unconfirmed l') i \<longleftrightarrow> i \<in> band_rows (pn_scroll (sl_plan l')) \<or> mask_get (sl_sent_unconfirmed l) i)"
proof -
  define l1 where "l1 = (if sl_confirmed_hashes l = [] then l\<lparr>sl_confirmed_hashes := hash_rows ne (sl_confirmed_rows l)\<rparr> else l)"
  define l2 where "l2 = l1\<lparr>sl_frame_hashes := hash_rows ne frame\<rparr>"
  let ?c = "\<lparr>hs_rows = sl_confirmed_rows l2, hs_hashes = sl_confirmed_hashes l2\<rparr>" and ?f = "\<lparr>hs_rows = frame, hs_hashes = sl_frame_hashes l2\<rparr>"
  have l2: "sl_plan l2 = sl_plan l" "sl_sent_unconfirmed l2 = sl_sent_unconfirmed l" "ledger_kept l l2" "sl_confirmed_rows l2 = sl_confirmed_rows l"
    by (simp_all add: ledger_kept_def l1_def l2_def)
  show ?thesis
  proof (cases "band_find ?c ?f (length frame) (pn_rows (sl_plan l2)) (sl_sent_unconfirmed l2)")
    case None
    then have "l' = l2" using assms(5) unfolding l1_def l2_def by (simp add: plan_band_def Let_def)
    then show ?thesis using assms l2 by (simp add: band_rows_def)
  next
    case (Some band)
    then have l': "l' = ledger_scroll_to l2 band" using assms(5) unfolding l1_def l2_def by (simp add: plan_band_def Let_def)
    have good: "band_good (sl_confirmed_rows l) frame band"
      using band_find_good [of ?c ?f] Some l2(4) by simp
    have "sb_bottom band < 65536" using good assms(4) by (simp add: band_good_def scroll_applicable_def)
    moreover have "ledger_kept l (ledger_scroll_to l2 band)" using l2(3) by (simp add: ledger_kept_def ledger_scroll_to_def Let_def)
    ultimately show ?thesis
      using delta_good_scrolled [OF assms(1) good] assms(3) l2 unfolding l'
      by (simp add: scroll_to_fields band_rows_def)
  qed
qed

lemma plan_delta_good:
  assumes "ledger_ok l frame" "sl_pending l = None" "pn_rows (sl_plan l) = []" "pn_scroll (sl_plan l) = None"
    "\<forall>row \<in> set frame \<union> set (sl_confirmed_rows l). \<exists>cols. row_sound cols row" "length frame \<le> 65535"
    "ledger_plan_delta ne l frame header = (delta, l')"
  shows "ledger_kept l l' \<and> mask_ok (sl_sent_unconfirmed l') \<and>
    (\<forall>i. mask_get (sl_sent_unconfirmed l) i \<longrightarrow> mask_get (sl_sent_unconfirmed l') i) \<and>
    (delta \<longrightarrow> sl_confirmed l = Some (sh_generation header, pn_base (sl_plan l')) \<and> length (sl_confirmed_rows l) = length frame \<and>
     delta_good (sl_confirmed_rows l) frame (mask_get (sl_sent_unconfirmed l)) (pn_scroll (sl_plan l')) (pn_rows (sl_plan l')) \<and>
     (\<forall>i \<in> band_rows (pn_scroll (sl_plan l')). mask_get (sl_sent_unconfirmed l') i))"
proof (cases "\<exists>base. sl_confirmed l = Some (sh_generation header, base) \<and> length (sl_confirmed_rows l) = length frame")
  case False
  then have "delta = False" "l' = l"
    using assms(7) by (auto simp: ledger_plan_delta_def split: option.splits prod.splits if_splits)
  then show ?thesis using assms(1) by (simp add: ledger_kept_def ledger_ok_def)
next
  case True
  then obtain base where base: "sl_confirmed l = Some (sh_generation header, base)" "length (sl_confirmed_rows l) = length frame" by blast
  define l1 where "l1 = l\<lparr>sl_plan := (sl_plan l)\<lparr>pn_base := base\<rparr>\<rparr>"
  define rows where "rows = plan_rows frame (sl_confirmed_rows l) (sl_sent_unconfirmed l) (mask_iter_either (sl_damage l) (sl_sent_unconfirmed l))"
  define l2 where "l2 = l1\<lparr>sl_plan := (sl_plan l1)\<lparr>pn_rows := rows\<rparr>\<rparr>"
  have ok: "mask_ok (sl_damage l)" "mask_ok (sl_sent_unconfirmed l)" "rows_agree (sl_damage l) mask_default (sl_confirmed_rows l) frame"
    using assms(1,2) base by (auto simp: ledger_ok_def rows_agree_def mask_is_empty_rows)
  have good: "delta_good (sl_confirmed_rows l) frame (mask_get (sl_sent_unconfirmed l)) None rows"
    unfolding rows_def by (rule delta_good_rows [OF ok(3,1,2) base(2) assms(5)])
  show ?thesis
  proof (cases "mask_is_empty (sl_damage l) \<and> mask_is_empty (sl_sent_unconfirmed l)")
    case True
    then have l': "delta = True" "l' = l1" using assms(6,7) base by (simp_all add: ledger_plan_delta_def l1_def)
    have "rows = []"
      using True plan_rows_inside [of frame "sl_confirmed_rows l" "sl_sent_unconfirmed l"] mask_iter_either_spec(1) [OF ok(1,2)]
      unfolding rows_def by (auto simp: mask_is_empty_rows mask_rows_def named_rows_def)
    then show ?thesis using l' base good ok(2) assms(3,4) by (simp add: l1_def ledger_kept_def band_rows_def)
  next
    case False
    have fields: "sl_confirmed_rows l2 = sl_confirmed_rows l" "sl_sent_unconfirmed l2 = sl_sent_unconfirmed l" "pn_rows (sl_plan l2) = rows"
      "pn_scroll (sl_plan l2) = None" "pn_base (sl_plan l2) = base" "ledger_kept l l2"
      by (simp_all add: l2_def l1_def assms(4) ledger_kept_def)
    have l': "l' = (if 1 < length rows then plan_band ne l2 frame else l2)"
      using False assms(3,6,7) base fields(3) by (auto simp: ledger_plan_delta_def l1_def l2_def rows_def Let_def)
    have "delta_good (sl_confirmed_rows l) frame (mask_get (sl_sent_unconfirmed l)) (pn_scroll (sl_plan l')) (pn_rows (sl_plan l')) \<and>
      ledger_kept l2 l' \<and> mask_ok (sl_sent_unconfirmed l') \<and> pn_base (sl_plan l') = base \<and>
      (\<forall>i. mask_get (sl_sent_unconfirmed l') i \<longleftrightarrow> i \<in> band_rows (pn_scroll (sl_plan l')) \<or> mask_get (sl_sent_unconfirmed l) i)"
    proof (cases "1 < length rows")
      case True
      then have "plan_band ne l2 frame = l'" using l' by simp
      from plan_band_good [of l2 frame, OF _ _ _ assms(6) this] show ?thesis using good ok(2) fields by simp
    next
      case False
      then show ?thesis using l' good ok(2) fields by (simp add: ledger_kept_def band_rows_def)
    qed
    then show ?thesis using fields(6) base by (simp add: ledger_kept_def)
  qed
qed

text \<open>A plan that is a delta is good for the frame over the confirmed rows, with the rows sent and not confirmed in
  doubt, and adds the rows it touches to the doubt; a whole screen puts every row in doubt.\<close>

lemma ledger_plan_good:
  assumes "ledger_ok l frame" "\<forall>row \<in> set frame \<union> set (sl_confirmed_rows l). \<exists>cols. row_sound cols row"
    "length frame \<le> 65535" "ledger_plan ne l frame header = (p, l')"
  shows "ledger_ok l' frame \<and> sl_confirmed l' = sl_confirmed l \<and> sl_confirmed_rows l' = sl_confirmed_rows l \<and>
    sl_pending l' = Some (sh_generation header, sh_version header) \<and> sl_pending_rows l' = frame \<and>
    (\<forall>i. mask_get (sl_sent_unconfirmed l) i \<longrightarrow> mask_get (sl_sent_unconfirmed l') i) \<and>
    (if pn_full p then \<forall>i < length frame. mask_get (sl_sent_unconfirmed l') i
     else sl_confirmed l = Some (sh_generation header, pn_base p) \<and> length (sl_confirmed_rows l) = length frame \<and>
       delta_good (sl_confirmed_rows l) frame (mask_get (sl_sent_unconfirmed l)) (pn_scroll p) (pn_rows p) \<and>
       (\<forall>i \<in> named_rows (pn_rows p) \<union> band_rows (pn_scroll p). mask_get (sl_sent_unconfirmed l') i))"
proof -
  define l1 where "l1 = ledger_release_in_flight l"
  define l2 where "l2 = l1\<lparr>sl_plan := (sl_plan l1)\<lparr>pn_rows := [], pn_scroll := None, pn_base := screen_version_initial\<rparr>\<rparr>"
  obtain delta l3 where d: "ledger_plan_delta ne l2 frame header = (delta, l3)" by fastforce
  have ok2: "ledger_ok l2 frame" using ledger_ok_release [OF assms(1)] by (simp add: l2_def l1_def ledger_ok_def)
  have keep2: "sl_confirmed l2 = sl_confirmed l" "sl_confirmed_rows l2 = sl_confirmed_rows l" "sl_sent_unconfirmed l2 = sl_sent_unconfirmed l"
    "sl_pending l2 = None" "pn_rows (sl_plan l2) = []" "pn_scroll (sl_plan l2) = None"
    by (simp_all add: l2_def l1_def ledger_release_in_flight_def split: option.splits)
  have flight: "mask_is_empty (sl_in_flight_damage l2)" using ok2 keep2(4) by (simp add: ledger_ok_def)
  note delta = plan_delta_good [OF ok2 keep2(4-6) _ assms(3) d]
  define full where "full = l3\<lparr>sl_plan := (sl_plan l3)\<lparr>pn_full := True, pn_rows := [], pn_scroll := None\<rparr>\<rparr>"
  define l5 where "l5 = (if delta
    then l3\<lparr>sl_plan := (sl_plan l3)\<lparr>pn_full := False\<rparr>,
            sl_sent_unconfirmed := foldl mask_set (sl_sent_unconfirmed l3) (map pr_row (pn_rows (sl_plan l3)))\<rparr>
    else ledger_carry_every full (length frame))"
  have l': "l' = l5\<lparr>sl_pending := Some (sh_generation header, sh_version header), sl_damage := mask_clear_all (sl_in_flight_damage l5),
      sl_in_flight_damage := sl_damage l5, sl_pending_rows := frame\<rparr>" "p = sl_plan l5"
    using assms(3,4) d by (auto simp: ledger_plan_def Let_def l1_def l2_def l5_def full_def snapshot_copies)
  have sound: "\<forall>row \<in> set frame \<union> set (sl_confirmed_rows l2). \<exists>cols. row_sound cols row" using assms(2) keep2(2) by simp
  have named: "list_all (\<lambda>one. pr_row one < 65536) (pn_rows (sl_plan l3))" if delta
    using delta [OF sound] that assms(3) by (fastforce simp: delta_good_def named_rows_def list_all_iff)
  have carried: "mask_get (sl_sent_unconfirmed l5) i \<longleftrightarrow> mask_get (sl_sent_unconfirmed l3) i \<or>
      (if delta then i \<in> named_rows (pn_rows (sl_plan l3)) else i < length frame)" for i
    by (auto simp: l5_def ledger_carry_every_def full_def mask_get_sets named_rows_def)
  have okm: "mask_ok (sl_sent_unconfirmed l5)"
    using delta [OF sound] named assms(3)
    by (auto simp: l5_def ledger_carry_every_def full_def list_all_iff intro!: mask_ok_sets)
  have "ledger_kept l2 l5" using delta [OF sound] by (auto simp: l5_def ledger_kept_def ledger_carry_every_def full_def)
  then have "ledger_ok l' frame"
    using ok2 okm flight by (auto simp: l' ledger_ok_def rows_agree_def ledger_kept_def mask_is_empty_rows)
  moreover have "pn_full p = (\<not> delta)" "\<not> pn_full p \<Longrightarrow> pn_base p = pn_base (sl_plan l3) \<and> pn_rows p = pn_rows (sl_plan l3) \<and> pn_scroll p = pn_scroll (sl_plan l3)"
    by (auto simp: l'(2) l5_def full_def ledger_carry_every_def)
  ultimately show ?thesis
    using delta [OF sound] carried keep2 \<open>ledger_kept l2 l5\<close> by (auto simp: l'(1) ledger_kept_def)
qed

end
