(* ===== verification/Screen_Runs.thy ===== *)
theory Screen_Runs
  imports Screen_Ledger Proto_Properties "HOL-Library.Product_Lexorder"
begin

text \<open>
  A ledger over the life of an attachment: rows repainted, grids replaced, screens planned and confirmed in any order,
  acknowledgements lost or forged. A delta is right for every client that holds its base, whatever it was painted
  since with the screens sent after that base.
\<close>

section \<open>Model\<close>

record sent_screen =
  st_name :: "generation \<times> screen_version"
  st_frame :: "row_frame list"
  st_plan :: plan

definition header_name :: "screen_header \<Rightarrow> generation \<times> screen_version" where
  "header_name header = (sh_generation header, sh_version header)"

definition rows_ready :: "row_frame list \<Rightarrow> bool" where
  "rows_ready frame \<longleftrightarrow> length frame \<le> 65535 \<and> (\<forall>row \<in> set frame. \<exists>cols. row_sound cols row)"

text \<open>The ledger, the rows the emulator shows and every screen planned so far.\<close>

inductive ledger_run :: "(bytes \<Rightarrow> u64) \<Rightarrow> screen_ledger \<Rightarrow> row_frame list \<Rightarrow> sent_screen list \<Rightarrow> bool" for ne where
  run_start: "rows_ready frame \<Longrightarrow> ledger_run ne ledger_new frame []"
| run_paint: "ledger_run ne l frame sent \<Longrightarrow> rows_ready frame' \<Longrightarrow> length frame' = length frame \<Longrightarrow> mask_ok dirty \<Longrightarrow>
    \<forall>i < length frame. \<not> mask_get dirty i \<longrightarrow> frame' ! i = frame ! i \<Longrightarrow> ledger_run ne (ledger_note_damage l dirty) frame' sent"
| run_regrid: "ledger_run ne l frame sent \<Longrightarrow> rows_ready frame' \<Longrightarrow> rows < 65536 \<Longrightarrow>
    ledger_run ne (ledger_release_in_flight (ledger_invalidate l rows)) frame' sent"
| run_plan: "ledger_run ne l frame sent \<Longrightarrow> list_all (\<lambda>one. st_name one < header_name header) sent \<Longrightarrow>
    ledger_plan ne l frame header = (p, l') \<Longrightarrow>
    ledger_run ne l' frame (sent @ [\<lparr>st_name = header_name header, st_frame = frame, st_plan = p\<rparr>])"
| run_confirm: "ledger_run ne l frame sent \<Longrightarrow> ledger_run ne (snd (ledger_confirm l generation version)) frame sent"
| run_release: "ledger_run ne l frame sent \<Longrightarrow> ledger_run ne (ledger_release_in_flight l) frame sent"

inductive_cases ledger_run_plan: "ledger_run ne l frame (sent @ [one])"

section \<open>What the ledger remembers\<close>






lemma release_fields [simp]:
  "sl_confirmed (ledger_release_in_flight l) = sl_confirmed l" "sl_confirmed_rows (ledger_release_in_flight l) = sl_confirmed_rows l"
  "sl_sent_unconfirmed (ledger_release_in_flight l) = sl_sent_unconfirmed l" "sl_pending (ledger_release_in_flight l) = None"
  by (simp_all add: ledger_release_in_flight_def split: option.splits)





section \<open>What a delta shows\<close>
















section \<open>Repainting and planning\<close>






end
