(* ===== verification/Client_Paint.thy ===== *)
theory Client_Paint
  imports Vt_Rows
begin

text \<open>
  How a client turns a row into terminal bytes: the writers and the row difference of
  \<^verbatim>\<open>src/crates/client/src/render.rs\<close>. A writer is the bytes it writes. The width of a character is the
  \<^verbatim>\<open>unicode_width\<close> table, an argument; a slice of a row's text that splits a character is a panic, \<open>None\<close>.
\<close>

section \<open>Model\<close>

subsection \<open>Bytes\<close>

function decimal :: "nat \<Rightarrow> bytes" where
  "decimal n = (if n < 10 then [of_nat (48 + n)] else decimal (n div 10) @ [of_nat (48 + n mod 10)])"
  by pat_completeness auto
termination by (relation "measure id") auto

declare decimal.simps [simp del]

definition ascii :: "string \<Rightarrow> bytes" where
  "ascii s = map of_char s"

definition ESC :: u8 where "ESC = 0x1B"
definition BEL :: u8 where "BEL = 0x07"

definition ANSI_CANCEL :: bytes where "ANSI_CANCEL = ESC # ascii [CHR 0x5C]"
definition ANSI_SGR_RESET :: bytes where "ANSI_SGR_RESET = ESC # ascii ''[0m''"
definition ANSI_ERASE_LINE :: bytes where "ANSI_ERASE_LINE = ESC # ascii ''[K''"
definition ANSI_CLEAR_VIEWPORT :: bytes where "ANSI_CLEAR_VIEWPORT = ESC # ascii ''[2J'' @ ESC # ascii ''[H''"
definition ANSI_SYNC_BEGIN :: bytes where "ANSI_SYNC_BEGIN = ESC # ascii ''[?2026h''"
definition ANSI_SYNC_END :: bytes where "ANSI_SYNC_END = ESC # ascii ''[?2026l''"
definition RESET_TAIL :: bytes where "RESET_TAIL = ESC # ascii ''[0m'' @ ESC # ascii ''[?25h'' @ ESC # ascii ''[0 q''"

subsection \<open>Styles\<close>

definition write_color :: "style_color \<Rightarrow> nat \<Rightarrow> bytes" where
  "write_color color selector =
     (case color of
        DefaultColor \<Rightarrow> []
      | Palette index \<Rightarrow> ascii '';'' @ decimal selector @ ascii '';5;'' @ decimal (unat index)
      | Rgb r g b \<Rightarrow> ascii '';'' @ decimal selector @ ascii '';2;'' @ decimal (unat r) @ ascii '';'' @
          decimal (unat g) @ ascii '';'' @ decimal (unat b))"

fun underline_code :: "underline_style \<Rightarrow> string" where
  "underline_code UnderlineNone = ''''"
| "underline_code Single = '';4''"
| "underline_code Double = '';4:2''"
| "underline_code Curly = '';4:3''"
| "underline_code Dotted = '';4:4''"
| "underline_code Dashed = '';4:5''"

definition write_sgr :: "cell_style \<Rightarrow> bytes" where
  "write_sgr style =
     ESC # ascii ''[0'' @
     concat (map (\<lambda>(flag, code). if attrs_contains (cs_attrs style) flag then ascii code else [])
       [(1, '';1''), (4, '';2''), (2, '';3''), (8, '';5''), (16, '';7''), (32, '';8''), (64, '';9''), (128, '';53'')]) @
     ascii (underline_code (cs_underline style)) @
     write_color (cs_fg style) 38 @ write_color (cs_bg style) 48 @ write_color (cs_underline_color style) 58 @ ascii ''m''"

subsection \<open>Widths\<close>

definition lead_cells :: "(nat \<Rightarrow> nat option) \<Rightarrow> nat \<Rightarrow> nat" where
  "lead_cells width c = (if width c = Some 0 then 0 else if width c = Some 2 then 2 else 1)"

definition text_cells :: "(nat \<Rightarrow> nat option) \<Rightarrow> bytes \<Rightarrow> nat \<times> bool" where
  "text_cells width t =
     (if list_all (\<lambda>b. b < 0x80) t then (min (length t) u32_max, True)
      else (sum_list (map (lead_cells width) (text_chars t)), False))"

datatype painted = Ascii nat | Measured nat

fun painted_count :: "painted \<Rightarrow> nat" where
  "painted_count (Ascii cells) = cells"
| "painted_count (Measured cells) = cells"

text \<open>The loop over the runs: the byte, the cells and whether all was ASCII.\<close>

fun painted_runs :: "(nat \<Rightarrow> nat option) \<Rightarrow> bytes \<Rightarrow> style_run list \<Rightarrow> nat \<times> nat \<times> bool \<Rightarrow> (nat \<times> nat \<times> bool) option" where
  "painted_runs width t [] s = Some s"
| "painted_runs width t (run # runs) (at, cells, only_ascii) =
     (let stop = at + ru_bytes run in
      if usize_max < stop then None
      else case str_get t at stop of
        None \<Rightarrow> None
      | Some piece \<Rightarrow>
          let (counted, run_ascii) = text_cells width piece in
          if counted \<noteq> ru_cells run then None
          else if 65535 < cells + ru_cells run then None
          else painted_runs width t runs (stop, cells + ru_cells run, only_ascii \<and> run_ascii \<and> piece \<noteq> []))"

definition row_painted_cells :: "(nat \<Rightarrow> nat option) \<Rightarrow> row_frame \<Rightarrow> painted option" where
  "row_painted_cells width row =
     (case painted_runs width (rf_text row) (rf_runs row) (0, 0, True) of
        None \<Rightarrow> None
      | Some (at, cells, only_ascii) \<Rightarrow>
          let tail = (case str_get (rf_text row) at (row_painted_bytes row) of None \<Rightarrow> [] | Some t \<Rightarrow> t) in
          if \<not> list_all (\<lambda>b. b < 0x80) tail then None
          else if 65535 < length tail \<or> 65535 < cells + length tail then None
          else if rf_cells row < cells + length tail then None
          else Some (if only_ascii then Ascii (cells + length tail) else Measured (cells + length tail)))"

subsection \<open>A walk over the cells of a row\<close>

record cells_walk =
  cw_row :: row_frame
  cw_painted :: nat
  cw_byte :: nat
  cw_col :: nat
  cw_run :: nat
  cw_run_end :: nat

definition first_run_bytes :: "row_frame \<Rightarrow> nat" where
  "first_run_bytes row = (case rf_runs row of [] \<Rightarrow> 0 | run # _ \<Rightarrow> ru_bytes run)"

definition run_bytes_at :: "row_frame \<Rightarrow> nat \<Rightarrow> nat" where
  "run_bytes_at row index = (if index < length (rf_runs row) then ru_bytes (rf_runs row ! index) else 0)"

definition run_style_at :: "row_frame \<Rightarrow> nat \<Rightarrow> cell_style" where
  "run_style_at row index = (if index < length (rf_runs row) then ru_style (rf_runs row ! index) else style_default)"

definition cells_new :: "row_frame \<Rightarrow> cells_walk" where
  "cells_new row = \<lparr>cw_row = row, cw_painted = row_painted_bytes row, cw_byte = 0, cw_col = 0, cw_run = 0,
     cw_run_end = first_run_bytes row\<rparr>"

definition cells_done :: "cells_walk \<Rightarrow> bool" where
  "cells_done w \<longleftrightarrow> cw_painted w \<le> cw_byte w"

text \<open>The cluster at the front of a text: one character with width and those without that follow.\<close>

function cluster_scan :: "(nat \<Rightarrow> nat option) \<Rightarrow> bytes \<Rightarrow> nat \<Rightarrow> nat \<Rightarrow> nat \<times> nat" where
  "cluster_scan width rest stop cells =
     (case utf8_next rest of
        None \<Rightarrow> (stop, cells)
      | Some (c, r) \<Rightarrow>
          if 0 < stop \<and> 0 < lead_cells width c then (stop, cells)
          else cluster_scan width r (stop + (length rest - length r)) (cells + lead_cells width c))"
  by pat_completeness auto
termination
  by (relation "measure (\<lambda>(_, rest, _, _). length rest)") (auto dest: utf8_next_shorter)

declare cluster_scan.simps [simp del]

definition cells_peek :: "(nat \<Rightarrow> nat option) \<Rightarrow> cells_walk \<Rightarrow> (bytes \<times> nat \<times> cell_style) option" where
  "cells_peek width w =
     (if cells_done w then Some ([0x20], 1, style_default)
      else case str_get (rf_text (cw_row w)) (cw_byte w) (cw_painted w) of
        None \<Rightarrow> None
      | Some rest \<Rightarrow>
          let (stop, cells) = cluster_scan width rest 0 0 in
          if stop = 0 then None else Some (take stop rest, cells, run_style_at (cw_row w) (cw_run w)))"

text \<open>\<^verbatim>\<open>while self.run < self.row.runs.len() && self.byte >= self.run_end\<close>.\<close>

function run_seek :: "row_frame \<Rightarrow> nat \<Rightarrow> nat \<times> nat \<Rightarrow> nat \<times> nat" where
  "run_seek row byte (index, stop) =
     (if index < length (rf_runs row) \<and> stop \<le> byte then run_seek row byte (index + 1, stop + run_bytes_at row (index + 1))
      else (index, stop))"
  by pat_completeness auto
termination
  by (relation "measure (\<lambda>(row, _, index, _). length (rf_runs row) - index)") auto

declare run_seek.simps [simp del]

definition cells_step :: "(nat \<Rightarrow> nat option) \<Rightarrow> cells_walk \<Rightarrow> cells_walk option" where
  "cells_step width w =
     (if cells_done w then Some (w\<lparr>cw_col := u16_saturating_add (cw_col w) 1\<rparr>)
      else case cells_peek width w of
        None \<Rightarrow> None
      | Some (t, cells, _) \<Rightarrow>
          let byte = cw_byte w + length t; (run, run_end) = run_seek (cw_row w) byte (cw_run w, cw_run_end w)
          in Some (w\<lparr>cw_byte := byte, cw_col := u16_saturating_add (cw_col w) cells, cw_run := run, cw_run_end := run_end\<rparr>))"

lemma cells_step_moves:
  assumes "cells_step width w = Some w'"
  shows "cw_painted w' = cw_painted w" "cells_done w \<Longrightarrow> w' = w\<lparr>cw_col := u16_saturating_add (cw_col w) 1\<rparr>"
    "\<not> cells_done w \<Longrightarrow> cw_byte w < cw_byte w'"
  using assms by (auto simp: cells_step_def cells_peek_def cells_done_def is_char_boundary_def Let_def str_get_def
      split: if_splits option.splits prod.splits)

definition walk_left :: "cells_walk \<Rightarrow> nat" where
  "walk_left w = cw_painted w - cw_byte w"

lemma walk_left_step:
  assumes "cells_step width w = Some w'"
  shows "walk_left w' \<le> walk_left w" "\<not> cells_done w \<Longrightarrow> walk_left w' < walk_left w"
proof -
  show "\<not> cells_done w \<Longrightarrow> walk_left w' < walk_left w"
    using cells_step_moves [OF assms] by (auto simp: walk_left_def cells_done_def)
  then show "walk_left w' \<le> walk_left w"
    using cells_step_moves(2) [OF assms] by (cases "cells_done w") (auto simp: walk_left_def)
qed

subsection \<open>The difference of two rows\<close>

datatype patch = PatchNothing | PatchColumns nat nat nat bool | PatchWhole

text \<open>One turn of the loop of \<^verbatim>\<open>measured_patch\<close> past the comparison: the lagging walk moves.\<close>

definition walk_lagging :: "(nat \<Rightarrow> nat option) \<Rightarrow> cells_walk \<Rightarrow> cells_walk \<Rightarrow> (cells_walk \<times> cells_walk) option" where
  "walk_lagging width before after =
     (case (if cw_col before \<le> cw_col after then cells_step width before else Some before) of
        None \<Rightarrow> None
      | Some before \<Rightarrow>
          (case (if cw_col after \<le> cw_col before \<or> cells_done before then cells_step width after else Some after) of
             None \<Rightarrow> None
           | Some after \<Rightarrow> Some (before, after)))"

definition walk_both :: "(nat \<Rightarrow> nat option) \<Rightarrow> cells_walk \<Rightarrow> cells_walk \<Rightarrow> (cells_walk \<times> cells_walk) option" where
  "walk_both width before after =
     (case cells_step width before of None \<Rightarrow> None
      | Some before \<Rightarrow> (case cells_step width after of None \<Rightarrow> None | Some after \<Rightarrow> Some (before, after)))"

definition walk_equal :: "(nat \<Rightarrow> nat option) \<Rightarrow> cells_walk \<Rightarrow> cells_walk \<Rightarrow> bool" where
  "walk_equal width before after \<longleftrightarrow> cw_col before = cw_col after \<and> cells_peek width before = cells_peek width after"

lemma walk_both_left:
  assumes "walk_both width b a = Some (b', a')" "\<not> (cells_done b \<and> cells_done a)"
  shows "walk_left b' + walk_left a' < walk_left b + walk_left a"
  using assms walk_left_step [of width b b'] walk_left_step [of width a a']
  by (auto simp: walk_both_def split: option.splits)

text \<open>How far the walk over the new row is behind once it is done.\<close>

definition walk_gap :: "cells_walk \<Rightarrow> cells_walk \<Rightarrow> nat" where
  "walk_gap before after = cw_col before - cw_col after"

lemma walk_lagging_left:
  assumes "walk_lagging width b a = Some (b', a')" "\<not> (cells_done b \<and> cells_done a)" "cw_col b \<le> 65535"
  shows "walk_left b' + walk_left a' < walk_left b + walk_left a \<or>
    walk_left b' + walk_left a' = walk_left b + walk_left a \<and> walk_gap b' a' < walk_gap b a"
proof (cases "cw_col b \<le> cw_col a")
  case True
  then have b: "cells_step width b = Some b'"
    using assms(1) by (auto simp: walk_lagging_def split: option.splits if_splits)
  have a: "cells_step width a = Some a' \<or> a' = a"
    using assms(1) True b by (auto simp: walk_lagging_def split: option.splits if_splits)
  show ?thesis
  proof (cases "cells_done b")
    case over: True
    then have "cells_done b'" using cells_step_moves(2) [OF b] by (simp add: cells_done_def)
    then have "cells_step width a = Some a'" using assms(1) True b by (auto simp: walk_lagging_def split: option.splits)
    then show ?thesis using walk_left_step(2) [of width a a'] walk_left_step(1) [OF b] assms(2) over by auto
  next
    case False
    then show ?thesis using walk_left_step(2) [OF b] a walk_left_step(1) [of width a a'] by auto
  qed
next
  case False
  then have s: "b' = b" "cells_step width a = Some a'"
    using assms(1) by (auto simp: walk_lagging_def split: option.splits if_splits)
  show ?thesis
  proof (cases "cells_done a")
    case True
    then have "a' = a\<lparr>cw_col := u16_saturating_add (cw_col a) 1\<rparr>" using cells_step_moves(2) [OF s(2)] by simp
    then show ?thesis using s False assms(3) by (simp add: walk_gap_def walk_left_def u16_saturating_add_def)
  next
    case False
    then show ?thesis using s walk_left_step(2) [OF s(2)] by auto
  qed
qed

text \<open>The loop with the first difference and the byte past the last; a column is sixteen bits wide.\<close>

function measured_loop ::
    "(nat \<Rightarrow> nat option) \<Rightarrow> bool \<Rightarrow> cells_walk \<Rightarrow> cells_walk \<Rightarrow> (nat \<times> nat) option \<Rightarrow> nat \<Rightarrow> ((nat \<times> nat) option \<times> nat) option" where
  "measured_loop width erase before after first stop =
     (if cells_done before \<and> cells_done after then Some (first, stop)
      else if 65535 < cw_col before \<or> cells_peek width before = None \<or> cells_peek width after = None then None
      else if walk_equal width before after then
        (case walk_both width before after of
           None \<Rightarrow> None | Some (before, after) \<Rightarrow> measured_loop width erase before after first stop)
      else
        let first = (if first = None then Some (cw_col after, cw_byte after) else first) in
        if erase then Some (first, stop)
        else case walk_lagging width before after of
          None \<Rightarrow> None
        | Some (before, after) \<Rightarrow> measured_loop width erase before after first (cw_byte after))"
  by pat_completeness auto
termination
proof (relation "(\<lambda>(_, _, b, a, _, _). walk_left b + walk_left a) <*mlex*> measure (\<lambda>(_, _, b, a, _, _). walk_gap b a)", goal_cases)
  case 1
  show ?case by (simp add: wf_mlex)
next
  case (2 width erase before after first stop x b a)
  then show ?case using walk_both_left [of width before after b a] by (auto intro: mlex_less)
next
  case (3 width erase before after first stop x x2 b a)
  then show ?case using walk_lagging_left [of width before after b a] by (auto intro: mlex_less mlex_leq)
qed

declare measured_loop.simps [simp del]

definition measured_patch :: "(nat \<Rightarrow> nat option) \<Rightarrow> row_frame \<Rightarrow> row_frame \<Rightarrow> bool \<Rightarrow> patch option" where
  "measured_patch width old new erase =
     (case measured_loop width erase (cells_new old) (cells_new new) None 0 of
        None \<Rightarrow> None
      | Some (None, _) \<Rightarrow> Some PatchNothing
      | Some (Some (col, start), stop) \<Rightarrow>
          let upto_byte = (if erase then row_painted_bytes new else stop)
          in Some (PatchColumns col start (max upto_byte start) erase))"

subsection \<open>The difference of two ASCII rows\<close>

record runs_walk =
  rw_row :: row_frame
  rw_index :: nat
  rw_end :: nat

definition runs_new :: "row_frame \<Rightarrow> runs_walk" where
  "runs_new row = \<lparr>rw_row = row, rw_index = 0, rw_end = first_run_bytes row\<rparr>"

definition runs_bound :: "runs_walk \<Rightarrow> nat" where
  "runs_bound w = (if rw_index w < length (rf_runs (rw_row w)) then rw_end w else usize_max)"

definition runs_style :: "runs_walk \<Rightarrow> cell_style" where
  "runs_style w = run_style_at (rw_row w) (rw_index w)"

definition runs_seek :: "runs_walk \<Rightarrow> nat \<Rightarrow> runs_walk" where
  "runs_seek w byte = (let (index, stop) = run_seek (rw_row w) byte (rw_index w, rw_end w) in w\<lparr>rw_index := index, rw_end := stop\<rparr>)"

definition common_prefix :: "bytes \<Rightarrow> bytes \<Rightarrow> nat" where
  "common_prefix a b = length (takeWhile (\<lambda>(x, y). x = y) (zip a b))"

definition common_suffix :: "bytes \<Rightarrow> bytes \<Rightarrow> nat" where
  "common_suffix a b = length (takeWhile (\<lambda>(x, y). x = y) (zip (rev a) (rev b)))"

text \<open>\<^verbatim>\<open>position\<close> and \<^verbatim>\<open>rposition\<close> of a byte that is not a space.\<close>

definition first_inked :: "bytes \<Rightarrow> nat option" where
  "first_inked bs = (let n = length (takeWhile (\<lambda>b. b = 0x20) bs) in if n = length bs then None else Some n)"

definition last_inked :: "bytes \<Rightarrow> nat option" where
  "last_inked bs = (let n = length (takeWhile (\<lambda>b. b = 0x20) (rev bs)) in if n = length bs then None else Some (length bs - 1 - n))"

lemma run_seek_index: "fst s \<le> fst (run_seek row byte s)"
  by (induction row byte s rule: run_seek.induct) (subst run_seek.simps, auto)

lemma run_seek_moves: "index < length (rf_runs row) \<Longrightarrow> stop \<le> byte \<Longrightarrow> index < fst (run_seek row byte (index, stop))"
  using run_seek_index [of "(index + 1, stop + run_bytes_at row (index + 1))" row byte] by (subst run_seek.simps) simp

definition runs_left :: "runs_walk \<Rightarrow> nat" where
  "runs_left w = length (rf_runs (rw_row w)) - rw_index w"

lemma runs_seek_left:
  "runs_left (runs_seek w byte) \<le> runs_left w" "runs_bound w \<le> byte \<Longrightarrow> byte < usize_max \<Longrightarrow> runs_left (runs_seek w byte) < runs_left w"
proof -
  obtain index stop where s: "run_seek (rw_row w) byte (rw_index w, rw_end w) = (index, stop)" by fastforce
  have w: "runs_seek w byte = w\<lparr>rw_index := index, rw_end := stop\<rparr>" by (simp add: runs_seek_def s)
  show "runs_left (runs_seek w byte) \<le> runs_left w"
    using run_seek_index [of "(rw_index w, rw_end w)" "rw_row w" byte] s by (simp add: w runs_left_def)
  show "runs_left (runs_seek w byte) < runs_left w" if "runs_bound w \<le> byte" "byte < usize_max"
    using that run_seek_moves [of "rw_index w" "rw_row w" "rw_end w" byte] s
    by (auto simp: w runs_left_def runs_bound_def split: if_splits)
qed

text \<open>The loop over the intervals the two rows' runs cut. A bound behind the column at hand cannot come up: every
  turn seeks both walks to it.\<close>

function style_intervals ::
    "runs_walk \<Rightarrow> runs_walk \<Rightarrow> nat \<Rightarrow> nat \<Rightarrow> nat option \<times> nat \<Rightarrow> (nat option \<times> nat) option" where
  "style_intervals before after width at (first, stop) =
     (if at < width then
        let till = min (min (runs_bound before) (runs_bound after)) width;
            differ = (runs_style before \<noteq> runs_style after);
            first = (if differ then Some (case first of None \<Rightarrow> at | Some seen \<Rightarrow> min seen at) else first);
            stop = (if differ then max stop till else stop)
        in if till < at \<or> usize_max \<le> till then None
           else style_intervals (runs_seek before till) (runs_seek after till) width till (first, stop)
      else Some (first, stop))"
  by pat_completeness auto
termination
proof (relation "(\<lambda>(_, _, width, at, _). width - at) <*mlex*> measure (\<lambda>(b, a, _, _, _). runs_left b + runs_left a)", goal_cases)
  case 1
  show ?case by (simp add: wf_mlex)
next
  case (2 before after width at first stop till differ first' stop')
  show ?case
  proof (cases "at < till")
    case True
    then have "width - till < width - at" using 2(1) by (simp add: diff_less_mono2)
    then show ?thesis by (intro mlex_less) simp
  next
    case False
    then have "runs_bound before \<le> till \<or> runs_bound after \<le> till" using 2 by auto
    then have "runs_left (runs_seek before till) + runs_left (runs_seek after till) < runs_left before + runs_left after"
      using runs_seek_left [of before till] runs_seek_left [of after till] 2 by auto
    then show ?thesis using False 2 by (intro mlex_leq) auto
  qed
qed

declare style_intervals.simps [simp del]

definition ascii_patch :: "row_frame \<Rightarrow> row_frame \<Rightarrow> nat \<Rightarrow> nat \<Rightarrow> bool \<Rightarrow> patch option" where
  "ascii_patch old new was now erase =
     (let before = take was (rf_text old); after = take now (rf_text new);
          shared = min was now; width = max was now;
          common = common_prefix (take shared before) (take shared after);
          (first, stop) = (if common < shared
            then (Some common, shared - common_suffix (take shared before) (take shared after)) else (None, 0));
          overhang = (if now < was then drop shared before else drop shared after);
          first = (case first_inked overhang of
            Some at \<Rightarrow> if first = None then Some (shared + at) else first | None \<Rightarrow> first);
          stop = (case last_inked overhang of Some at \<Rightarrow> shared + at + 1 | None \<Rightarrow> stop)
      in case style_intervals (runs_new old) (runs_new new) width 0 (first, stop) of
           None \<Rightarrow> None
         | Some (None, _) \<Rightarrow> Some PatchNothing
         | Some (Some first, stop) \<Rightarrow>
             let start = min first now; upto_byte = (if erase then now else min stop now)
             in Some (PatchColumns (min first 65535) start (max upto_byte start) erase))"

definition row_patch :: "(nat \<Rightarrow> nat option) \<Rightarrow> row_frame \<Rightarrow> row_frame \<Rightarrow> bool \<Rightarrow> patch option" where
  "row_patch width old new clear_tail =
     (if old = new then Some PatchNothing
      else case (row_painted_cells width old, row_painted_cells width new) of
        (Some was, Some now) \<Rightarrow>
          let erase = (clear_tail \<or> painted_count now < painted_count was) in
          (case (was, now) of
             (Ascii was, Ascii now) \<Rightarrow> ascii_patch old new was now erase
           | _ \<Rightarrow> measured_patch width old new erase)
      | _ \<Rightarrow> Some PatchWhole)"

subsection \<open>Writing rows\<close>

text \<open>The loop over the runs: what is written, the byte it is at and the style in effect.\<close>

fun write_runs ::
    "bytes \<Rightarrow> nat \<Rightarrow> nat \<Rightarrow> style_run list \<Rightarrow> nat \<times> cell_style option \<Rightarrow> bytes \<times> nat \<times> cell_style option" where
  "write_runs t start upto_byte [] (at, current) = ([], at, current)"
| "write_runs t start upto_byte (run # runs) (at, current) =
     (if upto_byte \<le> at then ([], at, current)
      else
        let stop = min (min (at + ru_bytes run) usize_max) upto_byte;
            restyle = (start < stop \<and> current \<noteq> Some (ru_style run));
            out = (if start < stop then (if restyle then write_sgr (ru_style run) else []) @ take (stop - max at start) (drop (max at start) t) else []);
            (rest, s) = write_runs t start upto_byte runs (stop, if restyle then Some (ru_style run) else current)
        in (out @ rest, s))"

definition write_row_text :: "row_frame \<Rightarrow> nat \<Rightarrow> nat \<Rightarrow> cell_style option \<Rightarrow> bytes" where
  "write_row_text row start upto_byte current =
     (let t = rf_text row; upto_byte = min upto_byte (length t);
          (out, at, current) = write_runs t start upto_byte (rf_runs row) (0, current)
      in out @ (if at < upto_byte then
          (if (case current of None \<Rightarrow> True | Some style \<Rightarrow> \<not> style_is_default style) then ANSI_SGR_RESET else []) @
          take (upto_byte - max at start) (drop (max at start) t) else []))"

definition write_row :: "nat \<Rightarrow> row_frame \<Rightarrow> bytes" where
  "write_row index row =
     ESC # ascii ''['' @ decimal (index + 1) @ ascii '';1H'' @ ANSI_SGR_RESET @ ANSI_ERASE_LINE @
     write_row_text row 0 (row_painted_bytes row) (Some style_default)"

definition write_patch :: "nat \<Rightarrow> row_frame \<Rightarrow> patch \<Rightarrow> bytes" where
  "write_patch index row patch =
     (case patch of
        PatchNothing \<Rightarrow> []
      | PatchWhole \<Rightarrow> write_row index row
      | PatchColumns col start upto_byte erase \<Rightarrow>
          ESC # ascii ''['' @ decimal (index + 1) @ ascii '';'' @ decimal (col + 1) @ ascii ''H'' @
          write_row_text row start upto_byte None @
          (if erase then ANSI_SGR_RESET @ ANSI_ERASE_LINE else []))"

subsection \<open>The cell under the cursor\<close>

text \<open>The walk to a column: it ends because a walk that is not done moves on.\<close>

function cells_until :: "(nat \<Rightarrow> nat option) \<Rightarrow> nat \<Rightarrow> cells_walk \<Rightarrow> cells_walk option" where
  "cells_until width col w =
     (if cw_col w < col \<and> \<not> cells_done w then
        (case cells_step width w of None \<Rightarrow> None | Some w \<Rightarrow> cells_until width col w)
      else Some w)"
  by pat_completeness auto
termination
  by (relation "measure (\<lambda>(_, _, w). walk_left w)") (auto dest: walk_left_step(2))

declare cells_until.simps [simp del]

text \<open>\<^verbatim>\<open>cell_at\<close>: the outer option is the panic.\<close>

definition cell_at :: "(nat \<Rightarrow> nat option) \<Rightarrow> row_frame \<Rightarrow> nat \<Rightarrow> (bytes \<times> cell_style) option option" where
  "cell_at width row col =
     (if row_painted_cells width row = None then Some None
      else case cells_until width col (cells_new row) of
        None \<Rightarrow> None
      | Some w \<Rightarrow>
          if cells_done w \<and> cw_col w \<le> col then Some (Some ([0x20], style_default))
          else if cw_col w \<noteq> col then Some None
          else (case cells_peek width w of None \<Rightarrow> None | Some (t, _, style) \<Rightarrow> Some (Some (t, style))))"

definition write_cup :: "(nat \<times> nat) option \<Rightarrow> bytes" where
  "write_cup cursor =
     (case cursor of
        None \<Rightarrow> []
      | Some (x, y) \<Rightarrow> ESC # ascii ''['' @ decimal (y + 1) @ ascii '';'' @ decimal (x + 1) @ ascii ''H'')"

subsection \<open>Modes and what outlives a screen\<close>

definition write_mode :: "nat \<Rightarrow> bool \<Rightarrow> bytes" where
  "write_mode mode on = ESC # ascii ''[?'' @ decimal mode @ ascii (if on then ''h'' else ''l'')"

definition write_group :: "nat list \<Rightarrow> nat option \<Rightarrow> bytes" where
  "write_group members selected =
     concat (map (\<lambda>member. write_mode member False) (filter (\<lambda>member. Some member \<noteq> selected) members)) @
     (case selected of None \<Rightarrow> [] | Some mode \<Rightarrow> write_mode mode True)"

definition write_modes :: "mode_set \<Rightarrow> mode_set option \<Rightarrow> bytes" where
  "write_modes modes previous =
     concat (map (\<lambda>(index, mode, on).
         if mode_set_get EXCLUSIVE_MASK index \<or> (case previous of None \<Rightarrow> False | Some p \<Rightarrow> mode_set_get p index = on)
         then [] else write_mode mode on) (List.enumerate 0 (mode_set_iter modes))) @
     concat (map (\<lambda>(index, members, selected).
         if (case previous of None \<Rightarrow> False | Some p \<Rightarrow> mode_selections p ! index = selected)
         then [] else write_group members selected)
       (List.enumerate 0 (zip EXCLUSIVE_MODES (mode_selections modes))))"

definition write_sticky :: "sticky_state \<Rightarrow> sticky_state option \<Rightarrow> bytes" where
  "write_sticky sticky previous =
     (if sk_bell sticky then [BEL] else []) @
     (if (case previous of None \<Rightarrow> True | Some p \<Rightarrow> sk_title p \<noteq> sk_title sticky)
      then ESC # ascii '']2;'' @ (case sk_title sticky of None \<Rightarrow> [] | Some title \<Rightarrow> title) @ ANSI_CANCEL else []) @
     (if (case previous of None \<Rightarrow> True | Some p \<Rightarrow> sk_kitty_keyboard p \<noteq> sk_kitty_keyboard sticky)
      then ESC # ascii ''[='' @ decimal (unat (sk_kitty_keyboard sticky)) @ ascii '';1u'' else [])"

definition write_band :: "scroll_band \<Rightarrow> bytes" where
  "write_band band =
     ANSI_SGR_RESET @ ESC # ascii ''['' @ decimal (sb_top band + 1) @ ascii '';'' @ decimal (sb_bottom band) @ ascii ''r'' @
     ESC # ascii ''['' @ decimal (sb_bottom band) @ ascii '';1H'' @ concat (replicate (sb_lines band) (ESC # ascii ''D''))"

end
