(* ===== verification/Client_Observed.thy ===== *)
theory Client_Observed
  imports Client_Paint
begin

text \<open>
  What a client learns from the bytes it passes through: \<^verbatim>\<open>Observed\<close> of \<^verbatim>\<open>src/crates/client/src/render.rs\<close>. A
  scanner keeps the modes, the title and the keyboard flags the stream sets. Skipping to the next escape
  is the same as stepping byte by byte, and the buffer stays bounded whatever the stream holds.
\<close>

section \<open>Model\<close>

definition SCAN_LIMIT :: nat where "SCAN_LIMIT = MAX_TITLE + 2"

datatype scan = Ground | Escape | Csi | Osc | OscEnd | Skip | SkipEnd

record observed =
  ob_lit :: mode_set
  ob_title :: "bytes option"
  ob_kitty :: "u8 option"
  ob_pushed :: nat
  ob_scan :: scan
  ob_partial :: bytes
  ob_truncated :: bool

definition observed_default :: observed where
  "observed_default = \<lparr>ob_lit = 0, ob_title = None, ob_kitty = None, ob_pushed = 0, ob_scan = Ground, ob_partial = [],
     ob_truncated = False\<rparr>"

fun split_semicolon :: "bytes \<Rightarrow> bytes list" where
  "split_semicolon [] = [[]]"
| "split_semicolon (b # bs) =
     (if b = 0x3B then [] # split_semicolon bs
      else case split_semicolon bs of [] \<Rightarrow> [[b]] | part # parts \<Rightarrow> (b # part) # parts)"

definition number :: "bytes \<Rightarrow> nat" where
  "number part =
     foldl (\<lambda>value digit. min (min (value * 10) u32_max + (unat digit - 48)) u32_max) 0
       (takeWhile (\<lambda>b. 0x30 \<le> b \<and> b \<le> 0x39) part)"

definition numbers :: "bytes \<Rightarrow> nat list" where
  "numbers params = map number (split_semicolon params)"

definition kitty_flags :: "nat \<Rightarrow> u8" where
  "kitty_flags value = (if value \<le> 255 then of_nat value else 255)"

text \<open>\<^verbatim>\<open>values.next().unwrap_or(d)\<close>.\<close>

definition nth_or :: "nat list \<Rightarrow> nat \<Rightarrow> nat \<Rightarrow> nat" where
  "nth_or values i d = (if i < length values then values ! i else d)"

definition light_mode :: "mode_set \<Rightarrow> nat \<Rightarrow> mode_set" where
  "light_mode lit mode = (if mode \<in> set REPAINT_MODES then mode_set_set lit (mode_index mode) True else lit)"

definition observed_csi :: "observed \<Rightarrow> u8 \<Rightarrow> observed" where
  "observed_csi ob final =
     (if ob_truncated ob then ob
      else case ob_partial ob of
        [] \<Rightarrow> ob
      | prefix # params \<Rightarrow>
          if prefix = 0x3F \<and> final = 0x68 then ob\<lparr>ob_lit := foldl light_mode (ob_lit ob) (numbers params)\<rparr>
          else if prefix = 0x3D \<and> final = 0x75 then
            let values = numbers params; flags = kitty_flags (nth_or values 0 0);
                current = (case ob_kitty ob of None \<Rightarrow> 0 | Some k \<Rightarrow> k); mode = nth_or values 1 1
            in ob\<lparr>ob_kitty := Some (if mode = 2 then current OR flags else if mode = 3 then current AND NOT flags else flags)\<rparr>
          else if prefix = 0x3E \<and> final = 0x75 then
            ob\<lparr>ob_pushed := u16_saturating_add (ob_pushed ob) 1, ob_kitty := Some (kitty_flags (nth_or (numbers params) 0 0))\<rparr>
          else if prefix = 0x3C \<and> final = 0x75 then
            let count = max (nth_or (numbers params) 0 1) 1; pushed = ob_pushed ob - min count 65535
            in ob\<lparr>ob_pushed := pushed, ob_kitty := if pushed = 0 then None else ob_kitty ob\<rparr>
          else ob)"

definition observed_osc :: "observed \<Rightarrow> observed" where
  "observed_osc ob =
     (if ob_truncated ob \<or> 0x3B \<notin> set (ob_partial ob) then ob
      else
        let kind = takeWhile (\<lambda>b. b \<noteq> 0x3B) (ob_partial ob); title = drop (length kind + 1) (ob_partial ob)
        in if kind \<noteq> [0x30] \<and> kind \<noteq> [0x32] then ob
           else if utf8 title then ob\<lparr>ob_title := Some title\<rparr> else ob)"

definition observed_push :: "observed \<Rightarrow> u8 \<Rightarrow> observed" where
  "observed_push ob byte =
     (if length (ob_partial ob) < SCAN_LIMIT then ob\<lparr>ob_partial := ob_partial ob @ [byte]\<rparr> else ob\<lparr>ob_truncated := True\<rparr>)"

definition observed_end :: "observed \<Rightarrow> observed" where
  "observed_end ob = ob\<lparr>ob_scan := Ground, ob_partial := [], ob_truncated := False\<rparr>"

definition observed_introduce :: "observed \<Rightarrow> u8 \<Rightarrow> observed" where
  "observed_introduce ob byte =
     ob\<lparr>ob_partial := [], ob_truncated := False,
        ob_scan := (if byte = 0x5B then Csi else if byte = 0x5D then Osc
          else if byte = 0x50 \<or> byte = 0x58 \<or> byte = 0x5E \<or> byte = 0x5F then Skip
          else if byte = ESC then Escape else Ground)\<rparr>"

definition observed_step :: "observed \<Rightarrow> u8 \<Rightarrow> observed" where
  "observed_step ob byte =
     (case ob_scan ob of
        Ground \<Rightarrow> if byte = ESC then ob\<lparr>ob_scan := Escape\<rparr> else ob
      | Escape \<Rightarrow> observed_introduce ob byte
      | Csi \<Rightarrow>
          if 0x20 \<le> byte \<and> byte \<le> 0x3F then observed_push ob byte
          else if 0x40 \<le> byte \<and> byte \<le> 0x7E then observed_end (observed_csi ob byte)
          else if byte = ESC then ob\<lparr>ob_scan := Escape\<rparr>
          else observed_end ob
      | Osc \<Rightarrow>
          if byte = BEL then observed_end (observed_osc ob)
          else if byte = ESC then ob\<lparr>ob_scan := OscEnd\<rparr>
          else observed_push ob byte
      | OscEnd \<Rightarrow>
          if byte = 0x5C then observed_end (observed_osc ob) else observed_introduce (observed_end ob) byte
      | Skip \<Rightarrow>
          if byte = BEL then observed_end ob else if byte = ESC then ob\<lparr>ob_scan := SkipEnd\<rparr> else ob
      | SkipEnd \<Rightarrow>
          let ob = observed_end ob in if byte \<noteq> 0x5C then observed_introduce ob byte else ob)"

function observed_feed :: "observed \<Rightarrow> bytes \<Rightarrow> observed" where
  "observed_feed ob rest =
     (if rest = [] then ob
      else if ob_scan ob = Ground then
        (let clear = length (takeWhile (\<lambda>b. b \<noteq> ESC) rest) in
         if clear = length rest then ob else observed_feed (ob\<lparr>ob_scan := Escape\<rparr>) (drop (clear + 1) rest))
      else observed_feed (observed_step ob (hd rest)) (tl rest))"
  by pat_completeness auto
termination
  by (relation "measure (\<lambda>(_, rest). length rest)") auto

declare observed_feed.simps [simp del]

definition observed_settled :: "observed \<Rightarrow> observed" where
  "observed_settled ob = ob\<lparr>ob_title := None, ob_kitty := None\<rparr>"

section \<open>Skipping is stepping\<close>

lemma step_ground: "ob_scan ob = Ground \<Longrightarrow> \<forall>b \<in> set bs. b \<noteq> ESC \<Longrightarrow> foldl observed_step ob bs = ob"
  by (induction bs) (auto simp: observed_step_def)

lemma observed_feed_steps: "observed_feed ob bs = foldl observed_step ob bs"
proof (induction ob bs rule: observed_feed.induct)
  case (1 ob rest)
  show ?case
  proof (cases "rest = [] \<or> ob_scan ob \<noteq> Ground")
    case True
    then show ?thesis using 1(2) by (cases rest) (auto simp: observed_feed.simps [of ob "[]"] observed_feed.simps [of ob "_ # _"])
  next
    case False
    let ?plain = "takeWhile (\<lambda>b. b \<noteq> ESC) rest"
    have plain: "foldl observed_step ob ?plain = ob" using False by (intro step_ground) (auto dest: set_takeWhileD)
    show ?thesis
    proof (cases "length ?plain = length rest")
      case True
      then have "?plain = rest" by (metis takeWhile_eq_take take_all order_refl)
      with plain have "foldl observed_step ob rest = ob" by (rule subst [rotated])
      then show ?thesis using False True by (simp add: observed_feed.simps [of ob rest])
    next
      case short: False
      then have less: "length ?plain < length rest" using length_takeWhile_le [of "\<lambda>b. b \<noteq> ESC" rest] by linarith
      then have esc: "rest ! length ?plain = ESC" using nth_length_takeWhile [of "\<lambda>b. b \<noteq> ESC" rest] by simp
      define suffix where "suffix = drop (length ?plain + 1) rest"
      have "rest = take (length ?plain) rest @ rest ! length ?plain # suffix"
        using id_take_nth_drop [OF less] unfolding suffix_def by (metis Suc_eq_plus1)
      then have rest: "rest = ?plain @ ESC # suffix" unfolding esc takeWhile_eq_take [symmetric] .
      have "foldl observed_step ob (?plain @ ESC # suffix) = foldl observed_step (ob\<lparr>ob_scan := Escape\<rparr>) suffix"
        using False plain by (simp add: observed_step_def)
      then have "foldl observed_step ob rest = foldl observed_step (ob\<lparr>ob_scan := Escape\<rparr>) (drop (length ?plain + 1) rest)"
        using rest unfolding suffix_def by metis
      then show ?thesis using 1(1) False short by (simp add: observed_feed.simps [of ob rest] Let_def)
    qed
  qed
qed

lemma observed_partial_bounded: "length (ob_partial ob) \<le> SCAN_LIMIT \<Longrightarrow> length (ob_partial (observed_feed ob bs)) \<le> SCAN_LIMIT"
proof -
  have "length (ob_partial ob) \<le> SCAN_LIMIT \<Longrightarrow> length (ob_partial (observed_step ob b)) \<le> SCAN_LIMIT" for ob b
    by (auto simp: observed_step_def observed_introduce_def observed_push_def observed_end_def Let_def split: scan.splits)
  then show "length (ob_partial ob) \<le> SCAN_LIMIT \<Longrightarrow> ?thesis"
    unfolding observed_feed_steps by (induction bs arbitrary: ob) auto
qed

end
