(* ===== verification/Client_Screen.thy ===== *)
theory Client_Screen
  imports Client_Observed "HOL-Library.Product_Lexorder"
begin

text \<open>
  How a client assembles a screen from its pieces: \<^verbatim>\<open>Screen\<close> of \<^verbatim>\<open>src/crates/client/src/render.rs\<close>, with the
  splice of a span into a row, the rows joined from chunks, and the status line. An operation gives
  \<open>None\<close> for a panic, and otherwise its answer, the bytes it writes and the state it leaves; a failing terminal is not
  modelled. Painting a row is shown never to panic on the rows a decoder lets in.
\<close>

section \<open>Model\<close>

subsection \<open>State\<close>

record confirmed_screen =
  cf_generation :: generation
  cf_version :: "screen_version option"
  cf_size :: grid_size
  cf_cursor :: "(nat \<times> nat) option"
  cf_cursor_visible :: bool
  cf_cursor_shape :: cursor_shape
  cf_cursor_blinking :: bool
  cf_modes :: mode_set
  cf_sticky :: sticky_state
  cf_rows :: "row_frame list"

datatype part_mismatch = NoScreen | WrongBase | Unscrollable | OutsideGrid

datatype predictions = Settled | Drawn

record assembled =
  ab_generation :: generation
  ab_version :: screen_version
  ab_next_off :: byte_off

definition HELD_TAILS :: nat where "HELD_TAILS = 16"

datatype coverage = CoverDelta | CoverWhole

record screen_head =
  he_next_off :: byte_off
  he_coverage :: coverage

record assembly =
  am_named :: "generation \<times> screen_version"
  am_head :: "screen_head option"
  am_predicted :: bool

definition assembly_new :: "generation \<times> screen_version \<Rightarrow> assembly" where
  "assembly_new named = \<lparr>am_named = named, am_head = None, am_predicted = False\<rparr>"

definition coverage_slots :: "coverage \<Rightarrow> bool list \<Rightarrow> bool list option" where
  "coverage_slots c rows = (case c of CoverDelta \<Rightarrow> None | CoverWhole \<Rightarrow> Some rows)"

record head_part =
  hp_header :: screen_header
  hp_base :: "screen_version option"
  hp_scroll :: "scroll_band option"
  hp_pieces :: nat
  hp_rows :: "rowspan list"

datatype shown_since_screen = ShownNothing | Passthrough

record painter =
  pt_frame_open :: bool
  pt_scratch :: row_frame
  pt_applied :: "bool list"
  pt_covered :: "bool list"
  pt_held :: "(nat \<times> rowspan list) list"
  pt_chunks :: "rowspan list"

record screen =
  sn_confirmed :: "confirmed_screen option"
  sn_pending :: "assembly option"
  sn_observed :: observed
  sn_trusted :: bool
  sn_shown :: shown_since_screen
  sn_painter :: painter

definition painter_default :: painter where
  "painter_default = \<lparr>pt_frame_open = False, pt_scratch = row_default, pt_applied = [], pt_covered = [], pt_held = [], pt_chunks = []\<rparr>"

definition screen_default :: screen where
  "screen_default = \<lparr>sn_confirmed = None, sn_pending = None, sn_observed = observed_default, sn_trusted = False,
     sn_shown = ShownNothing, sn_painter = painter_default\<rparr>"

subsection \<open>Frames, bands and the cursor\<close>

text \<open>What was written, with the new \<^verbatim>\<open>frame_open\<close>.\<close>

definition painter_open_frame :: "bool \<Rightarrow> bytes \<times> bool" where
  "painter_open_frame is_open = (if is_open then ([], True) else (ANSI_CANCEL @ ANSI_SYNC_BEGIN, True))"

definition painter_close_frame :: "bool \<Rightarrow> bytes \<times> bool" where
  "painter_close_frame is_open = (if is_open then ANSI_SYNC_END else [], False)"

definition scroll_rows :: "row_frame list \<Rightarrow> scroll_band \<Rightarrow> row_frame list" where
  "scroll_rows rows band =
     (if sb_top band \<le> sb_bottom band \<and> sb_bottom band \<le> length rows \<and> sb_lines band \<le> sb_bottom band - sb_top band then
        take (sb_top band) rows @
        take (sb_bottom band - sb_top band - sb_lines band) (drop (sb_top band + sb_lines band) rows) @
        replicate (sb_lines band) row_default @ drop (sb_bottom band) rows
      else rows)"

definition write_scroll :: "confirmed_screen \<Rightarrow> scroll_band \<Rightarrow> bytes \<times> confirmed_screen" where
  "write_scroll scr band =
     (write_band band @ ESC # ascii ''[r'', scr\<lparr>cf_rows := scroll_rows (cf_rows scr) band\<rparr>)"

definition write_pending_wrap :: "(nat \<Rightarrow> nat option) \<Rightarrow> confirmed_screen \<Rightarrow> bytes option" where
  "write_pending_wrap width scr =
     (case cf_cursor scr of
        None \<Rightarrow> Some []
      | Some (col, row) \<Rightarrow>
          if col + 1 \<noteq> gs_cols (cf_size scr) \<or> length (cf_rows scr) \<le> row then Some []
          else case cell_at width (cf_rows scr ! row) col of
            None \<Rightarrow> None
          | Some None \<Rightarrow> Some []
          | Some (Some (t, style)) \<Rightarrow> Some (write_sgr style @ t))"

definition write_cursor :: "(nat \<Rightarrow> nat option) \<Rightarrow> confirmed_screen \<Rightarrow> bytes option" where
  "write_cursor width scr =
     (let saved = (case sk_saved_cursor (cf_sticky scr) of
            None \<Rightarrow> [] | Some at \<Rightarrow> ANSI_SGR_RESET @ write_cup (Some at) @ ESC # ascii ''7'');
          out = saved @ ANSI_SGR_RESET @
            ESC # ascii ''['' @ decimal (decscusr (cf_cursor_shape scr) (cf_cursor_blinking scr)) @ ascii '' q'' @
            ESC # ascii (if cf_cursor_visible scr then ''[?25h'' else ''[?25l'') @ write_cup (cf_cursor scr)
      in if sk_pending_wrap (cf_sticky scr) then map_option (\<lambda>wrap. out @ wrap) (write_pending_wrap width scr) else Some out)"

subsection \<open>Rows\<close>

definition base_fits ::
    "confirmed_screen \<Rightarrow> bool \<Rightarrow> screen_header \<Rightarrow> screen_version \<Rightarrow> scroll_band option \<Rightarrow> nat \<Rightarrow> part_mismatch option" where
  "base_fits scr trusted header base scroll terminal_rows =
     (if \<not> trusted \<or> cf_generation scr \<noteq> sh_generation header \<or> cf_version scr \<noteq> Some base \<or> cf_size scr \<noteq> sh_size header
      then Some WrongBase
      else if scroll \<noteq> None \<and> terminal_rows < gs_rows (cf_size scr) then Some Unscrollable
      else None)"

definition rows_fit :: "rowspan list \<Rightarrow> nat \<Rightarrow> nat \<Rightarrow> bool" where
  "rows_fit rows held cols \<longleftrightarrow>
     list_all (\<lambda>row. sp_row row < held \<and> rf_cells (sp_frame row) \<le> cols \<and>
       (sp_chunk row \<or> sp_col row + rf_cells (sp_frame row) \<le> cols)) rows"

definition HELD_CHUNK_BYTES :: nat where "HELD_CHUNK_BYTES = 1024 * 1024"

definition span_text :: "rowspan \<Rightarrow> nat" where
  "span_text span = length (rf_text (sp_frame span))"

fun hold_loop :: "nat \<Rightarrow> rowspan list \<Rightarrow> rowspan list \<Rightarrow> rowspan list \<Rightarrow> rowspan list \<times> rowspan list" where
  "hold_loop held [] whole chunks = (whole, chunks)"
| "hold_loop held (row # rows) whole chunks =
     (if \<not> sp_chunk row then hold_loop held rows (whole @ [row]) chunks
      else
        let held = held + span_text row in
        if HELD_CHUNK_BYTES < held then hold_loop held rows whole chunks
        else hold_loop held rows whole (chunks @ [row]))"

text \<open>The rows to paint now, and the chunks held back.\<close>

definition hold_chunks :: "rowspan list \<Rightarrow> rowspan list \<Rightarrow> rowspan list \<times> rowspan list" where
  "hold_chunks rows chunks =
     (if list_all (\<lambda>row. \<not> sp_chunk row) rows then (rows, chunks)
      else hold_loop (sum_list (map span_text chunks)) rows [] chunks)"

fun boundary_scan :: "style_run list \<Rightarrow> nat \<Rightarrow> nat \<Rightarrow> nat \<Rightarrow> nat \<Rightarrow> nat \<Rightarrow> nat option" where
  "boundary_scan [] index cells at col byte = (if cells = col \<and> at = byte then Some index else None)"
| "boundary_scan (run # runs) index cells at col byte =
     (if cells = col \<and> at = byte then Some index
      else if col < cells \<or> byte < at then None
      else if 65535 < cells + ru_cells run \<or> usize_max < at + ru_bytes run then None
      else boundary_scan runs (index + 1) (cells + ru_cells run) (at + ru_bytes run) col byte)"

definition boundary :: "row_frame \<Rightarrow> nat \<Rightarrow> nat \<Rightarrow> nat option" where
  "boundary row col byte =
     (if length (rf_text row) < byte \<or> \<not> is_char_boundary (rf_text row) byte then None
      else boundary_scan (rf_runs row) 0 0 0 col byte)"

text \<open>\<^verbatim>\<open>splice_into\<close>: the row the span makes of the one held, or \<open>None\<close> where the span has no place.\<close>

definition splice_into :: "row_frame \<Rightarrow> rowspan \<Rightarrow> row_frame option" where
  "splice_into row span =
     (let frame = sp_frame span; col = sp_col span; byte = sp_byte span in
      case boundary row col byte of
        None \<Rightarrow> None
      | Some first \<Rightarrow>
          if 65535 < col + rf_cells frame \<or> usize_max < byte + length (rf_text frame) then None
          else
            let past_col = col + rf_cells frame; past_byte = byte + length (rf_text frame) in
            (case (if sp_clear_tail span then None else boundary row past_col past_byte) of
               Some stop \<Rightarrow>
                 (case (str_get (rf_text row) 0 byte, str_get (rf_text row) past_byte (length (rf_text row))) of
                    (Some before, Some behind) \<Rightarrow>
                      if first \<le> length (rf_runs row) \<and> stop \<le> length (rf_runs row) then
                        Some \<lparr>rf_text = before @ rf_text frame @ behind,
                              rf_runs = take first (rf_runs row) @ rf_runs frame @ drop stop (rf_runs row),
                              rf_cells = rf_cells row\<rparr>
                      else None
                  | _ \<Rightarrow> None)
             | None \<Rightarrow>
                 if first = 0 \<and> byte = 0 then Some frame
                 else (case str_get (rf_text row) 0 byte of
                    None \<Rightarrow> None
                  | Some before \<Rightarrow>
                      if first \<le> length (rf_runs row) then
                        Some \<lparr>rf_text = before @ rf_text frame, rf_runs = take first (rf_runs row) @ rf_runs frame,
                              rf_cells = past_col\<rparr>
                      else None)))"

text \<open>The state a row is painted in: the rows, the coverage slots, the scratch row and the bytes written.\<close>

type_synonym paint_state = "row_frame list \<times> bool list option \<times> row_frame \<times> bytes"

definition write_part_row :: "(nat \<Rightarrow> nat option) \<Rightarrow> paint_state \<Rightarrow> rowspan \<Rightarrow> paint_state option" where
  "write_part_row width st span =
     (case st of (rows, covered, scratch, out) \<Rightarrow>
      let index = sp_row span in
      if length rows \<le> index then Some st
      else case splice_into (rows ! index) span of
        None \<Rightarrow> Some st
      | Some row \<Rightarrow>
          (case row_patch width (rows ! index) row (sp_clear_tail span) of
             None \<Rightarrow> None
           | Some patch \<Rightarrow>
               Some (rows[index := row], map_option (\<lambda>slots. slots[index := True]) covered, rows ! index,
                 out @ write_patch index row patch)))"

fun write_part_rows :: "(nat \<Rightarrow> nat option) \<Rightarrow> paint_state \<Rightarrow> rowspan list \<Rightarrow> paint_state option" where
  "write_part_rows width st [] = Some st"
| "write_part_rows width st (span # rest) =
     (case write_part_row width st span of None \<Rightarrow> None | Some st \<Rightarrow> write_part_rows width st rest)"

definition join_chunk :: "rowspan list \<Rightarrow> rowspan \<Rightarrow> rowspan list" where
  "join_chunk joined span =
     (if joined \<noteq> [] \<and> sp_row (last joined) = sp_row span then
        let prev = last joined; frame = sp_frame prev in
        butlast joined @
        [if sp_chunk prev \<or> sp_col prev + rf_cells frame \<noteq> sp_col span \<or> sp_byte prev + length (rf_text frame) \<noteq> sp_byte span
         then prev\<lparr>sp_chunk := True\<rparr>
         else prev\<lparr>sp_frame := \<lparr>rf_text = rf_text frame @ rf_text (sp_frame span), rf_runs = rf_runs frame @ rf_runs (sp_frame span),
                     rf_cells = u16_saturating_add (rf_cells frame) (rf_cells (sp_frame span))\<rparr>,
                   sp_clear_tail := sp_clear_tail span\<rparr>]
      else joined @ [span\<lparr>sp_chunk := False\<rparr>])"

definition joined_fits :: "nat \<Rightarrow> nat \<Rightarrow> rowspan \<Rightarrow> bool" where
  "joined_fits count cols span \<longleftrightarrow>
     (let frame = sp_frame span in
      \<not> sp_chunk span \<and> sp_row span < count \<and> sp_col span + rf_cells frame \<le> cols \<and>
      length (rf_text frame) \<le> rf_cells frame * MAX_CLUSTER_BYTES \<and>
      row_styled_bytes frame \<le> length (rf_text frame) \<and> row_styled_cells frame \<le> rf_cells frame)"

definition joined_rows :: "rowspan list \<Rightarrow> rowspan list" where
  "joined_rows chunks = foldl join_chunk [] (sort_key (\<lambda>span. (sp_row span, sp_col span)) chunks)"

definition write_joined_rows :: "(nat \<Rightarrow> nat option) \<Rightarrow> nat \<Rightarrow> paint_state \<Rightarrow> rowspan list \<Rightarrow> paint_state option" where
  "write_joined_rows width cols st chunks =
     write_part_rows width st (filter (joined_fits (length (fst st)) cols) (joined_rows chunks))"

subsection \<open>The screen\<close>

text \<open>Rows painted into a screen, with what is written: \<^verbatim>\<open>write_part_rows\<close> on the fields of screen and painter.\<close>

definition paint_rows ::
    "((paint_state \<Rightarrow> rowspan list \<Rightarrow> paint_state option)) \<Rightarrow> confirmed_screen \<Rightarrow> rowspan list \<Rightarrow> coverage \<Rightarrow> painter \<Rightarrow>
     (bytes \<times> confirmed_screen \<times> painter) option" where
  "paint_rows writer scr rows c p =
     map_option (\<lambda>(rows, covered, scratch, out).
       (out, scr\<lparr>cf_rows := rows\<rparr>,
        p\<lparr>pt_scratch := scratch, pt_covered := (case covered of None \<Rightarrow> pt_covered p | Some slots \<Rightarrow> slots)\<rparr>))
       (writer (cf_rows scr, coverage_slots c (pt_covered p), pt_scratch p, []) rows)"

definition write_piece ::
    "(nat \<Rightarrow> nat option) \<Rightarrow> confirmed_screen \<Rightarrow> rowspan list \<Rightarrow> coverage \<Rightarrow> painter \<Rightarrow> (bytes \<times> confirmed_screen \<times> painter) option" where
  "write_piece width scr rows c p =
     (let (opened, is_open) = painter_open_frame (pt_frame_open p) in
      case paint_rows (write_part_rows width) scr rows c (p\<lparr>pt_frame_open := is_open\<rparr>) of
        None \<Rightarrow> None
      | Some (out, scr, p) \<Rightarrow> map_option (\<lambda>cursor. (opened @ out @ cursor, scr, p)) (write_cursor width scr))"

definition scr_abandon :: "screen \<Rightarrow> screen" where
  "scr_abandon s = s\<lparr>sn_pending := None, sn_painter := (sn_painter s)\<lparr>pt_held := [], pt_chunks := []\<rparr>\<rparr>"

definition scr_invalidate :: "screen \<Rightarrow> screen" where
  "scr_invalidate s = scr_abandon (s\<lparr>sn_trusted := False\<rparr>)"

definition scr_observe :: "screen \<Rightarrow> bytes \<Rightarrow> screen" where
  "scr_observe s bs =
     (let s = s\<lparr>sn_observed := observed_feed (sn_observed s) bs\<rparr> in
      if bs \<noteq> [] then s\<lparr>sn_shown := Passthrough\<rparr> else s)"

definition observed_believed :: "observed \<Rightarrow> confirmed_screen \<Rightarrow> sticky_state" where
  "observed_believed ob scr =
     (let sticky = cf_sticky scr;
          sticky = (case ob_title ob of None \<Rightarrow> sticky | Some title \<Rightarrow> sticky\<lparr>sk_title := Some title\<rparr>)
      in case ob_kitty ob of None \<Rightarrow> sticky | Some kitty \<Rightarrow> sticky\<lparr>sk_kitty_keyboard := kitty\<rparr>)"

definition scr_superseded :: "screen \<Rightarrow> generation \<times> screen_version \<Rightarrow> bool" where
  "scr_superseded s named \<longleftrightarrow>
     (case sn_pending s of None \<Rightarrow> False | Some am \<Rightarrow> named < am_named am) \<or>
     (case sn_confirmed s of
        None \<Rightarrow> False
      | Some scr \<Rightarrow> (case cf_version scr of None \<Rightarrow> False | Some version \<Rightarrow> named \<le> (cf_generation scr, version)))"

text \<open>A refusal is \<open>Inl\<close>; the screen is then as it was found.\<close>

definition scr_head_on_base ::
    "screen \<Rightarrow> confirmed_screen \<Rightarrow> screen_header \<Rightarrow> screen_version \<Rightarrow> scroll_band option \<Rightarrow> rowspan list \<Rightarrow> nat \<Rightarrow>
     part_mismatch + bytes \<times> confirmed_screen \<times> screen" where
  "scr_head_on_base s scr header base scroll rows terminal_rows =
     (case base_fits scr (sn_trusted s) header base scroll terminal_rows of
        Some mismatch \<Rightarrow> Inl mismatch
      | None \<Rightarrow>
          if \<not> rows_fit rows (length (cf_rows scr)) (gs_cols (cf_size scr)) then Inl OutsideGrid
          else
            let believed = observed_believed (sn_observed s) scr;
                (opened, is_open) = painter_open_frame (pt_frame_open (sn_painter s));
                out = opened @ write_modes (sh_modes header) (Some (cf_modes scr)) @ write_sticky (sh_sticky header) (Some believed);
                (moved, scr) = (case scroll of None \<Rightarrow> ([], scr) | Some band \<Rightarrow> write_scroll scr band)
            in Inr (out @ moved, scr, s\<lparr>sn_painter := (sn_painter s)\<lparr>pt_frame_open := is_open\<rparr>\<rparr>))"

definition header_screen :: "screen_header \<Rightarrow> row_frame list \<Rightarrow> confirmed_screen" where
  "header_screen header rows =
     \<lparr>cf_generation = sh_generation header, cf_version = None, cf_size = sh_size header, cf_cursor = sh_cursor header,
      cf_cursor_visible = sh_cursor_visible header, cf_cursor_shape = sh_cursor_shape header,
      cf_cursor_blinking = sh_cursor_blinking header, cf_modes = sh_modes header, cf_sticky = sh_sticky header, cf_rows = rows\<rparr>"

text \<open>\<open>None\<close> is the refusal; the caller puts the previous screen back.\<close>

definition scr_head_whole ::
    "screen \<Rightarrow> screen_header \<Rightarrow> rowspan list \<Rightarrow> confirmed_screen option \<Rightarrow> predictions \<Rightarrow> (bytes \<times> confirmed_screen \<times> screen) option" where
  "scr_head_whole s header rows previous pred =
     (if \<not> rows_fit rows (gs_rows (sh_size header)) (gs_cols (sh_size header)) then None
      else
        let believed = (if sn_trusted s then map_option (\<lambda>scr. (cf_modes scr, observed_believed (sn_observed s) scr)) previous else None);
            base = (case previous of
                None \<Rightarrow> None
              | Some scr \<Rightarrow>
                  if sn_trusted s \<and> sn_shown s = ShownNothing \<and> pred = Settled \<and> cf_size scr = sh_size header \<and>
                     length (cf_rows scr) = gs_rows (sh_size header)
                  then Some scr else None);
            (opened, is_open) = painter_open_frame (pt_frame_open (sn_painter s));
            out = opened @ write_modes (sh_modes header) (map_option fst believed) @ write_sticky (sh_sticky header) (map_option snd believed);
            (cleared, rows) = (case base of
                Some scr \<Rightarrow> ([], cf_rows scr)
              | None \<Rightarrow> (ANSI_SGR_RESET @ ANSI_CLEAR_VIEWPORT, replicate (gs_rows (sh_size header)) row_default))
        in Some (out @ cleared, header_screen header rows, s\<lparr>sn_painter := (sn_painter s)\<lparr>pt_frame_open := is_open\<rparr>\<rparr>))"

text \<open>What \<^verbatim>\<open>head\<close> does once the grid is known: \<^verbatim>\<open>applied\<close> and \<^verbatim>\<open>covered\<close> reset, rows painted, header taken over.\<close>

definition scr_head_paint ::
    "(nat \<Rightarrow> nat option) \<Rightarrow> screen \<Rightarrow> head_part \<Rightarrow> confirmed_screen \<Rightarrow> (bytes \<times> screen_head \<times> screen) option" where
  "scr_head_paint width s part scr =
     (let header = hp_header part;
          c = (case hp_base part of Some _ \<Rightarrow> CoverDelta | None \<Rightarrow> CoverWhole);
          (rows, chunks) = hold_chunks (hp_rows part) (pt_chunks (sn_painter s));
          p = (sn_painter s)\<lparr>pt_applied := replicate (hp_pieces part) False,
                pt_covered := (if c = CoverWhole then replicate (gs_rows (sh_size header)) False else []), pt_chunks := chunks\<rparr>
      in case paint_rows (write_part_rows width) scr rows c p of
           None \<Rightarrow> None
         | Some (out, scr, p) \<Rightarrow>
             let scr = (header_screen header (cf_rows scr))\<lparr>cf_version := cf_version scr\<rparr> in
             map_option (\<lambda>cursor.
               (out @ cursor, \<lparr>he_next_off = sh_next_off header, he_coverage = c\<rparr>,
                s\<lparr>sn_confirmed := Some scr, sn_trusted := True, sn_shown := ShownNothing,
                  sn_observed := observed_settled (sn_observed s),
                  sn_painter := p\<lparr>pt_applied := (pt_applied p)[0 := True]\<rparr>\<rparr>))
               (write_cursor width scr))"

definition scr_head ::
    "(nat \<Rightarrow> nat option) \<Rightarrow> screen \<Rightarrow> head_part \<Rightarrow> nat \<Rightarrow> predictions \<Rightarrow>
     ((part_mismatch + screen_head) \<times> bytes \<times> screen) option" where
  "scr_head width s part terminal_rows pred =
     (let grid = (case (hp_base part, sn_confirmed s) of
            (Some _, None) \<Rightarrow> Inl NoScreen
          | (Some base, Some scr) \<Rightarrow>
              scr_head_on_base (s\<lparr>sn_confirmed := None\<rparr>) scr (hp_header part) base (hp_scroll part) (hp_rows part) terminal_rows
          | (None, previous) \<Rightarrow>
              (case scr_head_whole (s\<lparr>sn_confirmed := None\<rparr>) (hp_header part) (hp_rows part) previous pred of
                 None \<Rightarrow> Inl OutsideGrid | Some found \<Rightarrow> Inr found))
      in case grid of
           Inl mismatch \<Rightarrow> Some (Inl mismatch, [], s)
         | Inr (out, scr, s) \<Rightarrow>
             map_option (\<lambda>(painted, head, s). (Inr head, out @ painted, s)) (scr_head_paint width s part scr))"

text \<open>The tails that overtook the head; what is not painted when one is refused is dropped.\<close>

fun absorb_loop ::
    "(nat \<Rightarrow> nat option) \<Rightarrow> coverage \<Rightarrow> (nat \<times> rowspan list) list \<Rightarrow> confirmed_screen \<Rightarrow> painter \<Rightarrow>
     (part_mismatch option \<times> bytes \<times> confirmed_screen \<times> painter) option" where
  "absorb_loop width c [] scr p = Some (None, [], scr, p)"
| "absorb_loop width c ((index, rows) # orphans) scr p =
     (if \<not> (index < length (pt_applied p) \<and> \<not> pt_applied p ! index) then absorb_loop width c orphans scr p
      else if \<not> rows_fit rows (length (cf_rows scr)) (gs_cols (cf_size scr)) then Some (Some OutsideGrid, [], scr, p)
      else
        let (rows, chunks) = hold_chunks rows (pt_chunks p) in
        case write_piece width scr rows c (p\<lparr>pt_chunks := chunks\<rparr>) of
          None \<Rightarrow> None
        | Some (out, scr, p) \<Rightarrow>
            map_option (\<lambda>(refused, more_out, scr, p). (refused, out @ more_out, scr, p))
              (absorb_loop width c orphans scr (p\<lparr>pt_applied := (pt_applied p)[index := True]\<rparr>)))"

definition scr_absorb_held ::
    "(nat \<Rightarrow> nat option) \<Rightarrow> screen \<Rightarrow> screen_head \<Rightarrow> (part_mismatch option \<times> bytes \<times> screen) option" where
  "scr_absorb_held width s head =
     (case sn_pending s of
        None \<Rightarrow> Some (None, [], s)
      | Some am \<Rightarrow>
          let orphans = pt_held (sn_painter s); p = (sn_painter s)\<lparr>pt_held := []\<rparr> in
          (case sn_confirmed s of
             None \<Rightarrow> Some (None, [], s\<lparr>sn_pending := Some (am\<lparr>am_head := Some head\<rparr>)\<rparr>)
           | Some scr \<Rightarrow>
               map_option (\<lambda>(refused, out, scr, p).
                 (refused, out, s\<lparr>sn_pending := Some (am\<lparr>am_head := Some head\<rparr>), sn_confirmed := Some scr, sn_painter := p\<rparr>))
                 (absorb_loop width (he_coverage head) orphans scr p)))"

definition write_deferred :: "sticky_state \<Rightarrow> bytes" where
  "write_deferred sticky = concat (map (\<lambda>entry. ESC # ascii '']'' @ entry @ ANSI_CANCEL) (sk_deferred sticky))"

text \<open>The chunks of a screen whose pieces are all in, joined and painted.\<close>

definition scr_settle_chunks ::
    "(nat \<Rightarrow> nat option) \<Rightarrow> coverage \<Rightarrow> confirmed_screen \<Rightarrow> painter \<Rightarrow> (bytes \<times> confirmed_screen \<times> painter) option" where
  "scr_settle_chunks width c scr p =
     (let (opened, is_open) = painter_open_frame (pt_frame_open p) in
      case paint_rows (write_joined_rows width (gs_cols (cf_size scr))) scr (pt_chunks p) c
             (p\<lparr>pt_frame_open := is_open, pt_chunks := []\<rparr>) of
        None \<Rightarrow> None
      | Some (out, scr, p) \<Rightarrow> map_option (\<lambda>cursor. (opened @ out @ cursor, scr, p)) (write_cursor width scr))"

text \<open>What is left of \<^verbatim>\<open>settle\<close> once the chunks are painted.\<close>

definition scr_settle_version ::
    "screen \<Rightarrow> assembly \<Rightarrow> screen_head \<Rightarrow> assembled option \<times> bytes \<times> screen" where
  "scr_settle_version s am head =
     (if (case coverage_slots (he_coverage head) (pt_covered (sn_painter s)) of None \<Rightarrow> False | Some slots \<Rightarrow> \<not> list_all id slots)
      then (None, [], s)
      else
        let s = scr_abandon s;
            (closed, is_open) = painter_close_frame (pt_frame_open (sn_painter s));
            s = s\<lparr>sn_painter := (sn_painter s)\<lparr>pt_frame_open := is_open\<rparr>\<rparr>
        in case sn_confirmed s of
             None \<Rightarrow> (None, closed, s)
           | Some scr \<Rightarrow>
               let out = closed @ write_deferred (cf_sticky scr) in
               if am_predicted am then (None, out, s)
               else (Some \<lparr>ab_generation = fst (am_named am), ab_version = snd (am_named am), ab_next_off = he_next_off head\<rparr>, out,
                     s\<lparr>sn_confirmed := Some (scr\<lparr>cf_version := Some (snd (am_named am))\<rparr>)\<rparr>))"

definition scr_settle :: "(nat \<Rightarrow> nat option) \<Rightarrow> screen \<Rightarrow> (assembled option \<times> bytes \<times> screen) option" where
  "scr_settle width s =
     (case sn_pending s of
        None \<Rightarrow> Some (None, [], s)
      | Some am \<Rightarrow>
          (case am_head am of
             None \<Rightarrow> Some (None, [], s)
           | Some head \<Rightarrow>
               if \<not> list_all id (pt_applied (sn_painter s)) then Some (None, [], s)
               else if pt_chunks (sn_painter s) = [] then Some (scr_settle_version s am head)
               else (case sn_confirmed s of
                  None \<Rightarrow> Some (None, [], s)
                | Some scr \<Rightarrow>
                    map_option (\<lambda>(out, scr, p).
                      let (answer, more_out, s) = scr_settle_version (s\<lparr>sn_confirmed := Some scr, sn_painter := p\<rparr>) am head
                      in (answer, out @ more_out, s))
                      (scr_settle_chunks width (he_coverage head) scr (sn_painter s)))))"

text \<open>A piece after the head: held, ignored, refused or painted. \<open>Inl None\<close> is an answer of nothing.\<close>

definition scr_tail ::
    "(nat \<Rightarrow> nat option) \<Rightarrow> screen \<Rightarrow> assembly \<Rightarrow> nat \<Rightarrow> nat \<Rightarrow> rowspan list \<Rightarrow>
     ((part_mismatch option + unit) \<times> bytes \<times> screen) option" where
  "scr_tail width s am pieces index rows =
     (case am_head am of
        None \<Rightarrow>
          let held = pt_held (sn_painter s) in
          Some (Inl None, [],
            if length held < HELD_TAILS \<and> \<not> list_ex (\<lambda>(slot, _). slot = index) held
            then s\<lparr>sn_painter := (sn_painter s)\<lparr>pt_held := held @ [(index, rows)]\<rparr>\<rparr> else s)
      | Some head \<Rightarrow>
          let p = sn_painter s in
          if pieces \<noteq> length (pt_applied p) \<or> \<not> (index < length (pt_applied p) \<and> \<not> pt_applied p ! index)
          then Some (Inl None, [], s)
          else (case sn_confirmed s of
             None \<Rightarrow> Some (Inl None, [], s)
           | Some scr \<Rightarrow>
               if \<not> rows_fit rows (length (cf_rows scr)) (gs_cols (cf_size scr)) then Some (Inl (Some OutsideGrid), [], s)
               else
                 let (rows, chunks) = hold_chunks rows (pt_chunks p) in
                 map_option (\<lambda>(out, scr, p).
                   (Inr (), out, s\<lparr>sn_confirmed := Some scr, sn_painter := p\<lparr>pt_applied := (pt_applied p)[index := True]\<rparr>\<rparr>))
                   (write_piece width scr rows (he_coverage head) (p\<lparr>pt_chunks := chunks\<rparr>))))"

definition part_named :: "screen_part \<Rightarrow> generation \<times> screen_version" where
  "part_named part =
     (case part of
        Head header _ _ _ _ \<Rightarrow> (sh_generation header, sh_version header)
      | Tail generation version _ _ _ \<Rightarrow> (generation, version))"

text \<open>The assembly a part belongs to, begun anew unless it is the one in progress.\<close>

definition scr_begin :: "screen \<Rightarrow> generation \<times> screen_version \<Rightarrow> predictions \<Rightarrow> assembly \<times> screen" where
  "scr_begin s named pred =
     (let s = (case sn_pending s of
            Some am \<Rightarrow> if am_named am \<noteq> named then scr_abandon s else s
          | None \<Rightarrow> scr_abandon s);
          am = (case sn_pending s of Some am \<Rightarrow> am | None \<Rightarrow> assembly_new named);
          am = (if pred = Drawn then am\<lparr>am_predicted := True\<rparr> else am)
      in (am, s\<lparr>sn_pending := Some am\<rparr>))"

text \<open>The head of a screen and the tails it lets in, before \<^verbatim>\<open>settle\<close>.\<close>

definition scr_first ::
    "(nat \<Rightarrow> nat option) \<Rightarrow> screen \<Rightarrow> assembly \<Rightarrow> head_part \<Rightarrow> nat \<Rightarrow> predictions \<Rightarrow>
     ((part_mismatch option + unit) \<times> bytes \<times> screen) option" where
  "scr_first width s am part terminal_rows pred =
     (if am_head am \<noteq> None then Some (Inl None, [], s)
      else case scr_head width s part terminal_rows pred of
        None \<Rightarrow> None
      | Some (Inl mismatch, out, s) \<Rightarrow> Some (Inl (Some mismatch), out, scr_abandon s)
      | Some (Inr head, out, s) \<Rightarrow>
          map_option (\<lambda>(refused, absorbed, s).
            (case refused of Some mismatch \<Rightarrow> Inl (Some mismatch) | None \<Rightarrow> Inr (), out @ absorbed, s))
            (scr_absorb_held width s head))"

definition scr_part ::
    "(nat \<Rightarrow> nat option) \<Rightarrow> screen \<Rightarrow> screen_part \<Rightarrow> nat \<Rightarrow> predictions \<Rightarrow>
     ((part_mismatch + assembled option) \<times> bytes \<times> screen) option" where
  "scr_part width s part terminal_rows pred =
     (if scr_superseded s (part_named part) then Some (Inr None, [], s)
      else
        let (am, s) = scr_begin s (part_named part) pred in
        case (case part of
            Head header base scroll pieces rows \<Rightarrow>
              scr_first width s am
                \<lparr>hp_header = header, hp_base = base, hp_scroll = scroll, hp_pieces = pieces, hp_rows = rows\<rparr> terminal_rows pred
          | Tail _ _ pieces index rows \<Rightarrow> scr_tail width s am pieces index rows) of
          None \<Rightarrow> None
        | Some (Inl None, out, s) \<Rightarrow> Some (Inr None, out, s)
        | Some (Inl (Some mismatch), out, s) \<Rightarrow> Some (Inl mismatch, out, s)
        | Some (Inr (), out, s) \<Rightarrow>
            map_option (\<lambda>(answer, settled, s). (Inr answer, out @ settled, s)) (scr_settle width s))"

definition scr_end_frame :: "screen \<Rightarrow> bytes \<times> screen" where
  "scr_end_frame s =
     (let (out, is_open) = painter_close_frame (pt_frame_open (sn_painter s)) in
      (out, s\<lparr>sn_painter := (sn_painter s)\<lparr>pt_frame_open := is_open\<rparr>\<rparr>))"

definition scr_teardown :: "screen \<Rightarrow> bytes \<times> screen" where
  "scr_teardown s =
     (let (closed, s) = scr_end_frame s;
          lit = mode_set_from_bits (ob_lit (sn_observed s) OR (case sn_confirmed s of None \<Rightarrow> 0 | Some scr \<Rightarrow> cf_modes scr));
          modes = concat (map (\<lambda>(index, mode, on). if on \<and> mode_set_get RESET_ON_EXIT index then write_mode mode False else [])
            (List.enumerate 0 (mode_set_iter lit)));
          kitty = (case sn_confirmed s of None \<Rightarrow> 0 | Some scr \<Rightarrow> sk_kitty_keyboard (cf_sticky scr));
          keyboard = (if kitty \<noteq> 0 \<or> (case ob_kitty (sn_observed s) of None \<Rightarrow> False | Some flags \<Rightarrow> flags \<noteq> 0)
            then ESC # ascii ''[=0;1u'' else [])
      in (closed @ modes @ keyboard @ RESET_TAIL,
          (scr_abandon (s\<lparr>sn_confirmed := None, sn_trusted := False\<rparr>))\<lparr>sn_observed := observed_default\<rparr>))"

subsection \<open>The status line\<close>

type_synonym status_line = "grid_size option"

text \<open>The first \<open>n\<close> characters of a text.\<close>

definition take_chars :: "nat \<Rightarrow> bytes \<Rightarrow> bytes" where
  "take_chars n t =
     (let starts = filter (\<lambda>i. \<not> is_cont (t ! i)) [0..<length t] in
      if n < length starts then take (starts ! n) t else t)"

definition em_dash :: bytes where "em_dash = [0xE2, 0x80, 0x94]"

definition status_show :: "grid_size \<Rightarrow> (nat \<times> nat) option \<Rightarrow> nat \<Rightarrow> bool \<Rightarrow> bytes \<times> status_line" where
  "status_show sz cursor elapsed dropped =
     (let t = ascii ''[brd] disconnected '' @ decimal (elapsed div 1000000000) @ ascii ''s ago '' @ em_dash @
            ascii '' Ctrl-] . to quit'' @
            (if dropped then ascii '' '' @ em_dash @ ascii '' input buffer full, keystrokes dropped'' else [])
      in (ESC # ascii ''['' @ decimal (gs_rows sz) @ ascii '';1H'' @ ESC # ascii ''[0m'' @ ESC # ascii ''[7m'' @
          take_chars (gs_cols sz) t @ ESC # ascii ''[0m'' @ ESC # ascii ''[K'' @ write_cup cursor, Some sz))"

definition status_clear :: "status_line \<Rightarrow> (nat \<times> nat) option \<Rightarrow> bytes \<times> status_line" where
  "status_clear shown cursor =
     (case shown of
        None \<Rightarrow> ([], None)
      | Some sz \<Rightarrow>
          (ESC # ascii ''['' @ decimal (gs_rows sz) @ ascii '';1H'' @ ESC # ascii ''[0m'' @ ESC # ascii ''[K'' @ write_cup cursor, None))"

end
