(* ===== verification/Client_Cells.thy ===== *)
theory Client_Cells
  imports Client_Screen
begin

text \<open>
  What painting a row rests on: walks over the cells of a row of well-formed text never stop short, so the
  difference of two rows and the cell under the cursor are always found; and the fast difference of two
  ASCII rows is the measured one.
\<close>

section \<open>Painting does not panic\<close>

text \<open>Where the runs of a row end, if they could be walked.\<close>

lemma painted_runs_spec:
  assumes "painted_runs width t runs (at, cells, flag) = Some (at', cells', flag')" "is_char_boundary t at"
  shows "at' = at + bytes_of runs \<and> cells' = cells + cells_of runs \<and> is_char_boundary t at' \<and> (cells \<le> 65535 \<longrightarrow> cells' \<le> 65535)"
  using assms
proof (induction runs arbitrary: at cells flag)
  case (Cons run runs)
  from Cons.prems(1) obtain piece where piece: "str_get t at (at + ru_bytes run) = Some piece"
    and sums: "\<not> 65535 < cells + ru_cells run" and rest:
    "painted_runs width t runs (at + ru_bytes run, cells + ru_cells run, flag \<and> snd (text_cells width piece) \<and> piece \<noteq> []) = Some (at', cells', flag')"
    by (auto simp: Let_def split: if_splits option.splits prod.splits)
  have "is_char_boundary t (at + ru_bytes run)" using piece by (auto simp: str_get_def split: if_splits)
  from Cons.IH [OF rest this] sums show ?case by auto
qed simp

lemma painted_bytes_boundary:
  assumes "utf8 (rf_text row)" "row_painted_cells width row = Some p"
  shows "is_char_boundary (rf_text row) (row_painted_bytes row)" "bytes_of (rf_runs row) \<le> row_painted_bytes row"
    "row_painted_bytes row \<le> length (rf_text row)" "painted_count p \<le> 65535" "painted_count p \<le> rf_cells row"
    "painted_count p = cells_of (rf_runs row) + (row_painted_bytes row - bytes_of (rf_runs row))"
proof -
  from assms(2) obtain at cells flag where runs: "painted_runs width (rf_text row) (rf_runs row) (0, 0, True) = Some (at, cells, flag)"
    by (auto simp: row_painted_cells_def split: option.splits)
  have at: "at = bytes_of (rf_runs row)" "cells = cells_of (rf_runs row)" "is_char_boundary (rf_text row) at"
    using painted_runs_spec [OF runs] by (auto simp: is_char_boundary_def)
  have inside: "at \<le> length (rf_text row)" using at(3) by (auto simp: is_char_boundary_def split: if_splits)
  then have painted: "row_painted_bytes row = max at (length (trim_end_spaces (rf_text row)))"
    using arg_cong [OF trim_end_spaces_prefix [of "rf_text row"], of length] at(1)
    by (simp add: row_painted_bytes_def row_styled_bytes_def bytes_of_def)
  show boundary: "is_char_boundary (rf_text row) (row_painted_bytes row)"
    using at(3) trim_end_spaces_boundary [OF assms(1)] by (simp add: painted max_def)
  show "bytes_of (rf_runs row) \<le> row_painted_bytes row" using at(1) painted by simp
  show "row_painted_bytes row \<le> length (rf_text row)" by (simp add: row_painted_bytes_def)
  have "\<exists>tail. str_get (rf_text row) at (row_painted_bytes row) = Some tail \<and> length tail = row_painted_bytes row - at"
    using boundary at(3) painted \<open>row_painted_bytes row \<le> length (rf_text row)\<close> by (auto simp: str_get_def min_def)
  then show "painted_count p \<le> 65535" "painted_count p \<le> rf_cells row"
    "painted_count p = cells_of (rf_runs row) + (row_painted_bytes row - bytes_of (rf_runs row))"
    using assms(2) runs at(1,2) by (auto simp: row_painted_cells_def Let_def split: if_splits)
qed

lemma utf8_take_drop:
  assumes "utf8 bs" "utf8 (drop n bs)" "n \<le> length bs"
  shows "utf8 (take n bs)"
proof -
  have "is_char_boundary bs n"
    using assms(3) utf8_hd_not_cont [OF assms(2)] by (auto simp: is_char_boundary_def hd_drop_conv_nth)
  then show ?thesis using char_boundary_utf8 [OF assms(1)] by blast
qed

lemma cluster_scan_utf8:
  assumes "utf8 rest"
  shows "\<exists>n cells'. cluster_scan width rest stop cells = (stop + n, cells') \<and> n \<le> length rest \<and> utf8 (drop n rest) \<and>
    (rest \<noteq> [] \<longrightarrow> stop = 0 \<longrightarrow> 0 < n)"
  using assms
proof (induction rest arbitrary: stop cells rule: utf8_induct)
  case Nil
  then show ?case by (subst cluster_scan.simps) simp
next
  case (Char c x r)
  then have x: "utf8_next (x @ r) = Some (c, r)" "x \<noteq> []" by (simp_all add: utf8_char_def)
  from Char(3) [of "stop + length x" "cells + lead_cells width c"] obtain n cells' where
    n: "cluster_scan width r (stop + length x) (cells + lead_cells width c) = (stop + (length x + n), cells')" "n \<le> length r" "utf8 (drop n r)"
    by (auto simp: add.assoc)
  show ?case
  proof (cases "0 < stop \<and> 0 < lead_cells width c")
    case True
    then show ?thesis using x Char by (subst cluster_scan.simps) (simp add: utf8_char_append)
  next
    case False
    then have "cluster_scan width (x @ r) stop cells = (stop + (length x + n), cells')"
      using n(1) x by (subst cluster_scan.simps) auto
    then show ?thesis using n x by auto
  qed
qed

text \<open>A walk over a row of well-formed text, between characters and in range.\<close>

definition walk_ok :: "cells_walk \<Rightarrow> bool" where
  "walk_ok w \<longleftrightarrow> utf8 (rf_text (cw_row w)) \<and> is_char_boundary (rf_text (cw_row w)) (cw_painted w) \<and>
     is_char_boundary (rf_text (cw_row w)) (cw_byte w) \<and> cw_col w \<le> 65535"

lemma walk_new_ok: "utf8 (rf_text row) \<Longrightarrow> row_painted_cells width row = Some p \<Longrightarrow> walk_ok (cells_new row)"
  using painted_bytes_boundary(1) [of row width p] by (simp add: walk_ok_def cells_new_def) (simp add: is_char_boundary_def)

lemma walk_peek:
  assumes "walk_ok w"
  shows "\<exists>t cells style. cells_peek width w = Some (t, cells, style) \<and>
    (\<not> cells_done w \<longrightarrow> is_char_boundary (rf_text (cw_row w)) (cw_byte w + length t))"
proof (cases "cells_done w")
  case False
  let ?t = "rf_text (cw_row w)"
  have b: "utf8 ?t" "is_char_boundary ?t (cw_painted w)" "is_char_boundary ?t (cw_byte w)" "cw_byte w < cw_painted w"
    using assms False by (simp_all add: walk_ok_def cells_done_def)
  then have got: "str_get ?t (cw_byte w) (cw_painted w) = Some (take (cw_painted w - cw_byte w) (drop (cw_byte w) ?t))"
    by (simp add: str_get_def)
  let ?rest = "take (cw_painted w - cw_byte w) (drop (cw_byte w) ?t)"
  have rest: "utf8 ?rest" "length ?rest = cw_painted w - cw_byte w" using str_get_utf8 [OF b(1) got] by simp_all
  from cluster_scan_utf8 [OF rest(1), of width 0 0] rest(2) b(4) obtain n cells where
    n: "cluster_scan width ?rest 0 0 = (n, cells)" "n \<le> length ?rest" "utf8 (drop n ?rest)" "0 < n" by fastforce
  have parts: "utf8 (take (cw_byte w) ?t)" "utf8 (drop (cw_painted w) ?t)" "cw_painted w \<le> length ?t"
    using char_boundary_utf8 [OF b(1,3)] char_boundary_utf8 [OF b(1,2)] by simp_all
  have "take (cw_painted w) ?t = take (cw_byte w) ?t @ ?rest"
    using b(4) take_add [of "cw_byte w" "cw_painted w - cw_byte w" ?t] by simp
  then have split: "?t = (take (cw_byte w) ?t @ take n ?rest) @ drop n ?rest @ drop (cw_painted w) ?t"
    by (metis append.assoc append_take_drop_id)
  have tail: "utf8 (drop n ?rest @ drop (cw_painted w) ?t)" using n(3) parts(2) utf8_append by blast
  have "utf8 (take n ?rest)" using utf8_take_drop [OF rest(1) n(3,2)] .
  then have "utf8 (take (cw_byte w) ?t @ take n ?rest)" using parts(1) utf8_append by blast
  moreover have "length (take (cw_byte w) ?t @ take n ?rest) = cw_byte w + n" using n(2) parts(3) b(4) by simp
  ultimately have "is_char_boundary ?t (cw_byte w + n)"
    using boundary_utf8_split [OF _ tail, of "take (cw_byte w) ?t @ take n ?rest"] split by metis
  then show ?thesis using False n got by (simp add: cells_peek_def)
qed (simp add: cells_peek_def)

lemma walk_step:
  assumes "walk_ok w"
  shows "\<exists>w'. cells_step width w = Some w' \<and> walk_ok w'"
  using assms walk_peek [OF assms, of width]
  by (auto simp: cells_step_def walk_ok_def u16_saturating_add_def Let_def split: prod.splits)

lemma walk_both_ok: "walk_ok b \<Longrightarrow> walk_ok a \<Longrightarrow> \<exists>b' a'. walk_both width b a = Some (b', a') \<and> walk_ok b' \<and> walk_ok a'"
  using walk_step [of b width] walk_step [of a width] by (auto simp: walk_both_def)

lemma walk_lagging_ok: "walk_ok b \<Longrightarrow> walk_ok a \<Longrightarrow> \<exists>b' a'. walk_lagging width b a = Some (b', a') \<and> walk_ok b' \<and> walk_ok a'"
  using walk_step [of b width] walk_step [of a width] by (auto simp: walk_lagging_def)

lemma measured_loop_total: "walk_ok b \<Longrightarrow> walk_ok a \<Longrightarrow> measured_loop width erase b a first stop \<noteq> None"
proof (induction width erase b a first stop rule: measured_loop.induct)
  case (1 width erase b a first stop)
  have col: "\<not> 65535 < cw_col b" using 1(3) by (simp add: walk_ok_def)
  from walk_peek [OF 1(3), of width] walk_peek [OF 1(4), of width] have peek: "cells_peek width b \<noteq> None" "cells_peek width a \<noteq> None" by auto
  from walk_both_ok [OF 1(3,4), of width] obtain b1 a1 where both: "walk_both width b a = Some (b1, a1)" "walk_ok b1" "walk_ok a1" by blast
  from walk_lagging_ok [OF 1(3,4), of width] obtain b2 a2 where lag: "walk_lagging width b a = Some (b2, a2)" "walk_ok b2" "walk_ok a2" by blast
  show ?case
    using 1(1) [OF _ _ _ both(1) refl both(2,3)] 1(2) [OF _ _ _ refl _ lag(1) refl lag(2,3)] col peek both lag
    by (subst measured_loop.simps) (auto simp: Let_def)
qed

text \<open>A seek leaves the walk over the runs past the byte.\<close>

lemma run_seek_past: "fst (run_seek row byte s) < length (rf_runs row) \<Longrightarrow> byte < snd (run_seek row byte s)"
proof (induction row byte s rule: run_seek.induct)
  case (1 row byte index stop)
  show ?case
  proof (cases "index < length (rf_runs row) \<and> stop \<le> byte")
    case True
    then have "run_seek row byte (index, stop) = run_seek row byte (index + 1, stop + run_bytes_at row (index + 1))"
      by (subst run_seek.simps) simp
    then show ?thesis using 1 True by simp
  next
    case False
    then have "run_seek row byte (index, stop) = (index, stop)" by (subst run_seek.simps) auto
    then show ?thesis using 1(2) False by auto
  qed
qed

lemma runs_seek_bound: "byte < usize_max \<Longrightarrow> byte < runs_bound (runs_seek w byte)"
  using run_seek_past [of "rw_row w" byte "(rw_index w, rw_end w)"] by (auto simp: runs_seek_def runs_bound_def Let_def split: prod.splits)

lemma style_intervals_total:
  "at \<le> runs_bound b \<Longrightarrow> at \<le> runs_bound a \<Longrightarrow> wide < usize_max \<Longrightarrow> style_intervals b a wide at fs \<noteq> None"
proof (induction b a wide at fs rule: style_intervals.induct)
  case (1 b a wide at first stop)
  let ?till = "min (min (runs_bound b) (runs_bound a)) wide"
  have till: "?till < usize_max" "at < wide \<Longrightarrow> at \<le> ?till" using 1(2-4) by auto
  have "?till \<le> runs_bound (runs_seek b ?till)" "?till \<le> runs_bound (runs_seek a ?till)"
    using runs_seek_bound [OF till(1)] by (simp_all add: less_imp_le)
  note IH = 1(1) [OF _ refl refl refl refl _ this 1(4)]
  show ?case
  proof (cases "at < wide")
    case True
    then have go: "\<not> (?till < at \<or> usize_max \<le> ?till)" using till by auto
    from IH [OF True go] show ?thesis
      unfolding style_intervals.simps [of b a wide at first stop] Let_def using True go by (simp only: if_True if_False not_False_eq_True)
  qed (subst style_intervals.simps, simp)
qed

lemma usize_wide: "65535 < usize_max"
  by (simp add: usize_max_def)

lemma ascii_patch_total:
  assumes "was \<le> 65535" "now \<le> 65535"
  shows "ascii_patch old new was now erase \<noteq> None"
proof -
  have total: "style_intervals (runs_new old) (runs_new new) (max was now) 0 fs \<noteq> None" for fs
    using style_intervals_total [of 0 "runs_new old" "runs_new new" "max was now"] usize_wide assms by simp
  have bind: "x \<noteq> None \<Longrightarrow> (\<And>p. h p \<noteq> None) \<Longrightarrow> (case x of None \<Rightarrow> None | Some p \<Rightarrow> h p) \<noteq> None" for x and h :: "nat option \<times> nat \<Rightarrow> patch option"
    by (cases x) auto
  show ?thesis unfolding ascii_patch_def Let_def split_def by (rule bind, rule total) (simp split: option.split)
qed

lemma measured_patch_total:
  assumes "utf8 (rf_text old)" "utf8 (rf_text new)" "row_painted_cells width old \<noteq> None" "row_painted_cells width new \<noteq> None"
  shows "measured_patch width old new erase \<noteq> None"
  using measured_loop_total [OF walk_new_ok [of old width] walk_new_ok [of new width], of _ _ width erase None 0] assms
  by (auto simp: measured_patch_def Let_def split: option.splits prod.splits)

lemma row_patch_total:
  assumes "utf8 (rf_text old)" "utf8 (rf_text new)"
  shows "row_patch width old new clear_tail \<noteq> None"
proof (cases "row_painted_cells width old = None \<or> row_painted_cells width new = None")
  case False
  then obtain was now where p: "row_painted_cells width old = Some was" "row_painted_cells width new = Some now" by auto
  show ?thesis
    using p measured_patch_total [OF assms, of width] painted_bytes_boundary(4) [OF assms(1) p(1)] painted_bytes_boundary(4) [OF assms(2) p(2)]
      ascii_patch_total
    by (cases was; cases now) (auto simp: row_patch_def Let_def)
qed (auto simp: row_patch_def split: option.splits)

lemma cells_until_ok: "walk_ok w \<Longrightarrow> \<exists>w'. cells_until width col w = Some w' \<and> walk_ok w'"
proof (induction width col w rule: cells_until.induct)
  case (1 width col w)
  from walk_step [OF 1(2), of width] obtain w1 where w1: "cells_step width w = Some w1" "walk_ok w1" by blast
  show ?case using 1(1) [OF _ w1] 1(2) w1(1) by (subst cells_until.simps) auto
qed

lemma cell_at_total:
  assumes "utf8 (rf_text row)"
  shows "cell_at width row col \<noteq> None"
proof (cases "row_painted_cells width row")
  case (Some p)
  from cells_until_ok [OF walk_new_ok [OF assms Some], of width col] obtain w where
    w: "cells_until width col (cells_new row) = Some w" "walk_ok w" by blast
  show ?thesis using walk_peek [OF w(2), of width] w(1) Some by (auto simp: cell_at_def)
qed (simp add: cell_at_def)

section \<open>The fast difference is the measured one\<close>

subsection \<open>Rows of ASCII\<close>

definition ascii_width :: "(nat \<Rightarrow> nat option) \<Rightarrow> bool" where
  "ascii_width width \<longleftrightarrow> (\<forall>c < 0x80. lead_cells width c = 1)"

text \<open>The bytes of runs that hold nothing but ASCII.\<close>

lemma painted_runs_ascii:
  assumes "painted_runs width t runs (at, cells, flag) = Some (at', cells', True)" "is_char_boundary t at" "utf8 t" "cells \<le> 65535"
  shows "flag \<and> (\<forall>i. at \<le> i \<and> i < at' \<longrightarrow> t ! i < 0x80) \<and> (\<forall>r \<in> set runs. 0 < ru_bytes r \<and> ru_cells r = ru_bytes r)"
  using assms
proof (induction runs arbitrary: at cells flag)
  case (Cons run runs)
  let ?stop = "at + ru_bytes run"
  from Cons.prems(1) obtain piece where piece: "str_get t at ?stop = Some piece" "fst (text_cells width piece) = ru_cells run"
    and sums: "cells + ru_cells run \<le> 65535" and rest:
    "painted_runs width t runs (?stop, cells + ru_cells run, flag \<and> snd (text_cells width piece) \<and> piece \<noteq> []) = Some (at', cells', True)"
    by (auto simp: Let_def not_less split: if_splits option.splits prod.splits)
  have "is_char_boundary t ?stop" using piece by (auto simp: str_get_def split: if_splits)
  from Cons.IH [OF rest this Cons.prems(3) sums]
  have more: "flag" "snd (text_cells width piece)" "piece \<noteq> []" "\<forall>i. ?stop \<le> i \<and> i < at' \<longrightarrow> t ! i < 0x80"
    "\<forall>r \<in> set runs. 0 < ru_bytes r \<and> ru_cells r = ru_bytes r" by auto
  have mine: "length piece = ru_bytes run" "?stop \<le> length t" "piece = take (ru_bytes run) (drop at t)"
    using str_get_utf8 [OF Cons.prems(3) piece(1)] by auto
  have all: "list_all (\<lambda>b. b < 0x80) piece" using more(2) by (auto simp: text_cells_def split: if_splits)
  then have here: "t ! i < 0x80" if "at \<le> i" "i < ?stop" for i
    using that mine by (auto simp: list_all_length dest: spec [of _ "i - at"])
  have "ru_cells run = ru_bytes run"
    using piece(2) all sums mine(1) by (auto simp: text_cells_def u32_max_def min_def split: if_splits)
  moreover have "0 < ru_bytes run" using more(3) mine(1) by (cases piece) auto
  moreover have "t ! i < 0x80" if "at \<le> i" "i < at'" for i
    using here [of i] more(4) that by (cases "i < ?stop") auto
  ultimately show ?case using more by auto
qed auto

definition ascii_row :: "row_frame \<Rightarrow> nat \<Rightarrow> bool" where
  "ascii_row row n \<longleftrightarrow> n = row_painted_bytes row \<and> is_char_boundary (rf_text row) n \<and> n \<le> 65535 \<and> n \<le> length (rf_text row) \<and> (\<forall>i < n. rf_text row ! i < 0x80) \<and>
     (\<forall>r \<in> set (rf_runs row). 0 < ru_bytes r) \<and> bytes_of (rf_runs row) \<le> n"

lemma ascii_rowI:
  assumes "utf8 (rf_text row)" "row_painted_cells width row = Some (Ascii n)"
  shows "ascii_row row n"
proof -
  let ?at = "bytes_of (rf_runs row)"
  note b = painted_bytes_boundary [OF assms]
  from assms(2) obtain at cells tail where runs: "painted_runs width (rf_text row) (rf_runs row) (0, 0, True) = Some (at, cells, True)"
    and tail: "list_all (\<lambda>b. b < 0x80) (case str_get (rf_text row) at (row_painted_bytes row) of None \<Rightarrow> [] | Some t \<Rightarrow> t)"
    by (auto simp: row_painted_cells_def Let_def split: option.splits if_splits)
  have zero: "is_char_boundary (rf_text row) 0" by (simp add: is_char_boundary_def)
  have at: "at = ?at" "is_char_boundary (rf_text row) at" using painted_runs_spec [OF runs zero] by (simp, blast)
  note a = painted_runs_ascii [OF runs zero assms(1)]
  have "str_get (rf_text row) at (row_painted_bytes row) = Some (take (row_painted_bytes row - at) (drop at (rf_text row)))"
    using b(1,2) at by (simp add: str_get_def)
  then have past: "rf_text row ! i < 0x80" if "at \<le> i" "i < row_painted_bytes row" for i
    using that tail b(3) by (auto simp: list_all_length dest: spec [of _ "i - at"])
  have "rf_text row ! i < 0x80" if "i < row_painted_bytes row" for i
    using past [of i] a that by (cases "i < at") auto
  moreover have "cells_of (rf_runs row) = ?at" using a by (auto simp: cells_of_def bytes_of_def intro!: arg_cong [where f = sum_list])
  ultimately show ?thesis using a b at(1) by (auto simp: ascii_row_def not_less)
qed

text \<open>The style of a byte, and a seek that lands on the run of a byte.\<close>

fun style_of_byte :: "style_run list \<Rightarrow> nat \<Rightarrow> cell_style" where
  "style_of_byte [] i = style_default"
| "style_of_byte (run # runs) i = (if i < ru_bytes run then ru_style run else style_of_byte runs (i - ru_bytes run))"

definition seek_ok :: "row_frame \<Rightarrow> nat \<Rightarrow> nat \<times> nat \<Rightarrow> bool" where
  "seek_ok row byte s \<longleftrightarrow> fst s \<le> length (rf_runs row) \<and> snd s = bytes_of (take (fst s + 1) (rf_runs row)) \<and>
     bytes_of (take (fst s) (rf_runs row)) \<le> byte"

lemma style_of_byte_run:
  "index < length runs \<Longrightarrow> bytes_of (take index runs) \<le> i \<Longrightarrow> i < bytes_of (take (index + 1) runs) \<Longrightarrow>
   style_of_byte runs i = ru_style (runs ! index)"
proof (induction runs arbitrary: index i)
  case (Cons run runs)
  then show ?case using Cons.IH [of "index - 1" "i - ru_bytes run"] by (cases index) auto
qed simp

lemma style_of_byte_past: "bytes_of runs \<le> i \<Longrightarrow> style_of_byte runs i = style_default"
  by (induction runs arbitrary: i) auto

lemma run_seek_ok:
  "seek_ok row byte s \<Longrightarrow> seek_ok row byte (run_seek row byte s) \<and>
   (fst (run_seek row byte s) < length (rf_runs row) \<longrightarrow> byte < snd (run_seek row byte s))"
proof (induction row byte s rule: run_seek.induct)
  case (1 row byte index stop)
  show ?case
  proof (cases "index < length (rf_runs row) \<and> stop \<le> byte")
    case True
    have "bytes_of (take (Suc (Suc index)) (rf_runs row)) = bytes_of (take (Suc index) (rf_runs row)) + run_bytes_at row (Suc index)"
      by (cases "Suc index < length (rf_runs row)") (simp_all add: take_Suc_conv_app_nth run_bytes_at_def)
    then have "seek_ok row byte (index + 1, stop + run_bytes_at row (index + 1))" using 1(2) True by (auto simp: seek_ok_def)
    moreover have "run_seek row byte (index, stop) = run_seek row byte (index + 1, stop + run_bytes_at row (index + 1))"
      using True by (subst run_seek.simps) simp
    ultimately show ?thesis using 1(1) True by auto
  next
    case False
    then have "run_seek row byte (index, stop) = (index, stop)" by (subst run_seek.simps) auto
    then show ?thesis using 1(2) False by auto
  qed
qed

definition landed :: "row_frame \<Rightarrow> nat \<Rightarrow> nat \<times> nat \<Rightarrow> bool" where
  "landed row byte s \<longleftrightarrow> seek_ok row byte s \<and> (fst s < length (rf_runs row) \<longrightarrow> byte < snd s)"

lemma landed_seek: "landed row byte s \<Longrightarrow> byte \<le> byte' \<Longrightarrow> landed row byte' (run_seek row byte' s)"
  using run_seek_ok [of row byte' s] by (auto simp: landed_def seek_ok_def)

lemma landed_first: "\<forall>r \<in> set (rf_runs row). 0 < ru_bytes r \<Longrightarrow> landed row 0 (0, first_run_bytes row)"
  by (cases "rf_runs row") (auto simp: landed_def seek_ok_def first_run_bytes_def)

lemma landed_style:
  assumes "landed row byte s" "byte \<le> i" "fst s < length (rf_runs row) \<longrightarrow> i < snd s"
  shows "run_style_at row (fst s) = style_of_byte (rf_runs row) i"
  using assms style_of_byte_run [of "fst s" "rf_runs row" i] style_of_byte_past [of "rf_runs row" i]
  by (auto simp: landed_def seek_ok_def run_style_at_def not_less)

subsection \<open>Cells and where they differ\<close>

definition ascii_cell :: "row_frame \<Rightarrow> nat \<Rightarrow> nat \<Rightarrow> u8 \<times> cell_style" where
  "ascii_cell row n i = (if i < n then rf_text row ! i else 0x20, style_of_byte (rf_runs row) i)"

definition walk_on :: "row_frame \<Rightarrow> nat \<Rightarrow> nat \<Rightarrow> cells_walk \<Rightarrow> bool" where
  "walk_on row n i w \<longleftrightarrow> cw_row w = row \<and> cw_painted w = n \<and> cw_byte w = min i n \<and> cw_col w = i \<and>
     landed row (min i n) (cw_run w, cw_run_end w)"

lemma walk_on_new: "ascii_row row n \<Longrightarrow> walk_on row n 0 (cells_new row)"
  using landed_first [of row] by (simp add: walk_on_def cells_new_def ascii_row_def)

lemma walk_on_done: "walk_on row n i w \<Longrightarrow> cells_done w \<longleftrightarrow> n \<le> i"
  by (auto simp: walk_on_def cells_done_def)

lemma cluster_scan_ascii:
  assumes "ascii_width width" "list_all (\<lambda>b. b < 0x80) (a # rest)"
  shows "cluster_scan width (a # rest) 0 0 = (1, 1)"
proof -
  have lead: "b < 0x80 \<Longrightarrow> lead_cells width (unat b) = 1" for b :: u8
    using assms(1) by (simp add: ascii_width_def word_less_nat_alt)
  have "cluster_scan width rest 1 1 = (1, 1)"
    using assms(2) lead by (cases rest) (auto simp: cluster_scan.simps [of width "[]"] cluster_scan.simps [of width "_ # _"])
  then show ?thesis using assms(2) lead [of a] by (subst cluster_scan.simps) simp
qed

lemma walk_on_peek:
  assumes "ascii_width width" "ascii_row row n" "walk_on row n i w"
  shows "cells_peek width w = Some ([fst (ascii_cell row n i)], 1, snd (ascii_cell row n i))"
proof (cases "i < n")
  case True
  let ?t = "rf_text row"
  have w: "cw_row w = row" "cw_painted w = n" "cw_byte w = i" "landed row i (cw_run w, cw_run_end w)" "\<not> cells_done w"
    using assms(3) True walk_on_done [OF assms(3)] by (simp_all add: walk_on_def)
  have r: "n \<le> length ?t" "is_char_boundary ?t n" "\<forall>i < n. ?t ! i < 0x80" using assms(2) unfolding ascii_row_def by blast+
  have "is_char_boundary ?t i" using r True lead_not_cont(1) by (auto simp: is_char_boundary_def)
  then have "str_get ?t i n = Some (take (n - i) (drop i ?t))" using r True by (simp add: str_get_def)
  moreover have "take (n - i) (drop i ?t) = ?t ! i # take (n - i - 1) (drop (i + 1) ?t)"
    using True r(1) by (simp add: Cons_nth_drop_Suc [symmetric] take_Cons')
  moreover have "list_all (\<lambda>b. b < 0x80) (take (n - i) (drop i ?t))" using r True by (auto simp: list_all_length)
  ultimately show ?thesis
    using w True cluster_scan_ascii [OF assms(1)] landed_style [OF w(4), of i] w(4)
    by (simp add: cells_peek_def ascii_cell_def landed_def)
next
  case False
  then have "style_of_byte (rf_runs row) i = style_default" using assms(2) by (intro style_of_byte_past) (simp add: ascii_row_def)
  then show ?thesis using False walk_on_done [OF assms(3)] by (simp add: cells_peek_def ascii_cell_def)
qed

lemma walk_on_step:
  assumes "ascii_width width" "ascii_row row n" "walk_on row n i w" "i < 65535"
  shows "\<exists>w'. cells_step width w = Some w' \<and> walk_on row n (i + 1) w'"
proof (cases "i < n")
  case True
  have w: "cw_row w = row" "cw_painted w = n" "cw_byte w = i" "cw_col w = i" "landed row i (cw_run w, cw_run_end w)" "\<not> cells_done w"
    using assms(3) True walk_on_done [OF assms(3)] by (simp_all add: walk_on_def)
  show ?thesis
    using walk_on_peek [OF assms(1-3)] w landed_seek [OF w(5), of "i + 1"] True assms(4)
    by (auto simp: cells_step_def walk_on_def u16_saturating_add_def Let_def min_def split: prod.splits)
next
  case False
  then show ?thesis using assms(3,4) walk_on_done [OF assms(3)] by (auto simp: cells_step_def walk_on_def u16_saturating_add_def min_absorb2)
qed

text \<open>The first position of a kind and the one past the last.\<close>

definition marks :: "(nat \<Rightarrow> bool) \<Rightarrow> nat option \<Rightarrow> nat \<Rightarrow> bool" where
  "marks P first stop \<longleftrightarrow>
     (case first of
        None \<Rightarrow> (\<forall>i. \<not> P i) \<and> stop = 0
      | Some f \<Rightarrow> P f \<and> 0 < stop \<and> P (stop - 1) \<and> (\<forall>i. P i \<longrightarrow> f \<le> i \<and> i < stop))"

lemma marks_unique: "marks P f s \<Longrightarrow> marks P f' s' \<Longrightarrow> f = f' \<and> s = s'"
proof -
  assume m: "marks P f s" "marks P f' s'"
  have "s \<le> s' \<and> (\<forall>a b. f = Some a \<longrightarrow> f' = Some b \<longrightarrow> b \<le> a)" if "marks P f s" "marks P f' s'" for f s f' s'
    using that by (fastforce simp: marks_def split: option.splits)
  from this [OF m] this [OF m(2,1)] show ?thesis using m by (fastforce simp: marks_def split: option.splits)
qed

lemma marks_interval:
  assumes "marks P first stop" "lo < hi"
  shows "marks (\<lambda>i. P i \<or> lo \<le> i \<and> i < hi) (Some (case first of None \<Rightarrow> lo | Some seen \<Rightarrow> min seen lo)) (max stop hi)"
  using assms by (auto simp: marks_def min_def max_def split: option.splits)

lemma measured_loop_marks:
  assumes width: "ascii_width width" and rows: "ascii_row old was" "ascii_row new now"
  shows "walk_on old was i b \<Longrightarrow> walk_on new now i a \<Longrightarrow>
    marks (\<lambda>k. k < i \<and> ascii_cell old was k \<noteq> ascii_cell new now k) first stop \<Longrightarrow>
    marks (\<lambda>k. k < max was now \<and> ascii_cell old was k \<noteq> ascii_cell new now k) first' stop' \<Longrightarrow>
    (erase \<longrightarrow> first = None) \<Longrightarrow>
    \<exists>last_byte. measured_loop width erase b a (map_option (\<lambda>f. (f, min f now)) first) (min stop now) =
      Some (map_option (\<lambda>f. (f, min f now)) first', last_byte) \<and> (\<not> erase \<longrightarrow> last_byte = min stop' now)"
proof (induction "max was now - i" arbitrary: i b a first stop)
  case 0
  have over: "cells_done b" "cells_done a" using 0 walk_on_done by fastforce+
  have "ascii_cell old was k = ascii_cell new now k" if "max was now \<le> k" for k
    using that rows style_of_byte_past [of "rf_runs old" k] style_of_byte_past [of "rf_runs new" k] by (simp add: ascii_cell_def ascii_row_def)
  then have "(\<lambda>k. k < i \<and> ascii_cell old was k \<noteq> ascii_cell new now k) = (\<lambda>k. k < max was now \<and> ascii_cell old was k \<noteq> ascii_cell new now k)"
    using 0(1) by (intro ext) (metis diff_is_0_eq leI less_le_trans)
  then have "first' = first \<and> stop' = stop" using 0(4,5) marks_unique by simp
  then show ?case using over by (subst measured_loop.simps) simp
next
  case (Suc m)
  have i: "i < max was now" "i < 65535" "m = max was now - (i + 1)" using Suc(2) rows by (auto simp: ascii_row_def)
  have going: "\<not> (cells_done b \<and> cells_done a)" using i(1) walk_on_done [OF Suc(3)] walk_on_done [OF Suc(4)] by auto
  have col: "\<not> 65535 < cw_col b" "cw_col b = i" "cw_col a = i" "cw_byte a = min i now" using Suc(3,4) i by (simp_all add: walk_on_def)
  note peek = walk_on_peek [OF width rows(1) Suc(3)] walk_on_peek [OF width rows(2) Suc(4)]
  from walk_on_step [OF width rows(1) Suc(3) i(2)] obtain b1 where b1: "cells_step width b = Some b1" "walk_on old was (i + 1) b1" by blast
  from walk_on_step [OF width rows(2) Suc(4) i(2)] obtain a1 where a1: "cells_step width a = Some a1" "walk_on new now (i + 1) a1" by blast
  have same: "walk_equal width b a \<longleftrightarrow> ascii_cell old was i = ascii_cell new now i"
    using col peek by (auto simp: walk_equal_def prod_eq_iff)
  show ?case
  proof (cases "ascii_cell old was i = ascii_cell new now i")
    case True
    then have "(\<lambda>k. k < i + 1 \<and> ascii_cell old was k \<noteq> ascii_cell new now k) = (\<lambda>k. k < i \<and> ascii_cell old was k \<noteq> ascii_cell new now k)"
      by (intro ext) (metis less_Suc_eq Suc_eq_plus1)
    from Suc(1) [OF i(3) b1(2) a1(2), unfolded this, OF Suc(5-7)] show ?thesis
      using True going col peek same b1(1) a1(1) by (subst measured_loop.simps) (auto simp: walk_both_def)
  next
    case False
    let ?first = "Some (case first of None \<Rightarrow> i | Some seen \<Rightarrow> min seen i)"
    have "(\<lambda>k. k < i + 1 \<and> ascii_cell old was k \<noteq> ascii_cell new now k) =
        (\<lambda>k. k < i \<and> ascii_cell old was k \<noteq> ascii_cell new now k \<or> i \<le> k \<and> k < i + 1)"
      using False by (intro ext) (metis less_Suc_eq Suc_eq_plus1 le_antisym less_Suc_eq_le less_or_eq_imp_le)
    moreover have "max stop (i + 1) = i + 1" using Suc(5) by (fastforce simp: marks_def split: option.splits)
    ultimately have m: "marks (\<lambda>k. k < i + 1 \<and> ascii_cell old was k \<noteq> ascii_cell new now k) ?first (i + 1)"
      using marks_interval [OF Suc(5), of i "i + 1"] by simp
    have f: "(if map_option (\<lambda>f. (f, min f now)) first = None then Some (cw_col a, cw_byte a) else map_option (\<lambda>f. (f, min f now)) first) =
        map_option (\<lambda>f. (f, min f now)) ?first"
      using col Suc(5) by (auto simp: marks_def min_def split: option.splits)
    have lag: "walk_lagging width b a = Some (b1, a1)" "cw_byte a1 = min (i + 1) now"
      using col b1 a1 by (simp_all add: walk_lagging_def walk_on_def)
    show ?thesis
    proof (cases erase)
      case True
      then have "first = None" using Suc(7) by simp
      then have least: "\<forall>k < i. ascii_cell old was k = ascii_cell new now k" using Suc(5) by (simp add: marks_def)
      have "first' = Some i" using Suc(6) least False i(1) by (auto simp: marks_def split: option.splits) (metis le_antisym leI)
      then show ?thesis using True False going col peek same f \<open>first = None\<close> by (subst measured_loop.simps) simp
    next
      case noerase: False
      from Suc(1) [OF i(3) b1(2) a1(2) m Suc(6)] noerase obtain last_byte where
        "measured_loop width erase b1 a1 (map_option (\<lambda>f. (f, min f now)) ?first) (min (i + 1) now) =
          Some (map_option (\<lambda>f. (f, min f now)) first', last_byte)" "last_byte = min stop' now" by auto
      then show ?thesis using noerase False going col peek same f lag by (subst measured_loop.simps) (auto simp: Let_def)
    qed
  qed
qed

subsection \<open>The differences the fast path finds\<close>

lemma takeWhile_first:
  "i < length (takeWhile Q xs) \<Longrightarrow> Q (xs ! i)" "length (takeWhile Q xs) < length xs \<Longrightarrow> \<not> Q (xs ! length (takeWhile Q xs))"
  using nth_mem [of i "takeWhile Q xs"] set_takeWhileD [of _ Q xs] by (auto simp: takeWhile_nth nth_length_takeWhile)

lemma takeWhile_whole: "length (takeWhile Q xs) = length xs \<longleftrightarrow> (\<forall>x \<in> set xs. Q x)"
  by (induction xs) auto

lemma marks_first_last:
  fixes Q :: "'a \<Rightarrow> bool" and xs :: "'a list"
  defines "n \<equiv> length (takeWhile Q xs)" and "m \<equiv> length (takeWhile Q (rev xs))"
  shows "marks (\<lambda>i. i < length xs \<and> \<not> Q (xs ! i)) (if n < length xs then Some n else None) (if n < length xs then length xs - m else 0)"
proof (cases "n < length xs")
  case True
  have first: "\<not> Q (xs ! n)" "\<And>i. i < n \<Longrightarrow> Q (xs ! i)" using takeWhile_first(1) [of _ Q xs] takeWhile_first(2) [of Q xs] True by (simp_all add: n_def)
  then have "\<not> (\<forall>x \<in> set (rev xs). Q x)" using nth_mem [OF True] by auto
  then have m: "m < length xs" using takeWhile_whole [of Q "rev xs"] length_takeWhile_le [of Q "rev xs"] by (auto simp: m_def le_less)
  have "\<not> Q (xs ! (length xs - 1 - m))" using takeWhile_first(2) [of Q "rev xs"] m by (simp add: m_def rev_nth)
  moreover have "i < length xs - m" if "i < length xs" "\<not> Q (xs ! i)" for i
    using takeWhile_first(1) [of "length xs - 1 - i" Q "rev xs"] that by (fastforce simp: m_def rev_nth)
  moreover have "n \<le> i" if "\<not> Q (xs ! i)" for i using first(2) that not_less by blast
  ultimately show ?thesis using True m first(1) by (auto simp: marks_def)
next
  case False
  then have "Q (xs ! i)" if "i < length xs" for i using takeWhile_first(1) [of i Q xs] that by (simp add: n_def)
  then show ?thesis using False by (auto simp: marks_def)
qed

lemma prefix_marks:
  assumes "length a = length b"
  shows "marks (\<lambda>i. i < length a \<and> a ! i \<noteq> b ! i) (if common_prefix a b < length a then Some (common_prefix a b) else None)
    (if common_prefix a b < length a then length a - common_suffix a b else 0)"
proof -
  have "(\<lambda>i. i < length (zip a b) \<and> \<not> (case zip a b ! i of (x, y) \<Rightarrow> x = y)) = (\<lambda>i. i < length a \<and> a ! i \<noteq> b ! i)"
    using assms by (intro ext) auto
  then show ?thesis
    using marks_first_last [of "zip a b" "\<lambda>(x, y). x = y"] assms
    by (auto simp: common_prefix_def common_suffix_def zip_rev split: if_splits)
qed

lemma inked_marks: "marks (\<lambda>i. i < length xs \<and> xs ! i \<noteq> 0x20) (first_inked xs) (case last_inked xs of None \<Rightarrow> 0 | Some n \<Rightarrow> n + 1)"
proof -
  let ?Q = "\<lambda>b :: u8. b = 0x20"
  have "length (takeWhile ?Q xs) = length xs \<longleftrightarrow> length (takeWhile ?Q (rev xs)) = length xs"
    using takeWhile_whole [of ?Q xs] takeWhile_whole [of ?Q "rev xs"] by simp
  moreover have "length (takeWhile ?Q xs) \<le> length xs" "length (takeWhile ?Q (rev xs)) \<le> length xs"
    using length_takeWhile_le [of ?Q xs] length_takeWhile_le [of ?Q "rev xs"] by simp_all
  ultimately show ?thesis
    using marks_first_last [of xs ?Q] by (auto simp: first_inked_def last_inked_def Let_def Suc_diff_Suc le_less)
qed

lemma marks_join:
  assumes "marks P f s" "marks Q g t" "\<forall>i. P i \<longrightarrow> i < n"
  shows "marks (\<lambda>i. P i \<or> n \<le> i \<and> Q (i - n))
    (case g of Some at \<Rightarrow> if f = None then Some (n + at) else f | None \<Rightarrow> f) (if g = None then s else n + t)"
proof (cases g)
  case None
  then show ?thesis using assms by (simp add: marks_def)
next
  case (Some at)
  then have g: "Q at" "0 < t" "Q (t - 1)" "\<And>i. Q i \<Longrightarrow> at \<le> i \<and> i < t" using assms(2) by (auto simp: marks_def)
  have far: "n \<le> n + t - 1" "n + t - 1 - n = t - 1" using g(2) by simp_all
  have later: "n + at \<le> i \<and> i < n + t" if "n \<le> i" "Q (i - n)" for i using g(4) [OF that(2)] that(1) by auto
  show ?thesis
  proof (cases f)
    case None
    then show ?thesis using assms(1) Some g far later by (auto simp: marks_def)
  next
    case (Some first)
    then have "P first" "first < n" "\<And>i. P i \<Longrightarrow> first \<le> i" using assms(1,3) by (auto simp: marks_def)
    then show ?thesis using Some \<open>g = Some at\<close> g(2,3) far later assms(3) by (fastforce simp: marks_def)
  qed
qed

text \<open>The text of two rows, as the fast path compares it.\<close>

lemma text_marks:
  fixes old new :: row_frame and was now :: nat
  defines "before \<equiv> take was (rf_text old)" and "after \<equiv> take now (rf_text new)"
    and "shared \<equiv> min was now"
  defines "overhang \<equiv> if now < was then drop shared before else drop shared after"
    and "common \<equiv> common_prefix (take shared before) (take shared after)"
    and "back_common \<equiv> common_suffix (take shared before) (take shared after)"
  defines "first \<equiv> if common < shared then Some common else None"
    and "stop \<equiv> if common < shared then shared - back_common else 0"
  assumes len: "was \<le> length (rf_text old)" "now \<le> length (rf_text new)"
  shows "marks (\<lambda>i. i < max was now \<and> fst (ascii_cell old was i) \<noteq> fst (ascii_cell new now i))
    (case first_inked overhang of Some at \<Rightarrow> if first = None then Some (shared + at) else first | None \<Rightarrow> first)
    (case last_inked overhang of Some at \<Rightarrow> shared + at + 1 | None \<Rightarrow> stop)"
proof -
  let ?a = "take shared before" and ?b = "take shared after"
  have ab: "length ?a = shared" "length ?b = shared" using len by (simp_all add: before_def after_def shared_def)
  have over: "length overhang = max was now - shared" using len by (simp add: overhang_def before_def after_def shared_def max_def)
  have letters: "marks (\<lambda>i. i < shared \<and> ?a ! i \<noteq> ?b ! i) first stop"
    using prefix_marks [of ?a ?b, unfolded ab, OF refl] unfolding first_def stop_def common_def back_common_def .
  have none: "first_inked overhang = None \<longleftrightarrow> last_inked overhang = None"
    using inked_marks [of overhang] by (auto simp: marks_def split: option.splits)
  have "(\<lambda>i. i < shared \<and> ?a ! i \<noteq> ?b ! i \<or> shared \<le> i \<and> i - shared < length overhang \<and> overhang ! (i - shared) \<noteq> 0x20) =
      (\<lambda>i. i < max was now \<and> fst (ascii_cell old was i) \<noteq> fst (ascii_cell new now i))"
    unfolding over using len by (intro ext) (auto simp: ascii_cell_def overhang_def before_def after_def shared_def min_def max_def split: if_splits)
  moreover have "(if first_inked overhang = None then stop else shared + (case last_inked overhang of None \<Rightarrow> 0 | Some n \<Rightarrow> n + 1)) =
      (case last_inked overhang of Some at \<Rightarrow> shared + at + 1 | None \<Rightarrow> stop)"
    using none by (auto split: option.splits)
  ultimately show ?thesis using marks_join [OF letters inked_marks [of overhang], of shared] by simp
qed

text \<open>The styles, an interval at a time.\<close>

definition runs_on :: "row_frame \<Rightarrow> nat \<Rightarrow> runs_walk \<Rightarrow> bool" where
  "runs_on row at w \<longleftrightarrow> rw_row w = row \<and> landed row at (rw_index w, rw_end w)"

lemma runs_on_seek: "runs_on row at w \<Longrightarrow> at \<le> till \<Longrightarrow> runs_on row till (runs_seek w till)"
  using landed_seek [of row at "(rw_index w, rw_end w)" till] by (auto simp: runs_on_def runs_seek_def Let_def split: prod.splits)

lemma runs_on_bound: "runs_on row at w \<Longrightarrow> at < usize_max \<Longrightarrow> at < runs_bound w"
  by (auto simp: runs_on_def landed_def runs_bound_def)

lemma runs_on_style: "runs_on row at w \<Longrightarrow> at \<le> i \<Longrightarrow> i < runs_bound w \<Longrightarrow> runs_style w = style_of_byte (rf_runs row) i"
  using landed_style [of row at "(rw_index w, rw_end w)" i] by (auto simp: runs_on_def runs_style_def runs_bound_def split: if_splits)

lemma style_intervals_marks:
  "runs_on old at b \<Longrightarrow> runs_on new at a \<Longrightarrow> at \<le> wide \<Longrightarrow> wide < usize_max \<Longrightarrow>
   marks (\<lambda>i. T i \<or> i < at \<and> style_of_byte (rf_runs old) i \<noteq> style_of_byte (rf_runs new) i) (fst fs) (snd fs) \<Longrightarrow>
   \<exists>first stop. style_intervals b a wide at fs = Some (first, stop) \<and>
     marks (\<lambda>i. T i \<or> i < wide \<and> style_of_byte (rf_runs old) i \<noteq> style_of_byte (rf_runs new) i) first stop"
proof (induction b a wide at fs rule: style_intervals.induct)
  case (1 b a wide at first stop)
  let ?S = "\<lambda>i. style_of_byte (rf_runs old) i \<noteq> style_of_byte (rf_runs new) i"
  show ?case
  proof (cases "at < wide")
    case True
    define till where "till = min (min (runs_bound b) (runs_bound a)) wide"
    define differ where "differ = (runs_style b \<noteq> runs_style a)"
    define first' where "first' = (if differ then Some (case first of None \<Rightarrow> at | Some seen \<Rightarrow> min seen at) else first)"
    define stop' where "stop' = (if differ then max stop till else stop)"
    have till: "at < till" "till \<le> wide" "till < usize_max"
      using True runs_on_bound [OF 1(2)] runs_on_bound [OF 1(3)] 1(5) by (auto simp: till_def)
    then have go: "\<not> (till < at \<or> usize_max \<le> till)" by simp
    have const: "?S i = differ" if "at \<le> i" "i < till" for i
      using runs_on_style [OF 1(2) that(1)] runs_on_style [OF 1(3) that(1)] that(2) by (simp add: differ_def till_def)
    have "(\<lambda>i. T i \<or> i < till \<and> ?S i) = (\<lambda>i. (T i \<or> i < at \<and> ?S i) \<or> (at \<le> i \<and> i < till) \<and> differ)"
      using const till(1) by (intro ext) (metis leI less_trans)
    then have "marks (\<lambda>i. T i \<or> i < till \<and> ?S i) first' stop'"
      using marks_interval [OF 1(6) till(1)] 1(6) by (simp add: first'_def stop'_def)
    then have "\<exists>first stop. style_intervals (runs_seek b till) (runs_seek a till) wide till (first', stop') = Some (first, stop) \<and>
        marks (\<lambda>i. T i \<or> i < wide \<and> ?S i) first stop"
      using 1(1) [OF True till_def differ_def first'_def stop'_def go runs_on_seek [OF 1(2)] runs_on_seek [OF 1(3)] till(2) 1(5)] till(1) by simp
    then show ?thesis
      unfolding style_intervals.simps [of b a wide at first stop] Let_def till_def [symmetric] differ_def [symmetric] first'_def [symmetric] stop'_def [symmetric]
      using True go by (simp only: if_True if_False)
  next
    case False
    then show ?thesis using 1(4,6) by (subst style_intervals.simps) auto
  qed
qed

lemma ascii_patch_marks:
  assumes rows: "ascii_row old was" "ascii_row new now"
  shows "\<exists>first stop. marks (\<lambda>i. i < max was now \<and> ascii_cell old was i \<noteq> ascii_cell new now i) first stop \<and>
    ascii_patch old new was now erase =
      Some (case first of None \<Rightarrow> PatchNothing
        | Some f \<Rightarrow> PatchColumns f (min f now) (max (if erase then now else min stop now) (min f now)) erase)"
proof -
  let ?T = "\<lambda>i. i < max was now \<and> fst (ascii_cell old was i) \<noteq> fst (ascii_cell new now i)"
  have r: "was \<le> length (rf_text old)" "now \<le> length (rf_text new)" "max was now \<le> 65535" using rows by (simp_all add: ascii_row_def)
  have start: "runs_on old 0 (runs_new old)" "runs_on new 0 (runs_new new)"
    using rows landed_first by (simp_all add: runs_on_def runs_new_def ascii_row_def)
  have wide: "max was now < usize_max" using r(3) usize_wide by linarith
  have both: "(\<lambda>i. ?T i \<or> i < max was now \<and> style_of_byte (rf_runs old) i \<noteq> style_of_byte (rf_runs new) i) =
      (\<lambda>i. i < max was now \<and> ascii_cell old was i \<noteq> ascii_cell new now i)"
    by (intro ext) (auto simp: ascii_cell_def)
  define fs where "fs = (let before = take was (rf_text old); after = take now (rf_text new); shared = min was now;
      common = common_prefix (take shared before) (take shared after);
      first = (if common < shared then Some common else None);
      stop = (if common < shared then shared - common_suffix (take shared before) (take shared after) else 0);
      overhang = (if now < was then drop shared before else drop shared after)
    in (case first_inked overhang of Some at \<Rightarrow> if first = None then Some (shared + at) else first | None \<Rightarrow> first,
        case last_inked overhang of Some at \<Rightarrow> shared + at + 1 | None \<Rightarrow> stop))"
  have "marks ?T (fst fs) (snd fs)" using text_marks [OF r(1,2)] by (simp add: fs_def Let_def)
  with style_intervals_marks [OF start _ wide, of ?T fs] both obtain first stop where
    found: "style_intervals (runs_new old) (runs_new new) (max was now) 0 fs = Some (first, stop)"
    "marks (\<lambda>i. i < max was now \<and> ascii_cell old was i \<noteq> ascii_cell new now i) first stop" by auto
  have "ascii_patch old new was now erase = (case style_intervals (runs_new old) (runs_new new) (max was now) 0 fs of
      None \<Rightarrow> None | Some (None, _) \<Rightarrow> Some PatchNothing
    | Some (Some first, stop) \<Rightarrow>
        Some (PatchColumns (min first 65535) (min first now) (max (if erase then now else min stop now) (min first now)) erase))"
    unfolding ascii_patch_def fs_def Let_def by (cases "common_prefix (take (min was now) (take was (rf_text old))) (take (min was now) (take now (rf_text new))) < min was now")
      (simp_all only: if_True if_False prod.case)
  moreover have "first = Some f \<Longrightarrow> min f 65535 = f" for f using found(2) r(3) by (auto simp: marks_def)
  ultimately have "ascii_patch old new was now erase = Some (case first of None \<Rightarrow> PatchNothing
      | Some f \<Rightarrow> PatchColumns f (min f now) (max (if erase then now else min stop now) (min f now)) erase)"
    using found(1) by (cases first) simp_all
  with found(2) show ?thesis by blast
qed

lemma measured_patch_marks:
  assumes "ascii_width width" "ascii_row old was" "ascii_row new now"
    "marks (\<lambda>i. i < max was now \<and> ascii_cell old was i \<noteq> ascii_cell new now i) first stop"
  shows "measured_patch width old new erase =
      Some (case first of None \<Rightarrow> PatchNothing
        | Some f \<Rightarrow> PatchColumns f (min f now) (max (if erase then now else min stop now) (min f now)) erase)"
proof -
  have "marks (\<lambda>k. k < 0 \<and> ascii_cell old was k \<noteq> ascii_cell new now k) None 0" by (simp add: marks_def)
  from measured_loop_marks [OF assms(1-3) walk_on_new [OF assms(2)] walk_on_new [OF assms(3)] this assms(4), of erase]
  obtain last_byte where "measured_loop width erase (cells_new old) (cells_new new) None 0 =
      Some (map_option (\<lambda>f. (f, min f now)) first, last_byte)" "\<not> erase \<longrightarrow> last_byte = min stop now" by auto
  moreover have "row_painted_bytes new = now" using assms(3) by (simp add: ascii_row_def)
  ultimately show ?thesis by (cases first) (auto simp: measured_patch_def Let_def)
qed

lemma ascii_patch_same:
  assumes "ascii_width width" "utf8 (rf_text old)" "utf8 (rf_text new)"
    "row_painted_cells width old = Some (Ascii was)" "row_painted_cells width new = Some (Ascii now)"
  shows "ascii_patch old new was now erase = measured_patch width old new erase"
proof -
  note rows = ascii_rowI [OF assms(2,4)] ascii_rowI [OF assms(3,5)]
  from ascii_patch_marks [OF rows, of erase] obtain first stop where
    m: "marks (\<lambda>i. i < max was now \<and> ascii_cell old was i \<noteq> ascii_cell new now i) first stop"
    and fast: "ascii_patch old new was now erase = Some (case first of None \<Rightarrow> PatchNothing
      | Some f \<Rightarrow> PatchColumns f (min f now) (max (if erase then now else min stop now) (min f now)) erase)" by blast
  show ?thesis using fast measured_patch_marks [OF assms(1) rows m, of erase] by simp
qed

text \<open>C39: the short cut over ASCII rows gives the same answer. Wherever the columns of the two rows can be trusted,
  the difference the client repaints is the one found by walking both rows a cluster at a time, whether the rows
  took the byte-compare or not; only rows whose columns cannot be trusted are repainted whole. And there is always
  an answer.\<close>

theorem row_patch_measured:
  assumes "ascii_width width" "utf8 (rf_text old)" "utf8 (rf_text new)"
  shows "row_patch width old new clear_tail \<noteq> None \<and>
    row_patch width old new clear_tail =
      (if old = new then Some PatchNothing
       else case (row_painted_cells width old, row_painted_cells width new) of
         (Some was, Some now) \<Rightarrow> measured_patch width old new (clear_tail \<or> painted_count now < painted_count was)
       | _ \<Rightarrow> Some PatchWhole)"
proof
  show "row_patch width old new clear_tail \<noteq> None" by (rule row_patch_total [OF assms(2,3)])
  show "row_patch width old new clear_tail =
      (if old = new then Some PatchNothing
       else case (row_painted_cells width old, row_painted_cells width new) of
         (Some was, Some now) \<Rightarrow> measured_patch width old new (clear_tail \<or> painted_count now < painted_count was)
       | _ \<Rightarrow> Some PatchWhole)"
    using ascii_patch_same [OF assms]
    by (auto simp: row_patch_def Let_def split: option.splits painted.splits)
qed

theorem row_patch_measured_witness:
  "let row = (\<lambda>letter. \<lparr>rf_text = [0x61, letter], rf_runs = [], rf_cells = 2\<rparr>); width = (\<lambda>_. Some 1) in
     row_painted_cells width (row 0x62) = Some (Ascii 2) \<and> row_painted_cells width (row 0x63) = Some (Ascii 2) \<and>
     ascii_patch (row 0x62) (row 0x63) 2 2 False = measured_patch width (row 0x62) (row 0x63) False"
proof -
  let ?row = "\<lambda>letter :: u8. \<lparr>rf_text = [0x61, letter], rf_runs = [], rf_cells = 2\<rparr>" and ?width = "\<lambda>_ :: nat. Some (1 :: nat)"
  have painted: "row_painted_cells ?width (?row 0x62) = Some (Ascii 2)" "row_painted_cells ?width (?row 0x63) = Some (Ascii 2)"
    by (simp_all add: row_painted_cells_def row_painted_bytes_def row_styled_bytes_def trim_end_spaces_def str_get_def
        is_char_boundary_def is_cont_def Let_def)
  have "ascii_width ?width" by (simp add: ascii_width_def lead_cells_def)
  moreover have "utf8 [0x61, 0x62]" "utf8 [0x61, 0x63]" by (simp_all add: utf8_def utf8_chars.simps)
  ultimately show ?thesis
    using row_patch_measured [of ?width "?row 0x62" "?row 0x63" False] painted by (simp add: row_patch_def)
qed

end
