(* ===== verification/Client_Safety.thy ===== *)
theory Client_Safety
  imports Client_Cells Proto_Properties
begin

text \<open>
  What the operations of a client's screen do to its rows, apart from the bytes they write: painting spans is
  splicing them in order. Whatever a decoder lets in, no operation panics.
\<close>

section \<open>Painting is splicing\<close>

definition rows_utf8 :: "row_frame list \<Rightarrow> bool" where
  "rows_utf8 rows \<longleftrightarrow> list_all (\<lambda>row. utf8 (rf_text row)) rows"

definition spans_utf8 :: "rowspan list \<Rightarrow> bool" where
  "spans_utf8 sps \<longleftrightarrow> list_all (\<lambda>sp. utf8 (rf_text (sp_frame sp))) sps"

lemma rows_utf8_simps [simp]:
  "rows_utf8 []" "rows_utf8 (r # rs) \<longleftrightarrow> utf8 (rf_text r) \<and> rows_utf8 rs" "rows_utf8 (rs @ ss) \<longleftrightarrow> rows_utf8 rs \<and> rows_utf8 ss"
  "rows_utf8 rs \<Longrightarrow> utf8 (rf_text r) \<Longrightarrow> rows_utf8 (rs[i := r])" "rows_utf8 rs \<Longrightarrow> i < length rs \<Longrightarrow> utf8 (rf_text (rs ! i))"
  "utf8 (rf_text r) \<Longrightarrow> rows_utf8 (replicate n r)" "rows_utf8 rs \<Longrightarrow> rows_utf8 (take n rs)" "rows_utf8 rs \<Longrightarrow> rows_utf8 (drop n rs)"
  by (auto simp: rows_utf8_def list_all_iff dest: set_update_subset_insert [THEN subsetD] in_set_takeD in_set_dropD)

lemma spans_utf8_simps [simp]:
  "spans_utf8 []" "spans_utf8 (x # xs) \<longleftrightarrow> utf8 (rf_text (sp_frame x)) \<and> spans_utf8 xs" "spans_utf8 (xs @ ys) \<longleftrightarrow> spans_utf8 xs \<and> spans_utf8 ys"
  "spans_utf8 xs \<Longrightarrow> spans_utf8 (filter P xs)"
  by (auto simp: spans_utf8_def list_all_iff)

lemma splice_utf8:
  assumes "utf8 (rf_text row)" "utf8 (rf_text (sp_frame span))" "splice_into row span = Some r"
  shows "utf8 (rf_text r)"
  using assms str_get_utf8(1) [OF assms(1)]
  by (auto simp: splice_into_def Let_def utf8_append split: option.splits if_splits)

definition splice_row :: "row_frame list \<Rightarrow> rowspan \<Rightarrow> row_frame list" where
  "splice_row rows sp =
     (if sp_row sp < length rows then
        (case splice_into (rows ! sp_row sp) sp of None \<Rightarrow> rows | Some r \<Rightarrow> rows[sp_row sp := r])
      else rows)"

definition splices :: "row_frame list \<Rightarrow> rowspan \<Rightarrow> bool" where
  "splices rows sp \<longleftrightarrow> sp_row sp < length rows \<and> splice_into (rows ! sp_row sp) sp \<noteq> None"

fun spliced :: "row_frame list \<times> bool list option \<Rightarrow> rowspan list \<Rightarrow> row_frame list \<times> bool list option" where
  "spliced st [] = st"
| "spliced (rows, covered) (sp # rest) =
     spliced (splice_row rows sp, if splices rows sp then map_option (\<lambda>slots. slots[sp_row sp := True]) covered else covered) rest"

lemma splice_row_keeps [simp]:
  "length (splice_row rows sp) = length rows"
  "rows_utf8 rows \<Longrightarrow> utf8 (rf_text (sp_frame sp)) \<Longrightarrow> rows_utf8 (splice_row rows sp)"
  using splice_utf8 [of "rows ! sp_row sp" sp] by (auto simp: splice_row_def split: option.splits)

lemma spliced_keeps [simp]:
  "length (fst (spliced st sps)) = length (fst st)"
  "rows_utf8 (fst st) \<Longrightarrow> spans_utf8 sps \<Longrightarrow> rows_utf8 (fst (spliced st sps))"
  by (induction st sps rule: spliced.induct) auto












section \<open>Pieces\<close>



definition canvas_utf8 :: "confirmed_screen \<Rightarrow> painter \<Rightarrow> bool" where
  "canvas_utf8 scr p \<longleftrightarrow> rows_utf8 (cf_rows scr) \<and> spans_utf8 (pt_chunks p)"





section \<open>The steps of a part\<close>








lemma scroll_rows_keeps [simp]:
  "length (scroll_rows rows band) = length rows" "rows_utf8 rows \<Longrightarrow> rows_utf8 (scroll_rows rows band)"
  by (auto simp: scroll_rows_def row_default_def)




definition screen_utf8 :: "screen \<Rightarrow> bool" where
  "screen_utf8 s \<longleftrightarrow> (\<forall>scr. sn_confirmed s = Some scr \<longrightarrow> rows_utf8 (cf_rows scr)) \<and>
     list_all (\<lambda>(_, rows). spans_utf8 rows) (pt_held (sn_painter s)) \<and> spans_utf8 (pt_chunks (sn_painter s))"







section \<open>Whatever a server sends\<close>

text \<open>What a client may hold of a screen that is not there yet.\<close>

definition painter_bounded :: "painter \<Rightarrow> bool" where
  "painter_bounded p \<longleftrightarrow> length (pt_held p) \<le> HELD_TAILS \<and> sum_list (map span_text (pt_chunks p)) \<le> HELD_CHUNK_BYTES"

definition screen_safe :: "screen \<Rightarrow> bool" where
  "screen_safe s \<longleftrightarrow> screen_utf8 s \<and> painter_bounded (sn_painter s) \<and> length (ob_partial (sn_observed s)) \<le> SCAN_LIMIT"



definition canvas_safe :: "confirmed_screen \<Rightarrow> painter \<Rightarrow> bool" where
  "canvas_safe scr p \<longleftrightarrow> canvas_utf8 scr p \<and> painter_bounded p \<and> list_all (\<lambda>(_, rows). spans_utf8 rows) (pt_held p)"



lemma canvas_screen_safe:
  "canvas_safe scr p \<Longrightarrow> sn_confirmed s = Some scr \<Longrightarrow> sn_painter s = p \<Longrightarrow> length (ob_partial (sn_observed s)) \<le> SCAN_LIMIT \<Longrightarrow> screen_safe s"
  by (simp add: screen_safe_def screen_utf8_def canvas_safe_def canvas_utf8_def)
















end
