(* ===== verification/Spec2Isabelle.thy ===== *)
theory Spec2Isabelle
  imports Endpoint_Runs Forward_Properties Proto_Properties Screen_Runs Client_Safety
begin

text \<open>
  Braid keeps a terminal session alive over datagrams that are lost, repeated, reordered and
  rewritten. This development models its datagram transport, \<^verbatim>\<open>src/crates/dgram\<close>, the
  retransmission of forwarded connections that runs on top of it, \<^verbatim>\<open>src/crates/forward\<close>,
  the messages and screens it carries, \<^verbatim>\<open>src/crates/proto\<close>, and the way of a screen from the
  emulator to the terminal: the rows \<^verbatim>\<open>src/crates/vt\<close> repaints, the ledger in
  \<^verbatim>\<open>src/crates/server/src/screen.rs\<close> that plans what a client is sent of them, and the display in
  \<^verbatim>\<open>src/crates/client/src/render.rs\<close> that assembles and paints them.

  \<^bold>\<open>Conventions.\<close> An \<^verbatim>\<open>Instant\<close> or a \<^verbatim>\<open>Duration\<close> is a natural number of nanoseconds. Sizes,
  packet numbers and stream offsets are natural numbers, with the saturation of the source
  written out; bitmaps are 64-bit words and bytes 8-bit words. An operation on \<^verbatim>\<open>&mut self\<close>
  returns its answer and the new state; one that may panic or not return is \<open>None\<close> there. An
  operation is named after its component and the source's method, \<open>window_admit\<close> for
  \<^verbatim>\<open>ReplayWindow::admit\<close>; a record's fields carry a short prefix. Code outside the repository is
  an argument: the key derivation \<open>H\<close> (BLAKE3), the cipher \<open>A\<close> with its laws \<open>aead_law\<close>
  (ChaCha20-Poly1305: opening inverts sealing, lengths are kept), random tokens, the wrap point
  of a \<^verbatim>\<open>VecDeque\<close>, the capacity of a \<^verbatim>\<open>Vec\<close>, the answers of the emulator library (\<open>vt_row\<close>), the byte order
  \<open>ne\<close> of a hashed word and the table \<open>width\<close> of character widths. Counters that a run of any length the
  hardware can reach keeps far below their width, byte totals and the strikes of the MTU search and
  of the loss detector, are natural numbers without the overflow check of the source.

  \<^bold>\<open>The datagram transport.\<close>
  \<^item> \<open>Replay_Window\<close> (\<^verbatim>\<open>window.rs\<close>): the 256-bit sliding bitmap, refined to the set of numbers
    accepted; no number is fresh twice and acknowledgements are truthful.
  \<^item> \<open>Packet\<close> (\<^verbatim>\<open>packet.rs\<close>): header and acknowledgement codecs with their round trips.
  \<^item> \<open>Keys\<close> (\<^verbatim>\<open>keys.rs\<close>): ratchets, epochs, the cache of keys ahead; reader and writer agree
    on the key of every epoch in reach, and looking at an epoch commits to nothing.
  \<^item> \<open>Aead\<close> (\<^verbatim>\<open>aead.rs\<close>): nonce layout, sealing and opening.
  \<^item> \<open>Path\<close> (\<^verbatim>\<open>path.rs\<close>): the amplification budget, challenges and migration; an unproven
    address never gets more than three times what it sent, and the path moves only on an
    answered challenge.
  \<^item> \<open>Mtu\<close> (\<^verbatim>\<open>mtu.rs\<close>): the search for the path's width, refined to a reference that says when
    the width moves; the search completes and its deadlines are exact.
  \<^item> \<open>Loss\<close> (\<^verbatim>\<open>loss.rs\<close>): the flight, round-trip estimation and the verdicts on packets; what was
    sealed is in flight or reported, once, and an acknowledgement does what filtering would.
  \<^item> \<open>Congestion\<close> (\<^verbatim>\<open>congestion.rs\<close>): the window and the pacer; every call ends, the window stays in
    range, a flight lost together halves it once.
  \<^item> \<open>Endpoint\<close> (\<^verbatim>\<open>endpoint.rs\<close>) composes them. \<open>Endpoint_Invariant\<close>, \<open>Endpoint_Calls\<close> and
    \<open>Endpoint_Runs\<close> carry one invariant through every call and state its consequences over
    arbitrary lives of an endpoint: nothing fails, nonces are distinct, nothing is accepted
    twice, no amplification, refusals leave no mark, the controllers' books agree, and what one
    end seals the other opens.

  \<^bold>\<open>Forwarded streams.\<close>
  \<^item> \<open>Forward_Timer\<close>, \<open>Sack\<close>, \<open>Forward_Send\<close>, \<open>Forward_Recv\<close> (\<^verbatim>\<open>timer.rs\<close>, the acknowledgement runs of
    \<^verbatim>\<open>proto/src/lib.rs\<close>, \<^verbatim>\<open>send.rs\<close>, \<^verbatim>\<open>recv.rs\<close>): each half with the invariant that holds whatever
    arrives and the one that ties it to a true stream.
  \<^item> \<open>Forward_Stream\<close> (\<^verbatim>\<open>forward/src/lib.rs\<close>): the stream and two of them joined by a link that
    loses, repeats and reorders. \<open>Forward_Liveness\<close>: that such a tunnel moves.
    \<open>Forward_Properties\<close>: delivery in order, completion, truthful selective acknowledgement,
    and bounds against a hostile peer.

  \<^bold>\<open>The wire protocol.\<close> A decoder is a function from a cursor to an error or a value and the
  cursor after it; an encoding is an error or the bytes.
  \<^item> \<open>Proto_Text\<close> (UTF-8 as the standard library checks it), \<open>Proto_Cursor\<close> (\<^verbatim>\<open>Cursor\<close>, the integer
    writers and the decoder combinators), \<open>Proto_Fields\<close> (every field of \<^verbatim>\<open>proto/src/lib.rs\<close> with its
    bounds), \<open>Proto_Screen\<close> and \<open>Proto_Parts\<close> (\<^verbatim>\<open>proto/src/screen.rs\<close>: modes, styles, rows, spans,
    headers and the pieces of a screen), \<open>Proto_Messages\<close> (both message types with their
    version gates, and frames).
  \<^item> \<open>Proto_Stream\<close>: frames put end to end are read back message by message. \<open>Proto_Cut\<close> and
    \<open>Proto_Pieces\<close>: a screen cut to a datagram budget fits it and adds up to the screen again.
    \<open>Proto_Delta\<close>: mode selection and the span a row delta names. \<open>Proto_Clean\<close>: the strings a
    message carries. \<open>Proto_Properties\<close> states the consequences: round trips of whole streams,
    canonical decoding, no control characters, the cut and the delta.

  \<^bold>\<open>Screens.\<close>
  \<^item> \<open>Row_Mask\<close> (\<^verbatim>\<open>RowMask\<close> of \<^verbatim>\<open>vt/src/lib.rs\<close>): the mask of dirty rows, shown to be a set of rows. \<open>Vt_Rows\<close>
    (\<^verbatim>\<open>fill_row\<close>, \<^verbatim>\<open>cell_style\<close> and the row loop of \<^verbatim>\<open>VtEngine::repaint\<close>): the rows built are those the wire
    protocol can carry, and a repaint reports every row it changed.
  \<^item> \<open>Screen_Ledger\<close> (\<^verbatim>\<open>server/src/screen.rs\<close>): damage, the confirmed and the pending screen, the plan of a delta
    with its spans and its scrolled band. \<open>Screen_Runs\<close>: over any life of a ledger a delta drawn over its base,
    whatever was painted over that since, shows the frame; and the emulator's repaints feed such a life.
  \<^item> \<open>Client_Paint\<close>, \<open>Client_Observed\<close>, \<open>Client_Screen\<close> (\<^verbatim>\<open>client/src/render.rs\<close>): the writers and the difference
    of two rows, the scanner of bytes passed through, and \<^verbatim>\<open>Screen\<close>, which assembles a screen from pieces in any
    order. \<open>Client_Cells\<close>: walking a row always ends and the short cut over ASCII rows finds the difference the
    walk finds. \<open>Client_Safety\<close>: whatever a server sends, the display neither panics nor holds more than its bounds.

  \<^bold>\<open>Interfaces.\<close> \<open>replay_filter\<close>, \<open>epoch_reader\<close>, \<open>amplification_guard\<close>, \<open>invariant_system\<close>, \<open>wire_field\<close>
  (a field whose writer and reader are inverse), \<open>wire_loop\<close> (a counted sequence of such
  fields), \<open>framed_protocol\<close> (a message type over frames) and \<open>row_set\<close> (a mask as a set of rows) are locales; each is interpreted
  on the model in the theory that provides it.

  \<^bold>\<open>Bounds.\<close> No definition uses fuel. The growth loop of the congestion controller is a partial
  function proved to return. A tunnel's environment stops writing at \<open>2 ^ 64 - 1\<close> bytes, the
  range of the source's offsets; an endpoint's packet numbers are proved to fit their field.

  \<^bold>\<open>Not modelled.\<close> Zeroising of secrets, formatting, and the getters that only read a field.
  The deflate streams of \<^verbatim>\<open>proto/src/wire.rs\<close>, the calls into the emulator library by which \<^verbatim>\<open>vt\<close> feeds, resizes
  and searches it, the server's session actors and queues, and of the client the prediction, the journal and
  the management commands are not modelled, nor are failing writes to the terminal; sockets, processes,
  pseudo-terminals, threads and the test simulator are input and output.
\<close>

end
